(* ===== verification/Net_Prelude.thy ===== *)
theory Net_Prelude
  imports Main "HOL-Library.Word"
begin

text \<open>
  Shared vocabulary of the model: the machine types of the C++ code, the ways an
  operation can go wrong, the result type and its sequencing, the C memory functions on
  a block of bytes, and the lemma collections the component theories extend.

  A C++ call that returns normally is \<open>Inr\<close> of its result and of the updated objects; a
  call that aborts, throws or has undefined behaviour is \<open>Inl\<close> of a \<open>fault\<close>.  The flag
  \<open>dbg\<close> that many operations take says how the library was compiled: it is \<open>True\<close> when
  \<open>assert\<close> is active (CMake's Debug flags) and \<open>False\<close> under \<open>-DNDEBUG\<close> (CMake's Release
  flags), where a failed \<open>MYASSERT\<close> is a no-op and the code after it runs.
\<close>

section \<open>Machine types\<close>

type_synonym size_t = "64 word"
type_synonym uint32 = "32 word"
type_synonym uint16 = "16 word"
type_synonym session_id = "64 word"
type_synonym bytes = "char list"

section \<open>Faults and results\<close>

datatype fault =
    Assertion        \<comment> \<open>\<open>assert(false)\<close> in a build with assertions\<close>
  | MemFault         \<comment> \<open>an access outside the bytes of an allocated block\<close>
  | NullDeref        \<comment> \<open>a null pointer is dereferenced\<close>
  | BadCast          \<comment> \<open>\<open>boost::bad_lexical_cast\<close>\<close>
  | OutOfRange       \<comment> \<open>\<open>std::out_of_range\<close> from \<open>std::string\<close>\<close>
  | RuntimeError     \<comment> \<open>\<open>std::runtime_error\<close>\<close>
  | SignedOverflow   \<comment> \<open>\<open>int\<close> arithmetic leaves the range of \<open>int\<close>\<close>

type_synonym 'a res = "fault + 'a"

definition rbind :: "'a res \<Rightarrow> ('a \<Rightarrow> 'b res) \<Rightarrow> 'b res" where
  "rbind r f = (case r of Inl e \<Rightarrow> Inl e | Inr x \<Rightarrow> f x)"

definition deref :: "'a option \<Rightarrow> 'a res" where
  "deref p = (case p of None \<Rightarrow> Inl NullDeref | Some x \<Rightarrow> Inr x)"

definition MYASSERT :: "bool \<Rightarrow> bool \<Rightarrow> unit res" where
  "MYASSERT dbg condition = (if dbg \<and> \<not> condition then Inl Assertion else Inr ())"

named_theorems net_defs \<open>definitions a component proof unfolds\<close>
named_theorems net_simps \<open>functional descriptions of the operations\<close>

lemma rbind_Inl [simp]: "rbind (Inl e) f = Inl e"
  by (simp add: rbind_def)

lemma rbind_Inr [simp]: "rbind (Inr x) f = f x"
  by (simp add: rbind_def)

lemma rbind_eq_Inr: "rbind r f = Inr y \<longleftrightarrow> (\<exists>x. r = Inr x \<and> f x = Inr y)"
  by (cases r) simp_all

lemma rbind_eq_Inl: "rbind r f = Inl e \<longleftrightarrow> r = Inl e \<or> (\<exists>x. r = Inr x \<and> f x = Inl e)"
  by (cases r) simp_all

lemma rbind_assoc: "rbind (rbind r f) g = rbind r (\<lambda>x. rbind (f x) g)"
  by (cases r) simp_all

lemma rbind_cong [fundef_cong]:
  "r = r' \<Longrightarrow> (\<And>x. r' = Inr x \<Longrightarrow> f x = f' x) \<Longrightarrow> rbind r f = rbind r' f'"
  by (cases r') simp_all

lemma deref_simps [simp]:
  "deref None = Inl NullDeref"
  "deref (Some x) = Inr x"
  by (simp_all add: deref_def)

lemma MYASSERT_True [simp]: "MYASSERT dbg True = Inr ()"
  by (simp add: MYASSERT_def)

lemma MYASSERT_release [simp]: "MYASSERT False c = Inr ()"
  by (simp add: MYASSERT_def)

lemma MYASSERT_debug_False [simp]: "MYASSERT True False = Inl Assertion"
  by (simp add: MYASSERT_def)

section \<open>C memory functions\<close>

text \<open>
  A block of memory is the list of its bytes.  A copy is allowed only inside both
  blocks; \<open>memmove\<close> is the copy whose source and destination are the same block, read
  before it is written.
\<close>

definition memcpy :: "bytes \<Rightarrow> nat \<Rightarrow> bytes \<Rightarrow> nat \<Rightarrow> nat \<Rightarrow> bytes res" where
  "memcpy dst d src s n =
     (if d + n \<le> length dst \<and> s + n \<le> length src
      then Inr (take d dst @ take n (drop s src) @ drop (d + n) dst)
      else Inl MemFault)"

definition memmove :: "bytes \<Rightarrow> nat \<Rightarrow> nat \<Rightarrow> nat \<Rightarrow> bytes res" where
  "memmove m d s n = memcpy m d m s n"

definition memset :: "bytes \<Rightarrow> char \<Rightarrow> nat \<Rightarrow> bytes res" where
  "memset m v n = (if n \<le> length m then Inr (replicate n v @ drop n m) else Inl MemFault)"

abbreviation NUL :: char where
  "NUL \<equiv> char_of (0 :: nat)"

text \<open>
  \<open>malloc(len)\<close> followed by \<open>memset(p, 0, len)\<close>.  No object is larger than
  \<open>PTRDIFF_MAX\<close> bytes: such a \<open>malloc\<close> returns a null pointer and the \<open>memset\<close> that
  follows it writes through it.  Smaller requests are taken to succeed.
\<close>

definition PTRDIFF_MAX :: nat where
  "PTRDIFF_MAX = 2 ^ 63 - 1"

definition malloc0 :: "size_t \<Rightarrow> bytes res" where
  "malloc0 len = (if unat len \<le> PTRDIFF_MAX then Inr (replicate (unat len) NUL)
                  else Inl NullDeref)"

lemma memcpy_ok:
  "d + n \<le> length dst \<Longrightarrow> s + n \<le> length src \<Longrightarrow>
   memcpy dst d src s n = Inr (take d dst @ take n (drop s src) @ drop (d + n) dst)"
  by (simp add: memcpy_def)

lemma memcpy_length: "memcpy dst d src s n = Inr m \<Longrightarrow> length m = length dst"
  by (auto simp: memcpy_def split: if_splits)

lemma memset_length: "memset m v n = Inr m' \<Longrightarrow> length m' = length m"
  by (auto simp: memset_def split: if_splits)

lemma malloc0_ok [simp]: "unat len \<le> PTRDIFF_MAX \<Longrightarrow> malloc0 len = Inr (replicate (unat len) NUL)"
  by (simp add: malloc0_def)

lemma malloc0_length: "malloc0 len = Inr m \<Longrightarrow> length m = unat len \<and> unat len \<le> PTRDIFF_MAX"
  by (auto simp: malloc0_def split: if_splits)

section \<open>Sizes that do not wrap\<close>

lemma unat_plus_size:
  fixes a b :: size_t
  assumes "unat a + unat b \<le> PTRDIFF_MAX"
  shows "unat (a + b) = unat a + unat b"
proof -
  have "unat a + unat b < 2 ^ LENGTH(64)"
    using assms by (simp add: PTRDIFF_MAX_def)
  then show ?thesis by (simp add: unat_word_ariths)
qed

lemma unat_double_size:
  fixes a :: size_t
  assumes "2 * unat a \<le> PTRDIFF_MAX"
  shows "unat (a * 2) = 2 * unat a"
proof -
  have "unat a * 2 < 2 ^ LENGTH(64)"
    using assms by (simp add: PTRDIFF_MAX_def)
  then show ?thesis by (simp add: unat_word_ariths)
qed

lemma unat_minus_size:
  fixes a b :: size_t
  assumes "b \<le> a"
  shows "unat (a - b) = unat a - unat b"
  using assms by (rule unat_sub)

lemma unat_of_nat_size:
  assumes "n \<le> PTRDIFF_MAX"
  shows "unat (of_nat n :: size_t) = n"
proof -
  have "n < 2 ^ LENGTH(64)"
    using assms by (simp add: PTRDIFF_MAX_def)
  then show ?thesis by (simp add: unat_of_nat take_bit_nat_eq_self)
qed

lemma unat_size_bound: "unat (w :: size_t) < 2 ^ 64"
  by (rule order_less_le_trans [OF unsigned_less]) simp

lemma size_le_iff: "(a :: size_t) \<le> b \<longleftrightarrow> unat a \<le> unat b"
  by (rule word_le_nat_alt)

lemma size_less_iff: "(a :: size_t) < b \<longleftrightarrow> unat a < unat b"
  by (rule word_less_nat_alt)

lemma size_eq_iff: "(a :: size_t) = b \<longleftrightarrow> unat a = unat b"
  by (rule word_unat_eq_iff)

lemmas size_cmp = size_le_iff size_less_iff size_eq_iff

section \<open>Lists cut by length\<close>

lemma take_append_le [simp]: "n \<le> length xs \<Longrightarrow> take n (xs @ ys) = take n xs"
  by simp

lemma take_drop_take: "r + n \<le> w \<Longrightarrow> take n (drop r (take w xs)) = take n (drop r xs)"
  by (simp add: drop_take min_def)

lemma take_drop_split: "take n (drop m xs) @ drop (m + n) xs = drop m xs"
  by (metis add.commute append_take_drop_id drop_drop)

end
