(* ===== verification/Redis_Text.thy ===== *)
theory Redis_Text
  imports Net_Prelude
begin

text \<open>
  The text functions both Redis readers use: the members of \<open>std::string\<close> with their
  exceptions, \<open>rtrim\<close>, the reply kinds and \<open>getReplyType\<close> (\<open>include/redisparser.h\<close>),
  decimal numerals as \<open>operator<<\<close> prints them, and the contract of
  \<open>boost::lexical_cast<int>\<close>, which is a parameter of the model.
\<close>

section \<open>Standard string operations\<close>

abbreviation CR :: char where
  "CR \<equiv> CHR 0x0D"

abbreviation LF :: char where
  "LF \<equiv> CHR 0x0A"

definition npos :: size_t where
  "npos = - 1"

definition str_substr :: "string \<Rightarrow> size_t \<Rightarrow> string res" where
  "str_substr str pos = (if unat pos \<le> length str then Inr (drop (unat pos) str) else Inl OutOfRange)"

definition str_erase :: "string \<Rightarrow> size_t \<Rightarrow> string res" where
  "str_erase str pos = (if unat pos \<le> length str then Inr (take (unat pos) str) else Inl OutOfRange)"

definition find_last_not_of :: "string \<Rightarrow> string \<Rightarrow> size_t" where
  "find_last_not_of str ws =
     (let n = length (dropWhile (\<lambda>c. c \<in> set ws) (rev str))
      in if n = 0 then npos else of_nat (n - 1))"

text \<open>Position of the first character of \<open>str\<close> that is one of \<open>cs\<close>.\<close>

definition find_first_of :: "string \<Rightarrow> string \<Rightarrow> size_t" where
  "find_first_of str cs =
     (let n = length (takeWhile (\<lambda>c. c \<notin> set cs) str)
      in if n = length str then npos else of_nat n)"

text \<open>
  \<open>memchr(m + off, c, n)\<close> as an index from \<open>m + off\<close>: it reads up to the first match,
  and beyond the end of the block if there is no match and \<open>n\<close> reaches that far.
\<close>

definition memchr :: "bytes \<Rightarrow> nat \<Rightarrow> char \<Rightarrow> nat \<Rightarrow> nat option res" where
  "memchr m off c n =
     (let w = take n (drop off m); i = length (takeWhile (\<lambda>x. x \<noteq> c) w) in
      if i < length w then Inr (Some i)
      else if off + n \<le> length m then Inr None else Inl MemFault)"

text \<open>The characters \<open>std::string(p, n)\<close> or \<open>append(p, n)\<close> copies from the block.\<close>

definition mem_read :: "bytes \<Rightarrow> nat \<Rightarrow> nat \<Rightarrow> string res" where
  "mem_read m off n =
     (if off + n \<le> length m then Inr (take n (drop off m)) else Inl MemFault)"

section \<open>Constants and reply kinds\<close>

definition REDIS_LBR :: string where
  "REDIS_LBR = [CR, LF]"

definition REDIS_PREFIX_STATUS_REPLY_ERR_C :: string where
  "REDIS_PREFIX_STATUS_REPLY_ERR_C = ''-''"

definition REDIS_PREFIX_STATUS_REPLY_VALUE :: string where
  "REDIS_PREFIX_STATUS_REPLY_VALUE = ''+''"

definition REDIS_PREFIX_SINGLE_BULK_REPLY :: string where
  "REDIS_PREFIX_SINGLE_BULK_REPLY = ''$''"

definition REDIS_PREFIX_MULTI_BULK_REPLY :: string where
  "REDIS_PREFIX_MULTI_BULK_REPLY = ''*''"

definition REDIS_PREFIX_INT_REPLY :: string where
  "REDIS_PREFIX_INT_REPLY = '':''"

definition REDIS_PREFIX_LBR :: char where
  "REDIS_PREFIX_LBR = LF"

definition REDIS_MISSING :: string where
  "REDIS_MISSING = ''**missing-key**''"

lemmas redis_consts =
  REDIS_LBR_def REDIS_PREFIX_STATUS_REPLY_ERR_C_def REDIS_PREFIX_STATUS_REPLY_VALUE_def
  REDIS_PREFIX_SINGLE_BULK_REPLY_def REDIS_PREFIX_MULTI_BULK_REPLY_def REDIS_PREFIX_INT_REPLY_def
  REDIS_PREFIX_LBR_def

datatype reply_t =
  no_reply | status_code_reply | error_reply | int_reply | bulk_reply | multi_bulk_reply

definition getReplyType :: "string \<Rightarrow> reply_t" where
  "getReplyType str =
     (if 0 = find_first_of str REDIS_PREFIX_STATUS_REPLY_ERR_C then error_reply
      else if 0 = find_first_of str REDIS_PREFIX_STATUS_REPLY_VALUE then status_code_reply
      else if 0 = find_first_of str REDIS_PREFIX_SINGLE_BULK_REPLY then bulk_reply
      else if 0 = find_first_of str REDIS_PREFIX_INT_REPLY then int_reply
      else if 0 = find_first_of str REDIS_PREFIX_MULTI_BULK_REPLY then multi_bulk_reply
      else no_reply)"

definition rtrim :: "string \<Rightarrow> string \<Rightarrow> string res" where
  "rtrim str ws = str_erase str (find_last_not_of str ws + 1)"

section \<open>Decimal numerals\<close>

text \<open>What \<open>oss << n\<close> writes for an unsigned \<open>n\<close>.\<close>

definition digit :: "nat \<Rightarrow> char" where
  "digit d = char_of (48 + d)"

fun dec_nat :: "nat \<Rightarrow> string" where
  "dec_nat n = (if n < 10 then [digit n] else dec_nat (n div 10) @ [digit (n mod 10)])"

declare dec_nat.simps [simp del]

definition INT_MAX :: int where
  "INT_MAX = 2147483647"

definition INT_MIN :: int where
  "INT_MIN = - 2147483648"

text \<open>
  \<open>boost::lexical_cast<int>\<close>, a third-party function: \<open>None\<close> is the exception
  \<open>bad_lexical_cast\<close>.  The code relies on what the library documents: a decimal numeral
  in the range of \<open>int\<close> is read as its value, also with a minus sign in front; and what is
  read is a value of \<open>int\<close>.
\<close>

locale decimal_cast =
  fixes cast :: "string \<Rightarrow> int option"
  assumes lex_dec: "int n \<le> INT_MAX \<Longrightarrow> cast (dec_nat n) = Some (int n)"
    and lex_neg: "0 < n \<Longrightarrow> int n \<le> - INT_MIN \<Longrightarrow> cast (CHR ''-'' # dec_nat n) = Some (- int n)"
    and lex_range: "cast s = Some i \<Longrightarrow> INT_MIN \<le> i \<and> i \<le> INT_MAX"

definition lexical_cast :: "(string \<Rightarrow> int option) \<Rightarrow> string \<Rightarrow> int res" where
  "lexical_cast cast s = (case cast s of None \<Rightarrow> Inl BadCast | Some i \<Rightarrow> Inr i)"

text \<open>\<open>n + 2\<close> in \<open>int\<close>, converted to \<open>size_t\<close>.\<close>

definition int_plus_2 :: "int \<Rightarrow> size_t res" where
  "int_plus_2 n = (if n + 2 > INT_MAX then Inl SignedOverflow else Inr (of_int (n + 2)))"

section \<open>Facts about the text functions\<close>

lemma str_substr_ok [simp]: "unat pos \<le> length str \<Longrightarrow> str_substr str pos = Inr (drop (unat pos) str)"
  by (simp add: str_substr_def)

lemma str_substr_4: "3 \<le> length l \<Longrightarrow> str_substr (c # l) 4 = Inr (drop 3 l)"
  by (simp add: str_substr_def)

lemma str_erase_ok [simp]: "unat pos \<le> length str \<Longrightarrow> str_erase str pos = Inr (take (unat pos) str)"
  by (simp add: str_erase_def)

lemma find_first_of_single:
  assumes "length str \<le> PTRDIFF_MAX"
  shows "0 = find_first_of str [c] \<longleftrightarrow> (\<exists>cs. str = c # cs)"
proof (cases str)
  case Nil
  then show ?thesis by (simp add: find_first_of_def npos_def)
next
  case (Cons x xs)
  let ?n = "length (takeWhile (\<lambda>y. y \<noteq> c) xs)"
  have "?n \<le> length xs" by (rule length_takeWhile_le)
  then have "unat (of_nat (Suc ?n) :: size_t) = Suc ?n"
    using assms Cons by (intro unat_of_nat_size) simp
  then have "(of_nat (Suc ?n) :: size_t) \<noteq> 0" by (metis nat.simps(3) unat_0)
  then show ?thesis using Cons by (auto simp: find_first_of_def npos_def)
qed

lemma getReplyType_Cons:
  assumes "length (c # cs) \<le> PTRDIFF_MAX"
  shows "getReplyType (c # cs) =
    (if c = CHR ''-'' then error_reply else if c = CHR ''+'' then status_code_reply
     else if c = CHR ''$'' then bulk_reply else if c = CHR '':'' then int_reply
     else if c = CHR ''*'' then multi_bulk_reply else no_reply)"
  by (simp only: getReplyType_def redis_consts find_first_of_single [OF assms]) simp

lemma getReplyType_Nil: "getReplyType [] = no_reply"
  by (simp add: getReplyType_def find_first_of_def npos_def)

text \<open>Erasing after the last other character strips the trailing characters of the set.\<close>

lemma rtrim_ok:
  assumes "length str \<le> PTRDIFF_MAX"
  shows "rtrim str ws = Inr (rev (dropWhile (\<lambda>c. c \<in> set ws) (rev str)))"
proof -
  let ?d = "dropWhile (\<lambda>c. c \<in> set ws) (rev str)" and ?t = "takeWhile (\<lambda>c. c \<in> set ws) (rev str)"
  have "rev str = ?t @ ?d" by simp
  then have str: "str = rev ?d @ rev ?t" by (metis rev_append rev_rev_ident)
  have len: "length ?d \<le> length str" using arg_cong [OF str, of length] by simp
  have pos: "find_last_not_of str ws + 1 = of_nat (length ?d)"
  proof (cases "length ?d")
    case 0
    then show ?thesis unfolding find_last_not_of_def Let_def "0" by (simp add: npos_def)
  next
    case (Suc n)
    then show ?thesis unfolding find_last_not_of_def Let_def Suc by (simp add: add.commute)
  qed
  have u: "unat (of_nat (length ?d) :: size_t) = length ?d"
    using len assms by (intro unat_of_nat_size) simp
  have "take (length ?d) str = rev ?d" by (subst str) simp
  then show ?thesis by (simp add: rtrim_def pos str_erase_def u len)
qed

text \<open>A line: no line feed in it, and no carriage return at its end.\<close>

definition clean_line :: "string \<Rightarrow> bool" where
  "clean_line l \<longleftrightarrow> LF \<notin> set l \<and> (l \<noteq> [] \<longrightarrow> last l \<noteq> CR)"

lemma rtrim_line:
  assumes "clean_line l" and "length l + 2 \<le> PTRDIFF_MAX"
  shows "rtrim (l @ REDIS_LBR) REDIS_LBR = Inr l"
proof -
  have "dropWhile (\<lambda>c. c \<in> set REDIS_LBR) (rev (l @ REDIS_LBR)) = rev l"
    using assms(1)
    by (cases l rule: rev_cases) (auto simp: REDIS_LBR_def clean_line_def)
  then show ?thesis using assms(2) by (simp add: rtrim_ok REDIS_LBR_def)
qed

lemma memchr_line:
  assumes "take n (drop off m) = l @ c # ys" and "c \<notin> set l"
  shows "memchr m off c n = Inr (Some (length l))"
proof -
  have "takeWhile (\<lambda>x. x \<noteq> c) (l @ c # ys) = l"
    using assms(2) by (induction l) auto
  then show ?thesis by (simp add: memchr_def assms(1))
qed

lemma memchr_none:
  assumes "c \<notin> set (take n (drop off m))" and "off + n \<le> length m"
  shows "memchr m off c n = Inr None"
proof -
  have "takeWhile (\<lambda>x. x \<noteq> c) (take n (drop off m)) = take n (drop off m)"
    using assms(1) by (subst takeWhile_eq_all_conv) auto
  then show ?thesis unfolding memchr_def Let_def by (simp only: assms(2) less_irrefl if_False if_True)
qed

lemma digit_not:
  assumes "d < 10"
  shows "digit d \<noteq> LF \<and> digit d \<noteq> CR \<and> digit d \<noteq> CHR ''-''"
proof -
  have "of_char (digit d) = (48 + d :: nat)" using assms by (simp add: digit_def)
  moreover have "of_char LF = (10 :: nat)" "of_char CR = (13 :: nat)" "of_char (CHR ''-'') = (45 :: nat)"
    by simp_all
  ultimately have "of_char (digit d) \<noteq> (of_char LF :: nat)" "of_char (digit d) \<noteq> (of_char CR :: nat)"
    "of_char (digit d) \<noteq> (of_char (CHR ''-'') :: nat)" by simp_all
  then show ?thesis by metis
qed

lemma dec_nat_nonempty [simp]: "dec_nat n \<noteq> []"
  by (subst dec_nat.simps) simp

lemma dec_nat_digits: "c \<in> set (dec_nat n) \<Longrightarrow> \<exists>d < 10. c = digit d"
proof (induction n rule: dec_nat.induct)
  case (1 n)
  show ?case
  proof (cases "n < 10 \<or> c = digit (n mod 10)")
    case True
    have "c = digit (n mod 10)" using "1.prems" True by (subst (asm) dec_nat.simps) (auto split: if_splits)
    then show ?thesis by (intro exI [of _ "n mod 10"]) simp
  next
    case False
    then have "c \<in> set (dec_nat (n div 10))"
      using "1.prems" by (subst (asm) dec_nat.simps) auto
    then show ?thesis using "1.IH" False by blast
  qed
qed

lemma dec_nat_clean: "clean_line (dec_nat n)" "clean_line (c # dec_nat n) \<longleftrightarrow> c \<noteq> LF"
proof -
  have "x \<noteq> LF \<and> x \<noteq> CR" if "x \<in> set (dec_nat n)" for x
    using dec_nat_digits [OF that] digit_not by auto
  then show "clean_line (dec_nat n)" "clean_line (c # dec_nat n) \<longleftrightarrow> c \<noteq> LF"
    using last_in_set [of "dec_nat n"] by (auto simp: clean_line_def)
qed

lemma dec_nat_length: "n < 10 ^ k \<Longrightarrow> 0 < k \<Longrightarrow> length (dec_nat n) \<le> k"
proof (induction n arbitrary: k rule: dec_nat.induct)
  case (1 n)
  show ?case
  proof (cases "n < 10")
    case True
    then show ?thesis using 1 by (subst dec_nat.simps) simp
  next
    case False
    then obtain j where j: "k = Suc j" "0 < j"
      using 1 by (cases k; cases "k - 1") auto
    then have "n div 10 < 10 ^ j" using 1 by (simp add: div_less_iff_less_mult mult.commute)
    then have "length (dec_nat (n div 10)) \<le> j" using False 1 j by simp
    then show ?thesis using False j by (subst dec_nat.simps) simp
  qed
qed

section \<open>The contract of the cast can be met\<close>

text \<open>
  A reader of signed decimal numerals that keeps to the range of \<open>int\<close>, to evaluate the
  model on concrete input and to show that the contract is satisfiable.
\<close>

definition digit_val :: "char \<Rightarrow> nat option" where
  "digit_val c = (let k = of_char c in if 48 \<le> k \<and> k \<le> (57 :: nat) then Some (k - 48) else None)"

fun dec_val :: "nat \<Rightarrow> string \<Rightarrow> nat option" where
  "dec_val acc [] = Some acc"
| "dec_val acc (c # cs) =
     (case digit_val c of None \<Rightarrow> None | Some d \<Rightarrow> dec_val (10 * acc + d) cs)"

definition in_int_range :: "int \<Rightarrow> int option" where
  "in_int_range i = (if INT_MIN \<le> i \<and> i \<le> INT_MAX then Some i else None)"

definition plain_cast :: "string \<Rightarrow> int option" where
  "plain_cast s =
     (case s of
        [] \<Rightarrow> None
      | c # cs \<Rightarrow>
          if c = CHR ''-''
          then if cs = [] then None
               else Option.bind (dec_val 0 cs) (\<lambda>n. in_int_range (- int n))
          else Option.bind (dec_val 0 s) (\<lambda>n. in_int_range (int n)))"

lemma digit_val_digit [simp]: "d < 10 \<Longrightarrow> digit_val (digit d) = Some d"
  by (simp add: digit_val_def digit_def Let_def)

lemma dec_val_append:
  "dec_val acc (xs @ [c]) =
     Option.bind (dec_val acc xs) (\<lambda>a. map_option (\<lambda>d. 10 * a + d) (digit_val c))"
  by (induction acc xs rule: dec_val.induct) (auto split: option.splits)

lemma dec_val_dec_nat [simp]: "dec_val 0 (dec_nat n) = Some n"
proof (induction n rule: dec_nat.induct)
  case (1 n)
  then show ?case by (subst dec_nat.simps) (simp add: dec_val_append)
qed

interpretation plain: decimal_cast plain_cast
proof unfold_locales
  fix n :: nat
  assume "int n \<le> INT_MAX"
  moreover obtain c cs where "dec_nat n = c # cs" by (cases "dec_nat n") auto
  moreover have "c \<noteq> CHR ''-''" if "dec_nat n = c # cs" for c cs
    using dec_nat_digits [of c n] digit_not that by auto
  ultimately show "plain_cast (dec_nat n) = Some (int n)"
    using dec_val_dec_nat [of n] by (simp add: plain_cast_def in_int_range_def INT_MIN_def)
next
  fix n :: nat
  assume "0 < n" and "int n \<le> - INT_MIN"
  then show "plain_cast (CHR ''-'' # dec_nat n) = Some (- int n)"
    by (simp add: plain_cast_def in_int_range_def INT_MAX_def)
next
  fix s i
  assume "plain_cast s = Some i"
  then show "INT_MIN \<le> i \<and> i \<le> INT_MAX"
    by (auto simp: plain_cast_def in_int_range_def bind_eq_Some_conv split: list.splits if_splits)
qed

end
