(* ===== verification/Redis_Parser.thy ===== *)
theory Redis_Parser
  imports Redis_Text
begin

text \<open>
  The reader of Redis replies \<open>RedisParseSpace::RedisParse\<close> of \<open>include/redisparser.h\<close>:
  its state, \<open>readLine\<close>, \<open>readLen\<close>, \<open>parseType\<close>, the loop of \<open>parseBule\<close> and \<open>parse\<close>.

  The reference parameter \<open>readPos\<close> and the out parameter \<open>result\<close> are returned next to
  the updated object.  \<open>cast\<close> is \<open>boost::lexical_cast<int>\<close>.  \<open>buf\<close> is the memory from
  \<open>buf\<close> on: reading past it is a \<open>MemFault\<close>.
\<close>

section \<open>State and member functions\<close>

record redis_parse =
  m_type :: reply_t
  m_multiCount :: size_t
  m_tempMaxLen :: size_t
  m_temp :: string
  m_recvList :: "string list"
  m_done :: bool

definition new_parse :: redis_parse where
  "new_parse = \<lparr>m_type = no_reply, m_multiCount = 0, m_tempMaxLen = 0, m_temp = [],
                m_recvList = [], m_done = False\<rparr>"

definition isDone :: "redis_parse \<Rightarrow> bool" where
  "isDone ps = m_done ps"

text \<open>The kind of the reply and its tests, and what \<open>debug\<close> prints.\<close>

definition parse_type :: "redis_parse \<Rightarrow> reply_t" where
  "parse_type ps = m_type ps"

definition isError :: "redis_parse \<Rightarrow> bool" where
  "isError ps \<longleftrightarrow> error_reply = parse_type ps"

definition isStatus :: "redis_parse \<Rightarrow> bool" where
  "isStatus ps \<longleftrightarrow> status_code_reply = parse_type ps"

definition isInteger :: "redis_parse \<Rightarrow> bool" where
  "isInteger ps \<longleftrightarrow> int_reply = parse_type ps"

definition isBulk :: "redis_parse \<Rightarrow> bool" where
  "isBulk ps \<longleftrightarrow> bulk_reply = parse_type ps"

definition isMultiBulk :: "redis_parse \<Rightarrow> bool" where
  "isMultiBulk ps \<longleftrightarrow> multi_bulk_reply = parse_type ps"

fun debugtype :: "reply_t \<Rightarrow> string" where
  "debugtype no_reply = ''no_reply''"
| "debugtype status_code_reply = ''status_code_reply''"
| "debugtype error_reply = ''error_reply''"
| "debugtype int_reply = ''int_reply''"
| "debugtype bulk_reply = ''bulk_reply''"
| "debugtype multi_bulk_reply = ''multi_bulk_reply''"

definition parse_debug :: "redis_parse \<Rightarrow> string" where
  "parse_debug ps =
     (if isDone ps
      then ''redis result type :'' @ debugtype (m_type ps) @ [LF] @
           concat (map (\<lambda>str. ''redis :'' @ str @ [LF]) (m_recvList ps))
      else '' redis data not done'' @ [LF])"

definition readLine ::
    "redis_parse \<Rightarrow> bytes \<Rightarrow> size_t \<Rightarrow> size_t \<Rightarrow> string \<Rightarrow> (bool \<times> redis_parse \<times> size_t \<times> string) res" where
  "readLine ps buf sz readPos result =
     (let toRead = sz - readPos in
      if toRead \<le> 0 then Inr (False, ps, readPos, result)
      else rbind (memchr buf (unat readPos) REDIS_PREFIX_LBR (unat toRead)) (\<lambda>eol.
        case eol of
          None \<Rightarrow> Inr (False, ps, readPos, result)
        | Some i \<Rightarrow>
            let toRead' = readPos + of_nat i + 1 in
            rbind (mem_read buf (unat readPos) (unat (toRead' - readPos))) (\<lambda>line.
            rbind (rtrim (m_temp ps @ line) REDIS_LBR) (\<lambda>result'.
            Inr (True, ps\<lparr>m_temp := []\<rparr>, toRead', result')))))"

definition readLen ::
    "redis_parse \<Rightarrow> bytes \<Rightarrow> size_t \<Rightarrow> size_t \<Rightarrow> size_t \<Rightarrow> string \<Rightarrow>
     (bool \<times> redis_parse \<times> size_t \<times> string) res" where
  "readLen ps buf sz readPos len result =
     (let toRead = sz - readPos in
      if toRead \<le> 0 then Inr (False, ps, readPos, result)
      else let need = len - of_nat (length (m_temp ps));
               ok = need \<le> toRead;
               toRead' = (if ok then need else toRead) in
        rbind (mem_read buf (unat readPos) (unat toRead')) (\<lambda>part.
        let temp = m_temp ps @ part; readPos' = readPos + toRead' in
        if ok then Inr (True, ps\<lparr>m_temp := []\<rparr>, readPos', temp)
        else Inr (False, ps\<lparr>m_temp := temp\<rparr>, readPos', result)))"

definition parseType ::
    "bool \<Rightarrow> (string \<Rightarrow> int option) \<Rightarrow> redis_parse \<Rightarrow> bytes \<Rightarrow> size_t \<Rightarrow> size_t \<Rightarrow>
     (bool \<times> redis_parse \<times> size_t) res" where
  "parseType dbg cast ps0 buf sz readPos0 =
     rbind (readLine ps0 buf sz readPos0 []) (\<lambda>(ok, ps1, readPos, content).
     if \<not> ok then Inr (False, ps1, readPos)
     else let ps = ps1\<lparr>m_type := getReplyType content\<rparr> in
       case m_type ps of
         no_reply \<Rightarrow>
           rbind (MYASSERT dbg False) (\<lambda>_.
           Inr (True, ps\<lparr>m_done := True\<rparr>, readPos))
       | status_code_reply \<Rightarrow>
           rbind (str_substr content 1) (\<lambda>v.
           Inr (True, ps\<lparr>m_recvList := m_recvList ps @ [v], m_done := True\<rparr>, readPos))
       | error_reply \<Rightarrow>
           rbind (str_substr content 4) (\<lambda>v.
           Inr (True, ps\<lparr>m_recvList := m_recvList ps @ [v], m_done := True\<rparr>, readPos))
       | int_reply \<Rightarrow>
           rbind (str_substr content 1) (\<lambda>v.
           Inr (True, ps\<lparr>m_recvList := m_recvList ps @ [v], m_done := True\<rparr>, readPos))
       | bulk_reply \<Rightarrow>
           let ps = ps\<lparr>m_tempMaxLen := 0\<rparr> in
           rbind (str_substr content 1) (\<lambda>v.
           rbind (lexical_cast cast v) (\<lambda>bulkLen.
           if bulkLen = -1
           then Inr (True, ps\<lparr>m_recvList := m_recvList ps @ [REDIS_MISSING], m_done := True\<rparr>, readPos)
           else rbind (int_plus_2 bulkLen) (\<lambda>n.
                Inr (True, ps\<lparr>m_tempMaxLen := n, m_done := False\<rparr>, readPos))))
       | multi_bulk_reply \<Rightarrow>
           let ps = ps\<lparr>m_multiCount := 0\<rparr> in
           rbind (str_substr content 1) (\<lambda>v.
           rbind (lexical_cast cast v) (\<lambda>count.
           if count = -1 then Inr (True, ps\<lparr>m_done := True\<rparr>, readPos)
           else Inr (True, ps\<lparr>m_multiCount := of_int count, m_done := False\<rparr>, readPos))))"

text \<open>
  The \<open>do ... while\<close> loop over the elements of a multi-bulk reply.  Every round reads a
  line, so it consumes at least one byte: the loop ends whatever the input.
\<close>

lemma readLine_consumes:
  assumes "readLine ps buf sz readPos result = Inr (True, ps', readPos', result')"
  shows "unat (sz - readPos') < unat (sz - readPos)"
proof -
  let ?toRead = "sz - readPos"
  from assms obtain i where i: "memchr buf (unat readPos) REDIS_PREFIX_LBR (unat ?toRead) = Inr (Some i)"
    and rp: "readPos' = readPos + of_nat i + 1"
    by (auto simp: readLine_def Let_def rbind_eq_Inr split: if_splits option.splits)
  from i have "i < unat ?toRead"
    by (auto simp: memchr_def Let_def split: if_splits)
  moreover from this have "unat (of_nat i + 1 :: size_t) = Suc i"
  proof -
    have "Suc i < 2 ^ 64"
      using \<open>i < unat ?toRead\<close> unat_size_bound [of ?toRead] by linarith
    then have "unat (of_nat (Suc i) :: size_t) = Suc i"
      by (simp add: unat_of_nat take_bit_nat_eq_self del: of_nat_Suc)
    then show ?thesis by (simp add: add.commute)
  qed
  moreover have "sz - readPos' = ?toRead - (of_nat i + 1)"
    by (simp add: rp algebra_simps)
  ultimately show ?thesis
    by (simp add: unat_minus_size size_cmp)
qed

lemma readLen_consumes:
  assumes "readLen ps buf sz readPos len result = Inr (ok, ps', readPos', result')"
  shows "unat (sz - readPos') \<le> unat (sz - readPos)"
proof (cases "sz - readPos \<le> 0")
  case True
  then show ?thesis using assms by (auto simp: readLen_def)
next
  case False
  define need where "need = len - of_nat (length (m_temp ps))"
  define k where "k = (if need \<le> sz - readPos then need else sz - readPos)"
  have "readPos' = readPos + k"
    using assms False by (auto simp: readLen_def Let_def rbind_eq_Inr need_def k_def split: if_splits)
  then have "sz - readPos' = sz - readPos - k" by (simp add: algebra_simps)
  moreover have "k \<le> sz - readPos" by (simp add: k_def)
  ultimately show ?thesis by (simp only: unat_minus_size)
qed

function parseMulti ::
    "(string \<Rightarrow> int option) \<Rightarrow> redis_parse \<Rightarrow> bytes \<Rightarrow> size_t \<Rightarrow> size_t \<Rightarrow>
     (bool \<times> redis_parse \<times> size_t) res" where
  "parseMulti cast ps0 buf sz readPos0 =
     rbind (readLine ps0 buf sz readPos0 []) (\<lambda>(ok, ps1, readPos1, content).
     if \<not> ok then Inr (False, ps1, readPos1)
     else let ps2 = ps1\<lparr>m_tempMaxLen := 0\<rparr> in
       rbind (str_substr content 1) (\<lambda>ssub.
       rbind (lexical_cast cast ssub) (\<lambda>bulkLen.
       rbind (if bulkLen = -1
              then Inr (True, ps2\<lparr>m_recvList := m_recvList ps2 @ [REDIS_MISSING]\<rparr>, readPos1)
              else rbind (int_plus_2 bulkLen) (\<lambda>n.
                   rbind (readLen (ps2\<lparr>m_tempMaxLen := n\<rparr>) buf sz readPos1 n []) (\<lambda>(ok2, ps3, readPos2, part).
                   if \<not> ok2 then Inr (False, ps3, readPos2)
                   else rbind (str_erase part (n - 2)) (\<lambda>item.
                        Inr (True, ps3\<lparr>m_recvList := m_recvList ps3 @ [item]\<rparr>, readPos2)))))
         (\<lambda>(ok3, ps4, readPos4).
         if \<not> ok3 then Inr (False, ps4, readPos4)
         else if m_multiCount ps4 = of_nat (length (m_recvList ps4))
         then Inr (True, ps4\<lparr>m_done := True\<rparr>, readPos4)
         else parseMulti cast ps4 buf sz readPos4))))"
  by pat_completeness auto
termination
  by (relation "measure (\<lambda>(cast, ps, buf, sz, readPos). unat (sz - readPos))")
    (auto simp: rbind_eq_Inr dest!: readLine_consumes readLen_consumes split: if_splits)

declare parseMulti.simps [simp del]

definition parseBule ::
    "(string \<Rightarrow> int option) \<Rightarrow> redis_parse \<Rightarrow> bytes \<Rightarrow> size_t \<Rightarrow> size_t \<Rightarrow>
     (bool \<times> redis_parse \<times> size_t) res" where
  "parseBule cast ps buf sz readPos =
     (if m_type ps = bulk_reply then
        rbind (readLen ps buf sz readPos (m_tempMaxLen ps) []) (\<lambda>(ok, ps1, readPos1, content).
        if ok then
          rbind (str_erase content (m_tempMaxLen ps1 - 2)) (\<lambda>item.
          Inr (True, ps1\<lparr>m_recvList := m_recvList ps1 @ [item], m_done := True\<rparr>, readPos1))
        else Inr (False, ps1, readPos1))
      else if m_type ps = multi_bulk_reply then parseMulti cast ps buf sz readPos
      else Inr (True, ps, readPos))"

definition parse ::
    "bool \<Rightarrow> (string \<Rightarrow> int option) \<Rightarrow> redis_parse \<Rightarrow> bytes \<Rightarrow> size_t \<Rightarrow> size_t \<Rightarrow>
     (bool \<times> redis_parse \<times> size_t) res" where
  "parse dbg cast ps buf sz readPos =
     (if m_done ps then Inr (True, ps, readPos)
      else if 0 = sz then Inr (True, ps, readPos)
      else rbind (MYASSERT dbg (readPos < sz)) (\<lambda>_.
        rbind (if m_type ps = no_reply then parseType dbg cast ps buf sz readPos
               else Inr (True, ps, readPos)) (\<lambda>(ok, ps1, readPos1).
        if \<not> ok then Inr (False, ps1, readPos1)
        else rbind (if \<not> m_done ps1
                    then rbind (parseBule cast ps1 buf sz readPos1) (\<lambda>(_, ps2, readPos2). Inr (ps2, readPos2))
                    else Inr (ps1, readPos1)) (\<lambda>(ps3, readPos3).
             Inr (m_done ps3, ps3, readPos3)))))"

section \<open>Reading at a position\<close>

text \<open>\<open>s\<close> is what is left of the \<open>sz\<close> valid bytes of \<open>buf\<close> from \<open>pos\<close> on.\<close>

definition at_pos :: "bytes \<Rightarrow> size_t \<Rightarrow> size_t \<Rightarrow> bytes \<Rightarrow> bool" where
  "at_pos buf sz pos s \<longleftrightarrow> unat sz \<le> length buf \<and> unat sz \<le> PTRDIFF_MAX \<and>
     unat pos \<le> unat sz \<and> drop (unat pos) (take (unat sz) buf) = s"

lemma at_posD:
  assumes "at_pos buf sz pos s"
  shows "unat (sz - pos) = length s" and "take (length s) (drop (unat pos) buf) = s"
    and "unat pos + length s \<le> length buf" and "unat pos + length s \<le> PTRDIFF_MAX"
proof -
  note A = assms [unfolded at_pos_def]
  show l: "unat (sz - pos) = length s"
    using A by (subst unat_minus_size) (auto simp: size_cmp)
  have ls: "length s = unat sz - unat pos" using A by auto
  show "unat pos + length s \<le> length buf" "unat pos + length s \<le> PTRDIFF_MAX"
    using A by (simp_all add: ls)
  show "take (length s) (drop (unat pos) buf) = s"
    using A by (metis ls drop_take)
qed

lemma at_pos_move:
  assumes "at_pos buf sz pos (xs @ ys)"
  shows "at_pos buf sz (pos + of_nat (length xs)) ys"
    and "unat (pos + of_nat (length xs)) = unat pos + length xs"
proof -
  note D = at_posD [OF assms]
  have x: "unat (of_nat (length xs) :: size_t) = length xs"
    using D(4) by (intro unat_of_nat_size) simp
  then show u: "unat (pos + of_nat (length xs)) = unat pos + length xs"
    using D(4) by (subst unat_plus_size) simp_all
  have eq: "drop (unat pos) (take (unat sz) buf) = xs @ ys" and le: "unat pos \<le> unat sz"
      "unat sz \<le> length buf" "unat sz \<le> PTRDIFF_MAX"
    using assms by (simp_all add: at_pos_def)
  have "length xs \<le> unat sz - unat pos" using arg_cong [OF eq, of length] le by simp
  moreover have "drop (unat pos + length xs) (take (unat sz) buf) = ys"
    using arg_cong [OF eq, of "drop (length xs)"] by (simp add: add.commute)
  ultimately show "at_pos buf sz (pos + of_nat (length xs)) ys"
    using le by (simp add: at_pos_def u)
qed

lemma at_pos_start:
  assumes "length s \<le> PTRDIFF_MAX"
  shows "at_pos s (of_nat (length s)) 0 s"
  using unat_of_nat_size [OF assms] assms by (simp add: at_pos_def)

lemma at_pos_nonempty: "at_pos buf sz pos s \<Longrightarrow> sz - pos \<le> 0 \<longleftrightarrow> s = []"
  using at_posD(1) [of buf sz pos s] by (simp only: size_cmp) simp

lemma at_pos_size:
  assumes "at_pos buf sz pos s" and "s \<noteq> []"
  shows "sz \<noteq> 0" and "pos < sz"
proof -
  have "0 < length s" using assms(2) by simp
  then show "pos < sz" using assms(1) by (auto simp: at_pos_def size_cmp)
  then show "sz \<noteq> 0" by auto
qed

lemma mem_read_at:
  assumes "at_pos buf sz pos (xs @ ys)"
  shows "mem_read buf (unat pos) (length xs) = Inr xs"
proof -
  note D = at_posD [OF assms]
  have "take (length xs) (drop (unat pos) buf) = xs"
    using arg_cong [OF D(2), of "take (length xs)"] by (simp add: min_def)
  then show ?thesis using D(3) by (simp add: mem_read_def)
qed

lemma readLine_ok:
  assumes at: "at_pos buf sz pos (l @ REDIS_LBR @ rest)" and l: "clean_line l"
    and t: "m_temp ps = []"
  shows "readLine ps buf sz pos r = Inr (True, ps, pos + of_nat (length (l @ REDIS_LBR)), l)"
proof -
  note D = at_posD [OF at]
  have ne: "\<not> sz - pos \<le> 0" using at_pos_nonempty [OF at] by (simp add: REDIS_LBR_def)
  have "memchr buf (unat pos) LF (unat (sz - pos)) = Inr (Some (length (l @ [CR])))"
    by (rule memchr_line [where ys = rest])
      (use D(2) l in \<open>simp_all add: D(1) REDIS_LBR_def clean_line_def\<close>)
  then have mc: "memchr buf (unat pos) REDIS_PREFIX_LBR (unat (sz - pos)) = Inr (Some (length l + 1))"
    by (simp add: REDIS_PREFIX_LBR_def)
  have at': "at_pos buf sz pos ((l @ REDIS_LBR) @ rest)" using at by simp
  have n: "unat (of_nat (length (l @ REDIS_LBR)) :: size_t) = length (l @ REDIS_LBR)"
    using D(4) by (intro unat_of_nat_size) simp
  have e: "pos + of_nat (length l + 1) + 1 = pos + of_nat (length (l @ REDIS_LBR))"
    by (simp add: REDIS_LBR_def)
  have rd: "mem_read buf (unat pos) (unat (pos + of_nat (length (l @ REDIS_LBR)) - pos)) = Inr (l @ REDIS_LBR)"
    using mem_read_at [OF at'] n by simp
  have rt: "rtrim (l @ REDIS_LBR) REDIS_LBR = Inr l"
    using D(4) by (intro rtrim_line [OF l]) (simp add: REDIS_LBR_def)
  have ps: "ps\<lparr>m_temp := []\<rparr> = ps" using t by simp
  show ?thesis
    using ne unfolding readLine_def Let_def mc
    by (simp only: if_False rbind_Inr option.case e rd t append_Nil rt ps)
qed

lemma readLine_partial:
  assumes at: "at_pos buf sz pos s" and s: "LF \<notin> set s"
  shows "readLine ps buf sz pos r = Inr (False, ps, pos, r)"
proof -
  note D = at_posD [OF at]
  have "memchr buf (unat pos) REDIS_PREFIX_LBR (unat (sz - pos)) = Inr None"
    using D s by (intro memchr_none) (simp_all add: REDIS_PREFIX_LBR_def)
  then show ?thesis by (simp add: readLine_def Let_def)
qed

lemma readLen_ok:
  assumes at: "at_pos buf sz pos (xs @ ys)" and ne: "xs @ ys \<noteq> []"
    and len: "unat len = length (m_temp ps) + length xs"
  shows "readLen ps buf sz pos len r =
         Inr (True, ps\<lparr>m_temp := []\<rparr>, pos + of_nat (length xs), m_temp ps @ xs)"
proof -
  note D = at_posD [OF at]
  have nz: "\<not> sz - pos \<le> 0" using at_pos_nonempty [OF at] ne by simp
  have "len = of_nat (length (m_temp ps) + length xs)" by (simp flip: len)
  then have need: "len - of_nat (length (m_temp ps)) = of_nat (length xs)" by simp
  have u: "unat (of_nat (length xs) :: size_t) = length xs"
    using D(4) by (intro unat_of_nat_size) simp
  have le: "(of_nat (length xs) :: size_t) \<le> sz - pos" by (simp only: size_cmp u D(1)) simp
  show ?thesis
    using nz unfolding readLen_def Let_def need
    by (simp only: if_False if_True le u mem_read_at [OF at] rbind_Inr)
qed

lemma readLen_whole:
  assumes "at_pos buf sz pos (xs @ ys)" and "xs \<noteq> []" and "unat len = length xs"
    and t: "m_temp ps = []"
  shows "readLen ps buf sz pos len r = Inr (True, ps, pos + of_nat (length xs), xs)"
proof -
  have "ps\<lparr>m_temp := []\<rparr> = ps" using t by simp
  then show ?thesis using readLen_ok [OF assms(1), of len ps r] assms(2,3) t by simp
qed

lemma readLen_partial:
  assumes at: "at_pos buf sz pos s" and ne: "s \<noteq> []"
    and len: "length (m_temp ps) + length s < unat len"
  shows "readLen ps buf sz pos len r =
         Inr (False, ps\<lparr>m_temp := m_temp ps @ s\<rparr>, pos + of_nat (length s), r)"
proof -
  note D = at_posD [OF at]
  have nz: "\<not> sz - pos \<le> 0" using at_pos_nonempty [OF at] ne by simp
  have sp: "sz - pos = of_nat (length s)" by (simp flip: D(1))
  have "unat len < 2 ^ 64" by (rule unat_size_bound)
  then have t: "unat (of_nat (length (m_temp ps)) :: size_t) = length (m_temp ps)"
    using len by (simp add: unat_of_nat take_bit_nat_eq_self)
  have "unat (len - of_nat (length (m_temp ps))) = unat len - length (m_temp ps)"
    using len by (subst unat_minus_size) (simp_all add: size_cmp t)
  then have gt: "\<not> len - of_nat (length (m_temp ps)) \<le> sz - pos"
    using len by (simp add: size_cmp D(1))
  have at': "at_pos buf sz pos (s @ [])" using at by simp
  show ?thesis
    using nz gt mem_read_at [OF at'] D(1) unfolding readLen_def Let_def
    by (simp add: sp)
qed

section \<open>The reply protocol\<close>

text \<open>
  The replies of the Redis protocol and their bytes, as the reference the reader is
  compared with: a line for a status, an error or an integer; a counted string or the
  null string; a counted sequence of such strings or the null sequence.
\<close>

datatype resp =
    Status string
  | Error_reply string
  | Integer_reply string
  | Bulk "string option"
  | Multi "string option list option"

definition minus_one :: string where
  "minus_one = CHR ''-'' # dec_nat 1"

fun bulk_head :: "string option \<Rightarrow> string" where
  "bulk_head None = CHR ''$'' # minus_one"
| "bulk_head (Some s) = CHR ''$'' # dec_nat (length s)"

fun bulk_body :: "string option \<Rightarrow> string" where
  "bulk_body None = []"
| "bulk_body (Some s) = s @ REDIS_LBR"

definition bulk_bytes :: "string option \<Rightarrow> bytes" where
  "bulk_bytes b = bulk_head b @ REDIS_LBR @ bulk_body b"

fun resp_head :: "resp \<Rightarrow> string" where
  "resp_head (Status l) = CHR ''+'' # l"
| "resp_head (Error_reply l) = CHR ''-'' # l"
| "resp_head (Integer_reply l) = CHR '':'' # l"
| "resp_head (Bulk b) = bulk_head b"
| "resp_head (Multi None) = CHR ''*'' # minus_one"
| "resp_head (Multi (Some bs)) = CHR ''*'' # dec_nat (length bs)"

fun resp_body :: "resp \<Rightarrow> bytes" where
  "resp_body (Bulk b) = bulk_body b"
| "resp_body (Multi (Some bs)) = concat (map bulk_bytes bs)"
| "resp_body _ = []"

definition resp_bytes :: "resp \<Rightarrow> bytes" where
  "resp_bytes r = resp_head r @ REDIS_LBR @ resp_body r"

text \<open>
  Replies in the scope of the reader: single lines are clean, an error has at least three
  characters, lengths plus two and counts are in the range of \<open>int\<close>, a sequence is not empty.
\<close>

fun bulk_ok :: "string option \<Rightarrow> bool" where
  "bulk_ok None = True"
| "bulk_ok (Some s) = (int (length s) + 2 \<le> INT_MAX)"

fun resp_ok :: "resp \<Rightarrow> bool" where
  "resp_ok (Status l) = clean_line l"
| "resp_ok (Error_reply l) = (clean_line l \<and> 3 \<le> length l)"
| "resp_ok (Integer_reply l) = clean_line l"
| "resp_ok (Bulk b) = bulk_ok b"
| "resp_ok (Multi None) = True"
| "resp_ok (Multi (Some bs)) = (bs \<noteq> [] \<and> int (length bs) \<le> INT_MAX \<and> list_all bulk_ok bs)"

text \<open>What the reader delivers for a reply: its kind and its list of strings.\<close>

fun bulk_value :: "string option \<Rightarrow> string" where
  "bulk_value None = REDIS_MISSING"
| "bulk_value (Some s) = s"

fun resp_type :: "resp \<Rightarrow> reply_t" where
  "resp_type (Status l) = status_code_reply"
| "resp_type (Error_reply l) = error_reply"
| "resp_type (Integer_reply l) = int_reply"
| "resp_type (Bulk b) = bulk_reply"
| "resp_type (Multi b) = multi_bulk_reply"

fun resp_values :: "resp \<Rightarrow> string list" where
  "resp_values (Status l) = [l]"
| "resp_values (Error_reply l) = [drop 3 l]"
| "resp_values (Integer_reply l) = [l]"
| "resp_values (Bulk b) = [bulk_value b]"
| "resp_values (Multi None) = []"
| "resp_values (Multi (Some bs)) = map bulk_value bs"

lemma clean_line_Cons: "clean_line l \<Longrightarrow> c \<noteq> LF \<Longrightarrow> c \<noteq> CR \<Longrightarrow> clean_line (c # l)"
  by (auto simp: clean_line_def)

lemma minus_one_clean: "clean_line (c # minus_one) \<longleftrightarrow> c \<noteq> LF"
proof -
  have "clean_line minus_one" by (simp add: minus_one_def dec_nat_clean)
  then show ?thesis by (auto simp: clean_line_def minus_one_def)
qed

lemma bulk_head_clean: "clean_line (bulk_head b)"
  by (cases b) (simp_all add: minus_one_clean dec_nat_clean)

lemma resp_head_clean: "resp_ok r \<Longrightarrow> clean_line (resp_head r)"
  by (cases r rule: resp_head.cases)
    (simp_all add: clean_line_Cons bulk_head_clean minus_one_clean dec_nat_clean)

context decimal_cast
begin

lemma cast_minus_one: "lexical_cast cast minus_one = Inr (-1)"
  using lex_neg [of 1] by (simp add: lexical_cast_def minus_one_def INT_MIN_def)

lemma cast_dec: "int n \<le> INT_MAX \<Longrightarrow> lexical_cast cast (dec_nat n) = Inr (int n)"
  by (simp add: lexical_cast_def lex_dec)

lemma len_plus_2:
  assumes "int n + 2 \<le> INT_MAX"
  shows "int_plus_2 (int n) = Inr (of_nat (n + 2))"
    and "unat (of_nat (n + 2) :: size_t) = n + 2"
    and "unat (of_nat (n + 2) - 2 :: size_t) = n"
proof -
  show "int_plus_2 (int n) = Inr (of_nat (n + 2))" using assms by (simp add: int_plus_2_def)
  show "unat (of_nat (n + 2) :: size_t) = n + 2"
    using assms by (intro unat_of_nat_size) (simp add: INT_MAX_def PTRDIFF_MAX_def)
  have "unat (of_nat n :: size_t) = n"
    using assms by (intro unat_of_nat_size) (simp add: INT_MAX_def PTRDIFF_MAX_def)
  then show "unat (of_nat (n + 2) - 2 :: size_t) = n" by simp
qed

text \<open>One round of the loop takes one whole element.\<close>

lemma parseMulti_elem:
  assumes at: "at_pos buf sz pos (bulk_bytes b @ rest)" and b: "bulk_ok b" and t: "m_temp ps = []"
  shows "\<exists>n. parseMulti cast ps buf sz pos =
    (let ps' = ps\<lparr>m_tempMaxLen := n, m_recvList := m_recvList ps @ [bulk_value b]\<rparr>;
         pos' = pos + of_nat (length (bulk_bytes b)) in
     if m_multiCount ps = of_nat (length (m_recvList ps) + 1)
     then Inr (True, ps'\<lparr>m_done := True\<rparr>, pos') else parseMulti cast ps' buf sz pos')"
proof -
  have at1: "at_pos buf sz pos (bulk_head b @ REDIS_LBR @ bulk_body b @ rest)"
    using at by (simp add: bulk_bytes_def)
  note L = readLine_ok [OF at1 bulk_head_clean t, of "[]"]
  have "at_pos buf sz pos ((bulk_head b @ REDIS_LBR) @ bulk_body b @ rest)"
    using at1 by simp
  note at2 = at_pos_move(1) [OF this]
  show ?thesis
  proof (cases b)
    case None
    then show ?thesis
      using L by (subst parseMulti.simps, intro exI [of _ 0])
        (simp add: cast_minus_one bulk_bytes_def Let_def add.commute)
  next
    case (Some s)
    note N = len_plus_2 [of "length s"]
    have n: "int (length s) + 2 \<le> INT_MAX" using b Some by simp
    have at3: "at_pos buf sz (pos + of_nat (length (bulk_head b @ REDIS_LBR))) ((s @ REDIS_LBR) @ rest)"
      using at2 Some by simp
    let ?ps = "ps\<lparr>m_tempMaxLen := of_nat (length s + 2)\<rparr>"
    have "readLen ?ps buf sz (pos + of_nat (length (bulk_head b @ REDIS_LBR))) (of_nat (length s + 2)) [] =
        Inr (True, ?ps,
             pos + of_nat (length (bulk_head b @ REDIS_LBR)) + of_nat (length (s @ REDIS_LBR)),
             s @ REDIS_LBR)"
      by (rule readLen_whole [OF at3]) (use N(2) [OF n] t in \<open>simp_all add: REDIS_LBR_def\<close>)
    moreover have "str_erase (s @ REDIS_LBR) (of_nat (length s + 2) - 2) = Inr s"
      using N(3) [OF n] by (simp add: str_erase_def)
    moreover have "int (length s) \<le> INT_MAX" using n by simp
    ultimately show ?thesis
      using L Some t N(1) [OF n]
      by (subst parseMulti.simps, intro exI [of _ "of_nat (length s + 2)"])
        (simp add: cast_dec bulk_bytes_def Let_def algebra_simps)
  qed
qed

lemma parseMulti_ok:
  assumes "at_pos buf sz pos (concat (map bulk_bytes bs) @ rest)" and "bs \<noteq> []"
    and "list_all bulk_ok bs" and "m_temp ps = []"
    and "m_multiCount ps = of_nat (length (m_recvList ps) + length bs)"
    and "length (m_recvList ps) + length bs \<le> PTRDIFF_MAX"
  shows "\<exists>n. parseMulti cast ps buf sz pos =
    Inr (True, ps\<lparr>m_tempMaxLen := n, m_recvList := m_recvList ps @ map bulk_value bs, m_done := True\<rparr>,
         pos + of_nat (length (concat (map bulk_bytes bs))))"
  using assms
proof (induction bs arbitrary: ps pos)
  case Nil
  then show ?case by simp
next
  case (Cons b bs)
  have at: "at_pos buf sz pos (bulk_bytes b @ concat (map bulk_bytes bs) @ rest)"
    using Cons.prems(1) by simp
  have b: "bulk_ok b" using Cons.prems(3) by simp
  from parseMulti_elem [OF at b Cons.prems(4)] obtain n where step: "parseMulti cast ps buf sz pos =
    (let ps' = ps\<lparr>m_tempMaxLen := n, m_recvList := m_recvList ps @ [bulk_value b]\<rparr>;
         pos' = pos + of_nat (length (bulk_bytes b)) in
     if m_multiCount ps = of_nat (length (m_recvList ps) + 1)
     then Inr (True, ps'\<lparr>m_done := True\<rparr>, pos') else parseMulti cast ps' buf sz pos')" by blast
  show ?case
  proof (cases "bs = []")
    case True
    then show ?thesis using step Cons.prems(5) by (intro exI [of _ n]) simp
  next
    case False
    let ?ps = "ps\<lparr>m_tempMaxLen := n, m_recvList := m_recvList ps @ [bulk_value b]\<rparr>"
    have "unat (of_nat (length (m_recvList ps) + length (b # bs)) :: size_t) =
            length (m_recvList ps) + length (b # bs)"
      "unat (of_nat (length (m_recvList ps) + 1) :: size_t) = length (m_recvList ps) + 1"
      using Cons.prems(6) by (intro unat_of_nat_size; simp)+
    then have "m_multiCount ps \<noteq> of_nat (length (m_recvList ps) + 1)"
      using False unfolding Cons.prems(5) by (metis One_nat_def add_left_cancel length_0_conv
        length_Cons nat.inject)
    then have "parseMulti cast ps buf sz pos =
        parseMulti cast ?ps buf sz (pos + of_nat (length (bulk_bytes b)))"
      using step by simp
    then show ?thesis
      using Cons.IH [OF at_pos_move(1) [OF at] False, of ?ps] Cons.prems
      by (simp add: algebra_simps)
  qed
qed

text \<open>The first line decides the kind of the reply.\<close>

lemma parse_first_line:
  assumes at: "at_pos buf sz pos (l @ REDIS_LBR @ rest)" and l: "clean_line l"
  shows "parse dbg cast new_parse buf sz pos =
    rbind (parseType dbg cast new_parse buf sz pos) (\<lambda>(ok, ps1, readPos1).
        if \<not> ok then Inr (False, ps1, readPos1)
        else rbind (if \<not> m_done ps1
                    then rbind (parseBule cast ps1 buf sz readPos1) (\<lambda>(_, ps2, readPos2). Inr (ps2, readPos2))
                    else Inr (ps1, readPos1)) (\<lambda>(ps3, readPos3).
             Inr (m_done ps3, ps3, readPos3)))"
    and "readLine new_parse buf sz pos [] = Inr (True, new_parse, pos + of_nat (length (l @ REDIS_LBR)), l)"
proof -
  have "l @ REDIS_LBR @ rest \<noteq> []" by (simp add: REDIS_LBR_def)
  note S = at_pos_size [OF at this]
  show "parse dbg cast new_parse buf sz pos =
    rbind (parseType dbg cast new_parse buf sz pos) (\<lambda>(ok, ps1, readPos1).
        if \<not> ok then Inr (False, ps1, readPos1)
        else rbind (if \<not> m_done ps1
                    then rbind (parseBule cast ps1 buf sz readPos1) (\<lambda>(_, ps2, readPos2). Inr (ps2, readPos2))
                    else Inr (ps1, readPos1)) (\<lambda>(ps3, readPos3).
             Inr (m_done ps3, ps3, readPos3)))"
    using S by (simp add: parse_def new_parse_def)
  show "readLine new_parse buf sz pos [] = Inr (True, new_parse, pos + of_nat (length (l @ REDIS_LBR)), l)"
    by (rule readLine_ok [OF at l]) (simp add: new_parse_def)
qed

lemma getReplyType_head:
  assumes "length (resp_head r) \<le> PTRDIFF_MAX"
  shows "getReplyType (resp_head r) = resp_type r"
proof (cases r rule: resp_head.cases)
  case (4 b)
  with assms show ?thesis by (cases b) (simp_all add: getReplyType_Cons)
qed (use assms in \<open>simp_all add: getReplyType_Cons\<close>)

lemma at_pos_head:
  assumes "at_pos buf sz pos (resp_bytes r @ rest)"
  shows "at_pos buf sz pos (resp_head r @ REDIS_LBR @ resp_body r @ rest)"
    and "at_pos buf sz (pos + of_nat (length (resp_head r @ REDIS_LBR))) (resp_body r @ rest)"
    and "getReplyType (resp_head r) = resp_type r"
proof -
  show at: "at_pos buf sz pos (resp_head r @ REDIS_LBR @ resp_body r @ rest)"
    using assms by (simp add: resp_bytes_def)
  then have "at_pos buf sz pos ((resp_head r @ REDIS_LBR) @ resp_body r @ rest)" by simp
  from at_pos_move(1) [OF this]
  show "at_pos buf sz (pos + of_nat (length (resp_head r @ REDIS_LBR))) (resp_body r @ rest)" .
  show "getReplyType (resp_head r) = resp_type r"
    using at_posD(4) [OF at] by (intro getReplyType_head) simp
qed

text \<open>A whole reply, whatever follows it: one call of \<open>parse\<close> delivers it and stops right after it.\<close>

lemma parse_resp:
  assumes at: "at_pos buf sz pos (resp_bytes r @ rest)" and r: "resp_ok r"
  shows "\<exists>ps. parse dbg cast new_parse buf sz pos = Inr (True, ps, pos + of_nat (length (resp_bytes r))) \<and>
           m_done ps \<and> m_type ps = resp_type r \<and> m_recvList ps = resp_values r"
proof -
  note A = at_pos_head [OF at]
  note P = parse_first_line [OF A(1) resp_head_clean [OF r]]
  show ?thesis
  proof (cases r rule: resp_head.cases)
    case (4 b)
    show ?thesis
    proof (cases b)
      case None
      then show ?thesis using 4 P A(3)
        by (simp add: parseType_def Let_def new_parse_def cast_minus_one resp_bytes_def algebra_simps)
    next
      case (Some s)
      note N = len_plus_2 [of "length s"]
      have n: "int (length s) + 2 \<le> INT_MAX" "int (length s) \<le> INT_MAX" using r 4 Some by simp_all
      let ?ps = "new_parse\<lparr>m_type := bulk_reply, m_tempMaxLen := of_nat (length s + 2)\<rparr>"
      have "at_pos buf sz (pos + of_nat (length (resp_head r @ REDIS_LBR))) ((s @ REDIS_LBR) @ rest)"
        using A(2) 4 Some by simp
      then have "readLen ?ps buf sz (pos + of_nat (length (resp_head r @ REDIS_LBR))) (of_nat (length s + 2)) [] =
        Inr (True, ?ps, pos + of_nat (length (resp_head r @ REDIS_LBR)) + of_nat (length (s @ REDIS_LBR)),
             s @ REDIS_LBR)"
        by (rule readLen_whole) (use N(2) [OF n(1)] in \<open>simp_all add: REDIS_LBR_def new_parse_def\<close>)
      moreover have "str_erase (s @ REDIS_LBR) (of_nat (length s + 2) - 2) = Inr s"
        using N(3) [OF n(1)] by (simp add: str_erase_def)
      ultimately show ?thesis using 4 Some P A(3) N(1) [OF n(1)] n(2)
        by (simp add: parseType_def parseBule_def Let_def new_parse_def cast_dec resp_bytes_def algebra_simps)
    qed
  next
    case (6 bs)
    let ?ps = "new_parse\<lparr>m_type := multi_bulk_reply, m_multiCount := of_nat (length bs)\<rparr>"
    have n: "int (length bs) \<le> INT_MAX" "bs \<noteq> []" "list_all bulk_ok bs" using r 6 by simp_all
    have "at_pos buf sz (pos + of_nat (length (resp_head r @ REDIS_LBR)))
        (concat (map bulk_bytes bs) @ rest)" using A(2) 6 by simp
    from parseMulti_ok [OF this n(2,3), of ?ps] n(1) obtain k where
      "parseMulti cast ?ps buf sz (pos + of_nat (length (resp_head r @ REDIS_LBR))) =
       Inr (True, ?ps\<lparr>m_tempMaxLen := k, m_recvList := m_recvList ?ps @ map bulk_value bs, m_done := True\<rparr>,
         pos + of_nat (length (resp_head r @ REDIS_LBR)) + of_nat (length (concat (map bulk_bytes bs))))"
      by (auto simp: new_parse_def INT_MAX_def PTRDIFF_MAX_def)
    then show ?thesis using 6 P A(3) n(1)
      by (simp add: parseType_def parseBule_def Let_def new_parse_def cast_dec resp_bytes_def algebra_simps)
  qed (use r P A(3) in \<open>simp_all add: parseType_def Let_def new_parse_def cast_minus_one resp_bytes_def
         algebra_simps unat_1 str_substr_4\<close>)
qed

end

section \<open>Replies cut into pieces\<close>

text \<open>
  The reader between two calls: it has taken the bytes \<open>p\<close>, either none or the header of a
  counted string and a proper part of the string and its line end.
\<close>

definition bulk_wait :: "nat \<Rightarrow> string \<Rightarrow> redis_parse" where
  "bulk_wait n q = new_parse\<lparr>m_type := bulk_reply, m_tempMaxLen := of_nat (n + 2), m_temp := q\<rparr>"

definition parse_wait :: "redis_parse \<Rightarrow> bytes \<Rightarrow> bool" where
  "parse_wait ps p \<longleftrightarrow> (p = [] \<and> ps = new_parse) \<or>
     (\<exists>n q. p = (CHR ''$'' # dec_nat n) @ REDIS_LBR @ q \<and> length q < n + 2 \<and>
            int n + 2 \<le> INT_MAX \<and> ps = bulk_wait n q)"

definition simple :: "resp \<Rightarrow> bool" where
  "simple r \<longleftrightarrow> (\<forall>bs. r \<noteq> Multi (Some bs))"

lemma dec_nat_inject: "dec_nat m = dec_nat n \<Longrightarrow> m = n"
  by (metis dec_val_dec_nat option.inject)

lemma line_unique:
  assumes "clean_line l" and "clean_line l'" and "l @ REDIS_LBR @ x = l' @ REDIS_LBR @ y"
  shows "l = l' \<and> x = y"
proof -
  have tw: "takeWhile (\<lambda>c. c \<noteq> LF) (k @ REDIS_LBR @ z) = k @ [CR]" if "clean_line k" for k z
    using that by (induction k) (auto simp: clean_line_def REDIS_LBR_def split: if_splits)
  have "l @ [CR] = l' @ [CR]" using tw [OF assms(1), of x] tw [OF assms(2), of y] assms(3) by simp
  then show ?thesis using assms(3) by simp
qed

lemma bulk_head_unique:
  assumes "clean_line l" and "(CHR ''$'' # dec_nat n) @ REDIS_LBR @ x = l @ REDIS_LBR @ y"
  shows "l = CHR ''$'' # dec_nat n" and "y = x"
  using line_unique [OF _ assms(1), of "CHR ''$'' # dec_nat n" x y] assms(2)
  by (simp_all add: dec_nat_clean)

lemma bulk_of_head:
  assumes "resp_head r = CHR ''$'' # dec_nat n" and "resp_ok r"
  shows "\<exists>s. r = Bulk (Some s) \<and> length s = n"
proof (cases r rule: resp_head.cases)
  case (4 b)
  have "dec_nat n \<noteq> minus_one"
  proof
    assume "dec_nat n = minus_one"
    then have "CHR ''-'' \<in> set (dec_nat n)" by (simp add: minus_one_def)
    from dec_nat_digits [OF this] show False using digit_not by metis
  qed
  then show ?thesis using 4 assms dec_nat_inject by (cases b) auto
qed (use assms in auto)

lemma line_prefix:
  assumes "u @ z = l @ REDIS_LBR @ y" and "clean_line l" and "LF \<in> set u"
  shows "\<exists>u'. u = (l @ REDIS_LBR) @ u' \<and> y = u' @ z"
proof -
  have "(u @ z = (l @ REDIS_LBR) @ y) \<longleftrightarrow>
      (\<exists>us. u = (l @ REDIS_LBR) @ us \<and> us @ z = y \<or> u @ us = l @ REDIS_LBR \<and> z = us @ y)"
    by (rule append_eq_append_conv2)
  then consider us where "u = (l @ REDIS_LBR) @ us" "us @ z = y" | us where "u @ us = l @ REDIS_LBR" "z = us @ y"
    using assms(1) by auto
  then show ?thesis
  proof cases
    case 1
    then show ?thesis by auto
  next
    case 2
    have "us = []"
    proof (rule ccontr)
      assume "us \<noteq> []"
      then obtain vs v where "us = vs @ [v]" by (cases us rule: rev_cases) auto
      then have "u @ vs = l @ [CR]" using 2(1) by (simp add: REDIS_LBR_def)
      then have "set u \<subseteq> set (l @ [CR])" by (metis set_append Un_upper1)
      then show False using assms(2,3) by (auto simp: clean_line_def)
    qed
    then show ?thesis using 2 by auto
  qed
qed

text \<open>The bytes of a counted string that arrive while it is awaited.\<close>

lemma parse_bulk_wait:
  assumes at: "at_pos buf sz pos u" and u: "u \<noteq> []" and q: "length q < n + 2"
    and n: "int n + 2 \<le> INT_MAX"
  shows "length q + length u < n + 2 \<Longrightarrow>
      parse dbg cast (bulk_wait n q) buf sz pos =
      Inr (False, bulk_wait n (q @ u), pos + of_nat (length u))"
    and "q @ u = (s @ REDIS_LBR) @ rest \<Longrightarrow> length s = n \<Longrightarrow>
      \<exists>ps. parse dbg cast (bulk_wait n q) buf sz pos =
        Inr (True, ps, pos + of_nat (length u - length rest)) \<and>
        m_done ps \<and> m_type ps = bulk_reply \<and> m_recvList ps = [s] \<and>
        u = take (length u - length rest) u @ rest \<and> length rest < length u"
proof -
  note S = at_pos_size [OF at u]
  have len: "unat (of_nat (n + 2) :: size_t) = n + 2" "unat (of_nat (n + 2) - 2 :: size_t) = n"
  proof -
    show "unat (of_nat (n + 2) :: size_t) = n + 2"
      using n by (intro unat_of_nat_size) (simp add: INT_MAX_def PTRDIFF_MAX_def)
    have "unat (of_nat n :: size_t) = n"
      using n by (intro unat_of_nat_size) (simp add: INT_MAX_def PTRDIFF_MAX_def)
    then show "unat (of_nat (n + 2) - 2 :: size_t) = n" by simp
  qed
  have p: "parse dbg cast (bulk_wait n q) buf sz pos =
    rbind (readLen (bulk_wait n q) buf sz pos (of_nat (n + 2)) []) (\<lambda>(ok, ps1, readPos1, content).
    if ok then
      rbind (str_erase content (m_tempMaxLen ps1 - 2)) (\<lambda>item.
      Inr (True, ps1\<lparr>m_recvList := m_recvList ps1 @ [item], m_done := True\<rparr>, readPos1))
    else Inr (m_done ps1, ps1, readPos1))"
    using S by (simp add: parse_def parseBule_def bulk_wait_def new_parse_def rbind_assoc
        case_prod_unfold if_distrib [where f = "\<lambda>r. rbind r _"] cong: if_cong)
  {
    assume lt: "length q + length u < n + 2"
    have t: "m_temp (bulk_wait n q) = q" by (simp add: bulk_wait_def)
    show "parse dbg cast (bulk_wait n q) buf sz pos =
      Inr (False, bulk_wait n (q @ u), pos + of_nat (length u))"
      using readLen_partial [OF at u, of "bulk_wait n q" "of_nat (n + 2)" "[]"] lt len(1)
      by (simp add: p t) (simp add: bulk_wait_def new_parse_def)
  }
  {
    assume eq: "q @ u = (s @ REDIS_LBR) @ rest" and sn: "length s = n"
    have lb: "length REDIS_LBR = 2" by (simp add: REDIS_LBR_def)
    define v where "v = drop (length q) (s @ REDIS_LBR)"
    have "take (length q) (q @ u) = take (length q) (s @ REDIS_LBR)"
      unfolding eq using q sn lb by (subst take_append) simp
    then have "q = take (length q) (s @ REDIS_LBR)" by simp
    then have qv: "q @ v = s @ REDIS_LBR" unfolding v_def by (metis append_take_drop_id)
    have uv: "u = v @ rest" using eq unfolding qv [symmetric] by simp
    have lv: "n + 2 = length q + length v" using arg_cong [OF qv, of length] sn lb by simp
    have at': "at_pos buf sz pos (v @ rest)" using at uv by simp
    have t: "m_temp (bulk_wait n q) = q" by (simp add: bulk_wait_def)
    have vne: "v \<noteq> []" using lv q by auto
    have ne: "v @ rest \<noteq> []" using u uv by simp
    have ulen: "unat (of_nat (n + 2) :: size_t) = length (m_temp (bulk_wait n q)) + length v"
      unfolding len(1) t by (rule lv)
    have "readLen (bulk_wait n q) buf sz pos (of_nat (n + 2)) [] =
        Inr (True, (bulk_wait n q)\<lparr>m_temp := []\<rparr>, pos + of_nat (length v), s @ REDIS_LBR)"
      using readLen_ok [OF at' ne ulen, of "[]"] by (simp only: t qv)
    moreover have "str_erase (s @ REDIS_LBR) (of_nat (n + 2) - 2) = Inr s"
      using len(2) sn by (simp add: str_erase_def)
    ultimately show "\<exists>ps. parse dbg cast (bulk_wait n q) buf sz pos =
        Inr (True, ps, pos + of_nat (length u - length rest)) \<and>
        m_done ps \<and> m_type ps = bulk_reply \<and> m_recvList ps = [s] \<and>
        u = take (length u - length rest) u @ rest \<and> length rest < length u"
      using uv vne by (simp add: p) (simp add: bulk_wait_def new_parse_def)
  }
qed

text \<open>What a waiting parser took is never a whole reply.\<close>

lemma parse_wait_not_whole:
  assumes w: "parse_wait ps p" and r: "resp_ok r"
  shows "p \<noteq> resp_bytes r @ rest"
proof
  assume eq: "p = resp_bytes r @ rest"
  then have "p \<noteq> []" by (simp add: resp_bytes_def REDIS_LBR_def)
  then obtain n q where p: "p = (CHR ''$'' # dec_nat n) @ REDIS_LBR @ q" "length q < n + 2"
    using w by (auto simp: parse_wait_def)
  have "(CHR ''$'' # dec_nat n) @ REDIS_LBR @ q = resp_head r @ REDIS_LBR @ (resp_body r @ rest)"
    using eq p by (simp add: resp_bytes_def)
  note H = bulk_head_unique [OF resp_head_clean [OF r] this]
  obtain s where s: "r = Bulk (Some s)" "length s = n" using bulk_of_head [OF H(1) r] by blast
  have "length q = length (resp_body r @ rest)" using H(2) by simp
  then show False using p(2) s by (simp add: REDIS_LBR_def)
qed

context decimal_cast
begin

lemma parse_fresh_incomplete_line:
  assumes at: "at_pos buf sz pos u" and u: "u \<noteq> []" "LF \<notin> set u"
  shows "parse dbg cast new_parse buf sz pos = Inr (False, new_parse, pos)"
proof -
  note S = at_pos_size [OF at u(1)]
  have "readLine new_parse buf sz pos [] = Inr (False, new_parse, pos, [])"
    by (rule readLine_partial [OF at u(2)])
  then show ?thesis using S by (simp add: parse_def parseType_def) (simp add: new_parse_def)
qed

text \<open>The header of a counted string arrived and what follows it is still to be looked at.\<close>

lemma parse_fresh_bulk_head:
  assumes at: "at_pos buf sz pos (bulk_head (Some s) @ REDIS_LBR @ u)" and s: "bulk_ok (Some s)"
  shows "parse dbg cast new_parse buf sz pos =
    (let pos' = pos + of_nat (length (bulk_head (Some s) @ REDIS_LBR)) in
     if u = [] then Inr (False, bulk_wait (length s) [], pos')
     else parse dbg cast (bulk_wait (length s) []) buf sz pos')"
proof -
  note P = parse_first_line [OF at bulk_head_clean]
  note N = len_plus_2 [of "length s"]
  have n: "int (length s) + 2 \<le> INT_MAX" "int (length s) \<le> INT_MAX" using s by simp_all
  have "at_pos buf sz pos ((bulk_head (Some s) @ REDIS_LBR) @ u)" using at by simp
  note at2 = at_pos_move(1) [OF this]
  let ?pos = "pos + of_nat (length (bulk_head (Some s) @ REDIS_LBR))"
  have g: "getReplyType (bulk_head (Some s)) = bulk_reply"
    using at_posD(4) [OF at] by (simp add: getReplyType_Cons)
  have pt: "parseType dbg cast new_parse buf sz pos = Inr (True, bulk_wait (length s) [], ?pos)"
    using P(2) g N(1) [OF n(1)] n(2)
    by (simp add: parseType_def Let_def cast_dec bulk_wait_def) (simp add: new_parse_def)
  have w: "\<not> m_done (bulk_wait (length s) [])" "m_type (bulk_wait (length s) []) \<noteq> no_reply"
    "m_type (bulk_wait (length s) []) = bulk_reply"
    by (simp_all add: bulk_wait_def new_parse_def)
  show ?thesis
  proof (cases "u = []")
    case True
    then have "sz - ?pos \<le> 0" using at_pos_nonempty [OF at2] by simp
    then have "parseBule cast (bulk_wait (length s) []) buf sz ?pos =
        Inr (False, bulk_wait (length s) [], ?pos)"
      by (simp add: parseBule_def readLen_def w)
    then show ?thesis using True by (simp add: P(1) pt w)
  next
    case False
    note S = at_pos_size [OF at2 False]
    show ?thesis using False S by (simp add: P(1) pt w) (simp add: parse_def w)
  qed
qed

lemma parse_wait_complete:
  assumes w: "parse_wait ps p" and at: "at_pos buf sz pos u" and u: "u \<noteq> []"
    and eq: "p @ u = resp_bytes r @ rest" and r: "simple r" "resp_ok r"
  shows "\<exists>ps'. parse dbg cast ps buf sz pos = Inr (True, ps', pos + of_nat (length u - length rest)) \<and>
           m_done ps' \<and> m_type ps' = resp_type r \<and> m_recvList ps' = resp_values r \<and>
           u = take (length u - length rest) u @ rest \<and> length rest < length u"
proof (cases "p = []")
  case True
  then have "ps = new_parse" using w by (auto simp: parse_wait_def)
  moreover have "at_pos buf sz pos (resp_bytes r @ rest)" using at eq True by simp
  moreover have "0 < length (resp_bytes r)" by (simp add: resp_bytes_def REDIS_LBR_def)
  ultimately show ?thesis
    using parse_resp [of buf sz pos r rest dbg] r(2) eq True by auto
next
  case False
  then obtain n q where p: "p = (CHR ''$'' # dec_nat n) @ REDIS_LBR @ q" "length q < n + 2"
      "int n + 2 \<le> INT_MAX" "ps = bulk_wait n q"
    using w by (auto simp: parse_wait_def)
  have "(CHR ''$'' # dec_nat n) @ REDIS_LBR @ (q @ u) = resp_head r @ REDIS_LBR @ (resp_body r @ rest)"
    using eq p by (simp add: resp_bytes_def)
  note H = bulk_head_unique [OF resp_head_clean [OF r(2)] this]
  obtain s where s: "r = Bulk (Some s)" "length s = n" using bulk_of_head [OF H(1) r(2)] by blast
  then have "q @ u = (s @ REDIS_LBR) @ rest" using H(2) by simp
  from parse_bulk_wait(2) [OF at u p(2,3) this s(2), of dbg cast] show ?thesis
    using p(4) s(1) by auto
qed

lemma parse_wait_partial:
  assumes w: "parse_wait ps p" and at: "at_pos buf sz pos u" and u: "u \<noteq> []"
    and eq: "p @ u @ later = resp_bytes r" and later: "later \<noteq> []" and r: "simple r" "resp_ok r"
  shows "\<exists>ps' k. parse dbg cast ps buf sz pos = Inr (False, ps', pos + of_nat k) \<and>
           \<not> m_done ps' \<and> k \<le> length u \<and> parse_wait ps' (p @ take k u) \<and>
           (drop k u \<noteq> [] \<longrightarrow> k = 0 \<and> ps' = ps)"
proof (cases "p = []")
  case p: True
  then have ps: "ps = new_parse" using w by (auto simp: parse_wait_def)
  show ?thesis
  proof (cases "LF \<in> set u")
    case False
    then show ?thesis
      using parse_fresh_incomplete_line [OF at u, of dbg] ps w
      by (intro exI [of _ new_parse] exI [of _ 0]) (simp add: new_parse_def)
  next
    case True
    have split: "u @ later = resp_head r @ REDIS_LBR @ resp_body r"
      using eq p by (simp add: resp_bytes_def)
    obtain u' where u': "u = (resp_head r @ REDIS_LBR) @ u'" "resp_body r = u' @ later"
      using line_prefix [OF split resp_head_clean [OF r(2)] True] by blast
    obtain s where s: "r = Bulk (Some s)"
      using u'(2) later r(1) by (cases r rule: resp_body.cases; cases "\<exists>b. r = Bulk b")
        (auto simp: simple_def elim!: bulk_body.elims)
    have at': "at_pos buf sz pos (bulk_head (Some s) @ REDIS_LBR @ u')" using at u'(1) s by simp
    have "bulk_ok (Some s)" using r(2) s by simp
    note F = parse_fresh_bulk_head [OF at' this, of dbg]
    have lt: "length ([] :: string) + length u' < length s + 2"
      using arg_cong [OF u'(2), of length] later s by (simp add: REDIS_LBR_def)
    let ?pos = "pos + of_nat (length (bulk_head (Some s) @ REDIS_LBR))"
    have at2: "at_pos buf sz ?pos u'"
      using at_pos_move(1) [of buf sz pos "bulk_head (Some s) @ REDIS_LBR" u'] at' by simp
    have n: "int (length s) + 2 \<le> INT_MAX" using r(2) s by simp
    have "parse dbg cast new_parse buf sz pos = Inr (False, bulk_wait (length s) u', pos + of_nat (length u))"
    proof (cases "u' = []")
      case True
      then show ?thesis using F u'(1) s by simp
    next
      case False
      from parse_bulk_wait(1) [OF at2 False _ n lt] show ?thesis
        using F False u'(1) s by (simp add: algebra_simps)
    qed
    then show ?thesis
      using ps p lt n u'(1) s
      by (intro exI [of _ "bulk_wait (length s) u'"] exI [of _ "length u"])
        (auto simp: parse_wait_def bulk_wait_def new_parse_def)
  qed
next
  case False
  then obtain n q where p: "p = (CHR ''$'' # dec_nat n) @ REDIS_LBR @ q" "length q < n + 2"
      "int n + 2 \<le> INT_MAX" "ps = bulk_wait n q"
    using w by (auto simp: parse_wait_def)
  have "(CHR ''$'' # dec_nat n) @ REDIS_LBR @ (q @ u @ later) = resp_head r @ REDIS_LBR @ resp_body r"
    using eq p by (simp add: resp_bytes_def)
  note H = bulk_head_unique [OF resp_head_clean [OF r(2)] this]
  obtain s where s: "r = Bulk (Some s)" "length s = n" using bulk_of_head [OF H(1) r(2)] by blast
  then have "length q + length u < n + 2"
    using arg_cong [OF H(2), of length] later by (simp add: REDIS_LBR_def)
  from parse_bulk_wait(1) [OF at u p(2,3) this, of dbg cast] this show ?thesis
    using p by (intro exI [of _ "bulk_wait n (q @ u)"] exI [of _ "length u"])
      (auto simp: parse_wait_def bulk_wait_def new_parse_def)
qed

end

section \<open>Memory safety of the reader\<close>

text \<open>
  Whatever the bytes and whatever the state, the reader stays inside the \<open>sz\<close> valid bytes:
  it ends in a new position between the old one and \<open>sz\<close>, or in an exception or assertion
  that is not an access outside the block.
\<close>

definition in_block :: "bytes \<Rightarrow> size_t \<Rightarrow> size_t \<Rightarrow> bool" where
  "in_block buf sz pos \<longleftrightarrow> unat sz \<le> length buf \<and> unat sz \<le> PTRDIFF_MAX \<and> pos \<le> sz"

definition mem_fault :: "fault \<Rightarrow> bool" where
  "mem_fault e \<longleftrightarrow> e = MemFault \<or> e = NullDeref"

definition safe_res :: "('a \<Rightarrow> bool) \<Rightarrow> 'a res \<Rightarrow> bool" where
  "safe_res P r \<longleftrightarrow> (case r of Inl e \<Rightarrow> \<not> mem_fault e | Inr x \<Rightarrow> P x)"

definition pos_ok :: "size_t \<Rightarrow> size_t \<Rightarrow> bool \<times> redis_parse \<times> size_t \<Rightarrow> bool" where
  "pos_ok sz pos = (\<lambda>(ok, ps, pos'). pos \<le> pos' \<and> pos' \<le> sz)"

lemma mem_fault_simps [simp]:
  "mem_fault MemFault" "mem_fault NullDeref" "\<not> mem_fault OutOfRange" "\<not> mem_fault BadCast"
  "\<not> mem_fault SignedOverflow" "\<not> mem_fault Assertion" "\<not> mem_fault RuntimeError"
  by (simp_all add: mem_fault_def)

lemma safe_res_simps [simp]:
  "safe_res P (Inl e) \<longleftrightarrow> \<not> mem_fault e" "safe_res P (Inr x) \<longleftrightarrow> P x"
  by (simp_all add: safe_res_def)

lemma pos_ok_simp [simp]: "pos_ok sz pos (ok, ps, pos') \<longleftrightarrow> pos \<le> pos' \<and> pos' \<le> sz"
  by (simp add: pos_ok_def)

lemma safe_bind:
  assumes "safe_res P r" and "\<And>x. P x \<Longrightarrow> r = Inr x \<Longrightarrow> safe_res Q (f x)"
  shows "safe_res Q (rbind r f)"
  using assms by (cases r) simp_all

lemma safe_mono: "safe_res P r \<Longrightarrow> (\<And>x. P x \<Longrightarrow> Q x) \<Longrightarrow> safe_res Q r"
  by (cases r) simp_all

text \<open>The calls that can throw but touch no memory, as steps of a safety proof.\<close>

named_theorems safe_steps

lemma safe_substr [safe_steps]:
  "(\<And>x. safe_res Q (f x)) \<Longrightarrow> safe_res Q (rbind (str_substr s k) f)"
  by (simp add: str_substr_def)

lemma safe_erase [safe_steps]:
  "(\<And>x. safe_res Q (f x)) \<Longrightarrow> safe_res Q (rbind (str_erase s k) f)"
  by (simp add: str_erase_def)

lemma safe_rtrim [safe_steps]:
  "(\<And>x. safe_res Q (f x)) \<Longrightarrow> safe_res Q (rbind (rtrim s k) f)"
  by (simp add: rtrim_def str_erase_def)

lemma safe_cast [safe_steps]:
  "(\<And>x. safe_res Q (f x)) \<Longrightarrow> safe_res Q (rbind (lexical_cast cast s) f)"
  by (simp add: lexical_cast_def split: option.split)

lemma safe_plus_2 [safe_steps]:
  "(\<And>x. safe_res Q (f x)) \<Longrightarrow> safe_res Q (rbind (int_plus_2 n) f)"
  by (simp add: int_plus_2_def)

lemma safe_assert [safe_steps]:
  "safe_res Q (f ()) \<Longrightarrow> safe_res Q (rbind (MYASSERT dbg c) f)"
  by (simp add: MYASSERT_def)

lemma safe_if [safe_steps]:
  "(c \<Longrightarrow> safe_res Q a) \<Longrightarrow> (\<not> c \<Longrightarrow> safe_res Q b) \<Longrightarrow> safe_res Q (if c then a else b)"
  by simp

lemma mem_read_in_block:
  assumes "in_block buf sz pos" and "n \<le> sz - pos"
  shows "\<exists>s. mem_read buf (unat pos) (unat n) = Inr s" and "pos \<le> pos + n" and "pos + n \<le> sz"
proof -
  have b: "unat sz \<le> length buf" "unat sz \<le> PTRDIFF_MAX" "unat pos \<le> unat sz"
    using assms(1) by (simp_all add: in_block_def size_cmp)
  have "unat (sz - pos) = unat sz - unat pos" using assms(1) by (intro unat_minus_size) (simp add: in_block_def)
  then have n: "unat pos + unat n \<le> unat sz" using assms(2) b(3) by (simp add: size_cmp)
  then show "\<exists>s. mem_read buf (unat pos) (unat n) = Inr s" using b by (simp add: mem_read_def)
  have "unat (pos + n) = unat pos + unat n" using n b by (intro unat_plus_size) simp
  then show "pos \<le> pos + n" "pos + n \<le> sz" using n by (simp_all add: size_cmp)
qed

lemma readLen_safe [safe_steps]:
  assumes "in_block buf sz pos"
    and "\<And>ok ps' pos' x. pos \<le> pos' \<Longrightarrow> pos' \<le> sz \<Longrightarrow> safe_res Q (f (ok, ps', pos', x))"
  shows "safe_res Q (rbind (readLen ps buf sz pos len r) f)"
proof -
  define k where "k = (if len - of_nat (length (m_temp ps)) \<le> sz - pos
      then len - of_nat (length (m_temp ps)) else sz - pos)"
  have "k \<le> sz - pos" by (simp add: k_def)
  from mem_read_in_block [OF assms(1) this] obtain s where
    "mem_read buf (unat pos) (unat k) = Inr s" "pos \<le> pos + k" "pos + k \<le> sz" by blast
  then show ?thesis
    using assms unfolding readLen_def Let_def k_def [symmetric]
    by (simp add: in_block_def)
qed

lemma readLine_safe [safe_steps]:
  assumes ib: "in_block buf sz pos"
    and f: "\<And>ok ps' pos' x. pos \<le> pos' \<Longrightarrow> pos' \<le> sz \<Longrightarrow>
      readLine ps buf sz pos r = Inr (ok, ps', pos', x) \<Longrightarrow> safe_res Q (f (ok, ps', pos', x))"
  shows "safe_res Q (rbind (readLine ps buf sz pos r) f)"
proof -
  have "safe_res (\<lambda>(ok, ps', pos', x). pos \<le> pos' \<and> pos' \<le> sz) (readLine ps buf sz pos r)"
  proof (cases "sz - pos \<le> 0")
    case True
    then show ?thesis using ib by (simp add: readLine_def in_block_def)
  next
    case False
    have b: "unat sz \<le> length buf" "unat sz \<le> PTRDIFF_MAX" "unat pos \<le> unat sz"
      using ib by (simp_all add: in_block_def size_cmp)
    have sub: "unat (sz - pos) = unat sz - unat pos"
      using ib by (intro unat_minus_size) (simp add: in_block_def)
    let ?m = "memchr buf (unat pos) REDIS_PREFIX_LBR (unat (sz - pos))"
    have "unat pos + unat (sz - pos) \<le> length buf" using b sub by simp
    then consider "?m = Inr None" | i where "?m = Inr (Some i)" "i < unat (sz - pos)"
      by (fastforce simp: memchr_def Let_def split: if_splits)
    then show ?thesis
    proof cases
      case 1
      then show ?thesis using False ib by (simp add: readLine_def Let_def in_block_def)
    next
      case 2
      define k :: size_t where "k = of_nat i + 1"
      have "unat (of_nat (Suc i) :: size_t) = Suc i"
        using 2(2) b sub by (intro unat_of_nat_size) simp
      then have uk: "unat k = Suc i" by (simp add: k_def add.commute)
      then have "k \<le> sz - pos" using 2(2) by (simp add: size_cmp)
      from mem_read_in_block [OF ib this] obtain s where
        s: "mem_read buf (unat pos) (unat k) = Inr s" "pos \<le> pos + k" "pos + k \<le> sz" by blast
      have e: "pos + of_nat i + 1 = pos + k" by (simp add: k_def)
      have d: "pos + k - pos = k" by simp
      show ?thesis
        using False s(2,3) unfolding readLine_def Let_def 2(1)
        by (simp only: if_False rbind_Inr option.case e d s(1)) (intro safe_steps, simp)
    qed
  qed
  then show ?thesis by (rule safe_bind) (auto intro: f)
qed

lemma in_block_move: "in_block buf sz pos \<Longrightarrow> pos' \<le> sz \<Longrightarrow> in_block buf sz pos'"
  by (simp add: in_block_def)

lemma parseMulti_item_safe:
  assumes "in_block buf sz pos"
  shows "safe_res (pos_ok sz pos)
    (if bulkLen = -1 then Inr (True, ps1, pos)
     else rbind (int_plus_2 bulkLen) (\<lambda>n.
          rbind (readLen (ps2 n) buf sz pos n []) (\<lambda>(ok2, ps3, readPos2, part).
          if \<not> ok2 then Inr (False, ps3, readPos2)
          else rbind (str_erase part (n - 2)) (\<lambda>item.
               Inr (True, ps3\<lparr>m_recvList := m_recvList ps3 @ [item]\<rparr>, readPos2)))))"
  using assms by (intro safe_steps) (auto simp: in_block_def intro!: safe_steps)

lemma parseMulti_safe: "in_block buf sz pos \<Longrightarrow> safe_res (pos_ok sz pos) (parseMulti cast ps buf sz pos)"
proof (induction "unat (sz - pos)" arbitrary: ps pos rule: less_induct)
  case less
  show ?case
  proof (subst parseMulti.simps, rule readLine_safe [OF less.prems], unfold prod.case)
    fix ok ps1 pos1 content
    assume rl: "pos \<le> pos1" "pos1 \<le> sz" "readLine ps buf sz pos [] = Inr (ok, ps1, pos1, content)"
    note ib = in_block_move [OF less.prems rl(2)]
    show "safe_res (pos_ok sz pos) (if \<not> ok then Inr (False, ps1, pos1)
     else let ps2 = ps1\<lparr>m_tempMaxLen := 0\<rparr> in
       rbind (str_substr content 1) (\<lambda>ssub.
       rbind (lexical_cast cast ssub) (\<lambda>bulkLen.
       rbind (if bulkLen = -1
              then Inr (True, ps2\<lparr>m_recvList := m_recvList ps2 @ [REDIS_MISSING]\<rparr>, pos1)
              else rbind (int_plus_2 bulkLen) (\<lambda>n.
                   rbind (readLen (ps2\<lparr>m_tempMaxLen := n\<rparr>) buf sz pos1 n []) (\<lambda>(ok2, ps3, readPos2, part).
                   if \<not> ok2 then Inr (False, ps3, readPos2)
                   else rbind (str_erase part (n - 2)) (\<lambda>item.
                        Inr (True, ps3\<lparr>m_recvList := m_recvList ps3 @ [item]\<rparr>, readPos2)))))
         (\<lambda>(ok3, ps4, readPos4).
         if \<not> ok3 then Inr (False, ps4, readPos4)
         else if m_multiCount ps4 = of_nat (length (m_recvList ps4))
         then Inr (True, ps4\<lparr>m_done := True\<rparr>, readPos4)
         else parseMulti cast ps4 buf sz readPos4))))"
    proof (cases ok)
      case False
      then show ?thesis using rl by simp
    next
      case True
      have rest: "safe_res (pos_ok sz pos) (parseMulti cast ps4 buf sz pos4)"
        if p4: "pos1 \<le> pos4" "pos4 \<le> sz" for ps4 pos4
      proof -
        have "unat (sz - pos1) < unat (sz - pos)"
          using readLine_consumes [of ps buf sz pos "[]" ps1 pos1 content] rl(3) True by simp
        moreover have "unat (sz - pos4) \<le> unat (sz - pos1)"
          using p4 rl(2) by (simp add: unat_minus_size size_cmp)
        ultimately have "safe_res (pos_ok sz pos4) (parseMulti cast ps4 buf sz pos4)"
          using in_block_move [OF less.prems p4(2)] by (intro less.hyps) simp_all
        then show ?thesis by (rule safe_mono) (use p4 rl(1) in \<open>auto simp: pos_ok_def\<close>)
      qed
      show ?thesis
        unfolding Let_def using True rl ib rest
        by (simp only: True not_True_eq_False if_False)
         (intro safe_substr safe_cast safe_bind [OF parseMulti_item_safe [OF ib]];
          auto intro!: safe_steps)
    qed
  qed
qed

lemma parseType_safe:
  "in_block buf sz pos \<Longrightarrow> safe_res (pos_ok sz pos) (parseType dbg cast ps buf sz pos)"
  unfolding parseType_def Let_def
  by (intro safe_steps) (auto intro!: safe_steps split: reply_t.split)

lemma parseBule_safe:
  "in_block buf sz pos \<Longrightarrow> safe_res (pos_ok sz pos) (parseBule cast ps buf sz pos)"
  unfolding parseBule_def by (auto intro!: safe_steps parseMulti_safe simp: in_block_def)

lemma parse_safe:
  assumes ib: "in_block buf sz pos"
  shows "safe_res (pos_ok sz pos) (parse dbg cast ps buf sz pos)"
proof -
  have first: "safe_res (pos_ok sz pos) (if m_type ps = no_reply then parseType dbg cast ps buf sz pos
      else Inr (True, ps, pos))"
    using ib parseType_safe [OF ib] by (auto simp: in_block_def)
  have bule: "safe_res (pos_ok sz pos) (rbind (parseBule cast ps1 buf sz pos1) f)"
    if "pos \<le> pos1" "pos1 \<le> sz" "\<And>x ps2 pos2. f (x, ps2, pos2) = Inr (m_done ps2, ps2, pos2)"
    for ps1 pos1 and f :: "bool \<times> redis_parse \<times> size_t \<Rightarrow> (bool \<times> redis_parse \<times> size_t) res"
    by (rule safe_bind [OF parseBule_safe [OF in_block_move [OF ib that(2)]]])
      (use that in \<open>auto simp: pos_ok_def\<close>)
  show ?thesis
    unfolding parse_def using ib
    by (intro safe_steps safe_bind [OF first]) (auto simp: in_block_def rbind_assoc intro!: bule)
qed

end
