(* ===== verification/Net_Buffer.thy ===== *)
theory Net_Buffer
  imports Net_Prelude
begin

text \<open>
  The growable byte buffer \<open>NetBuffer\<close> of \<open>include/net_buffer.h\<close> and
  \<open>src/net_buffer.cpp\<close>: its five fields, one definition per member function, the
  representation invariant, the abstraction to the bytes written and the bytes not yet
  read, and the effect of every operation on these two lists.

  A pointer into the buffer is its offset from \<open>m_buffer\<close>; \<open>nullptr\<close> is \<open>None\<close>.  A null
  \<open>m_buffer\<close> (a buffer that was moved from) is a block without bytes.  The test
  \<open>this == &buffer\<close> is the argument \<open>same\<close>.  The bytes a caller passes as
  \<open>const char* base\<close> are a list: an access past its end is a \<open>MemFault\<close>.
\<close>

section \<open>State and member functions\<close>

record net_buffer =
  m_buffer :: bytes
  m_maxLen :: size_t
  m_writePos :: size_t
  m_readPos :: size_t
  m_lock :: bool

type_synonym bufferPtr = "net_buffer option"

definition netBuffer :: "size_t \<Rightarrow> net_buffer res" where
  "netBuffer len =
     rbind (malloc0 len) (\<lambda>p.
     Inr \<lparr>m_buffer = p, m_maxLen = len, m_writePos = 0, m_readPos = 0, m_lock = False\<rparr>)"

definition move_assign :: "net_buffer \<Rightarrow> net_buffer \<Rightarrow> net_buffer \<times> net_buffer" where
  "move_assign this buffer =
     (this\<lparr>m_buffer := m_buffer buffer, m_writePos := m_writePos buffer,
           m_readPos := m_readPos buffer, m_maxLen := m_maxLen buffer,
           m_lock := m_lock buffer\<rparr>,
      buffer\<lparr>m_buffer := [], m_writePos := 0, m_readPos := 0, m_maxLen := 0,
             m_lock := False\<rparr>)"

definition isLock :: "net_buffer \<Rightarrow> bool" where
  "isLock b = m_lock b"

definition nb_lock :: "net_buffer \<Rightarrow> bool \<times> net_buffer" where
  "nb_lock b = (let b' = b\<lparr>m_lock := True\<rparr> in (m_lock b', b'))"

definition nb_length :: "net_buffer \<Rightarrow> size_t" where
  "nb_length b = m_writePos b"

definition maxLength :: "net_buffer \<Rightarrow> size_t" where
  "maxLength b = m_maxLen b"

definition needReadLength :: "net_buffer \<Rightarrow> size_t" where
  "needReadLength b = m_writePos b - m_readPos b"

definition hasWrite :: "net_buffer \<Rightarrow> bool" where
  "hasWrite b \<longleftrightarrow> nb_length b > 0"

definition hasRead :: "net_buffer \<Rightarrow> bool" where
  "hasRead b \<longleftrightarrow> needReadLength b > 0"

definition isFull :: "net_buffer \<Rightarrow> bool" where
  "isFull b \<longleftrightarrow> m_writePos b \<ge> m_maxLen b"

definition canRead :: "net_buffer \<Rightarrow> size_t \<Rightarrow> bool" where
  "canRead b len \<longleftrightarrow> len \<le> needReadLength b"

text \<open>\<open>writeData(len)\<close> and \<open>readData(len)\<close> move a position and return the pointer before it.\<close>

definition writeData :: "bool \<Rightarrow> net_buffer \<Rightarrow> size_t \<Rightarrow> (size_t option \<times> net_buffer) res" where
  "writeData dbg b len =
     (if m_writePos b + len > m_maxLen b
      then rbind (MYASSERT dbg False) (\<lambda>_. Inr (None, b))
      else Inr (Some (m_writePos b), b\<lparr>m_writePos := m_writePos b + len\<rparr>))"

definition readData :: "bool \<Rightarrow> net_buffer \<Rightarrow> size_t \<Rightarrow> (size_t option \<times> net_buffer) res" where
  "readData dbg b len =
     rbind (MYASSERT dbg (canRead b len)) (\<lambda>_.
     if \<not> canRead b len then Inr (None, b)
     else Inr (Some (m_readPos b), b\<lparr>m_readPos := m_readPos b + len\<rparr>))"

definition clearReadBuffer :: "bool \<Rightarrow> net_buffer \<Rightarrow> net_buffer res" where
  "clearReadBuffer dbg b =
     rbind (MYASSERT dbg (m_readPos b \<le> m_writePos b)) (\<lambda>_.
     rbind (memmove (m_buffer b) 0 (unat (m_readPos b)) (unat (m_writePos b - m_readPos b))) (\<lambda>m.
     Inr (b\<lparr>m_buffer := m, m_writePos := m_writePos b - m_readPos b, m_readPos := 0\<rparr>)))"

definition nb_reset :: "bool \<Rightarrow> net_buffer \<Rightarrow> net_buffer res" where
  "nb_reset dbg b =
     (if m_lock b then rbind (MYASSERT dbg False) (\<lambda>_. Inr b)
      else rbind (memset (m_buffer b) NUL (unat (m_writePos b))) (\<lambda>m.
           Inr (b\<lparr>m_buffer := m, m_writePos := 0, m_readPos := 0\<rparr>)))"

definition resize :: "bool \<Rightarrow> net_buffer \<Rightarrow> size_t \<Rightarrow> (bool \<times> net_buffer) res" where
  "resize dbg b len =
     (if m_lock b then rbind (MYASSERT dbg False) (\<lambda>_. Inr (False, b))
      else if len > m_maxLen b
      then rbind (malloc0 (len * 2)) (\<lambda>newBuffer.
           rbind (memcpy newBuffer 0 (m_buffer b) 0 (unat (m_writePos b))) (\<lambda>m.
           Inr (True, b\<lparr>m_buffer := m, m_maxLen := len * 2\<rparr>)))
      else Inr (True, b))"

definition nb_tail :: "bool \<Rightarrow> net_buffer \<Rightarrow> bytes \<Rightarrow> size_t \<Rightarrow> (bool \<times> net_buffer) res" where
  "nb_tail dbg b base len =
     (if m_lock b then rbind (MYASSERT dbg False) (\<lambda>_. Inr (False, b))
      else if len \<le> 0 then Inr (False, b)
      else rbind (MYASSERT dbg (len + m_writePos b \<le> m_maxLen b)) (\<lambda>_.
           rbind (memcpy (m_buffer b) (unat (m_writePos b)) base 0 (unat len)) (\<lambda>m.
           Inr (True, b\<lparr>m_buffer := m, m_writePos := m_writePos b + len\<rparr>))))"

definition nb_head :: "bool \<Rightarrow> net_buffer \<Rightarrow> bytes \<Rightarrow> size_t \<Rightarrow> (bool \<times> net_buffer) res" where
  "nb_head dbg b base len =
     (if m_lock b then rbind (MYASSERT dbg False) (\<lambda>_. Inr (False, b))
      else if len \<le> 0 then Inr (False, b)
      else rbind (MYASSERT dbg (len + m_writePos b \<le> m_maxLen b)) (\<lambda>_.
           rbind (memmove (m_buffer b) (unat len) 0 (unat (m_writePos b))) (\<lambda>m.
           rbind (memcpy m 0 base 0 (unat len)) (\<lambda>m'.
           Inr (True, b\<lparr>m_buffer := m', m_writePos := m_writePos b + len\<rparr>)))))"

definition setHead :: "bool \<Rightarrow> net_buffer \<Rightarrow> bytes \<Rightarrow> size_t \<Rightarrow> (bool \<times> net_buffer) res" where
  "setHead dbg b base len =
     (if m_lock b then rbind (MYASSERT dbg False) (\<lambda>_. Inr (False, b))
      else rbind (MYASSERT dbg (len \<le> m_writePos b)) (\<lambda>_.
           if len \<le> m_writePos b
           then rbind (memcpy (m_buffer b) 0 base 0 (unat len)) (\<lambda>m.
                Inr (True, b\<lparr>m_buffer := m\<rparr>))
           else Inr (False, b)))"

definition tailData :: "bool \<Rightarrow> net_buffer \<Rightarrow> bytes \<Rightarrow> size_t \<Rightarrow> (bool \<times> net_buffer) res" where
  "tailData dbg b base len =
     rbind (resize dbg b (m_writePos b + len)) (\<lambda>(_, b').
     nb_tail dbg b' base len)"

definition tailNetBuffer :: "bool \<Rightarrow> bool \<Rightarrow> net_buffer \<Rightarrow> net_buffer \<Rightarrow> (bool \<times> net_buffer) res" where
  "tailNetBuffer dbg same b buffer =
     (if same then Inr (False, b)
      else tailData dbg b (m_buffer buffer) (nb_length buffer))"

definition headData :: "bool \<Rightarrow> net_buffer \<Rightarrow> bytes \<Rightarrow> size_t \<Rightarrow> (bool \<times> net_buffer) res" where
  "headData dbg b base len =
     rbind (resize dbg b (m_writePos b + len)) (\<lambda>(_, b').
     nb_head dbg b' base len)"

definition headNetBuffer :: "bool \<Rightarrow> bool \<Rightarrow> net_buffer \<Rightarrow> net_buffer \<Rightarrow> (bool \<times> net_buffer) res" where
  "headNetBuffer dbg same b buffer =
     (if same then Inr (False, b)
      else headData dbg b (m_buffer buffer) (nb_length buffer))"

text \<open>
  \<open>readBuffer\<close> changes both buffers: the result holds the returned flag, \<open>this\<close> and
  \<open>buffer\<close>.  The bytes it copies start at the pointer \<open>readData\<close> returned.
\<close>

definition readBuffer ::
    "bool \<Rightarrow> bool \<Rightarrow> net_buffer \<Rightarrow> net_buffer \<Rightarrow> (bool \<times> net_buffer \<times> net_buffer) res" where
  "readBuffer dbg same b buffer =
     (if same then Inr (False, b, buffer)
      else if isFull buffer then Inr (False, b, buffer)
      else if \<not> hasWrite b then Inr (False, b, buffer)
      else let len = min (m_writePos b - m_readPos b) (maxLength buffer - m_writePos buffer) in
        rbind (readData dbg b len) (\<lambda>(p, b').
        case p of
          None \<Rightarrow> Inr (False, b', buffer)
        | Some off \<Rightarrow>
            rbind (nb_tail dbg buffer (drop (unat off) (m_buffer b')) len) (\<lambda>(result, buffer').
            Inr (result, b', buffer'))))"

section \<open>POD values\<close>

text \<open>
  The template members copy the object representation of a POD type: its size, the
  bytes of a value and the value of \<open>sizeof\<close> many bytes.
\<close>

record 'a pod =
  pod_size :: nat
  pod_bytes :: "'a \<Rightarrow> bytes"
  pod_value :: "bytes \<Rightarrow> 'a"

definition sizeof :: "'a pod \<Rightarrow> size_t" where
  "sizeof T = of_nat (pod_size T)"

definition tailPod :: "bool \<Rightarrow> 'a pod \<Rightarrow> net_buffer \<Rightarrow> 'a \<Rightarrow> (bool \<times> net_buffer) res" where
  "tailPod dbg T b t = tailData dbg b (pod_bytes T t) (sizeof T)"

definition headPod :: "bool \<Rightarrow> 'a pod \<Rightarrow> net_buffer \<Rightarrow> 'a \<Rightarrow> (bool \<times> net_buffer) res" where
  "headPod dbg T b t = headData dbg b (pod_bytes T t) (sizeof T)"

definition setHeadPod :: "bool \<Rightarrow> 'a pod \<Rightarrow> net_buffer \<Rightarrow> 'a \<Rightarrow> (bool \<times> net_buffer) res" where
  "setHeadPod dbg T b t = setHead dbg b (pod_bytes T t) (sizeof T)"

text \<open>\<open>readPod\<close> returns the flag, the new value of the reference \<open>t\<close> and the buffer.\<close>

definition readPod :: "bool \<Rightarrow> 'a pod \<Rightarrow> net_buffer \<Rightarrow> 'a \<Rightarrow> (bool \<times> 'a \<times> net_buffer) res" where
  "readPod dbg T b t =
     rbind (readData dbg b (sizeof T)) (\<lambda>(p, b').
     case p of
       None \<Rightarrow> Inr (False, t, b')
     | Some off \<Rightarrow>
         rbind (memcpy (replicate (pod_size T) NUL) 0 (m_buffer b') (unat off) (pod_size T)) (\<lambda>m.
         Inr (True, pod_value T m, b')))"

lemmas nb_getters [net_defs] =
  isLock_def nb_lock_def nb_length_def maxLength_def needReadLength_def hasWrite_def hasRead_def
  isFull_def canRead_def

section \<open>Invariant and abstraction\<close>

definition nb_inv :: "net_buffer \<Rightarrow> bool" where
  "nb_inv b \<longleftrightarrow> length (m_buffer b) = unat (m_maxLen b) \<and>
     m_readPos b \<le> m_writePos b \<and> m_writePos b \<le> m_maxLen b \<and>
     unat (m_maxLen b) \<le> PTRDIFF_MAX"

text \<open>The bytes written so far, and those of them no read has consumed.\<close>

definition nb_content :: "net_buffer \<Rightarrow> bytes" where
  "nb_content b = take (unat (m_writePos b)) (m_buffer b)"

definition nb_unread :: "net_buffer \<Rightarrow> bytes" where
  "nb_unread b = drop (unat (m_readPos b)) (nb_content b)"

text \<open>Room for \<open>n\<close> more bytes, doubled by \<open>resize\<close>, in an object the platform can allocate.\<close>

definition nb_room :: "net_buffer \<Rightarrow> nat \<Rightarrow> bool" where
  "nb_room b n \<longleftrightarrow> 2 * (unat (m_writePos b) + n) \<le> PTRDIFF_MAX"

text \<open>Bytes that still fit without growing.\<close>

definition nb_free :: "net_buffer \<Rightarrow> nat" where
  "nb_free b = unat (m_maxLen b) - unat (m_writePos b)"

lemma nb_invD:
  assumes "nb_inv b"
  shows "length (m_buffer b) = unat (m_maxLen b)"
    and "unat (m_readPos b) \<le> unat (m_writePos b)"
    and "unat (m_writePos b) \<le> unat (m_maxLen b)"
    and "unat (m_maxLen b) \<le> PTRDIFF_MAX"
  using assms by (simp_all add: nb_inv_def size_cmp)

lemma nb_invI:
  "length (m_buffer b) = unat (m_maxLen b) \<Longrightarrow> unat (m_readPos b) \<le> unat (m_writePos b) \<Longrightarrow>
   unat (m_writePos b) \<le> unat (m_maxLen b) \<Longrightarrow> unat (m_maxLen b) \<le> PTRDIFF_MAX \<Longrightarrow> nb_inv b"
  by (simp add: nb_inv_def size_cmp)

lemma nb_content_length [simp]: "nb_inv b \<Longrightarrow> length (nb_content b) = unat (m_writePos b)"
  by (simp add: nb_content_def nb_invD)

lemma nb_unread_length [simp]:
  "nb_inv b \<Longrightarrow> length (nb_unread b) = unat (m_writePos b) - unat (m_readPos b)"
  by (simp add: nb_unread_def)

lemma needReadLength_unat:
  "nb_inv b \<Longrightarrow> unat (needReadLength b) = length (nb_unread b)"
  by (simp add: needReadLength_def unat_minus_size nb_inv_def)

lemma hasWrite_iff: "nb_inv b \<Longrightarrow> hasWrite b \<longleftrightarrow> nb_content b \<noteq> []"
  by (simp add: net_defs size_cmp flip: length_greater_0_conv)

lemma hasRead_iff: "nb_inv b \<Longrightarrow> hasRead b \<longleftrightarrow> nb_unread b \<noteq> []"
  using needReadLength_unat [of b]
  by (simp add: hasRead_def size_cmp flip: length_greater_0_conv)

lemma isFull_iff: "nb_inv b \<Longrightarrow> isFull b \<longleftrightarrow> nb_free b = 0"
  by (auto simp: net_defs nb_free_def nb_inv_def size_cmp)

lemma canRead_iff: "nb_inv b \<Longrightarrow> canRead b len \<longleftrightarrow> unat len \<le> length (nb_unread b)"
  by (simp only: canRead_def size_cmp needReadLength_unat)

lemma nb_unread_nil: "nb_content b = [] \<Longrightarrow> nb_unread b = []"
  by (simp add: nb_unread_def)

section \<open>What every operation does\<close>

lemma netBuffer_ok:
  assumes "unat len \<le> PTRDIFF_MAX"
  shows "\<exists>b. netBuffer len = Inr b \<and> nb_inv b \<and> nb_content b = [] \<and> nb_unread b = [] \<and>
           m_readPos b = 0 \<and> m_writePos b = 0 \<and> m_maxLen b = len \<and> \<not> m_lock b"
  using assms by (simp add: netBuffer_def nb_inv_def nb_content_def nb_unread_def)

lemma netBuffer_too_big: "PTRDIFF_MAX < unat len \<Longrightarrow> netBuffer len = Inl NullDeref"
  by (simp add: netBuffer_def malloc0_def)

lemma netBuffer_Inr:
  assumes "netBuffer len = Inr b"
  shows "nb_inv b" "nb_content b = []" "nb_unread b = []" "m_readPos b = 0" "m_writePos b = 0"
    "m_maxLen b = len" "\<not> m_lock b"
  using assms netBuffer_ok [of len] netBuffer_too_big [of len]
  by (cases "unat len \<le> PTRDIFF_MAX"; auto)+

lemma readData_ok:
  assumes inv: "nb_inv b" and n: "unat len \<le> length (nb_unread b)"
  shows "readData dbg b len = Inr (Some (m_readPos b), b\<lparr>m_readPos := m_readPos b + len\<rparr>)"
    and "nb_inv (b\<lparr>m_readPos := m_readPos b + len\<rparr>)"
    and "nb_content (b\<lparr>m_readPos := m_readPos b + len\<rparr>) = nb_content b"
    and "nb_unread (b\<lparr>m_readPos := m_readPos b + len\<rparr>) = drop (unat len) (nb_unread b)"
proof -
  note D = nb_invD [OF inv]
  have u: "unat (m_readPos b + len) = unat (m_readPos b) + unat len"
    using D n inv by (intro unat_plus_size) simp
  show "readData dbg b len = Inr (Some (m_readPos b), b\<lparr>m_readPos := m_readPos b + len\<rparr>)"
    using assms by (simp add: readData_def canRead_iff)
  show "nb_inv (b\<lparr>m_readPos := m_readPos b + len\<rparr>)"
    using D n inv by (intro nb_invI) (simp_all add: u)
  show "nb_content (b\<lparr>m_readPos := m_readPos b + len\<rparr>) = nb_content b"
    by (simp add: nb_content_def)
  then show "nb_unread (b\<lparr>m_readPos := m_readPos b + len\<rparr>) = drop (unat len) (nb_unread b)"
    by (simp add: nb_unread_def u add.commute [of "unat len"])
qed

lemma readData_short:
  assumes "nb_inv b" and "length (nb_unread b) < unat len"
  shows "readData dbg b len = (if dbg then Inl Assertion else Inr (None, b))"
  using assms by (simp add: readData_def canRead_iff)

lemma clearReadBuffer_ok:
  assumes inv: "nb_inv b"
  shows "\<exists>b'. clearReadBuffer dbg b = Inr b' \<and> nb_inv b' \<and> nb_content b' = nb_unread b \<and>
           nb_unread b' = nb_unread b \<and> m_readPos b' = 0 \<and> m_maxLen b' = m_maxLen b \<and>
           m_lock b' = m_lock b"
proof -
  note D = nb_invD [OF inv]
  let ?r = "unat (m_readPos b)" and ?w = "unat (m_writePos b)"
  have le: "m_readPos b \<le> m_writePos b" using inv by (simp add: nb_inv_def)
  have sub: "unat (m_writePos b - m_readPos b) = ?w - ?r" using le by (rule unat_minus_size)
  have mv: "memmove (m_buffer b) 0 ?r (?w - ?r) =
      Inr (take (?w - ?r) (drop ?r (m_buffer b)) @ drop (?w - ?r) (m_buffer b))"
    using D by (simp add: memmove_def memcpy_def)
  let ?b = "b\<lparr>m_buffer := take (?w - ?r) (drop ?r (m_buffer b)) @ drop (?w - ?r) (m_buffer b),
              m_writePos := m_writePos b - m_readPos b, m_readPos := 0\<rparr>"
  have "clearReadBuffer dbg b = Inr ?b"
    using le by (simp add: clearReadBuffer_def sub mv)
  moreover have "nb_inv ?b"
    using D by (intro nb_invI) (simp_all add: sub)
  moreover have c: "nb_content ?b = nb_unread b"
    using D by (simp add: nb_content_def nb_unread_def sub drop_take)
  moreover have "nb_unread ?b = nb_unread b"
    using c by (simp add: nb_unread_def [of ?b])
  ultimately show ?thesis by simp
qed

lemma nb_reset_ok:
  assumes inv: "nb_inv b" and "\<not> m_lock b"
  shows "\<exists>b'. nb_reset dbg b = Inr b' \<and> nb_inv b' \<and> nb_content b' = [] \<and> nb_unread b' = [] \<and>
           m_maxLen b' = m_maxLen b \<and> \<not> m_lock b'"
  using nb_invD [OF inv] assms(2)
  by (simp add: nb_reset_def memset_def nb_inv_def nb_content_def nb_unread_def)

lemma resize_ok:
  assumes inv: "nb_inv b" and unl: "\<not> m_lock b" and room: "2 * unat len \<le> PTRDIFF_MAX"
  shows "\<exists>b'. resize dbg b len = Inr (True, b') \<and> nb_inv b' \<and> nb_content b' = nb_content b \<and>
           m_writePos b' = m_writePos b \<and> m_readPos b' = m_readPos b \<and> \<not> m_lock b' \<and>
           m_maxLen b' = (if len > m_maxLen b then len * 2 else m_maxLen b)"
proof (cases "len > m_maxLen b")
  case False
  then show ?thesis using inv unl by (simp add: resize_def)
next
  case True
  note D = nb_invD [OF inv]
  let ?w = "unat (m_writePos b)"
  have dbl: "unat (len * 2) = 2 * unat len" using room by (rule unat_double_size)
  have gt: "unat (m_maxLen b) < unat len" using True by (simp add: size_cmp)
  let ?m = "take ?w (m_buffer b) @ replicate (2 * unat len - ?w) NUL"
  let ?b = "b\<lparr>m_buffer := ?m, m_maxLen := len * 2\<rparr>"
  have "resize dbg b len = Inr (True, ?b)"
    using True unl room D gt by (simp add: resize_def malloc0_def dbl memcpy_def)
  moreover have "nb_inv ?b"
    using D gt room by (intro nb_invI) (simp_all add: dbl)
  moreover have "nb_content ?b = nb_content b"
    using D by (simp add: nb_content_def)
  ultimately show ?thesis using True unl by simp
qed

text \<open>Appending bytes to the block keeps the invariant; the unread bytes grow at their end.\<close>

lemma nb_append_inv:
  assumes inv: "nb_inv b" and fit: "unat (m_writePos b) + n \<le> unat (m_maxLen b)"
    and m: "length m = length (m_buffer b)"
    and w: "unat w = unat (m_writePos b) + n"
    and pre: "take (unat w) m = nb_content b @ ys"
  shows "nb_inv (b\<lparr>m_buffer := m, m_writePos := w\<rparr>)"
    and "nb_content (b\<lparr>m_buffer := m, m_writePos := w\<rparr>) = nb_content b @ ys"
    and "nb_unread (b\<lparr>m_buffer := m, m_writePos := w\<rparr>) = nb_unread b @ ys"
proof -
  note D = nb_invD [OF inv]
  show "nb_inv (b\<lparr>m_buffer := m, m_writePos := w\<rparr>)"
    using D fit m w by (intro nb_invI) simp_all
  show c: "nb_content (b\<lparr>m_buffer := m, m_writePos := w\<rparr>) = nb_content b @ ys"
    using pre by (simp add: nb_content_def)
  show "nb_unread (b\<lparr>m_buffer := m, m_writePos := w\<rparr>) = nb_unread b @ ys"
    using D inv by (simp add: nb_unread_def c)
qed

lemma writeData_ok:
  assumes inv: "nb_inv b" and n: "unat len \<le> nb_free b"
  shows "writeData dbg b len = Inr (Some (m_writePos b), b\<lparr>m_writePos := m_writePos b + len\<rparr>)"
    and "unat (m_writePos b + len) = unat (m_writePos b) + unat len"
proof -
  note D = nb_invD [OF inv]
  show u: "unat (m_writePos b + len) = unat (m_writePos b) + unat len"
    using D n by (intro unat_plus_size) (simp add: nb_free_def)
  show "writeData dbg b len = Inr (Some (m_writePos b), b\<lparr>m_writePos := m_writePos b + len\<rparr>)"
    using D n by (auto simp: writeData_def size_cmp u nb_free_def)
qed

lemma nb_tail_ok:
  assumes inv: "nb_inv b" and unl: "\<not> m_lock b" and pos: "0 < unat len"
    and fit: "unat len \<le> nb_free b" and src: "unat len \<le> length base"
  shows "\<exists>b'. nb_tail dbg b base len = Inr (True, b') \<and> nb_inv b' \<and>
           nb_content b' = nb_content b @ take (unat len) base \<and>
           nb_unread b' = nb_unread b @ take (unat len) base \<and>
           m_readPos b' = m_readPos b \<and> m_maxLen b' = m_maxLen b \<and> \<not> m_lock b'"
proof -
  note D = nb_invD [OF inv]
  note u = writeData_ok(2) [OF inv fit]
  let ?w = "unat (m_writePos b)"
  let ?m = "take ?w (m_buffer b) @ take (unat len) base @ drop (?w + unat len) (m_buffer b)"
  let ?b = "b\<lparr>m_buffer := ?m, m_writePos := m_writePos b + len\<rparr>"
  have nz: "len \<noteq> 0" using pos by auto
  have le: "len + m_writePos b \<le> m_maxLen b"
    using D fit by (simp add: size_cmp add.commute [of len] u nb_free_def)
  have cp: "memcpy (m_buffer b) ?w base 0 (unat len) = Inr ?m"
    using D fit src by (simp add: memcpy_def nb_free_def)
  have eq: "nb_tail dbg b base len = Inr (True, ?b)"
    using unl nz by (simp add: nb_tail_def le cp)
  have pre: "take (unat (m_writePos b + len)) ?m = nb_content b @ take (unat len) base"
    using D src by (simp add: u nb_content_def)
  have ln: "length ?m = length (m_buffer b)"
    using D fit src by (simp add: nb_free_def)
  have w: "?w + unat len \<le> unat (m_maxLen b)" using D fit by (simp add: nb_free_def)
  note A = nb_append_inv [OF inv w ln u pre]
  show ?thesis using eq A unl by simp
qed

lemma nb_tail_zero: "\<not> m_lock b \<Longrightarrow> nb_tail dbg b base 0 = Inr (False, b)"
  by (simp add: nb_tail_def)

lemma nb_tail_locked:
  "m_lock b \<Longrightarrow> nb_tail dbg b base len = (if dbg then Inl Assertion else Inr (False, b))"
  by (simp add: nb_tail_def)

lemma nb_head_ok:
  assumes inv: "nb_inv b" and unl: "\<not> m_lock b" and pos: "0 < unat len"
    and fit: "unat len \<le> nb_free b" and src: "unat len \<le> length base"
  shows "\<exists>b'. nb_head dbg b base len = Inr (True, b') \<and> nb_inv b' \<and>
           nb_content b' = take (unat len) base @ nb_content b \<and>
           m_readPos b' = m_readPos b \<and> m_maxLen b' = m_maxLen b \<and> \<not> m_lock b'"
proof -
  note D = nb_invD [OF inv]
  note u = writeData_ok(2) [OF inv fit]
  let ?w = "unat (m_writePos b)" and ?n = "unat len"
  have w: "?w + ?n \<le> length (m_buffer b)" using D fit by (simp add: nb_free_def)
  let ?m = "take ?n (m_buffer b) @ take ?w (m_buffer b) @ drop (?n + ?w) (m_buffer b)"
  have mv: "memmove (m_buffer b) ?n 0 ?w = Inr ?m"
    using w by (simp add: memmove_def memcpy_def)
  let ?m' = "take ?n base @ take ?w (m_buffer b) @ drop (?n + ?w) (m_buffer b)"
  have cp: "memcpy ?m 0 base 0 ?n = Inr ?m'"
    using w src by (simp add: memcpy_def)
  let ?b = "b\<lparr>m_buffer := ?m', m_writePos := m_writePos b + len\<rparr>"
  have nz: "len \<noteq> 0" using pos by auto
  have le: "len + m_writePos b \<le> m_maxLen b"
    using D w by (simp add: size_cmp add.commute [of len] u)
  have "nb_head dbg b base len = Inr (True, ?b)"
    using unl nz by (simp add: nb_head_def le mv cp)
  moreover have "nb_inv ?b"
    using D w src by (intro nb_invI) (simp_all add: u)
  moreover have "nb_content ?b = take ?n base @ nb_content b"
    using D w src by (simp add: nb_content_def u)
  ultimately show ?thesis using unl by simp
qed

lemma setHead_ok:
  assumes inv: "nb_inv b" and unl: "\<not> m_lock b"
    and len: "unat len \<le> length (nb_content b)" and src: "unat len \<le> length base"
  shows "\<exists>b'. setHead dbg b base len = Inr (True, b') \<and> nb_inv b' \<and>
           nb_content b' = take (unat len) base @ drop (unat len) (nb_content b) \<and>
           m_readPos b' = m_readPos b \<and> m_writePos b' = m_writePos b \<and>
           m_maxLen b' = m_maxLen b \<and> \<not> m_lock b'"
proof -
  note D = nb_invD [OF inv]
  let ?n = "unat len"
  have n: "?n \<le> unat (m_writePos b)" using len inv by simp
  let ?m = "take ?n base @ drop ?n (m_buffer b)"
  have cp: "memcpy (m_buffer b) 0 base 0 ?n = Inr ?m"
    using D n src by (simp add: memcpy_def)
  have "setHead dbg b base len = Inr (True, b\<lparr>m_buffer := ?m\<rparr>)"
    using unl n by (simp add: setHead_def size_cmp cp)
  moreover have "nb_inv (b\<lparr>m_buffer := ?m\<rparr>)"
    using D n src by (intro nb_invI) simp_all
  moreover have "nb_content (b\<lparr>m_buffer := ?m\<rparr>) = take ?n base @ drop ?n (nb_content b)"
    using n src by (simp add: nb_content_def drop_take)
  ultimately show ?thesis using unl by simp
qed

lemma setHead_short:
  assumes "nb_inv b" and "\<not> m_lock b" and "length (nb_content b) < unat len"
  shows "setHead dbg b base len = (if dbg then Inl Assertion else Inr (False, b))"
  using assms by (simp add: setHead_def size_cmp)

text \<open>The capacity after room for \<open>n\<close> more bytes was asked for: twice the need, if it grew.\<close>

definition nb_cap_after :: "net_buffer \<Rightarrow> size_t \<Rightarrow> size_t" where
  "nb_cap_after b len =
     (if m_writePos b + len > m_maxLen b then (m_writePos b + len) * 2 else m_maxLen b)"

lemma resize_for_ok:
  assumes inv: "nb_inv b" and unl: "\<not> m_lock b" and room: "nb_room b (unat len)"
  shows "\<exists>b'. resize dbg b (m_writePos b + len) = Inr (True, b') \<and> nb_inv b' \<and>
           nb_content b' = nb_content b \<and> nb_unread b' = nb_unread b \<and>
           m_writePos b' = m_writePos b \<and> m_readPos b' = m_readPos b \<and>
           \<not> m_lock b' \<and> m_maxLen b' = nb_cap_after b len \<and> unat len \<le> nb_free b'"
proof -
  note D = nb_invD [OF inv]
  have u: "unat (m_writePos b + len) = unat (m_writePos b) + unat len"
    using room by (intro unat_plus_size) (simp add: nb_room_def)
  have r2: "2 * unat (m_writePos b + len) \<le> PTRDIFF_MAX"
    using room by (simp add: u nb_room_def)
  obtain b' where b': "resize dbg b (m_writePos b + len) = Inr (True, b')" "nb_inv b'"
      "nb_content b' = nb_content b" "m_writePos b' = m_writePos b" "m_readPos b' = m_readPos b"
      "\<not> m_lock b'" "m_maxLen b' = nb_cap_after b len"
    using resize_ok [OF inv unl r2, of dbg] unfolding nb_cap_after_def by blast
  have "unat (m_writePos b) + unat len \<le> unat (m_maxLen b')"
    using D unat_double_size [OF r2]
    by (auto simp: b'(7) nb_cap_after_def size_cmp u)
  then show ?thesis using b' by (simp add: nb_free_def nb_unread_def)
qed

lemma tailData_ok:
  assumes inv: "nb_inv b" and unl: "\<not> m_lock b" and pos: "0 < unat len"
    and room: "nb_room b (unat len)" and src: "unat len \<le> length base"
  shows "\<exists>b'. tailData dbg b base len = Inr (True, b') \<and> nb_inv b' \<and>
           nb_content b' = nb_content b @ take (unat len) base \<and>
           nb_unread b' = nb_unread b @ take (unat len) base \<and>
           m_readPos b' = m_readPos b \<and> m_maxLen b' = nb_cap_after b len \<and> \<not> m_lock b'"
proof -
  obtain b1 where b1: "resize dbg b (m_writePos b + len) = Inr (True, b1)" "nb_inv b1"
      "nb_content b1 = nb_content b" "nb_unread b1 = nb_unread b" "m_readPos b1 = m_readPos b"
      "\<not> m_lock b1" "m_maxLen b1 = nb_cap_after b len" "unat len \<le> nb_free b1"
    using resize_for_ok [OF inv unl room, of dbg] by blast
  from nb_tail_ok [OF b1(2) b1(6) pos b1(8) src, of dbg] show ?thesis
    by (auto simp: tailData_def b1)
qed

lemma tailData_empty:
  assumes inv: "nb_inv b" and unl: "\<not> m_lock b"
  shows "tailData dbg b base 0 = Inr (False, b)"
  using assms by (simp add: tailData_def resize_def nb_inv_def nb_tail_zero flip: not_le)

lemma tailData_locked:
  "m_lock b \<Longrightarrow> tailData dbg b base len = (if dbg then Inl Assertion else Inr (False, b))"
  by (simp add: tailData_def resize_def nb_tail_locked)

lemma headData_ok:
  assumes inv: "nb_inv b" and unl: "\<not> m_lock b" and pos: "0 < unat len"
    and room: "nb_room b (unat len)" and src: "unat len \<le> length base"
  shows "\<exists>b'. headData dbg b base len = Inr (True, b') \<and> nb_inv b' \<and>
           nb_content b' = take (unat len) base @ nb_content b \<and>
           m_readPos b' = m_readPos b \<and> m_maxLen b' = nb_cap_after b len \<and> \<not> m_lock b'"
proof -
  obtain b1 where b1: "resize dbg b (m_writePos b + len) = Inr (True, b1)" "nb_inv b1"
      "nb_content b1 = nb_content b" "m_readPos b1 = m_readPos b"
      "\<not> m_lock b1" "m_maxLen b1 = nb_cap_after b len" "unat len \<le> nb_free b1"
    using resize_for_ok [OF inv unl room, of dbg] by blast
  from nb_head_ok [OF b1(2) b1(5) pos b1(7) src, of dbg] show ?thesis
    by (auto simp: headData_def b1)
qed

text \<open>The number of bytes \<open>readBuffer\<close> moves.\<close>

definition nb_moved :: "net_buffer \<Rightarrow> net_buffer \<Rightarrow> nat" where
  "nb_moved b buffer = min (length (nb_unread b)) (nb_free buffer)"

lemma nb_moved_word:
  assumes "nb_inv b" and "nb_inv buffer"
  shows "unat (min (m_writePos b - m_readPos b) (maxLength buffer - m_writePos buffer)) =
         nb_moved b buffer"
proof -
  have "unat (m_writePos b - m_readPos b) = length (nb_unread b)"
    using needReadLength_unat [OF assms(1)] by (simp add: needReadLength_def)
  moreover have "unat (m_maxLen buffer - m_writePos buffer) = nb_free buffer"
    using assms(2) by (simp add: nb_free_def nb_inv_def unat_minus_size)
  ultimately show ?thesis
    by (simp add: nb_moved_def maxLength_def min_def size_cmp)
qed

lemma readBuffer_ok:
  assumes inv: "nb_inv b" and inv': "nb_inv buffer" and unl: "\<not> m_lock buffer"
  shows "\<exists>b' buffer'.
     readBuffer dbg False b buffer = Inr (0 < nb_moved b buffer, b', buffer') \<and>
     nb_inv b' \<and> nb_inv buffer' \<and>
     nb_unread b' = drop (nb_moved b buffer) (nb_unread b) \<and>
     nb_content buffer' = nb_content buffer @ take (nb_moved b buffer) (nb_unread b) \<and>
     nb_unread buffer' = nb_unread buffer @ take (nb_moved b buffer) (nb_unread b) \<and>
     nb_content b' = nb_content b \<and> m_maxLen b' = m_maxLen b \<and> m_lock b' = m_lock b \<and>
     m_maxLen buffer' = m_maxLen buffer \<and> m_readPos buffer' = m_readPos buffer \<and>
     \<not> m_lock buffer'"
proof (cases "isFull buffer \<or> \<not> hasWrite b")
  case True
  then have "nb_moved b buffer = 0"
    using inv inv' by (auto simp: isFull_iff hasWrite_iff nb_moved_def nb_unread_nil simp del: nb_unread_length)
  moreover from True have "readBuffer dbg False b buffer = Inr (False, b, buffer)"
    by (auto simp: readBuffer_def)
  ultimately show ?thesis using inv inv' unl by simp
next
  case False
  define len where
    "len = min (m_writePos b - m_readPos b) (maxLength buffer - m_writePos buffer)"
  have ulen: "unat len = nb_moved b buffer"
    unfolding len_def using inv inv' by (rule nb_moved_word)
  have fits: "unat len \<le> length (nb_unread b)" "unat len \<le> nb_free buffer"
    by (simp_all add: ulen nb_moved_def)
  let ?b = "b\<lparr>m_readPos := m_readPos b + len\<rparr>"
  let ?src = "drop (unat (m_readPos b)) (m_buffer b)"
  note R = readData_ok [OF inv fits(1)]
  have eq: "readBuffer dbg False b buffer =
      rbind (nb_tail dbg buffer ?src len) (\<lambda>(result, buffer'). Inr (result, ?b, buffer'))"
    using False by (simp add: readBuffer_def len_def [symmetric] R(1))
  have pre: "take (unat len) ?src = take (unat len) (nb_unread b)"
    using fits(1) inv nb_invD [OF inv]
    by (simp add: nb_unread_def nb_content_def take_drop_take)
  show ?thesis
  proof (cases "unat len = 0")
    case True
    then have "len = 0" by (simp add: size_cmp)
    with True show ?thesis
      using eq R inv inv' unl ulen by (simp add: nb_tail_zero)
  next
    case pos: False
    have src: "unat len \<le> length ?src"
      using fits(1) inv nb_invD [OF inv] by simp
    obtain t where "nb_tail dbg buffer ?src len = Inr (True, t)" "nb_inv t"
        "nb_content t = nb_content buffer @ take (unat len) ?src"
        "nb_unread t = nb_unread buffer @ take (unat len) ?src"
        "m_readPos t = m_readPos buffer" "m_maxLen t = m_maxLen buffer" "\<not> m_lock t"
      using nb_tail_ok [OF inv' unl _ fits(2) src, of dbg] pos by blast
    then show ?thesis using eq R pos by (simp add: ulen pre [unfolded ulen])
  qed
qed

text \<open>A fresh buffer of the same capacity filled with the bytes written: what every \<open>clone\<close> does.\<close>

lemma copy_buffer_ok:
  assumes inv: "nb_inv d" and room: "2 * length (nb_content d) \<le> PTRDIFF_MAX"
  shows "\<exists>d0 x d'. netBuffer (maxLength d) = Inr d0 \<and>
           tailData dbg d0 (m_buffer d) (nb_length d) = Inr (x, d') \<and> nb_inv d' \<and>
           nb_content d' = nb_content d \<and> nb_unread d' = nb_content d \<and>
           m_readPos d' = 0 \<and> m_maxLen d' = m_maxLen d \<and> \<not> m_lock d'"
proof -
  note D = nb_invD [OF inv]
  obtain d0 where d0: "netBuffer (maxLength d) = Inr d0" "nb_inv d0" "nb_content d0 = []"
      "nb_unread d0 = []" "m_readPos d0 = 0" "m_writePos d0 = 0" "m_maxLen d0 = m_maxLen d" "\<not> m_lock d0"
    using netBuffer_ok [of "maxLength d"] D unfolding maxLength_def by auto
  show ?thesis
  proof (cases "m_writePos d = 0")
    case True
    then show ?thesis
      using d0 tailData_empty [OF d0(2,8)] by (auto simp: nb_length_def nb_content_def)
  next
    case False
    have "nb_cap_after d0 (nb_length d) = m_maxLen d"
      using inv d0 by (auto simp: nb_cap_after_def nb_length_def nb_inv_def)
    moreover have "0 < unat (nb_length d)" "unat (nb_length d) \<le> length (m_buffer d)"
      "nb_room d0 (unat (nb_length d))"
      using False D d0 room inv by (simp_all add: nb_length_def unat_gt_0 nb_room_def)
    moreover have "take (unat (nb_length d)) (m_buffer d) = nb_content d"
      by (simp add: nb_length_def nb_content_def)
    ultimately show ?thesis
      using d0 tailData_ok [OF d0(2,8), of "nb_length d" "m_buffer d" dbg] by auto
  qed
qed

text \<open>What is appended to a fresh buffer is all it holds.\<close>

lemma fresh_push_ok:
  assumes "unat cap \<le> PTRDIFF_MAX" and len: "unat len = length data"
    and room: "2 * length data \<le> PTRDIFF_MAX"
  shows "\<exists>d0 x d. netBuffer cap = Inr d0 \<and> tailData dbg d0 data len = Inr (x, d) \<and>
           nb_inv d \<and> \<not> m_lock d \<and> nb_unread d = data"
proof -
  obtain d0 where d0: "netBuffer cap = Inr d0" "nb_inv d0" "nb_content d0 = []" "nb_unread d0 = []"
      "m_writePos d0 = 0" "\<not> m_lock d0"
    using netBuffer_ok [OF assms(1)] by blast
  show ?thesis
  proof (cases "data = []")
    case True
    then have "len = 0" using len by (simp add: size_cmp)
    then show ?thesis using tailData_empty [OF d0(2,6)] d0 True by auto
  next
    case False
    then show ?thesis
      using tailData_ok [OF d0(2,6), of len data dbg] len room d0 by (auto simp: nb_room_def)
  qed
qed

section \<open>The contract of a POD type\<close>

text \<open>
  What the template members rely on: every value has \<open>sizeof\<close> many bytes, and reading
  these bytes back gives the value.  Inside the contract: what is appended, prepended or
  overwritten is the object representation, and \<open>readPod\<close> consumes exactly that.
\<close>

locale pod_type =
  fixes T :: "'a pod"
  assumes size_pos: "0 < pod_size T"
    and size_small: "pod_size T \<le> 1024"
    and bytes_length: "length (pod_bytes T t) = pod_size T"
    and value_bytes: "pod_value T (pod_bytes T t) = t"
begin

lemma unat_sizeof: "unat (sizeof T) = pod_size T"
  unfolding sizeof_def using size_small by (intro unat_of_nat_size) (simp add: PTRDIFF_MAX_def)

lemma tailPod_ok:
  assumes "nb_inv b" and "\<not> m_lock b" and "nb_room b (pod_size T)"
  shows "\<exists>b'. tailPod dbg T b t = Inr (True, b') \<and> nb_inv b' \<and>
           nb_content b' = nb_content b @ pod_bytes T t \<and>
           nb_unread b' = nb_unread b @ pod_bytes T t \<and>
           m_readPos b' = m_readPos b \<and> m_maxLen b' = nb_cap_after b (sizeof T) \<and> \<not> m_lock b'"
  using tailData_ok [of b "sizeof T" "pod_bytes T t" dbg] assms size_pos
  by (simp add: tailPod_def unat_sizeof bytes_length)

lemma headPod_ok:
  assumes "nb_inv b" and "\<not> m_lock b" and "nb_room b (pod_size T)"
  shows "\<exists>b'. headPod dbg T b t = Inr (True, b') \<and> nb_inv b' \<and>
           nb_content b' = pod_bytes T t @ nb_content b \<and>
           m_readPos b' = m_readPos b \<and> m_maxLen b' = nb_cap_after b (sizeof T) \<and> \<not> m_lock b'"
  using headData_ok [of b "sizeof T" "pod_bytes T t" dbg] assms size_pos
  by (simp add: headPod_def unat_sizeof bytes_length)

lemma setHeadPod_ok:
  assumes "nb_inv b" and "\<not> m_lock b" and "pod_size T \<le> length (nb_content b)"
  shows "\<exists>b'. setHeadPod dbg T b t = Inr (True, b') \<and> nb_inv b' \<and>
           nb_content b' = pod_bytes T t @ drop (pod_size T) (nb_content b) \<and>
           m_readPos b' = m_readPos b \<and> m_writePos b' = m_writePos b \<and>
           m_maxLen b' = m_maxLen b \<and> \<not> m_lock b'"
  using setHead_ok [of b "sizeof T" "pod_bytes T t" dbg] assms
  by (simp add: setHeadPod_def unat_sizeof bytes_length)

lemma readPod_ok:
  assumes inv: "nb_inv b" and len: "pod_size T \<le> length (nb_unread b)"
  shows "\<exists>b'. readPod dbg T b t = Inr (True, pod_value T (take (pod_size T) (nb_unread b)), b') \<and>
           nb_inv b' \<and> nb_unread b' = drop (pod_size T) (nb_unread b) \<and>
           nb_content b' = nb_content b \<and> m_maxLen b' = m_maxLen b \<and> m_lock b' = m_lock b"
proof -
  have n: "unat (sizeof T) \<le> length (nb_unread b)" using len by (simp add: unat_sizeof)
  note R = readData_ok [OF inv n]
  note D = nb_invD [OF inv]
  have "memcpy (replicate (pod_size T) NUL) 0 (m_buffer b) (unat (m_readPos b)) (pod_size T) =
        Inr (take (pod_size T) (nb_unread b))"
    using D len size_pos inv by (simp add: memcpy_def nb_unread_def nb_content_def take_drop_take)
  then show ?thesis using R by (simp add: readPod_def unat_sizeof)
qed

lemma readPod_short:
  assumes "nb_inv b" and "length (nb_unread b) < pod_size T"
  shows "readPod dbg T b t = (if dbg then Inl Assertion else Inr (False, t, b))"
  using assms by (simp add: readPod_def readData_short unat_sizeof)

text \<open>A value written into an empty buffer is read back, and nothing of it is left.\<close>

lemma tailPod_readPod:
  assumes b: "nb_inv b" "\<not> m_lock b" "nb_room b (pod_size T)" and e: "nb_unread b = []"
    and w: "tailPod dbg T b t = Inr (r, b1)"
  shows "\<exists>b2. readPod dbg T b1 t0 = Inr (True, t, b2) \<and> nb_unread b2 = []"
proof -
  have b1: "nb_inv b1" "nb_unread b1 = pod_bytes T t"
    using tailPod_ok [OF b, of dbg t] w e by auto
  have "pod_size T \<le> length (nb_unread b1)" by (simp add: b1(2) bytes_length)
  from readPod_ok [OF b1(1) this, of dbg t0] show ?thesis
    by (auto simp: b1(2) bytes_length value_bytes)
qed

end

section \<open>Byte representations of the POD types in use\<close>

text \<open>
  Little-endian object representations on the 64-bit platforms the library is built for:
  \<open>unsigned int\<close>, \<open>int\<close> and the enumeration \<open>reply_t : unsigned int\<close> take four bytes.
\<close>

definition le32 :: "uint32 \<Rightarrow> bytes" where
  "le32 w = [char_of (unat w mod 256), char_of (unat w div 256 mod 256),
             char_of (unat w div 65536 mod 256), char_of (unat w div 16777216)]"

fun of_le :: "bytes \<Rightarrow> nat" where
  "of_le [] = 0"
| "of_le (c # cs) = of_char c + 256 * of_le cs"

definition le16 :: "uint16 \<Rightarrow> bytes" where
  "le16 w = [char_of (unat w mod 256), char_of (unat w div 256)]"

definition uint_pod :: "uint32 pod" where
  "uint_pod = \<lparr>pod_size = 4, pod_bytes = le32, pod_value = (\<lambda>m. of_nat (of_le m))\<rparr>"

lemma le32_length [simp]: "length (le32 w) = 4"
  by (simp add: le32_def)

lemma le16_length [simp]: "length (le16 w) = 2"
  by (simp add: le16_def)

lemma of_le_le32 [simp]: "of_le (le32 w) = unat w"
proof -
  have "unat w < 4294967296" using unsigned_less [of w] by simp
  then have "unat w div 16777216 mod 256 = unat w div 16777216" by simp
  moreover have "n = n mod 256 + 256 * (n div 256 mod 256 +
      256 * (n div 65536 mod 256 + 256 * (n div 16777216)))" for n :: nat
  proof -
    have "n div 65536 = n div 256 div 256" "n div 16777216 = n div 256 div 256 div 256"
      by (simp_all flip: div_mult2_eq)
    then show ?thesis by (simp only: mod_mult_div_eq mult.commute [of 256] mod_div_mult_eq)
  qed
  ultimately show ?thesis by (simp add: le32_def)
qed

lemma of_le_le16 [simp]: "of_le (le16 w) = unat w"
proof -
  have "unat w < 65536" using unsigned_less [of w] by simp
  then have "unat w div 256 mod 256 = unat w div 256" by simp
  moreover have "unat w = unat w mod 256 + 256 * (unat w div 256)" by simp
  ultimately show ?thesis by (simp add: le16_def)
qed

interpretation uint: pod_type uint_pod
  by unfold_locales (simp_all add: uint_pod_def)

end
