(* ===== verification/Net_Block.thy ===== *)
theory Net_Block
  imports Net_Buffer
begin

text \<open>
  Messages: the base class \<open>NetBlockBase\<close> of \<open>include/net_buffer.h\<close> and the default
  message \<open>NetBlock\<close> of \<open>src/block.h\<close> and \<open>src/block.cpp\<close>, whose bytes on the wire are a
  12-byte header that holds the total length, followed by the body.  The derived class is
  the record extended by the field it adds.

  The lemmas give the bytes a sent message consists of, the exact outcome of \<open>recv\<close> on
  every amount of available data, and the stream view used by the connection: \<open>recv\<close> takes
  the next frame off the concatenation of what the message already holds and what is in
  the receive buffer, however the stream was cut.
\<close>

section \<open>State and member functions\<close>

record head =
  h_len :: uint32
  h_mask :: uint16
  h_check :: uint32

text \<open>
  The object representation of \<open>head\<close>: \<open>_len\<close> at offset 0, \<open>_mask\<close> at 4, two padding
  bytes (zero since the constructors' \<open>memset\<close>), \<open>_check\<close> at 8; 12 bytes in all.
\<close>

definition head_bytes :: "head \<Rightarrow> bytes" where
  "head_bytes h = le32 (h_len h) @ le16 (h_mask h) @ [NUL, NUL] @ le32 (h_check h)"

definition head_value :: "bytes \<Rightarrow> head" where
  "head_value m = \<lparr>h_len = of_nat (of_le (take 4 m)), h_mask = of_nat (of_le (take 2 (drop 4 m))),
                   h_check = of_nat (of_le (take 4 (drop 8 m)))\<rparr>"

definition head_pod :: "head pod" where
  "head_pod = \<lparr>pod_size = 12, pod_bytes = head_bytes, pod_value = head_value\<rparr>"

definition zero_head :: head where
  "zero_head = \<lparr>h_len = 0, h_mask = 0, h_check = 0\<rparr>"

datatype block_state = STATE_INIT | STATE_BODY | STATE_DONE

record block_base =
  m_data :: bufferPtr
  m_state :: block_state
  m_session :: session_id

text \<open>The constructor allocates \<open>new NetBuffer(s)\<close>: the session id, not the size.\<close>

definition netBlockBase :: "session_id \<Rightarrow> size_t \<Rightarrow> block_base res" where
  "netBlockBase s sz =
     (if sz > 0
      then rbind (netBuffer s) (\<lambda>p. Inr \<lparr>m_data = Some p, m_state = STATE_INIT, m_session = s\<rparr>)
      else Inr \<lparr>m_data = None, m_state = STATE_INIT, m_session = s\<rparr>)"

definition headDone :: "'a block_base_scheme \<Rightarrow> bool" where
  "headDone b \<longleftrightarrow> m_state b = STATE_BODY"

definition bodyDone :: "'a block_base_scheme \<Rightarrow> bool" where
  "bodyDone b \<longleftrightarrow> m_state b = STATE_DONE"

record net_block = block_base +
  m_head :: head

text \<open>\<open>NetBlock(s)\<close> and \<open>NetBlock(s, size)\<close>; the latter reserves the header at the front.\<close>

definition netBlock_nosize :: "session_id \<Rightarrow> net_block res" where
  "netBlock_nosize s =
     rbind (netBlockBase s 0) (\<lambda>b.
     Inr (block_base.extend b (net_block.fields zero_head)))"

definition netBlock :: "bool \<Rightarrow> session_id \<Rightarrow> size_t \<Rightarrow> net_block res" where
  "netBlock dbg s sz =
     rbind (netBlockBase s (if sz > 0 then sz + sizeof head_pod else 0)) (\<lambda>b0.
     let b = block_base.extend b0 (net_block.fields zero_head) in
     case m_data b of
       None \<Rightarrow> Inr b
     | Some d \<Rightarrow>
         rbind (tailPod dbg head_pod d (m_head b)) (\<lambda>(_, d').
         Inr (b\<lparr>m_data := Some d'\<rparr>)))"

definition sMakeDefaultBlock :: "bool \<Rightarrow> session_id \<Rightarrow> size_t \<Rightarrow> net_block res" where
  "sMakeDefaultBlock dbg s sz = netBlock dbg s sz"

text \<open>The virtual \<open>clone\<close>: a new block for session \<open>s\<close> with a copy of the bytes.\<close>

definition netBlock_clone :: "bool \<Rightarrow> net_block \<Rightarrow> session_id \<Rightarrow> net_block res" where
  "netBlock_clone dbg b s =
     rbind (netBlock_nosize s) (\<lambda>p.
     rbind (deref (m_data b)) (\<lambda>d.
     rbind (netBuffer (maxLength d)) (\<lambda>d0.
     rbind (tailData dbg d0 (m_buffer d) (nb_length d)) (\<lambda>(_, d').
     Inr (p\<lparr>m_head := m_head b, m_state := m_state b, m_data := Some d'\<rparr>)))))"

text \<open>An encryption hook: a null \<open>DecryptEncryptFunType\<close> or a function on the block.\<close>

type_synonym crypt_fun = "(net_block \<Rightarrow> net_block) option"

definition apply_crypt :: "crypt_fun \<Rightarrow> net_block \<Rightarrow> net_block" where
  "apply_crypt fn b = (case fn of None \<Rightarrow> b | Some f \<Rightarrow> f b)"

definition encrypt :: "bool \<Rightarrow> crypt_fun \<Rightarrow> net_block \<Rightarrow> net_block res" where
  "encrypt dbg fn b =
     rbind (deref (m_data b)) (\<lambda>d.
     let b1 = b\<lparr>m_head := \<lparr>h_len = ucast (nb_length d), h_mask = 0, h_check = 0\<rparr>\<rparr>;
         b2 = apply_crypt fn b1 in
     rbind (deref (m_data b2)) (\<lambda>d2.
     rbind (setHeadPod dbg head_pod d2 (m_head b2)) (\<lambda>(_, d3).
     Inr (b2\<lparr>m_data := Some d3\<rparr>))))"

definition netBlock_push :: "bool \<Rightarrow> net_block \<Rightarrow> bytes \<Rightarrow> size_t \<Rightarrow> (bool \<times> net_block) res" where
  "netBlock_push dbg b data len =
     (case m_data b of
        None \<Rightarrow> Inr (True, b)
      | Some d \<Rightarrow>
          rbind (tailData dbg d data len) (\<lambda>(_, d').
          rbind (encrypt dbg None (b\<lparr>m_data := Some d'\<rparr>)) (\<lambda>b'.
          Inr (True, b'))))"

definition recvBody ::
    "bool \<Rightarrow> crypt_fun \<Rightarrow> net_block \<Rightarrow> net_buffer \<Rightarrow> (bool \<times> net_block \<times> net_buffer) res" where
  "recvBody dbg fn b buf =
     (if m_state b = STATE_BODY then
        let len = (ucast (h_len (m_head b)) :: size_t) - sizeof head_pod in
        rbind (case m_data b of None \<Rightarrow> netBuffer len | Some d \<Rightarrow> Inr d) (\<lambda>d.
        rbind (readBuffer dbg False buf d) (\<lambda>(_, buf1, d1).
        rbind (clearReadBuffer dbg buf1) (\<lambda>buf2.
        if isFull d1 then
          let b1 = apply_crypt fn (b\<lparr>m_data := Some d1, m_state := STATE_DONE\<rparr>) in
          rbind (deref (m_data b1)) (\<lambda>d2.
          let b2 = b1\<lparr>m_data := Some (snd (nb_lock d2))\<rparr> in
          Inr (h_check (m_head b2) = 0, b2, buf2))
        else Inr (False, b\<lparr>m_data := Some d1\<rparr>, buf2))))
      else Inr (False, b, buf))"

definition recvHead ::
    "bool \<Rightarrow> crypt_fun \<Rightarrow> net_block \<Rightarrow> net_buffer \<Rightarrow> (bool \<times> net_block \<times> net_buffer) res" where
  "recvHead dbg fn b buf =
     (if m_state b = STATE_INIT then
        rbind (readPod dbg head_pod buf (m_head b)) (\<lambda>(ok, h, buf1).
        if ok then
          rbind (clearReadBuffer dbg buf1) (\<lambda>buf2.
          recvBody dbg fn (b\<lparr>m_head := h, m_state := STATE_BODY\<rparr>) buf2)
        else Inr (False, b\<lparr>m_head := h\<rparr>, buf1))
      else recvBody dbg fn b buf)"

definition netBlock_recv ::
    "bool \<Rightarrow> net_block \<Rightarrow> bufferPtr \<Rightarrow> (bool \<times> net_block \<times> bufferPtr) res" where
  "netBlock_recv dbg b buf =
     rbind (MYASSERT dbg (buf \<noteq> None)) (\<lambda>_.
     case buf of
       None \<Rightarrow> Inr (False, b, None)
     | Some bf \<Rightarrow>
         rbind (recvHead dbg None b bf) (\<lambda>(r, b', bf'). Inr (r, b', Some bf')))"

section \<open>The header as a POD type\<close>

lemma head_bytes_length [simp]: "length (head_bytes h) = 12"
  by (simp add: head_bytes_def)

lemma head_value_bytes [simp]: "head_value (head_bytes h) = h"
proof -
  have t: "take 4 (le32 x @ ys) = le32 x" "drop 4 (le32 x @ ys) = ys"
    "take 4 (le32 x) = le32 x" "take 2 (le16 z @ ys) = le16 z"
    "drop 8 (le32 x @ le16 z @ a # b # ys) = ys" for x z ys a b
    by (simp_all add: le32_def le16_def)
  show ?thesis by (simp add: head_value_def head_bytes_def t)
qed

interpretation headp: pod_type head_pod
  by unfold_locales (simp_all add: head_pod_def)

lemma head_pod_simps [simp]:
  "pod_size head_pod = 12" "pod_bytes head_pod = head_bytes" "pod_value head_pod = head_value"
  by (simp_all add: head_pod_def)

lemma unat_sizeof_head [simp]: "unat (sizeof head_pod) = 12"
  using headp.unat_sizeof by simp

section \<open>Frames on a byte stream\<close>

text \<open>
  The length field of the first header of a stream; whether a whole frame is there; the
  body of the first frame; and the stream cut into the bodies of its complete frames and
  the rest.  A header whose length field is below the header size is malformed.
\<close>

definition frame_total :: "bytes \<Rightarrow> nat" where
  "frame_total s = unat (h_len (head_value (take 12 s)))"

definition frame_ready :: "bytes \<Rightarrow> bool" where
  "frame_ready s \<longleftrightarrow> 12 \<le> length s \<and> frame_total s \<le> length s"

definition frame_body :: "bytes \<Rightarrow> bytes" where
  "frame_body s = take (frame_total s - 12) (drop 12 s)"

definition malformed :: "bytes \<Rightarrow> bool" where
  "malformed s \<longleftrightarrow> 12 \<le> length s \<and> frame_total s < 12"

function deframe :: "bytes \<Rightarrow> bytes list \<times> bytes" where
  "deframe s =
     (if frame_ready s \<and> \<not> malformed s
      then let (ms, r) = deframe (drop (frame_total s) s) in (frame_body s # ms, r)
      else ([], s))"
  by pat_completeness auto
termination
  by (relation "measure length") (auto simp: frame_ready_def malformed_def)

declare deframe.simps [simp del]

definition frame_of :: "bytes \<Rightarrow> bytes" where
  "frame_of body = head_bytes \<lparr>h_len = of_nat (12 + length body), h_mask = 0, h_check = 0\<rparr> @ body"

lemma frame_total_append [simp]: "12 \<le> length s \<Longrightarrow> frame_total (s @ t) = frame_total s"
  by (simp add: frame_total_def)

lemma frame_total_head [simp]: "frame_total (head_bytes h @ t) = unat (h_len h)"
  by (simp add: frame_total_def)

lemma unat_of_nat32: "n < 2 ^ 32 \<Longrightarrow> unat (of_nat n :: uint32) = n"
  by (simp add: unat_of_nat take_bit_nat_eq_self)

lemma deframe_not_ready: "\<not> frame_ready s \<Longrightarrow> deframe s = ([], s)"
  by (simp add: deframe.simps)

lemma deframe_malformed: "malformed s \<Longrightarrow> deframe s = ([], s)"
  by (simp add: deframe.simps)

lemma deframe_ready:
  "frame_ready s \<Longrightarrow> \<not> malformed s \<Longrightarrow>
   deframe s = (frame_body s # fst (deframe (drop (frame_total s) s)),
                snd (deframe (drop (frame_total s) s)))"
  by (simp add: deframe.simps [of s] case_prod_unfold Let_def)

lemma deframe_frame:
  assumes "12 + length body < 2 ^ 32"
  shows "deframe (frame_of body @ s) = (body # fst (deframe s), snd (deframe s))"
proof -
  have t: "frame_total (frame_of body @ s) = 12 + length body"
    using assms unat_of_nat32 [of "12 + length body"] by (simp add: frame_of_def)
  have "frame_ready (frame_of body @ s)" "\<not> malformed (frame_of body @ s)"
    using t by (simp_all add: frame_ready_def malformed_def frame_of_def)
  moreover have "frame_body (frame_of body @ s) = body"
    by (simp add: frame_body_def t) (simp add: frame_of_def)
  moreover have "drop (12 + length body) (frame_of body @ s) = s"
    by (simp add: frame_of_def)
  ultimately show ?thesis
    using t by (simp add: deframe_ready)
qed

text \<open>Cutting a stream into frames can be done piecewise: the rest of one part is put before the next.\<close>

lemma deframe_append:
  "deframe (s @ t) =
     (fst (deframe s) @ fst (deframe (snd (deframe s) @ t)), snd (deframe (snd (deframe s) @ t)))"
proof (induction s rule: deframe.induct)
  case (1 s)
  show ?case
  proof (cases "frame_ready s \<and> \<not> malformed s")
    case False
    then have "deframe s = ([], s)" by (auto intro: deframe_not_ready deframe_malformed)
    then show ?thesis by simp
  next
    case True
    then have "frame_ready (s @ t) \<and> \<not> malformed (s @ t)" "frame_total (s @ t) = frame_total s"
      "frame_body (s @ t) = frame_body s" "frame_total s \<le> length s"
      by (auto simp: frame_ready_def malformed_def frame_body_def)
    then show ?thesis
      using True "1.IH" by (simp add: deframe_ready)
  qed
qed

lemma deframe_frames:
  assumes "\<forall>b \<in> set bodies. 12 + length b < 2 ^ 32"
  shows "deframe (concat (map frame_of bodies) @ s) = (bodies @ fst (deframe s), snd (deframe s))"
  using assms by (induction bodies) (simp_all add: deframe_frame)

section \<open>Receiving\<close>

lemma unat_ucast_up [simp]: "unat (ucast (w :: uint32) :: size_t) = unat w"
proof -
  have "unat w < 2 ^ LENGTH(32)" by (rule unsigned_less)
  then show ?thesis by (simp add: unsigned_ucast_eq take_bit_nat_eq_self)
qed

lemma head_len_bound: "unat (h_len h) < 4294967296"
  using unsigned_less [of "h_len h"] by simp

lemma frame_total_bound: "frame_total s < 4294967296"
  unfolding frame_total_def by (rule head_len_bound)

text \<open>The body buffer of a message that has its header: filled up to \<open>drop 12 p\<close>.\<close>

definition body_buf :: "net_buffer \<Rightarrow> bytes \<Rightarrow> bool" where
  "body_buf d p \<longleftrightarrow> nb_inv d \<and> \<not> m_lock d \<and> m_readPos d = 0 \<and>
     unat (m_maxLen d) = frame_total p - 12 \<and> nb_content d = drop 12 p"

text \<open>
  A waiting message that has taken the bytes \<open>p\<close> off the stream: none at all, or a header
  and a proper part of the body.
\<close>

definition nblk_repr :: "net_block \<Rightarrow> bytes \<Rightarrow> bool" where
  "nblk_repr b p \<longleftrightarrow>
     (m_state b = STATE_INIT \<and> m_data b = None \<and> p = []) \<or>
     (m_state b = STATE_BODY \<and> 12 \<le> length p \<and> head_value (take 12 p) = m_head b \<and>
      length p < frame_total p \<and> (\<exists>d. m_data b = Some d \<and> body_buf d p))"

text \<open>A finished message: its buffer holds the body, unread and locked.\<close>

definition nblk_done :: "net_block \<Rightarrow> bytes \<Rightarrow> bool" where
  "nblk_done b body \<longleftrightarrow> m_state b = STATE_DONE \<and>
     (\<exists>d. m_data b = Some d \<and> nb_inv d \<and> m_lock d \<and> nb_content d = body \<and> nb_unread d = body)"

lemma unat_body_len:
  assumes "12 \<le> unat (h_len h)"
  shows "unat ((ucast (h_len h) :: size_t) - sizeof head_pod) = unat (h_len h) - 12"
  using assms by (subst unat_minus_size) (simp_all add: size_cmp)

lemma body_buf_length: "body_buf d p \<Longrightarrow> unat (m_writePos d) = length p - 12"
  by (metis body_buf_def length_drop nb_content_length)

lemma body_buf_free: "body_buf d p \<Longrightarrow> nb_free d = frame_total p - 12 - (length p - 12)"
  by (simp add: nb_free_def body_buf_length) (simp add: body_buf_def)

lemma body_buf_unread: "body_buf d p \<Longrightarrow> nb_unread d = drop 12 p"
  by (simp add: nb_unread_def body_buf_def)

text \<open>The body buffer exists already, or the header was just read and it is allocated now.\<close>

lemma body_buf_obtain:
  assumes "12 \<le> length p" and "head_value (take 12 p) = m_head b" and "12 \<le> frame_total p"
    and "m_data b = None \<and> length p = 12 \<or> (\<exists>d. m_data b = Some d \<and> body_buf d p)"
  obtains d where
    "(case m_data b of None \<Rightarrow> netBuffer ((ucast (h_len (m_head b)) :: size_t) - sizeof head_pod)
      | Some d \<Rightarrow> Inr d) = Inr d" "body_buf d p"
proof (cases "m_data b")
  case (Some d)
  then show thesis using assms(4) that [of d] by auto
next
  case None
  have total: "frame_total p = unat (h_len (m_head b))" by (simp add: frame_total_def assms(2))
  then have len: "unat ((ucast (h_len (m_head b)) :: size_t) - sizeof head_pod) = frame_total p - 12"
    using assms(3) by (simp add: unat_body_len)
  then have "unat ((ucast (h_len (m_head b)) :: size_t) - sizeof head_pod) \<le> PTRDIFF_MAX"
    using frame_total_bound [of p] by (simp add: PTRDIFF_MAX_def)
  from netBuffer_ok [OF this] obtain d where
    d: "netBuffer ((ucast (h_len (m_head b)) :: size_t) - sizeof head_pod) = Inr d"
       "nb_inv d" "nb_content d = []" "m_readPos d = 0" "\<not> m_lock d"
       "m_maxLen d = (ucast (h_len (m_head b)) :: size_t) - sizeof head_pod" by blast
  then have "body_buf d p" using assms(4) None len by (simp add: body_buf_def)
  then show thesis using that [of d] d(1) None by simp
qed

lemma recvBody_ok:
  assumes st: "m_state b = STATE_BODY" and inv: "nb_inv buf"
    and p: "12 \<le> length p" "head_value (take 12 p) = m_head b" "12 \<le> frame_total p"
      "length p \<le> frame_total p"
    and dat: "m_data b = None \<and> length p = 12 \<or> (\<exists>d. m_data b = Some d \<and> body_buf d p)"
    and s: "s = p @ nb_unread buf"
  shows "\<exists>b' buf'. recvBody dbg None b buf =
           Inr (frame_ready s \<and> h_check (m_head b) = 0, b', buf') \<and>
           nb_inv buf' \<and> m_maxLen buf' = m_maxLen buf \<and> m_lock buf' = m_lock buf \<and>
           m_readPos buf' = 0 \<and> m_session b' = m_session b \<and>
           (if frame_ready s then nblk_done b' (frame_body s) \<and> nb_unread buf' = drop (frame_total s) s
            else nblk_repr b' s \<and> nb_unread buf' = [])"
proof -
  let ?u = "nb_unread buf"
  obtain d where get: "(case m_data b of None \<Rightarrow> netBuffer ((ucast (h_len (m_head b)) :: size_t) - sizeof head_pod)
      | Some d \<Rightarrow> Inr d) = Inr d" and d: "body_buf d p"
    using body_buf_obtain [OF p(1-3) dat] by blast
  let ?n = "nb_moved buf d"
  have invd: "nb_inv d" "\<not> m_lock d" using d by (simp_all add: body_buf_def)
  obtain buf1 d1 where rb: "readBuffer dbg False buf d = Inr (0 < ?n, buf1, d1)" "nb_inv buf1" "nb_inv d1"
      "nb_unread buf1 = drop ?n ?u" "nb_content d1 = nb_content d @ take ?n ?u"
      "nb_unread d1 = nb_unread d @ take ?n ?u" "m_maxLen buf1 = m_maxLen buf" "m_lock buf1 = m_lock buf"
      "m_maxLen d1 = m_maxLen d" "m_readPos d1 = m_readPos d" "\<not> m_lock d1"
    using readBuffer_ok [OF inv invd(1) invd(2), of dbg] by blast
  obtain buf2 where cl: "clearReadBuffer dbg buf1 = Inr buf2" "nb_inv buf2"
      "nb_unread buf2 = nb_unread buf1" "m_readPos buf2 = 0" "m_maxLen buf2 = m_maxLen buf1"
      "m_lock buf2 = m_lock buf1"
    using clearReadBuffer_ok [OF rb(2), of dbg] by blast
  have ts: "frame_total s = frame_total p" using p(1) s by simp
  have free: "nb_free d = frame_total p - length p"
    using body_buf_free [OF d] p by simp
  have n: "?n = min (length ?u) (frame_total p - length p)"
    by (simp only: nb_moved_def free)
  have c1: "nb_content d1 = drop 12 (p @ take ?n ?u)"
    using d p(1) by (simp add: rb(5) body_buf_def)
  have w1: "unat (m_writePos d1) = length p + ?n - 12"
    using arg_cong [OF c1, of length] rb(3) p(1) by (simp add: n)
  have full: "isFull d1 \<longleftrightarrow> frame_ready s"
  proof -
    have "isFull d1 \<longleftrightarrow> frame_total p - 12 \<le> length p + ?n - 12"
      using d by (simp add: isFull_def size_cmp rb(9) w1 body_buf_def)
    also have "\<dots> \<longleftrightarrow> frame_total p \<le> length p + length ?u"
      using p by (auto simp: n)
    finally show ?thesis using ts s p(1) by (simp add: frame_ready_def)
  qed
  have u1: "nb_unread d1 = nb_content d1"
    using d by (simp add: rb(5,6) body_buf_unread body_buf_def)
  show ?thesis
  proof (cases "frame_ready s")
    case True
    then have le: "frame_total p \<le> length p + length ?u" using ts s by (simp add: frame_ready_def)
    have body: "nb_content d1 = frame_body s"
      using le p by (simp add: c1 n frame_body_def ts s min_def)
    have rest: "nb_unread buf2 = drop (frame_total s) s"
      using le p by (simp add: cl rb(4) n ts s min_def)
    let ?b' = "b\<lparr>m_data := Some (snd (nb_lock d1)), m_state := STATE_DONE\<rparr>"
    have lk: "nb_inv (snd (nb_lock d1))" "m_lock (snd (nb_lock d1))"
      "nb_content (snd (nb_lock d1)) = nb_content d1" "nb_unread (snd (nb_lock d1)) = nb_unread d1"
      using rb(3) by (simp_all add: nb_lock_def Let_def nb_inv_def nb_content_def nb_unread_def)
    have "recvBody dbg None b buf = Inr (h_check (m_head b) = 0, ?b', buf2)"
      using st True by (simp add: recvBody_def get rb cl full apply_crypt_def Let_def)
    then show ?thesis
      using True cl rb rest lk body u1 by (simp add: nblk_done_def)
  next
    case False
    then have lt: "length p + length ?u < frame_total p" using ts s p(1) by (simp add: frame_ready_def)
    have nu: "?n = length ?u" using lt by (simp add: n)
    have "recvBody dbg None b buf = Inr (False, b\<lparr>m_data := Some d1\<rparr>, buf2)"
      using st False by (simp add: recvBody_def get rb cl full Let_def)
    moreover have "nblk_repr (b\<lparr>m_data := Some d1\<rparr>) s"
      using st p lt d rb ts s c1 nu by (simp add: nblk_repr_def body_buf_def)
    ultimately show ?thesis using False cl rb nu by simp
  qed
qed

lemma netBlock_recv_ok:
  assumes r: "nblk_repr b p" and inv: "nb_inv buf" and rp: "m_readPos buf = 0"
    and s: "s = p @ nb_unread buf" and ok: "\<not> malformed s" and dbg: "dbg \<longrightarrow> 12 \<le> length s"
  shows "\<exists>x b' buf'. netBlock_recv dbg b (Some buf) = Inr (x, b', Some buf') \<and>
           nb_inv buf' \<and> m_maxLen buf' = m_maxLen buf \<and> m_lock buf' = m_lock buf \<and>
           m_readPos buf' = 0 \<and> m_session b' = m_session b \<and>
           (if frame_ready s
            then nblk_done b' (frame_body s) \<and> nb_unread buf' = drop (frame_total s) s \<and>
                 x = (h_check (head_value (take 12 s)) = 0)
            else \<not> x \<and> (\<exists>p'. nblk_repr b' p' \<and> s = p' @ nb_unread buf' \<and>
                   (if length s < 12 then p' = [] else nb_unread buf' = [])))"
proof (cases "m_state b")
  case STATE_DONE
  then show ?thesis using r by (simp add: nblk_repr_def)
next
  case STATE_BODY
  then obtain d where p: "12 \<le> length p" "head_value (take 12 p) = m_head b"
      "length p < frame_total p" "m_data b = Some d" "body_buf d p"
    using r by (auto simp: nblk_repr_def)
  have "netBlock_recv dbg b (Some buf) =
      rbind (recvBody dbg None b buf) (\<lambda>(r, b', bf'). Inr (r, b', Some bf'))"
    using STATE_BODY by (simp add: netBlock_recv_def recvHead_def)
  moreover have "12 \<le> frame_total p" "length p \<le> frame_total p" using p by simp_all
  note B = recvBody_ok [OF STATE_BODY inv p(1,2) this _ s, of dbg]
  have "head_value (take 12 s) = m_head b" "12 \<le> length s" using p s by simp_all
  ultimately show ?thesis using B p by (cases "frame_ready s") auto
next
  case STATE_INIT
  then have p: "p = []" and m: "m_data b = None" using r by (auto simp: nblk_repr_def)
  show ?thesis
  proof (cases "length s < 12")
    case True
    have h: "b\<lparr>m_head := m_head b\<rparr> = b" by simp
    have "netBlock_recv dbg b (Some buf) = Inr (False, b, Some buf)"
      using True p s dbg STATE_INIT headp.readPod_short [OF inv, of dbg "m_head b"]
      by (simp add: netBlock_recv_def recvHead_def h)
    then show ?thesis using True r inv rp s p by (auto simp: frame_ready_def)
  next
    case False
    then have len: "pod_size head_pod \<le> length (nb_unread buf)" using p s by simp
    let ?h = "head_value (take 12 s)" and ?b = "b\<lparr>m_head := head_value (take 12 s), m_state := STATE_BODY\<rparr>"
    obtain buf1 where rd: "readPod dbg head_pod buf (m_head b) = Inr (True, ?h, buf1)" "nb_inv buf1"
        "nb_unread buf1 = drop 12 s" "m_maxLen buf1 = m_maxLen buf" "m_lock buf1 = m_lock buf"
      using headp.readPod_ok [OF inv len, of dbg "m_head b"] p s by auto
    obtain buf2 where cl: "clearReadBuffer dbg buf1 = Inr buf2" "nb_inv buf2"
        "nb_unread buf2 = drop 12 s" "m_maxLen buf2 = m_maxLen buf" "m_lock buf2 = m_lock buf"
      using clearReadBuffer_ok [OF rd(2), of dbg] rd by auto
    have eq: "netBlock_recv dbg b (Some buf) =
        rbind (recvBody dbg None ?b buf2) (\<lambda>(r, b', bf'). Inr (r, b', Some bf'))"
      using STATE_INIT by (simp add: netBlock_recv_def recvHead_def rd cl)
    have t: "frame_total (take 12 s) = frame_total s" by (simp add: frame_total_def)
    have "12 \<le> frame_total s" using ok False by (simp add: malformed_def)
    then have "\<exists>b' buf'. recvBody dbg None ?b buf2 =
           Inr (frame_ready s \<and> h_check (m_head ?b) = 0, b', buf') \<and>
           nb_inv buf' \<and> m_maxLen buf' = m_maxLen buf2 \<and> m_lock buf' = m_lock buf2 \<and>
           m_readPos buf' = 0 \<and> m_session b' = m_session ?b \<and>
           (if frame_ready s then nblk_done b' (frame_body s) \<and> nb_unread buf' = drop (frame_total s) s
            else nblk_repr b' s \<and> nb_unread buf' = [])"
      using False m cl by (intro recvBody_ok [where p = "take 12 s"]) (simp_all add: t)
    then show ?thesis using eq cl False by (cases "frame_ready s") auto
  qed
qed

text \<open>A header that announces less than the header itself asks for a huge body buffer.\<close>

lemma netBlock_recv_malformed:
  assumes "m_state b = STATE_INIT" and "m_data b = None" and inv: "nb_inv buf"
    and bad: "malformed (nb_unread buf)"
  shows "netBlock_recv dbg b (Some buf) = Inl NullDeref"
proof -
  let ?s = "nb_unread buf"
  have len: "pod_size head_pod \<le> length ?s" using bad by (simp add: malformed_def)
  obtain buf1 where rd: "readPod dbg head_pod buf (m_head b) = Inr (True, head_value (take 12 ?s), buf1)"
      "nb_inv buf1"
    using headp.readPod_ok [OF inv len, of dbg "m_head b"] by auto
  obtain buf2 where cl: "clearReadBuffer dbg buf1 = Inr buf2"
    using clearReadBuffer_ok [OF rd(2), of dbg] by auto
  let ?l = "h_len (head_value (take 12 ?s))"
  have small: "unat ?l < 12" using bad by (simp add: malformed_def frame_total_def)
  have "unat ((ucast ?l :: size_t) - sizeof head_pod) = 2 ^ 64 - (12 - unat ?l)"
    using small by (subst unat_sub_if') (simp add: size_cmp)
  then have "netBuffer ((ucast ?l :: size_t) - sizeof head_pod) = Inl NullDeref"
    using small by (intro netBuffer_too_big) (simp add: PTRDIFF_MAX_def)
  then show ?thesis
    using assms(1,2) by (simp add: netBlock_recv_def recvHead_def rd cl recvBody_def)
qed

section \<open>Sending\<close>

text \<open>
  A message under construction: an unlocked, wholly unread buffer that starts with a header,
  whatever it says, followed by the bytes pushed so far.
\<close>

definition nblk_open :: "net_block \<Rightarrow> bytes \<Rightarrow> bool" where
  "nblk_open b body \<longleftrightarrow> m_state b = STATE_INIT \<and>
     (\<exists>d h. m_data b = Some d \<and> nb_inv d \<and> \<not> m_lock d \<and> m_readPos d = 0 \<and>
            nb_content d = head_bytes h @ body)"

text \<open>The same with a header that announces these bytes: ready to be sent.\<close>

definition nblk_sealed :: "net_block \<Rightarrow> bytes \<Rightarrow> bool" where
  "nblk_sealed b body \<longleftrightarrow> m_state b = STATE_INIT \<and>
     (\<exists>d. m_data b = Some d \<and> nb_inv d \<and> \<not> m_lock d \<and> m_readPos d = 0 \<and>
          nb_content d = frame_of body)"

lemma nblk_sealed_open: "nblk_sealed b body \<Longrightarrow> nblk_open b body"
  unfolding nblk_sealed_def nblk_open_def frame_of_def by blast

lemma netBlock_nosize_eq:
  "netBlock_nosize s =
     Inr \<lparr>m_data = None, m_state = STATE_INIT, m_session = s, m_head = zero_head\<rparr>"
  by (simp add: netBlock_nosize_def netBlockBase_def block_base.defs net_block.defs)

lemma netBlock_zero: "netBlock dbg s 0 = netBlock_nosize s"
  by (simp add: netBlock_def netBlock_nosize_eq netBlockBase_def block_base.defs net_block.defs)

lemma netBlock_made:
  assumes "0 < sz" and "sz + sizeof head_pod > 0" and "unat s \<le> PTRDIFF_MAX"
  shows "\<exists>b d. netBlock dbg s sz = Inr b \<and> nblk_open b [] \<and> m_session b = s \<and> m_data b = Some d \<and>
    nb_content d = head_bytes zero_head"
proof -
  obtain d where d: "netBuffer s = Inr d" "nb_inv d" "nb_content d = []" "m_readPos d = 0"
      "m_writePos d = 0" "\<not> m_lock d"
    using netBuffer_ok [OF assms(3)] by blast
  have "nb_room d (pod_size head_pod)" using d by (simp add: nb_room_def PTRDIFF_MAX_def)
  from headp.tailPod_ok [OF d(2,6) this, of dbg zero_head] obtain d' where
    d': "tailPod dbg head_pod d zero_head = Inr (True, d')" "nb_inv d'"
      "nb_content d' = head_bytes zero_head" "m_readPos d' = 0" "\<not> m_lock d'"
    using d by auto
  let ?b = "\<lparr>m_data = Some d', m_state = STATE_INIT, m_session = s, m_head = zero_head\<rparr>"
  have "netBlock dbg s sz = Inr ?b"
    using assms(1,2) d d'
    by (simp add: netBlock_def netBlockBase_def block_base.defs net_block.defs Let_def)
  moreover have "nblk_open ?b []" using d' by (auto simp: nblk_open_def)
  ultimately show ?thesis using d'(3) by (intro exI [of _ ?b] exI [of _ d']) simp
qed

lemma netBlock_ok:
  assumes "0 < sz" and "sz + sizeof head_pod > 0" and "unat s \<le> PTRDIFF_MAX"
  shows "\<exists>b. netBlock dbg s sz = Inr b \<and> nblk_open b [] \<and> m_session b = s"
  using netBlock_made [OF assms] by blast

text \<open>The header of a message that nothing was pushed to announces no frame.\<close>

lemma zero_head_malformed: "malformed (head_bytes zero_head)"
  using frame_total_head [of zero_head "[]"] by (simp add: malformed_def zero_head_def)

lemma encrypt_ok:
  assumes st: "m_state b = STATE_INIT" and d: "m_data b = Some d" "nb_inv d" "\<not> m_lock d"
      "m_readPos d = 0" "nb_content d = head_bytes h @ body"
  shows "\<exists>b'. encrypt dbg None b = Inr b' \<and> nblk_sealed b' body \<and> m_session b' = m_session b"
proof -
  have len: "unat (m_writePos d) = 12 + length body"
    using arg_cong [OF d(5), of length] d(2) by simp
  let ?h = "\<lparr>h_len = ucast (nb_length d), h_mask = 0, h_check = 0\<rparr>"
  have "(of_nat (12 + length body) :: uint32) = of_nat (unat (m_writePos d))" by (simp only: len)
  then have hlen: "(ucast (nb_length d) :: uint32) = of_nat (12 + length body)"
    by (simp add: nb_length_def)
  have "pod_size head_pod \<le> length (nb_content d)" using d by simp
  from headp.setHeadPod_ok [OF d(2,3) this, of dbg ?h] obtain d' where
    "setHeadPod dbg head_pod d ?h = Inr (True, d')" "nb_inv d'" "nb_content d' = head_bytes ?h @ body"
      "m_readPos d' = 0" "\<not> m_lock d'"
    using d by auto
  then show ?thesis
    using st d(1)
    by (simp add: encrypt_def apply_crypt_def Let_def nblk_sealed_def frame_of_def hlen)
qed

lemma netBlock_push_ok:
  assumes o: "nblk_open b body" and len: "unat len = length data"
    and room: "2 * (12 + length body + length data) \<le> PTRDIFF_MAX"
  shows "\<exists>b'. netBlock_push dbg b data len = Inr (True, b') \<and> nblk_sealed b' (body @ data) \<and>
              m_session b' = m_session b"
proof -
  obtain d h where d: "m_state b = STATE_INIT" "m_data b = Some d" "nb_inv d" "\<not> m_lock d"
      "m_readPos d = 0" "nb_content d = head_bytes h @ body"
    using o by (auto simp: nblk_open_def)
  have w: "unat (m_writePos d) = 12 + length body"
    using arg_cong [OF d(6), of length] d(3) by simp
  have "\<exists>x d'. tailData dbg d data len = Inr (x, d') \<and> nb_inv d' \<and> \<not> m_lock d' \<and>
      m_readPos d' = 0 \<and> nb_content d' = head_bytes h @ body @ data"
  proof (cases "data = []")
    case True
    then have "len = 0" using len by (simp add: size_cmp)
    then show ?thesis using tailData_empty [OF d(3,4)] d True by auto
  next
    case False
    then show ?thesis
      using tailData_ok [OF d(3,4), of len data dbg] len room w d by (auto simp: nb_room_def)
  qed
  then obtain x d' where d': "tailData dbg d data len = Inr (x, d')" "nb_inv d'" "\<not> m_lock d'"
      "m_readPos d' = 0" "nb_content d' = head_bytes h @ body @ data" by blast
  from encrypt_ok [of "b\<lparr>m_data := Some d'\<rparr>" d' h "body @ data" dbg] d d' show ?thesis
    by (auto simp: netBlock_push_def)
qed

text \<open>A sender: the constructor with a size, then any number of pushes.\<close>

fun push_all :: "bool \<Rightarrow> net_block \<Rightarrow> bytes list \<Rightarrow> net_block res" where
  "push_all dbg b [] = Inr b"
| "push_all dbg b (x # xs) =
     rbind (netBlock_push dbg b x (of_nat (length x))) (\<lambda>(_, b'). push_all dbg b' xs)"

lemma push_all_ok:
  assumes "nblk_sealed b body" and "2 * (12 + length body + length (concat xs)) \<le> PTRDIFF_MAX"
  shows "\<exists>b'. push_all dbg b xs = Inr b' \<and> nblk_sealed b' (body @ concat xs) \<and>
              m_session b' = m_session b"
  using assms
proof (induction xs arbitrary: b body)
  case Nil
  then show ?case by simp
next
  case (Cons x xs)
  have "unat (of_nat (length x) :: size_t) = length x"
    using Cons.prems(2) by (intro unat_of_nat_size) simp
  from netBlock_push_ok [OF nblk_sealed_open [OF Cons.prems(1)] this, of dbg] Cons.prems(2)
  obtain b1 where b1: "netBlock_push dbg b x (of_nat (length x)) = Inr (True, b1)"
    "nblk_sealed b1 (body @ x)" "m_session b1 = m_session b" by auto
  with Cons.IH [OF b1(2)] Cons.prems(2) show ?case by auto
qed

text \<open>A clone holds the same bytes, all of them unread, in an unlocked buffer of its own.\<close>

lemma netBlock_clone_ok:
  assumes "m_data b = Some d" and "nb_inv d" and "2 * length (nb_content d) \<le> PTRDIFF_MAX"
  shows "\<exists>b' d'. netBlock_clone dbg b s = Inr b' \<and> m_session b' = s \<and> m_state b' = m_state b \<and>
           m_head b' = m_head b \<and> m_data b' = Some d' \<and> nb_inv d' \<and> \<not> m_lock d' \<and>
           m_readPos d' = 0 \<and> nb_content d' = nb_content d \<and> nb_unread d' = nb_content d"
  using copy_buffer_ok [OF assms(2,3), of dbg] assms(1)
  by (auto simp: netBlock_clone_def netBlock_nosize_eq)

end
