(* ===== verification/Redis_Block2.thy ===== *)
theory Redis_Block2
  imports Redis_Parser Net_Block
begin

text \<open>
  \<open>RedisBlock2\<close> of \<open>src/redisblock.h\<close>: the message that feeds the receive buffer of a
  connection to the reader \<open>RedisParse\<close> and drops what the reader consumed.

  The lemmas describe \<open>recv\<close> on the stream: the bytes of a reply complete it, a proper
  part of a reply is kept, and no byte that belongs to the next reply is touched.
\<close>

section \<open>State and member functions\<close>

record redis_block2 = block_base +
  m_parse :: redis_parse

definition redisBlock2 :: "session_id \<Rightarrow> size_t \<Rightarrow> redis_block2 res" where
  "redisBlock2 s sz =
     rbind (netBlockBase s sz) (\<lambda>b.
     Inr (block_base.extend b (redis_block2.fields new_parse)))"

definition redisBlock2_push :: "bool \<Rightarrow> redis_block2 \<Rightarrow> bytes \<Rightarrow> size_t \<Rightarrow> (bool \<times> redis_block2) res" where
  "redisBlock2_push dbg b data len =
     rbind (deref (m_data b)) (\<lambda>d.
     rbind (tailData dbg d data len) (\<lambda>(r, d').
     Inr (r, b\<lparr>m_data := Some d'\<rparr>)))"

definition redisBlock2_clone :: "bool \<Rightarrow> redis_block2 \<Rightarrow> session_id \<Rightarrow> redis_block2 res" where
  "redisBlock2_clone dbg b s =
     rbind (redisBlock2 s 0) (\<lambda>p.
     rbind (deref (m_data b)) (\<lambda>d.
     rbind (netBuffer (maxLength d)) (\<lambda>d0.
     rbind (tailData dbg d0 (m_buffer d) (nb_length d)) (\<lambda>(_, d').
     Inr (p\<lparr>m_data := Some d', m_state := m_state b, m_parse := m_parse b\<rparr>)))))"

definition redisBlock2_recv ::
    "bool \<Rightarrow> (string \<Rightarrow> int option) \<Rightarrow> redis_block2 \<Rightarrow> bufferPtr \<Rightarrow>
     (bool \<times> redis_block2 \<times> bufferPtr) res" where
  "redisBlock2_recv dbg cast b buf =
     rbind (deref buf) (\<lambda>bf.
     rbind (parse dbg cast (m_parse b) (drop (unat (m_readPos bf)) (m_buffer bf)) (needReadLength bf) 0)
       (\<lambda>(r, ps, readPos).
     rbind (readData dbg bf readPos) (\<lambda>(_, bf1).
     rbind (clearReadBuffer dbg bf1) (\<lambda>bf2.
     let b1 = b\<lparr>m_parse := ps\<rparr>;
         b2 = (if isDone ps then b1\<lparr>m_state := STATE_DONE\<rparr> else b1\<lparr>m_state := STATE_BODY\<rparr>) in
     Inr (r, b2, Some bf2)))))"

section \<open>What the operations do\<close>

lemma redisBlock2_nodata:
  "redisBlock2 s 0 = Inr \<lparr>m_data = None, m_state = STATE_INIT, m_session = s, m_parse = new_parse\<rparr>"
  by (simp add: redisBlock2_def netBlockBase_def block_base.defs redis_block2.defs)

text \<open>The constructor with a size, then \<open>push\<close>: the buffer holds the bytes pushed.\<close>

lemma redisBlock2_push_ok:
  assumes "0 < sz" and s: "unat s \<le> PTRDIFF_MAX" and len: "unat len = length data"
    and room: "2 * length data \<le> PTRDIFF_MAX"
  shows "\<exists>b b' d x. redisBlock2 s sz = Inr b \<and> redisBlock2_push dbg b data len = Inr (x, b') \<and>
           m_session b' = s \<and> m_data b' = Some d \<and> nb_inv d \<and> \<not> m_lock d \<and> nb_unread d = data"
  using fresh_push_ok [OF s len room, of dbg] assms(1)
  by (auto simp: redisBlock2_def netBlockBase_def block_base.defs redis_block2.defs redisBlock2_push_def)

lemma redisBlock2_clone_ok:
  assumes "m_data b = Some d" and "nb_inv d" and "2 * length (nb_content d) \<le> PTRDIFF_MAX"
  shows "\<exists>b' d'. redisBlock2_clone dbg b s = Inr b' \<and> m_session b' = s \<and> m_state b' = m_state b \<and>
           m_parse b' = m_parse b \<and> m_data b' = Some d' \<and> nb_inv d' \<and> \<not> m_lock d' \<and>
           m_readPos d' = 0 \<and> nb_content d' = nb_content d \<and> nb_unread d' = nb_content d"
  using copy_buffer_ok [OF assms(2,3), of dbg] assms(1)
  by (auto simp: redisBlock2_clone_def redisBlock2_nodata)

text \<open>The unread part of the receive buffer, as the reader sees it.\<close>

lemma buffer_at_pos:
  assumes "nb_inv bf"
  shows "at_pos (drop (unat (m_readPos bf)) (m_buffer bf)) (needReadLength bf) 0 (nb_unread bf)"
proof -
  note D = nb_invD [OF assms]
  have n: "unat (needReadLength bf) = unat (m_writePos bf) - unat (m_readPos bf)"
    using needReadLength_unat [OF assms] assms by simp
  have "take (unat (m_writePos bf) - unat (m_readPos bf)) (drop (unat (m_readPos bf)) (m_buffer bf)) =
      nb_unread bf"
    by (simp add: nb_unread_def nb_content_def drop_take)
  then show ?thesis using D n by (auto simp: at_pos_def)
qed

text \<open>\<open>recv\<close> drops exactly what the reader consumed.\<close>

lemma redisBlock2_recv_parse:
  assumes inv: "nb_inv bf"
    and p: "parse dbg cast (m_parse b) (drop (unat (m_readPos bf)) (m_buffer bf)) (needReadLength bf) 0 =
            Inr (r, ps, readPos)"
    and k: "unat readPos \<le> length (nb_unread bf)"
  shows "\<exists>bf'. redisBlock2_recv dbg cast b (Some bf) =
      Inr (r, b\<lparr>m_parse := ps, m_state := (if m_done ps then STATE_DONE else STATE_BODY)\<rparr>, Some bf') \<and>
      nb_inv bf' \<and> m_maxLen bf' = m_maxLen bf \<and> m_lock bf' = m_lock bf \<and> m_readPos bf' = 0 \<and>
      nb_unread bf' = drop (unat readPos) (nb_unread bf)"
proof -
  note R = readData_ok [OF inv k]
  obtain bf' where "clearReadBuffer dbg (bf\<lparr>m_readPos := m_readPos bf + readPos\<rparr>) = Inr bf'"
      "nb_inv bf'" "nb_unread bf' = drop (unat readPos) (nb_unread bf)" "m_readPos bf' = 0"
      "m_maxLen bf' = m_maxLen bf" "m_lock bf' = m_lock bf"
    using clearReadBuffer_ok [OF R(2), of dbg] R(4) by auto
  then show ?thesis
    using R(1) p by (simp add: redisBlock2_recv_def isDone_def Let_def)
qed

text \<open>On any input: a regular result keeps the buffer's invariant, and no call faults on memory.\<close>

lemma redisBlock2_recv_safe:
  assumes inv: "nb_inv bf"
  shows "safe_res (\<lambda>(r, b', buf'). \<exists>bf' n. buf' = Some bf' \<and> nb_inv bf' \<and> m_readPos bf' = 0 \<and>
           m_maxLen bf' = m_maxLen bf \<and> nb_unread bf' = drop n (nb_unread bf) \<and>
           m_session b' = m_session b)
         (redisBlock2_recv dbg cast b (Some bf))"
proof -
  let ?buf = "drop (unat (m_readPos bf)) (m_buffer bf)" and ?sz = "needReadLength bf"
  have ib: "in_block ?buf ?sz 0"
    using buffer_at_pos [OF inv] by (simp add: at_pos_def in_block_def)
  show ?thesis
  proof (cases "parse dbg cast (m_parse b) ?buf ?sz 0")
    case (Inl e)
    then show ?thesis
      using parse_safe [OF ib, of dbg cast "m_parse b"] by (simp add: redisBlock2_recv_def)
  next
    case (Inr t)
    obtain r ps readPos where t: "t = (r, ps, readPos)" by (cases t)
    then have "readPos \<le> ?sz"
      using parse_safe [OF ib, of dbg cast "m_parse b"] Inr by simp
    then have "unat readPos \<le> length (nb_unread bf)"
      unfolding size_cmp needReadLength_unat [OF inv] .
    from redisBlock2_recv_parse [OF inv Inr [unfolded t] this]
    show ?thesis by (auto intro!: exI [of _ "unat readPos"])
  qed
qed

section \<open>Receiving a stream of replies\<close>

text \<open>A waiting message that took the bytes \<open>p\<close> off the stream, and a finished one.\<close>

definition rb2_repr :: "redis_block2 \<Rightarrow> bytes \<Rightarrow> bool" where
  "rb2_repr b p \<longleftrightarrow> parse_wait (m_parse b) p \<and> m_state b \<noteq> STATE_DONE"

definition rb2_done :: "redis_block2 \<Rightarrow> resp \<Rightarrow> bool" where
  "rb2_done b r \<longleftrightarrow> m_state b = STATE_DONE \<and> m_done (m_parse b) \<and>
     m_type (m_parse b) = resp_type r \<and> m_recvList (m_parse b) = resp_values r"

context decimal_cast
begin

lemma redisBlock2_recv_complete:
  assumes b: "rb2_repr b p" and inv: "nb_inv bf" and u: "nb_unread bf \<noteq> []"
    and eq: "p @ nb_unread bf = resp_bytes r @ rest" and r: "simple r" "resp_ok r"
  shows "\<exists>b' bf'. redisBlock2_recv dbg cast b (Some bf) = Inr (True, b', Some bf') \<and>
           rb2_done b' r \<and> m_session b' = m_session b \<and>
           nb_inv bf' \<and> m_maxLen bf' = m_maxLen bf \<and> m_lock bf' = m_lock bf \<and> m_readPos bf' = 0 \<and>
           nb_unread bf' = rest \<and> length rest < length (nb_unread bf)"
proof -
  note at = buffer_at_pos [OF inv]
  from parse_wait_complete [OF _ at u eq r, of "m_parse b" dbg] b obtain ps where
    ps: "parse dbg cast (m_parse b) (drop (unat (m_readPos bf)) (m_buffer bf)) (needReadLength bf) 0 =
        Inr (True, ps, of_nat (length (nb_unread bf) - length rest))" "m_done ps"
      "m_type ps = resp_type r" "m_recvList ps = resp_values r"
      "nb_unread bf = take (length (nb_unread bf) - length rest) (nb_unread bf) @ rest"
      "length rest < length (nb_unread bf)"
    by (auto simp: rb2_repr_def)
  let ?k = "length (nb_unread bf) - length rest"
  have k: "unat (of_nat ?k :: size_t) = ?k"
    using at_posD(4) [OF at] by (intro unat_of_nat_size) simp
  have d: "drop ?k (nb_unread bf) = rest"
    using ps(5) by (metis append_take_drop_id same_append_eq)
  show ?thesis
    using redisBlock2_recv_parse [OF inv ps(1)] ps k d by (auto simp: rb2_done_def)
qed

lemma redisBlock2_recv_partial:
  assumes b: "rb2_repr b p" and inv: "nb_inv bf" and u: "nb_unread bf \<noteq> []"
    and eq: "p @ nb_unread bf @ later = resp_bytes r" "later \<noteq> []" and r: "simple r" "resp_ok r"
  shows "\<exists>b' bf' p'. redisBlock2_recv dbg cast b (Some bf) = Inr (False, b', Some bf') \<and>
           rb2_repr b' p' \<and> p @ nb_unread bf = p' @ nb_unread bf' \<and> m_session b' = m_session b \<and>
           nb_inv bf' \<and> m_maxLen bf' = m_maxLen bf \<and> m_lock bf' = m_lock bf \<and> m_readPos bf' = 0"
proof -
  note at = buffer_at_pos [OF inv]
  from parse_wait_partial [OF _ at u eq r, of "m_parse b" dbg] b obtain ps k where
    ps: "parse dbg cast (m_parse b) (drop (unat (m_readPos bf)) (m_buffer bf)) (needReadLength bf) 0 =
        Inr (False, ps, of_nat k)" "\<not> m_done ps" "k \<le> length (nb_unread bf)"
      "parse_wait ps (p @ take k (nb_unread bf))"
    by (auto simp: rb2_repr_def)
  have k: "unat (of_nat k :: size_t) = k"
    using at_posD(4) [OF at] ps(3) by (intro unat_of_nat_size) simp
  show ?thesis
    using redisBlock2_recv_parse [OF inv ps(1)] ps(2-4) k
    by (auto simp: rb2_repr_def intro!: exI [of _ "p @ take k (nb_unread bf)"])
qed

end

end
