(* ===== verification/Redis_Block.thy ===== *)
theory Redis_Block
  imports Redis_Block2
begin

text \<open>
  \<open>RedisBlock\<close> of \<open>src/redisblock.h\<close> and \<open>src/redisblock.cpp\<close>: the message that reads a
  Redis reply itself, line by line, and then packs it into a buffer of its own: the kind of
  the reply, followed by its text, its number, or its counted list of strings.

  Other than \<open>RedisParse\<close> it takes every byte off the receive buffer at once and keeps an
  incomplete line.  A function that returns \<open>nullptr\<close> for \<open>boost::optional<std::string>\<close>
  returns \<open>boost::none\<close>.  The enumeration \<open>reply_t\<close> is the one of \<open>Redis_Text\<close>.
\<close>

section \<open>State and member functions\<close>

definition REDIS_MISSING_KEY :: string where
  "REDIS_MISSING_KEY = ''**nonexistent-key**''"

text \<open>The file has its own copies of the text functions; they agree with those of the parser.\<close>

definition rb_getReplyType :: "string \<Rightarrow> reply_t" where
  "rb_getReplyType str =
     (if 0 = find_first_of str REDIS_PREFIX_STATUS_REPLY_ERR_C then error_reply
      else if 0 = find_first_of str REDIS_PREFIX_STATUS_REPLY_VALUE then status_code_reply
      else if 0 = find_first_of str REDIS_PREFIX_SINGLE_BULK_REPLY then bulk_reply
      else if 0 = find_first_of str REDIS_PREFIX_INT_REPLY then int_reply
      else if 0 = find_first_of str REDIS_PREFIX_MULTI_BULK_REPLY then multi_bulk_reply
      else no_reply)"

definition rb_rtrim :: "string \<Rightarrow> string \<Rightarrow> string res" where
  "rb_rtrim str ws = str_erase str (find_last_not_of str ws + 1)"

lemma rb_text_copies [simp]: "rb_getReplyType str = getReplyType str" "rb_rtrim str ws = rtrim str ws"
  by (simp_all only: rb_getReplyType_def getReplyType_def rb_rtrim_def rtrim_def)

text \<open>
  \<open>split\<close> and \<open>split_lines\<close>, which nothing calls.  \<open>boost_split delim str\<close> are the parts that
  \<open>boost::split\<close> stores.
\<close>

definition REDIS_WHITESPACE :: string where
  "REDIS_WHITESPACE = [CHR '' '', CHR 0x0C, LF, CR, CHR 0x09, CHR 0x0B]"

fun trim_all :: "string list \<Rightarrow> string list res" where
  "trim_all [] = Inr []"
| "trim_all (s # ss) =
     rbind (rb_rtrim s REDIS_WHITESPACE) (\<lambda>t. rbind (trim_all ss) (\<lambda>ts. Inr (t # ts)))"

definition rb_split :: "(string \<Rightarrow> string \<Rightarrow> string list) \<Rightarrow> string \<Rightarrow> string \<Rightarrow> (nat \<times> string list) res" where
  "rb_split boost_split str delim =
     rbind (trim_all (boost_split delim str)) (\<lambda>elems. Inr (length elems, elems))"

definition split_lines :: "(string \<Rightarrow> string \<Rightarrow> string list) \<Rightarrow> string \<Rightarrow> string list res" where
  "split_lines boost_split str =
     rbind (rb_split boost_split str [REDIS_PREFIX_LBR]) (\<lambda>(_, elems). trim_all elems)"

text \<open>Trimming the lines again, as \<open>split_lines\<close> does, changes nothing.\<close>

definition trimmed :: "string \<Rightarrow> string" where
  "trimmed s = rev (dropWhile (\<lambda>c. c \<in> set REDIS_WHITESPACE) (rev s))"

lemma trimmed_trimmed: "trimmed (trimmed s) = trimmed s"
  by (simp add: trimmed_def dropWhile_idem)

lemma trimmed_length: "length (trimmed s) \<le> length s"
  using length_dropWhile_le [of _ "rev s"] by (simp add: trimmed_def)

lemma trim_all_ok:
  "\<forall>s \<in> set ss. length s \<le> PTRDIFF_MAX \<Longrightarrow> trim_all ss = Inr (map trimmed ss)"
  by (induction ss) (simp_all add: rtrim_ok trimmed_def)

lemma split_lines_trims_once:
  assumes "\<forall>s \<in> set (boost_split [REDIS_PREFIX_LBR] str). length s \<le> PTRDIFF_MAX"
  shows "split_lines boost_split str = Inr (map trimmed (boost_split [REDIS_PREFIX_LBR] str)) \<and>
    rb_split boost_split str [REDIS_PREFIX_LBR] =
      Inr (length (boost_split [REDIS_PREFIX_LBR] str), map trimmed (boost_split [REDIS_PREFIX_LBR] str))"
proof -
  let ?ss = "boost_split [REDIS_PREFIX_LBR] str"
  have "\<forall>s \<in> set (map trimmed ?ss). length s \<le> PTRDIFF_MAX" using assms le_trans [OF trimmed_length] by simp
  then show ?thesis
    using trim_all_ok [OF assms] trim_all_ok [of "map trimmed ?ss"]
    by (simp add: split_lines_def rb_split_def trimmed_trimmed comp_def)
qed

record redis_block = block_base +
  rb_temp :: string
  rb_type :: reply_t
  rb_mutSize :: size_t
  rb_bufSize :: size_t
  rb_recvSize :: size_t
  rb_recvList :: "string list"

definition redisBlock :: "session_id \<Rightarrow> size_t \<Rightarrow> redis_block res" where
  "redisBlock s sz =
     rbind (netBlockBase s sz) (\<lambda>b.
     Inr (block_base.extend b (redis_block.fields [] no_reply 0 0 0 [])))"

definition check_reply_t :: "redis_block \<Rightarrow> reply_t \<Rightarrow> unit res" where
  "check_reply_t b reply_type =
     (if rb_type b \<noteq> reply_type \<or> \<not> bodyDone b then Inl RuntimeError else Inr ())"

definition rb_kind :: "redis_block \<Rightarrow> reply_t" where
  "rb_kind b = rb_type b"

definition rb_debug :: "redis_block \<Rightarrow> string list" where
  "rb_debug b = rb_recvList b"

text \<open>\<open>m_recvList[0]\<close>, which is outside the vector if that is empty.\<close>

definition first_reply :: "redis_block \<Rightarrow> string res" where
  "first_reply b = (case rb_recvList b of [] \<Rightarrow> Inl MemFault | s # _ \<Rightarrow> Inr s)"

definition get_status_code_reply :: "redis_block \<Rightarrow> string res" where
  "get_status_code_reply b = rbind (check_reply_t b status_code_reply) (\<lambda>_. first_reply b)"

definition get_error_reply :: "redis_block \<Rightarrow> string res" where
  "get_error_reply b = rbind (check_reply_t b error_reply) (\<lambda>_. first_reply b)"

definition get_int_reply :: "(string \<Rightarrow> int option) \<Rightarrow> redis_block \<Rightarrow> int res" where
  "get_int_reply cast b =
     rbind (check_reply_t b int_reply) (\<lambda>_.
     rbind (first_reply b) (\<lambda>s. lexical_cast cast s))"

definition get_bulk_reply :: "redis_block \<Rightarrow> string res" where
  "get_bulk_reply b = rbind (check_reply_t b bulk_reply) (\<lambda>_. first_reply b)"

definition get_multi_bulk_reply :: "redis_block \<Rightarrow> string list res" where
  "get_multi_bulk_reply b = rbind (check_reply_t b multi_bulk_reply) (\<lambda>_. Inr (rb_recvList b))"

text \<open>The values of the enumeration, of type \<open>unsigned int\<close>.\<close>

definition reply_word :: "reply_t \<Rightarrow> uint32" where
  "reply_word t = (case t of no_reply \<Rightarrow> 0 | status_code_reply \<Rightarrow> 1 | error_reply \<Rightarrow> 2 |
     int_reply \<Rightarrow> 3 | bulk_reply \<Rightarrow> 4 | multi_bulk_reply \<Rightarrow> 5)"

text \<open>
  An \<open>int\<close> is stored as the four bytes of its two's complement, so \<open>tailPod<int>(v)\<close>
  appends the bytes of the word \<open>of_int v\<close>.
\<close>

fun put_strings :: "bool \<Rightarrow> net_buffer \<Rightarrow> string list \<Rightarrow> net_buffer res" where
  "put_strings dbg d [] = Inr d"
| "put_strings dbg d (v # vs) =
     rbind (tailPod dbg uint_pod d (of_nat (length v))) (\<lambda>(_, d1).
     rbind (tailData dbg d1 v (of_nat (length v))) (\<lambda>(_, d2).
     put_strings dbg d2 vs))"

definition put_text :: "bool \<Rightarrow> net_buffer \<Rightarrow> string \<Rightarrow> net_buffer res" where
  "put_text dbg d str = rbind (tailData dbg d str (of_nat (length str))) (\<lambda>(_, d'). Inr d')"

definition makeRedisBuffer ::
    "bool \<Rightarrow> (string \<Rightarrow> int option) \<Rightarrow> redis_block \<Rightarrow> redis_block res" where
  "makeRedisBuffer dbg cast b0 =
     (let b = (if 0 = rb_recvSize b0 then b0\<lparr>rb_recvSize := 1\<rparr> else b0) in
      rbind (netBuffer (rb_recvSize b)) (\<lambda>d0.
      rbind (tailPod dbg uint_pod d0 (reply_word (rb_type b))) (\<lambda>(_, d).
      rbind (case rb_type b of
               no_reply \<Rightarrow> Inr d
             | status_code_reply \<Rightarrow> rbind (get_status_code_reply b) (\<lambda>str. put_text dbg d str)
             | error_reply \<Rightarrow> rbind (get_error_reply b) (\<lambda>str. put_text dbg d str)
             | int_reply \<Rightarrow>
                 rbind (get_int_reply cast b) (\<lambda>v.
                 rbind (tailPod dbg uint_pod d (of_int v)) (\<lambda>(_, d'). Inr d'))
             | bulk_reply \<Rightarrow> rbind (get_bulk_reply b) (\<lambda>str. put_text dbg d str)
             | multi_bulk_reply \<Rightarrow>
                 rbind (tailPod dbg uint_pod d (of_nat (length (rb_recvList b)))) (\<lambda>(_, d').
                 put_strings dbg d' (rb_recvList b))) (\<lambda>d'.
      Inr (b\<lparr>m_data := Some d'\<rparr>)))))"

definition redisBlock_push :: "bool \<Rightarrow> redis_block \<Rightarrow> bytes \<Rightarrow> size_t \<Rightarrow> (bool \<times> redis_block) res" where
  "redisBlock_push dbg b data len =
     rbind (deref (m_data b)) (\<lambda>d.
     rbind (tailData dbg d data len) (\<lambda>(r, d').
     Inr (r, b\<lparr>m_data := Some d'\<rparr>)))"

definition redisBlock_clone :: "bool \<Rightarrow> redis_block \<Rightarrow> session_id \<Rightarrow> redis_block res" where
  "redisBlock_clone dbg b s =
     rbind (redisBlock s 0) (\<lambda>p.
     rbind (deref (m_data b)) (\<lambda>d.
     rbind (netBuffer (maxLength d)) (\<lambda>d0.
     rbind (tailData dbg d0 (m_buffer d) (nb_length d)) (\<lambda>(_, d').
     Inr (p\<lparr>m_data := Some d', m_state := m_state b, rb_type := rb_type b,
            rb_recvList := rb_recvList b\<rparr>)))))"

text \<open>\<open>m_temp.append(buf->readData(n), n)\<close>: the characters appended, and the buffer.\<close>

definition take_read :: "bool \<Rightarrow> net_buffer \<Rightarrow> size_t \<Rightarrow> (string \<times> net_buffer) res" where
  "take_read dbg buf n =
     rbind (readData dbg buf n) (\<lambda>(p, buf').
     rbind (deref p) (\<lambda>off.
     rbind (mem_read (m_buffer buf') (unat off) (unat n)) (\<lambda>part.
     Inr (part, buf'))))"

definition rb_readLen ::
    "bool \<Rightarrow> redis_block \<Rightarrow> net_buffer \<Rightarrow> size_t \<Rightarrow> (string option \<times> redis_block \<times> net_buffer) res" where
  "rb_readLen dbg b buf len =
     (let toRead = needReadLength buf;
          need = len - of_nat (length (rb_temp b));
          ok = need \<le> toRead;
          toRead = (if ok then need else toRead) in
      rbind (take_read dbg buf toRead) (\<lambda>(part, buf1).
      let temp = rb_temp b @ part in
      rbind (clearReadBuffer dbg buf1) (\<lambda>buf2.
      if ok then Inr (Some temp, b\<lparr>rb_temp := []\<rparr>, buf2)
      else Inr (None, b\<lparr>rb_temp := temp\<rparr>, buf2))))"

definition rb_readline ::
    "bool \<Rightarrow> redis_block \<Rightarrow> net_buffer \<Rightarrow> (string option \<times> redis_block \<times> net_buffer) res" where
  "rb_readline dbg b buf =
     rbind (memchr (m_buffer buf) (unat (m_readPos buf)) REDIS_PREFIX_LBR (unat (needReadLength buf))) (\<lambda>eol.
     let toRead = (case eol of None \<Rightarrow> needReadLength buf | Some i \<Rightarrow> of_nat i + 1);
         ok = (eol \<noteq> None) in
     rbind (take_read dbg buf toRead) (\<lambda>(part, buf1).
     let temp = rb_temp b @ part in
     rbind (clearReadBuffer dbg buf1) (\<lambda>buf2.
     if ok then rbind (rb_rtrim temp REDIS_LBR) (\<lambda>line. Inr (Some line, b\<lparr>rb_temp := []\<rparr>, buf2))
     else Inr (None, b\<lparr>rb_temp := temp\<rparr>, buf2))))"

text \<open>Every line read takes a byte off the buffer, so the loop over the elements ends.\<close>

lemma take_read_need:
  assumes "take_read dbg buf n = Inr (part, buf1)" and "clearReadBuffer dbg buf1 = Inr buf2"
  shows "n \<le> needReadLength buf" "needReadLength buf2 = needReadLength buf - n"
proof -
  have "canRead buf n \<and> buf1 = buf\<lparr>m_readPos := m_readPos buf + n\<rparr>"
    using assms(1) by (auto simp: take_read_def readData_def rbind_eq_Inr deref_def split: if_splits option.splits)
  then show "n \<le> needReadLength buf" "needReadLength buf2 = needReadLength buf - n"
    using assms(2) by (auto simp: canRead_def clearReadBuffer_def rbind_eq_Inr needReadLength_def)
qed

lemma rb_readline_consumes:
  assumes "rb_readline dbg b buf = Inr (Some line, b', buf')"
  shows "unat (needReadLength buf') < unat (needReadLength buf)"
proof -
  obtain i part buf1 where i: "memchr (m_buffer buf) (unat (m_readPos buf)) REDIS_PREFIX_LBR
        (unat (needReadLength buf)) = Inr (Some i)"
      "take_read dbg buf (of_nat i + 1) = Inr (part, buf1)" "clearReadBuffer dbg buf1 = Inr buf'"
    using assms by (auto simp: rb_readline_def Let_def rbind_eq_Inr split: if_splits option.splits)
  have "i < unat (needReadLength buf)" using i(1) by (auto simp: memchr_def Let_def split: if_splits)
  then have "Suc i < 2 ^ 64" using unat_size_bound [of "needReadLength buf"] by linarith
  then have "unat (of_nat (Suc i) :: size_t) = Suc i"
    by (simp add: unat_of_nat take_bit_nat_eq_self del: of_nat_Suc)
  then have "unat (of_nat i + 1 :: size_t) = Suc i" by (simp add: add.commute)
  then show ?thesis
    using take_read_need [OF i(2,3)] by (simp add: unat_minus_size size_cmp)
qed

lemma rb_readLen_consumes:
  assumes "rb_readLen dbg b buf len = Inr (r, b', buf')"
  shows "unat (needReadLength buf') \<le> unat (needReadLength buf)"
proof -
  obtain n part buf1 where "take_read dbg buf n = Inr (part, buf1)" "clearReadBuffer dbg buf1 = Inr buf'"
    using assms by (auto simp: rb_readLen_def Let_def rbind_eq_Inr split: if_splits)
  from take_read_need [OF this] show ?thesis by (simp add: unat_minus_size size_cmp)
qed

function rb_recvMulti ::
    "bool \<Rightarrow> (string \<Rightarrow> int option) \<Rightarrow> redis_block \<Rightarrow> net_buffer \<Rightarrow> (bool \<times> redis_block \<times> net_buffer) res" where
  "rb_recvMulti dbg cast b buf =
     rbind (rb_readline dbg b buf) (\<lambda>(lline, b1, buf1).
     case lline of
       None \<Rightarrow> Inr (False, b1, buf1)
     | Some line \<Rightarrow>
         let b2 = b1\<lparr>m_state := STATE_BODY\<rparr> in
         rbind (str_substr line 1) (\<lambda>ssub.
         let b3 = b2\<lparr>rb_bufSize := 0\<rparr> in
         rbind (lexical_cast cast ssub) (\<lambda>bufSize.
         if bufSize = -1 then
           let b4 = b3\<lparr>rb_recvList := rb_recvList b3 @ [REDIS_MISSING_KEY],
                        rb_recvSize := rb_recvSize b3 + of_nat (length REDIS_MISSING_KEY) + 4\<rparr> in
           if of_nat (length (rb_recvList b4)) = rb_mutSize b4 then
             rbind (makeRedisBuffer dbg cast (b4\<lparr>m_state := STATE_DONE\<rparr>)) (\<lambda>b5. Inr (True, b5, buf1))
           else rb_recvMulti dbg cast b4 buf1
         else
           let b4 = b3\<lparr>rb_bufSize := of_int bufSize + 2\<rparr> in
           rbind (rb_readLen dbg b4 buf1 (rb_bufSize b4)) (\<lambda>(bb, b5, buf2).
           case bb of
             None \<Rightarrow> Inr (False, b5, buf2)
           | Some s \<Rightarrow>
               rbind (str_erase s (rb_bufSize b5 - 2)) (\<lambda>item.
               let b6 = b5\<lparr>rb_recvList := rb_recvList b5 @ [item],
                            rb_recvSize := rb_recvSize b5 + 4 + of_nat (length item)\<rparr> in
               if of_nat (length (rb_recvList b6)) = rb_mutSize b6 then
                 rbind (makeRedisBuffer dbg cast b6) (\<lambda>b7. Inr (True, b7\<lparr>m_state := STATE_DONE\<rparr>, buf2))
               else rb_recvMulti dbg cast b6 buf2)))))"
  by pat_completeness auto
termination
  by (relation "measure (\<lambda>(dbg, cast, b, buf). unat (needReadLength buf))")
    (auto dest!: rb_readline_consumes rb_readLen_consumes)

declare rb_recvMulti.simps [simp del]

text \<open>The part of \<open>recv\<close> after the first line, which depends on the kind of the reply.\<close>

definition rb_recvBody ::
    "bool \<Rightarrow> (string \<Rightarrow> int option) \<Rightarrow> redis_block \<Rightarrow> net_buffer \<Rightarrow> (bool \<times> redis_block \<times> net_buffer) res" where
  "rb_recvBody dbg cast b buf =
     (if bulk_reply = rb_type b then
        rbind (rb_readLen dbg b buf (rb_bufSize b)) (\<lambda>(r, b1, buf1).
        case r of
          None \<Rightarrow> Inr (False, b1, buf1)
        | Some s \<Rightarrow>
            rbind (str_erase s (rb_bufSize b1 - 2)) (\<lambda>item.
            let b2 = b1\<lparr>rb_recvSize := rb_recvSize b1 + of_nat (length item),
                         rb_recvList := rb_recvList b1 @ [item], m_state := STATE_DONE\<rparr> in
            rbind (makeRedisBuffer dbg cast b2) (\<lambda>b3. Inr (True, b3, buf1))))
      else if multi_bulk_reply = rb_type b then rb_recvMulti dbg cast b buf
      else rbind (MYASSERT dbg False) (\<lambda>_. Inr (False, b, buf)))"

text \<open>\<open>push_back(v)\<close>, the size of the packed reply, \<open>_STATE_DONE_\<close> and \<open>makeRedisBuffer\<close>.\<close>

definition rb_finish ::
    "bool \<Rightarrow> (string \<Rightarrow> int option) \<Rightarrow> redis_block \<Rightarrow> string list \<Rightarrow> size_t \<Rightarrow> redis_block res" where
  "rb_finish dbg cast b vs n =
     makeRedisBuffer dbg cast
       (b\<lparr>rb_recvList := rb_recvList b @ vs, rb_recvSize := n, m_state := STATE_DONE\<rparr>)"

definition rb_recv ::
    "bool \<Rightarrow> (string \<Rightarrow> int option) \<Rightarrow> redis_block \<Rightarrow> net_buffer \<Rightarrow> (bool \<times> redis_block \<times> net_buffer) res" where
  "rb_recv dbg cast b0 buf0 =
     (if no_reply \<noteq> rb_type b0 then rb_recvBody dbg cast b0 buf0
      else
        rbind (rb_readline dbg b0 buf0) (\<lambda>(line, b1, buf).
        case line of
          None \<Rightarrow> Inr (False, b1, buf)
        | Some str \<Rightarrow>
            let b = b1\<lparr>rb_type := rb_getReplyType str\<rparr> in
            case rb_type b of
              no_reply \<Rightarrow>
                rbind (MYASSERT dbg False) (\<lambda>_.
                rbind (rb_finish dbg cast b [] 4) (\<lambda>b'. Inr (True, b', buf)))
            | status_code_reply \<Rightarrow>
                rbind (str_substr str 1) (\<lambda>v.
                rbind (first_reply (b\<lparr>rb_recvList := rb_recvList b @ [v]\<rparr>)) (\<lambda>v0.
                rbind (rb_finish dbg cast b [v] (4 + of_nat (length v0))) (\<lambda>b'. Inr (True, b', buf))))
            | error_reply \<Rightarrow>
                rbind (str_substr str 4) (\<lambda>v.
                rbind (first_reply (b\<lparr>rb_recvList := rb_recvList b @ [v]\<rparr>)) (\<lambda>v0.
                rbind (rb_finish dbg cast b [v] (4 + of_nat (length v0))) (\<lambda>b'. Inr (True, b', buf))))
            | int_reply \<Rightarrow>
                rbind (str_substr str 1) (\<lambda>v.
                rbind (rb_finish dbg cast b [v] (4 + 4)) (\<lambda>b'. Inr (True, b', buf)))
            | bulk_reply \<Rightarrow>
                let b = b\<lparr>rb_bufSize := 0\<rparr> in
                rbind (str_substr str 1) (\<lambda>v.
                rbind (lexical_cast cast v) (\<lambda>bufSize.
                if bufSize = -1 then
                  rbind (rb_finish dbg cast b [REDIS_MISSING_KEY] (4 + of_nat (length REDIS_MISSING_KEY)))
                    (\<lambda>b'. Inr (True, b', buf))
                else
                  rbind (int_plus_2 bufSize) (\<lambda>n.
                  rb_recvBody dbg cast (b\<lparr>rb_recvSize := 4, rb_bufSize := n, m_state := STATE_BODY\<rparr>) buf)))
            | multi_bulk_reply \<Rightarrow>
                let b = b\<lparr>m_state := STATE_BODY, rb_mutSize := 0\<rparr> in
                rbind (str_substr str 1) (\<lambda>v.
                rbind (lexical_cast cast v) (\<lambda>muSize.
                if muSize = -1 then
                  rbind (rb_finish dbg cast b [] (4 + 4)) (\<lambda>b'. Inr (True, b', buf))
                else
                  rb_recvBody dbg cast (b\<lparr>rb_recvSize := 4 + 4, rb_mutSize := of_int muSize\<rparr>) buf))))"

definition redisBlock_recv ::
    "bool \<Rightarrow> (string \<Rightarrow> int option) \<Rightarrow> redis_block \<Rightarrow> bufferPtr \<Rightarrow> (bool \<times> redis_block \<times> bufferPtr) res" where
  "redisBlock_recv dbg cast b buf =
     rbind (deref buf) (\<lambda>bf.
     rbind (rb_recv dbg cast b bf) (\<lambda>(r, b', bf'). Inr (r, b', Some bf')))"

section \<open>Taking bytes off the receive buffer\<close>

lemma buffer_window:
  assumes "nb_inv bf"
  shows "take (unat (needReadLength bf)) (drop (unat (m_readPos bf)) (m_buffer bf)) = nb_unread bf"
    "unat (m_readPos bf) + unat (needReadLength bf) \<le> length (m_buffer bf)"
  using buffer_at_pos [OF assms] nb_invD [OF assms] needReadLength_unat [OF assms] assms
  by (auto simp: at_pos_def)

lemma take_read_ok:
  assumes inv: "nb_inv bf" and n: "unat n \<le> length (nb_unread bf)"
  shows "\<exists>bf1 bf2. take_read dbg bf n = Inr (take (unat n) (nb_unread bf), bf1) \<and>
           clearReadBuffer dbg bf1 = Inr bf2 \<and> nb_inv bf2 \<and> m_readPos bf2 = 0 \<and>
           m_maxLen bf2 = m_maxLen bf \<and> nb_unread bf2 = drop (unat n) (nb_unread bf)"
proof -
  note R = readData_ok [OF inv n]
  note D = nb_invD [OF inv]
  have "mem_read (m_buffer bf) (unat (m_readPos bf)) (unat n) = Inr (take (unat n) (nb_unread bf))"
    using D n inv by (simp add: mem_read_def nb_unread_def nb_content_def take_drop_take)
  then have "take_read dbg bf n = Inr (take (unat n) (nb_unread bf), bf\<lparr>m_readPos := m_readPos bf + n\<rparr>)"
    by (simp add: take_read_def R(1))
  moreover obtain bf2 where "clearReadBuffer dbg (bf\<lparr>m_readPos := m_readPos bf + n\<rparr>) = Inr bf2"
      "nb_inv bf2" "m_readPos bf2 = 0" "m_maxLen bf2 = m_maxLen bf"
      "nb_unread bf2 = drop (unat n) (nb_unread bf)"
    using clearReadBuffer_ok [OF R(2), of dbg] R(4) by auto
  ultimately show ?thesis by blast
qed

text \<open>What \<open>readline\<close> and \<open>readLen\<close> leave of the buffer.\<close>

definition left_over :: "net_buffer \<Rightarrow> net_buffer \<Rightarrow> bytes \<Rightarrow> bool" where
  "left_over bf bf' rest \<longleftrightarrow> nb_inv bf' \<and> m_readPos bf' = 0 \<and> m_maxLen bf' = m_maxLen bf \<and>
     nb_unread bf' = rest"

lemma left_over_trans: "left_over bf bf1 r1 \<Longrightarrow> left_over bf1 bf2 r2 \<Longrightarrow> left_over bf bf2 r2"
  by (simp add: left_over_def)

lemma rb_readline_ok:
  assumes inv: "nb_inv bf" and l: "clean_line l" and t: "LF \<notin> set (rb_temp b)"
    and eq: "rb_temp b @ nb_unread bf = l @ REDIS_LBR @ rest" and len: "length l + 2 \<le> PTRDIFF_MAX"
  shows "\<exists>bf'. rb_readline dbg b bf = Inr (Some l, b\<lparr>rb_temp := []\<rparr>, bf') \<and> left_over bf bf' rest"
proof -
  have "length (rb_temp b) < length (l @ REDIS_LBR)"
  proof (rule ccontr)
    assume "\<not> length (rb_temp b) < length (l @ REDIS_LBR)"
    then have "take (length (l @ REDIS_LBR)) (rb_temp b) = l @ REDIS_LBR"
      using arg_cong [OF eq, of "take (length (l @ REDIS_LBR))"] by simp
    then have "LF \<in> set (rb_temp b)" by (metis REDIS_LBR_def UnCI in_set_takeD list.set_intros set_append)
    then show False using t by simp
  qed
  then have le: "length (rb_temp b) \<le> length (l @ [CR])" by (simp add: REDIS_LBR_def)
  have "rb_temp b @ nb_unread bf = (l @ [CR]) @ (LF # rest)" using eq by (simp add: REDIS_LBR_def)
  then have tk: "rb_temp b = take (length (rb_temp b)) (l @ [CR])"
      "nb_unread bf = drop (length (rb_temp b)) (l @ [CR]) @ LF # rest"
    unfolding append_eq_append_conv_if using le by (simp_all only: if_True)
  define v where "v = drop (length (rb_temp b)) (l @ [CR])"
  have "take (length (rb_temp b)) (l @ [CR]) @ v = l @ [CR]" unfolding v_def by (rule append_take_drop_id)
  then have v: "l @ [CR] = rb_temp b @ v" "nb_unread bf = v @ LF # rest"
    using tk(2) by (simp_all only: tk(1) [symmetric] v_def [symmetric])
  have nv: "LF \<notin> set v" using arg_cong [OF v(1), of set] l by (auto simp: clean_line_def)
  have mc: "memchr (m_buffer bf) (unat (m_readPos bf)) REDIS_PREFIX_LBR (unat (needReadLength bf)) =
      Inr (Some (length v))"
    unfolding REDIS_PREFIX_LBR_def
    by (rule memchr_line [OF _ nv, where ys = rest]) (simp add: buffer_window(1) [OF inv] v(2))
  have "length (nb_unread bf) \<le> PTRDIFF_MAX" using inv nb_invD [OF inv] by simp
  then have u: "unat (of_nat (Suc (length v)) :: size_t) = Suc (length v)"
    using v(2) by (intro unat_of_nat_size) simp
  then have n: "unat (of_nat (length v) + 1 :: size_t) = Suc (length v)" by (simp add: add.commute)
  then have "unat (of_nat (length v) + 1 :: size_t) \<le> length (nb_unread bf)" by (simp add: v(2))
  from take_read_ok [OF inv this, of dbg] obtain bf1 bf2 where
    tr: "take_read dbg bf (of_nat (length v) + 1) = Inr (v @ [LF], bf1)"
      "clearReadBuffer dbg bf1 = Inr bf2" "left_over bf bf2 rest"
    by (auto simp: n v(2) left_over_def)
  have "rb_temp b @ v @ [LF] = l @ REDIS_LBR" using v(1) by (simp add: REDIS_LBR_def)
  then have "rtrim (rb_temp b @ v @ [LF]) REDIS_LBR = Inr l" using rtrim_line [OF l len] by simp
  then show ?thesis using tr by (simp add: rb_readline_def mc Let_def)
qed

lemma rb_readline_partial:
  assumes inv: "nb_inv bf" and s: "LF \<notin> set (nb_unread bf)"
  shows "\<exists>bf'. rb_readline dbg b bf = Inr (None, b\<lparr>rb_temp := rb_temp b @ nb_unread bf\<rparr>, bf') \<and>
           left_over bf bf' []"
proof -
  have mc: "memchr (m_buffer bf) (unat (m_readPos bf)) REDIS_PREFIX_LBR (unat (needReadLength bf)) = Inr None"
    using s buffer_window [OF inv] by (intro memchr_none) (simp_all add: REDIS_PREFIX_LBR_def)
  note N = needReadLength_unat [OF inv]
  have "unat (needReadLength bf) \<le> length (nb_unread bf)" by (simp only: N)
  from take_read_ok [OF inv this, of dbg] obtain bf1 bf2 where
    "take_read dbg bf (needReadLength bf) = Inr (nb_unread bf, bf1)"
    "clearReadBuffer dbg bf1 = Inr bf2" "left_over bf bf2 []"
    by (auto simp: N left_over_def simp del: nb_unread_length)
  then show ?thesis by (simp add: rb_readline_def mc Let_def)
qed

lemma rb_readLen_ok:
  assumes inv: "nb_inv bf" and len: "unat len = length (rb_temp b) + length xs"
    and eq: "nb_unread bf = xs @ rest"
  shows "\<exists>bf'. rb_readLen dbg b bf len = Inr (Some (rb_temp b @ xs), b\<lparr>rb_temp := []\<rparr>, bf') \<and>
           left_over bf bf' rest"
proof -
  have "len = of_nat (length (rb_temp b) + length xs)" by (simp flip: len)
  then have need: "len - of_nat (length (rb_temp b)) = of_nat (length xs)" by simp
  have "length (nb_unread bf) \<le> PTRDIFF_MAX" using inv nb_invD [OF inv] by simp
  then have u: "unat (of_nat (length xs) :: size_t) = length xs"
    by (intro unat_of_nat_size) (simp add: eq)
  have "length xs \<le> length (nb_unread bf)" by (simp add: eq)
  then have le: "(of_nat (length xs) :: size_t) \<le> needReadLength bf"
    by (simp only: size_cmp needReadLength_unat [OF inv] u)
  have "unat (of_nat (length xs) :: size_t) \<le> length (nb_unread bf)" by (simp only: u) (simp add: eq)
  from take_read_ok [OF inv this, of dbg] obtain bf1 bf2 where
    "take_read dbg bf (of_nat (length xs)) = Inr (xs, bf1)"
    "clearReadBuffer dbg bf1 = Inr bf2" "left_over bf bf2 rest"
    by (auto simp: u eq left_over_def)
  then show ?thesis using le by (simp add: rb_readLen_def need Let_def)
qed

lemma rb_readLen_partial:
  assumes inv: "nb_inv bf" and len: "length (rb_temp b) + length (nb_unread bf) < unat len"
  shows "\<exists>bf'. rb_readLen dbg b bf len = Inr (None, b\<lparr>rb_temp := rb_temp b @ nb_unread bf\<rparr>, bf') \<and>
           left_over bf bf' []"
proof -
  note N = needReadLength_unat [OF inv]
  have "unat len < 2 ^ 64" by (rule unat_size_bound)
  then have t: "unat (of_nat (length (rb_temp b)) :: size_t) = length (rb_temp b)"
    using len by (simp add: unat_of_nat take_bit_nat_eq_self)
  have "unat (len - of_nat (length (rb_temp b))) = unat len - length (rb_temp b)"
    using len by (subst unat_minus_size) (simp_all add: size_cmp t)
  then have gt: "\<not> len - of_nat (length (rb_temp b)) \<le> needReadLength bf"
    using len by (simp only: size_cmp N)
  have "unat (needReadLength bf) \<le> length (nb_unread bf)" by (simp only: N)
  from take_read_ok [OF inv this, of dbg] obtain bf1 bf2 where
    "take_read dbg bf (needReadLength bf) = Inr (nb_unread bf, bf1)"
    "clearReadBuffer dbg bf1 = Inr bf2" "left_over bf bf2 []"
    by (auto simp: N left_over_def simp del: nb_unread_length)
  then show ?thesis using gt by (simp add: rb_readLen_def Let_def)
qed

section \<open>The packed reply\<close>

text \<open>A buffer of capacity \<open>cap\<close> that holds \<open>bs\<close>, all of it unread.\<close>

definition holds :: "size_t \<Rightarrow> net_buffer \<Rightarrow> bytes \<Rightarrow> bool" where
  "holds cap d bs \<longleftrightarrow> nb_inv d \<and> \<not> m_lock d \<and> m_readPos d = 0 \<and> m_maxLen d = cap \<and>
     nb_content d = bs"

lemma holds_new:
  "unat cap \<le> PTRDIFF_MAX \<Longrightarrow> \<exists>d. netBuffer cap = Inr d \<and> holds cap d []"
  using netBuffer_ok [of cap] by (auto simp: holds_def)

lemma holds_tail:
  assumes d: "holds cap d bs" and fit: "length bs + length x \<le> unat cap"
    and cap: "2 * unat cap \<le> PTRDIFF_MAX"
  shows "\<exists>r d'. tailData dbg d x (of_nat (length x)) = Inr (r, d') \<and> holds cap d' (bs @ x)"
proof (cases "x = []")
  case True
  then show ?thesis using d tailData_empty [of d dbg x] by (auto simp: holds_def)
next
  case False
  have u: "unat (of_nat (length x) :: size_t) = length x"
    using fit cap by (intro unat_of_nat_size) simp
  have w: "unat (m_writePos d) = length bs"
    using d nb_content_length [of d] by (auto simp: holds_def)
  have "unat (m_writePos d + of_nat (length x)) = length bs + length x"
    using fit cap by (subst unat_plus_size) (simp_all add: u w)
  then have "nb_cap_after d (of_nat (length x)) = cap"
    using d fit by (simp add: nb_cap_after_def holds_def size_cmp)
  then show ?thesis
    using tailData_ok [of d "of_nat (length x)" x dbg] d False fit cap
    by (auto simp: holds_def u w nb_room_def)
qed

lemma holds_pod:
  assumes "holds cap d bs" and "length bs + 4 \<le> unat cap" and "2 * unat cap \<le> PTRDIFF_MAX"
  shows "\<exists>r d'. tailPod dbg uint_pod d w = Inr (r, d') \<and> holds cap d' (bs @ le32 w)"
proof -
  have "length (le32 w) = 4" by simp
  then show ?thesis
    using holds_tail [of cap d bs "le32 w" dbg] assms by (simp add: tailPod_def sizeof_def uint_pod_def)
qed

definition pack_strings :: "string list \<Rightarrow> bytes" where
  "pack_strings vs = concat (map (\<lambda>v. le32 (of_nat (length v)) @ v) vs)"

lemma put_strings_ok:
  assumes "holds cap d bs" and "length bs + length (pack_strings vs) \<le> unat cap"
    and "2 * unat cap \<le> PTRDIFF_MAX"
  shows "\<exists>d'. put_strings dbg d vs = Inr d' \<and> holds cap d' (bs @ pack_strings vs)"
  using assms
proof (induction vs arbitrary: d bs)
  case Nil
  then show ?case by (simp add: pack_strings_def)
next
  case (Cons v vs)
  have len: "length bs + 4 + length v + length (pack_strings vs) \<le> unat cap"
    using Cons.prems(2) by (simp add: pack_strings_def)
  obtain r1 d1 where 1: "tailPod dbg uint_pod d (of_nat (length v)) = Inr (r1, d1)"
      "holds cap d1 (bs @ le32 (of_nat (length v)))"
    using holds_pod [OF Cons.prems(1) _ Cons.prems(3)] len by (meson add_leD1)
  obtain r2 d2 where 2: "tailData dbg d1 v (of_nat (length v)) = Inr (r2, d2)"
      "holds cap d2 ((bs @ le32 (of_nat (length v))) @ v)"
    using holds_tail [OF 1(2) _ Cons.prems(3), of v dbg] len by auto
  show ?case
    using Cons.IH [OF 2(2) _ Cons.prems(3)] len 1(1) 2(1) by (simp add: pack_strings_def)
qed

text \<open>What \<open>makeRedisBuffer\<close> writes after the kind of the reply, and the whole packed reply.\<close>

definition rb_payload :: "(string \<Rightarrow> int option) \<Rightarrow> reply_t \<Rightarrow> string list \<Rightarrow> bytes" where
  "rb_payload cast t vs =
     (case t of
        no_reply \<Rightarrow> []
      | int_reply \<Rightarrow> le32 (of_int (the (cast (hd vs))))
      | multi_bulk_reply \<Rightarrow> le32 (of_nat (length vs)) @ pack_strings vs
      | _ \<Rightarrow> hd vs)"

definition rb_packed :: "(string \<Rightarrow> int option) \<Rightarrow> reply_t \<Rightarrow> string list \<Rightarrow> bytes" where
  "rb_packed cast t vs = le32 (reply_word t) @ rb_payload cast t vs"

text \<open>The strings a finished message holds fit the kind of the reply.\<close>

definition rb_shape :: "(string \<Rightarrow> int option) \<Rightarrow> reply_t \<Rightarrow> string list \<Rightarrow> bool" where
  "rb_shape cast t vs \<longleftrightarrow> (t = no_reply \<or> t = multi_bulk_reply \<or>
     (\<exists>v. vs = [v] \<and> (t = int_reply \<longrightarrow> cast v \<noteq> None)))"

lemma makeRedisBuffer_ok:
  assumes st: "m_state b = STATE_DONE \<or> rb_type b = multi_bulk_reply"
    and sh: "rb_shape cast (rb_type b) (rb_recvList b)"
    and n: "unat (rb_recvSize b) = length (rb_packed cast (rb_type b) (rb_recvList b))"
    and cap: "2 * unat (rb_recvSize b) \<le> PTRDIFF_MAX"
  shows "\<exists>d. makeRedisBuffer dbg cast b = Inr (b\<lparr>m_data := Some d\<rparr>) \<and>
           holds (rb_recvSize b) d (rb_packed cast (rb_type b) (rb_recvList b))"
proof -
  let ?t = "rb_type b" and ?vs = "rb_recvList b" and ?cap = "rb_recvSize b"
  have nz: "?cap \<noteq> 0" using n by (auto simp: rb_packed_def)
  obtain d0 where d0: "netBuffer ?cap = Inr d0" "holds ?cap d0 []"
    using holds_new [of ?cap] cap by auto
  obtain r d where d: "tailPod dbg uint_pod d0 (reply_word ?t) = Inr (r, d)"
      "holds ?cap d (le32 (reply_word ?t))"
    using holds_pod [OF d0(2) _ cap, of dbg "reply_word ?t"] n by (auto simp: rb_packed_def)
  have room: "length (le32 (reply_word ?t)) + length (rb_payload cast ?t ?vs) \<le> unat ?cap"
    using n by (simp add: rb_packed_def)
  have putt: "\<exists>d'. put_text dbg d v = Inr d' \<and> holds ?cap d' (le32 (reply_word ?t) @ v)"
    if "rb_payload cast ?t ?vs = v" for v
    using holds_tail [OF d(2) _ cap, of v dbg] room that by (auto simp: put_text_def)
  show ?thesis
  proof (cases "rb_type b")
    case no_reply
    then show ?thesis using nz d0(1) d by (auto simp: makeRedisBuffer_def rb_packed_def rb_payload_def)
  next
    case int_reply
    then obtain v i where v: "?vs = [v]" "cast v = Some i" using sh by (auto simp: rb_shape_def)
    have "length (le32 (reply_word ?t)) + 4 \<le> unat ?cap"
      using room int_reply by (simp add: rb_payload_def)
    from holds_pod [OF d(2) this cap, of dbg "of_int i"] obtain r2 d2 where
      "tailPod dbg uint_pod d (of_int i) = Inr (r2, d2)" "holds ?cap d2 (le32 (reply_word ?t) @ le32 (of_int i))"
      by blast
    then show ?thesis using nz d0(1) d(1) v int_reply st
      by (auto simp: makeRedisBuffer_def rb_packed_def rb_payload_def get_int_reply_def check_reply_t_def
          first_reply_def bodyDone_def lexical_cast_def)
  next
    case multi_bulk_reply
    have len: "length (le32 (reply_word ?t)) + 4 + length (pack_strings ?vs) \<le> unat ?cap"
      using room multi_bulk_reply by (simp add: rb_payload_def)
    then have "length (le32 (reply_word ?t)) + 4 \<le> unat ?cap" by simp
    from holds_pod [OF d(2) this cap, of dbg "of_nat (length ?vs)"] obtain r2 d2 where
      d2: "tailPod dbg uint_pod d (of_nat (length ?vs)) = Inr (r2, d2)"
        "holds ?cap d2 (le32 (reply_word ?t) @ le32 (of_nat (length ?vs)))" by blast
    have "length (le32 (reply_word ?t) @ le32 (of_nat (length ?vs) :: uint32)) + length (pack_strings ?vs) \<le> unat ?cap"
      using len by simp
    from put_strings_ok [OF d2(2) this cap, of dbg] show ?thesis
      using nz d0(1) d(1) d2(1) multi_bulk_reply
      by (auto simp: makeRedisBuffer_def rb_packed_def rb_payload_def)
  qed (use nz d0(1) d(1) st sh putt in \<open>auto simp: makeRedisBuffer_def rb_packed_def rb_payload_def
      rb_shape_def get_status_code_reply_def get_error_reply_def get_bulk_reply_def check_reply_t_def
      first_reply_def bodyDone_def\<close>)
qed

section \<open>Receiving a reply\<close>

text \<open>The strings a finished message holds, and the replies it can pack.\<close>

fun rb_bulk_value :: "string option \<Rightarrow> string" where
  "rb_bulk_value None = REDIS_MISSING_KEY"
| "rb_bulk_value (Some s) = s"

fun rb_values :: "resp \<Rightarrow> string list" where
  "rb_values (Status l) = [l]"
| "rb_values (Error_reply l) = [drop 3 l]"
| "rb_values (Integer_reply l) = [l]"
| "rb_values (Bulk b) = [rb_bulk_value b]"
| "rb_values (Multi None) = []"
| "rb_values (Multi (Some bs)) = map rb_bulk_value bs"

definition rb_bytes :: "(string \<Rightarrow> int option) \<Rightarrow> resp \<Rightarrow> bytes" where
  "rb_bytes cast r = rb_packed cast (resp_type r) (rb_values r)"

definition rb_ok :: "(string \<Rightarrow> int option) \<Rightarrow> resp \<Rightarrow> bool" where
  "rb_ok cast r \<longleftrightarrow> resp_ok r \<and> length (resp_head r) + 2 \<le> PTRDIFF_MAX \<and>
     2 * length (rb_bytes cast r) \<le> PTRDIFF_MAX \<and> (\<forall>l. r = Integer_reply l \<longrightarrow> cast l \<noteq> None)"

text \<open>A finished message: the reply, and a buffer that is filled by the packed reply.\<close>

definition rb_done :: "(string \<Rightarrow> int option) \<Rightarrow> redis_block \<Rightarrow> resp \<Rightarrow> bool" where
  "rb_done cast b r \<longleftrightarrow> m_state b = STATE_DONE \<and> rb_type b = resp_type r \<and>
     rb_recvList b = rb_values r \<and>
     (\<exists>d. m_data b = Some d \<and> holds (of_nat (length (rb_bytes cast r))) d (rb_bytes cast r))"

text \<open>
  A finished message gives its value to the accessor of its kind only; the others throw, and
  so does each of them before the reply is complete.
\<close>

lemma accessors_ok:
  assumes "rb_done cast b r" and "bodyDone w = False"
  shows "get_status_code_reply b = (if resp_type r = status_code_reply then Inr (hd (rb_values r)) else Inl RuntimeError) \<and>
    get_error_reply b = (if resp_type r = error_reply then Inr (hd (rb_values r)) else Inl RuntimeError) \<and>
    get_bulk_reply b = (if resp_type r = bulk_reply then Inr (hd (rb_values r)) else Inl RuntimeError) \<and>
    get_int_reply cast b = (if resp_type r = int_reply then lexical_cast cast (hd (rb_values r)) else Inl RuntimeError) \<and>
    get_multi_bulk_reply b = (if resp_type r = multi_bulk_reply then Inr (rb_values r) else Inl RuntimeError) \<and>
    get_bulk_reply w = Inl RuntimeError \<and> get_int_reply cast w = Inl RuntimeError \<and>
    get_multi_bulk_reply w = Inl RuntimeError"
proof -
  have "bodyDone b" "rb_type b = resp_type r" "rb_recvList b = rb_values r"
    using assms(1) by (simp_all add: rb_done_def bodyDone_def)
  then show ?thesis
    using assms(2)
    by (cases r) (simp_all add: get_status_code_reply_def get_error_reply_def get_bulk_reply_def get_int_reply_def
        get_multi_bulk_reply_def check_reply_t_def first_reply_def)
qed

lemma rb_shape_values: "rb_ok cast r \<Longrightarrow> rb_shape cast (resp_type r) (rb_values r)"
  by (cases r) (auto simp: rb_shape_def rb_ok_def)

lemma rb_size:
  "rb_ok cast r \<Longrightarrow> unat (of_nat (length (rb_bytes cast r)) :: size_t) = length (rb_bytes cast r)"
  by (intro unat_of_nat_size) (simp add: rb_ok_def)

lemma rb_bytes_length:
  "length (rb_bytes cast (Status l)) = 4 + length l"
  "length (rb_bytes cast (Error_reply l)) = 4 + length (drop 3 l)"
  "length (rb_bytes cast (Integer_reply l)) = 8"
  "length (rb_bytes cast (Bulk b)) = 4 + length (rb_bulk_value b)"
  "length (rb_bytes cast (Multi None)) = 8"
  "length (rb_bytes cast (Multi (Some bs))) = 8 + length (pack_strings (map rb_bulk_value bs))"
  by (simp_all add: rb_bytes_def rb_packed_def rb_payload_def pack_strings_def)

text \<open>The end of \<open>recv\<close>: the strings and the size are stored, the state is set, the buffer made.\<close>

lemma rb_make_done:
  assumes r: "rb_ok cast r" and t: "rb_type b = resp_type r" and v: "rb_recvList b = rb_values r"
    and n: "rb_recvSize b = of_nat (length (rb_bytes cast r))"
    and st: "m_state b = STATE_DONE \<or> rb_type b = multi_bulk_reply"
  shows "\<exists>b'. makeRedisBuffer dbg cast b = Inr b' \<and> rb_done cast (b'\<lparr>m_state := STATE_DONE\<rparr>) r \<and>
           m_session b' = m_session b \<and> m_state b' = m_state b"
proof -
  have "unat (rb_recvSize b) = length (rb_packed cast (rb_type b) (rb_recvList b))"
    using rb_size [OF r] by (simp add: n t v rb_bytes_def)
  moreover have "2 * unat (rb_recvSize b) \<le> PTRDIFF_MAX" using rb_size [OF r] r by (simp add: n rb_ok_def)
  moreover have "rb_shape cast (rb_type b) (rb_recvList b)" using rb_shape_values [OF r] by (simp add: t v)
  ultimately obtain d where "makeRedisBuffer dbg cast b = Inr (b\<lparr>m_data := Some d\<rparr>)"
      "holds (rb_recvSize b) d (rb_bytes cast r)"
    using makeRedisBuffer_ok [of b cast dbg] st by (auto simp: t v rb_bytes_def)
  then show ?thesis using t v n by (auto simp: rb_done_def)
qed

lemma rb_finish_done:
  assumes r: "rb_ok cast r" and t: "rb_type b = resp_type r" and l: "rb_recvList b = []"
    and v: "vs = rb_values r" and n: "n = of_nat (length (rb_bytes cast r))"
  shows "\<exists>b'. rb_finish dbg cast b vs n = Inr b' \<and> rb_done cast b' r \<and> m_session b' = m_session b"
proof -
  let ?b = "b\<lparr>rb_recvList := rb_recvList b @ vs, rb_recvSize := n, m_state := STATE_DONE\<rparr>"
  obtain b' where "makeRedisBuffer dbg cast ?b = Inr b'" "rb_done cast (b'\<lparr>m_state := STATE_DONE\<rparr>) r"
      "m_session b' = m_session b" "m_state b' = STATE_DONE"
    using rb_make_done [OF r, of ?b dbg] t l v n by auto
  moreover from this(4) have "b'\<lparr>m_state := STATE_DONE\<rparr> = b'" by simp
  ultimately show ?thesis by (simp add: rb_finish_def)
qed

text \<open>A message that waits for its first line.\<close>

definition rb_fresh :: "redis_block \<Rightarrow> bytes \<Rightarrow> bool" where
  "rb_fresh b p \<longleftrightarrow> rb_type b = no_reply \<and> rb_recvList b = [] \<and> m_state b = STATE_INIT \<and>
     rb_temp b = p \<and> LF \<notin> set p"

text \<open>A message that waits for the rest of a counted string of length \<open>n\<close>, of which it has \<open>q\<close>.\<close>

definition rb_bulk :: "redis_block \<Rightarrow> nat \<Rightarrow> bytes \<Rightarrow> bool" where
  "rb_bulk b n q \<longleftrightarrow> rb_type b = bulk_reply \<and> rb_recvList b = [] \<and> m_state b = STATE_BODY \<and>
     rb_temp b = q \<and> length q < n + 2 \<and> int n + 2 \<le> INT_MAX \<and>
     rb_bufSize b = of_nat (n + 2) \<and> rb_recvSize b = 4"

context decimal_cast
begin

lemma rb_recv_first_line:
  assumes b: "rb_fresh b p" and inv: "nb_inv bf" and r: "rb_ok cast r"
    and eq: "p @ nb_unread bf = resp_head r @ REDIS_LBR @ rest"
  shows "\<exists>bf'. rb_readline dbg b bf = Inr (Some (resp_head r), b\<lparr>rb_temp := []\<rparr>, bf') \<and>
           left_over bf bf' rest \<and> getReplyType (resp_head r) = resp_type r"
proof -
  have ok: "resp_ok r" "length (resp_head r) + 2 \<le> PTRDIFF_MAX" using r by (simp_all add: rb_ok_def)
  then show ?thesis
    using rb_readline_ok [OF inv resp_head_clean [OF ok(1)] _ _ ok(2), of b rest dbg] b eq
      getReplyType_head [of r] by (auto simp: rb_fresh_def)
qed

lemma rb_recv_line:
  assumes b: "rb_fresh b p" and inv: "nb_inv bf" and r: "rb_ok cast r" and nb: "resp_body r = []"
    and nm: "\<forall>bs. r \<noteq> Multi (Some bs)"
    and eq: "p @ nb_unread bf = resp_head r @ REDIS_LBR @ rest"
  shows "\<exists>b' bf'. rb_recv dbg cast b bf = Inr (True, b', bf') \<and> rb_done cast b' r \<and>
           m_session b' = m_session b \<and> left_over bf bf' rest"
proof -
  obtain bf1 where rd: "rb_readline dbg b bf = Inr (Some (resp_head r), b\<lparr>rb_temp := []\<rparr>, bf1)"
      "left_over bf bf1 rest" "getReplyType (resp_head r) = resp_type r"
    using rb_recv_first_line [OF b inv r eq] by blast
  have f: "rb_type b = no_reply" "rb_recvList b = []" using b by (simp_all add: rb_fresh_def)
  note L = rb_bytes_length [of cast]
  show ?thesis
  proof (cases r rule: resp_head.cases)
    case (1 l)
    from rb_finish_done [OF r, of "b\<lparr>rb_temp := [], rb_type := status_code_reply\<rparr>" "[l]"
        "4 + of_nat (length l)" dbg] 1 f L show ?thesis
      using rd by (auto simp: rb_recv_def Let_def first_reply_def)
  next
    case (2 l)
    have "3 \<le> length l" using r 2 by (simp add: rb_ok_def)
    with rb_finish_done [OF r, of "b\<lparr>rb_temp := [], rb_type := error_reply\<rparr>" "[drop 3 l]"
        "4 + of_nat (length (drop 3 l))" dbg] 2 f L show ?thesis
      using rd by (auto simp: rb_recv_def Let_def first_reply_def str_substr_4)
  next
    case (3 l)
    from rb_finish_done [OF r, of "b\<lparr>rb_temp := [], rb_type := int_reply\<rparr>" "[l]" 8 dbg] 3 f L
    show ?thesis using rd by (auto simp: rb_recv_def Let_def)
  next
    case (4 x)
    then have x: "r = Bulk None" using nb by (cases x) (simp_all add: REDIS_LBR_def)
    from rb_finish_done [OF r, of "b\<lparr>rb_temp := [], rb_type := bulk_reply, rb_bufSize := 0\<rparr>"
        "[REDIS_MISSING_KEY]" "4 + of_nat (length REDIS_MISSING_KEY)" dbg] x f L
    show ?thesis using rd by (auto simp: rb_recv_def Let_def cast_minus_one)
  next
    case 5
    from rb_finish_done [OF r, of "b\<lparr>rb_temp := [], rb_type := multi_bulk_reply, m_state := STATE_BODY,
        rb_mutSize := 0\<rparr>" "[]" 8 dbg] 5 f L
    show ?thesis using rd by (auto simp: rb_recv_def Let_def cast_minus_one)
  next
    case (6 bs)
    then show ?thesis using nm by simp
  qed
qed

lemma rb_recv_bulk_done:
  assumes b: "rb_bulk b (length s) q" and inv: "nb_inv bf" and r: "rb_ok cast (Bulk (Some s))"
    and eq: "q @ nb_unread bf = (s @ REDIS_LBR) @ rest"
  shows "\<exists>b' bf'. rb_recvBody dbg cast b bf = Inr (True, b', bf') \<and> rb_done cast b' (Bulk (Some s)) \<and>
           m_session b' = m_session b \<and> left_over bf bf' rest"
proof -
  have f: "rb_type b = bulk_reply" "rb_recvList b = []" "rb_temp b = q" "length q < length s + 2"
      "int (length s) + 2 \<le> INT_MAX" "rb_bufSize b = of_nat (length s + 2)" "rb_recvSize b = 4"
    using b by (simp_all add: rb_bulk_def)
  note N = len_plus_2 [OF f(5)]
  define v where "v = drop (length q) (s @ REDIS_LBR)"
  have "length q \<le> length (s @ REDIS_LBR)" using f(4) by (simp add: REDIS_LBR_def)
  then have "q = take (length q) (s @ REDIS_LBR) \<and> nb_unread bf = v @ rest"
    using eq unfolding append_eq_append_conv_if v_def by (simp only: if_True)
  then have v: "q @ v = s @ REDIS_LBR" "nb_unread bf = v @ rest"
    using append_take_drop_id [of "length q" "s @ REDIS_LBR"] unfolding v_def by auto
  have "unat (rb_bufSize b) = length (rb_temp b) + length v"
    using arg_cong [OF v(1), of length] N(2) by (simp add: f(3,6) REDIS_LBR_def)
  from rb_readLen_ok [OF inv this v(2), of dbg] obtain bf1 where
    rl: "rb_readLen dbg b bf (rb_bufSize b) = Inr (Some (s @ REDIS_LBR), b\<lparr>rb_temp := []\<rparr>, bf1)"
      "left_over bf bf1 rest" by (auto simp: f(3) v(1))
  have er: "str_erase (s @ REDIS_LBR) (rb_bufSize b - 2) = Inr s"
    using N(3) by (simp add: str_erase_def f(6))
  let ?b = "b\<lparr>rb_temp := [], rb_recvSize := 4 + of_nat (length s), rb_recvList := [s], m_state := STATE_DONE\<rparr>"
  obtain b' where b': "makeRedisBuffer dbg cast ?b = Inr b'" "rb_done cast (b'\<lparr>m_state := STATE_DONE\<rparr>) (Bulk (Some s))"
      "m_session b' = m_session b" "m_state b' = STATE_DONE"
    using rb_make_done [OF r, of ?b dbg] f rb_bytes_length(4) [of cast "Some s"] by auto
  moreover from this(4) have "b'\<lparr>m_state := STATE_DONE\<rparr> = b'" by simp
  ultimately show ?thesis
    using rl er f by (simp add: rb_recvBody_def Let_def)
qed

lemma rb_recv_bulk_part:
  assumes b: "rb_bulk b n q" and inv: "nb_inv bf" and len: "length q + length (nb_unread bf) < n + 2"
  shows "\<exists>b' bf'. rb_recvBody dbg cast b bf = Inr (False, b', bf') \<and> rb_bulk b' n (q @ nb_unread bf) \<and>
           m_session b' = m_session b \<and> left_over bf bf' []"
proof -
  have f: "rb_type b = bulk_reply" "rb_temp b = q" "int n + 2 \<le> INT_MAX" "rb_bufSize b = of_nat (n + 2)"
    using b by (simp_all add: rb_bulk_def)
  have "length (rb_temp b) + length (nb_unread bf) < unat (rb_bufSize b)"
    using len len_plus_2(2) [OF f(3)] by (simp only: f)
  from rb_readLen_partial [OF inv this, of dbg] obtain bf1 where
    "rb_readLen dbg b bf (rb_bufSize b) = Inr (None, b\<lparr>rb_temp := q @ nb_unread bf\<rparr>, bf1)"
    "left_over bf bf1 []" by (auto simp: f)
  then show ?thesis using b len by (simp add: rb_recvBody_def Let_def rb_bulk_def)
qed

text \<open>One element of a sequence: its string is added, and the loop goes on unless it was the last.\<close>

lemma rb_recvMulti_elem:
  assumes inv: "nb_inv bf" and c: "bulk_ok c" and t: "rb_temp b = []"
    and eq: "nb_unread bf = bulk_bytes c @ rest"
  shows "\<exists>bf' k st. left_over bf bf' rest \<and> rb_recvMulti dbg cast b bf =
    (let b' = b\<lparr>rb_bufSize := k, rb_recvList := rb_recvList b @ [rb_bulk_value c],
                rb_recvSize := rb_recvSize b + of_nat (4 + length (rb_bulk_value c))\<rparr> in
     if of_nat (length (rb_recvList b) + 1) = rb_mutSize b
     then rbind (makeRedisBuffer dbg cast (b'\<lparr>m_state := st\<rparr>)) (\<lambda>x. Inr (True, x\<lparr>m_state := STATE_DONE\<rparr>, bf'))
     else rb_recvMulti dbg cast (b'\<lparr>m_state := STATE_BODY\<rparr>) bf')"
proof -
  have swap: "b\<lparr>m_state := STATE_BODY, rb_bufSize := k, rb_recvList := vs, rb_recvSize := n\<rparr> =
      b\<lparr>rb_bufSize := k, rb_recvList := vs, rb_recvSize := n, m_state := STATE_BODY\<rparr>" for k vs n
    by (cases b) simp
  have "length (nb_unread bf) \<le> PTRDIFF_MAX" using inv nb_invD [OF inv] by simp
  then have len: "length (bulk_head c) + 2 \<le> PTRDIFF_MAX" by (simp add: eq bulk_bytes_def REDIS_LBR_def)
  have "rb_temp b @ nb_unread bf = bulk_head c @ REDIS_LBR @ bulk_body c @ rest"
    by (simp add: t eq bulk_bytes_def)
  from rb_readline_ok [OF inv bulk_head_clean _ this len, of dbg] t obtain bf1 where
    rd: "rb_readline dbg b bf = Inr (Some (bulk_head c), b, bf1)" "left_over bf bf1 (bulk_body c @ rest)"
    by auto
  show ?thesis
  proof (cases c)
    case None
    have same: "rbind (makeRedisBuffer dbg cast x) (\<lambda>y. Inr (True, y, bf1)) =
        rbind (makeRedisBuffer dbg cast x) (\<lambda>y. Inr (True, y\<lparr>m_state := STATE_DONE\<rparr>, bf1))"
      if "m_state x = STATE_DONE" for x
    proof (cases "makeRedisBuffer dbg cast x")
      case (Inr y)
      have "m_state y = STATE_DONE"
        using Inr that by (auto simp: makeRedisBuffer_def rbind_eq_Inr Let_def split: if_splits)
      then have "y\<lparr>m_state := STATE_DONE\<rparr> = y" by simp
      then show ?thesis using Inr by simp
    qed simp
    have "left_over bf bf1 rest" using rd(2) None by simp
    then show ?thesis
      using rd None
      by (intro exI [of _ bf1] exI [of _ 0] exI [of _ STATE_DONE])
        (subst rb_recvMulti.simps, simp add: cast_minus_one Let_def same swap ac_simps)
  next
    case (Some s)
    have n: "int (length s) + 2 \<le> INT_MAX" "int (length s) \<le> INT_MAX" using c Some by simp_all
    note N = len_plus_2 [OF n(1)]
    let ?b = "b\<lparr>m_state := STATE_BODY, rb_bufSize := of_nat (length s + 2)\<rparr>"
    have inv1: "nb_inv bf1" "nb_unread bf1 = (s @ REDIS_LBR) @ rest" using rd(2) Some by (simp_all add: left_over_def)
    have "unat (of_nat (length s + 2) :: size_t) = length (rb_temp ?b) + length (s @ REDIS_LBR)"
      using N(2) t by (simp add: REDIS_LBR_def)
    from rb_readLen_ok [OF inv1(1) this inv1(2), of dbg] obtain bf2 where
      rl: "rb_readLen dbg ?b bf1 (of_nat (length s + 2)) = Inr (Some (s @ REDIS_LBR), ?b, bf2)"
        "left_over bf1 bf2 rest" by (auto simp: t)
    have er: "str_erase (s @ REDIS_LBR) (of_nat (length s + 2) - 2) = Inr s"
      using N(3) by (simp add: str_erase_def)
    have k: "(of_int (int (length s)) + 2 :: size_t) = of_nat (length s + 2)" by simp
    have "left_over bf bf2 rest" using rd(2) rl(2) by (rule left_over_trans)
    then show ?thesis
      using rd rl er n(2) Some
      by (intro exI [of _ bf2] exI [of _ "of_nat (length s + 2)"] exI [of _ STATE_BODY])
        (subst rb_recvMulti.simps, simp add: cast_dec Let_def swap ac_simps)
  qed
qed

lemma rb_recvMulti_ok:
  assumes "nb_inv bf" and "nb_unread bf = concat (map bulk_bytes bs) @ rest" and "bs \<noteq> []"
    and "list_all bulk_ok bs" and "rb_temp b = []" and "rb_type b = multi_bulk_reply"
    and "rb_mutSize b = of_nat (length (rb_recvList b) + length bs)"
    and "length (rb_recvList b) + length bs \<le> PTRDIFF_MAX"
    and "rb_recvSize b = of_nat (8 + length (pack_strings (rb_recvList b)))"
    and "rb_ok cast r" and "resp_type r = multi_bulk_reply"
    and "rb_values r = rb_recvList b @ map rb_bulk_value bs"
  shows "\<exists>b' bf'. rb_recvMulti dbg cast b bf = Inr (True, b', bf') \<and> rb_done cast b' r \<and>
           m_session b' = m_session b \<and> left_over bf bf' rest"
  using assms(1-9,12)
proof (induction bs arbitrary: b bf)
  case Nil
  then show ?case by simp
next
  case (Cons c bs)
  have eq: "nb_unread bf = bulk_bytes c @ concat (map bulk_bytes bs) @ rest" and c: "bulk_ok c"
    using Cons.prems(2,4) by simp_all
  define upd where "upd k = b\<lparr>rb_bufSize := k, rb_recvList := rb_recvList b @ [rb_bulk_value c],
      rb_recvSize := rb_recvSize b + of_nat (4 + length (rb_bulk_value c))\<rparr>" for k
  obtain bf1 k st where e: "left_over bf bf1 (concat (map bulk_bytes bs) @ rest)"
      "rb_recvMulti dbg cast b bf = (if of_nat (length (rb_recvList b) + 1) = rb_mutSize b
     then rbind (makeRedisBuffer dbg cast (upd k\<lparr>m_state := st\<rparr>)) (\<lambda>x. Inr (True, x\<lparr>m_state := STATE_DONE\<rparr>, bf1))
     else rb_recvMulti dbg cast (upd k\<lparr>m_state := STATE_BODY\<rparr>) bf1)"
    using rb_recvMulti_elem [OF Cons.prems(1) c Cons.prems(5) eq, of dbg] unfolding upd_def Let_def by blast
  have sz: "rb_recvSize b + of_nat (4 + length (rb_bulk_value c)) =
      of_nat (8 + length (pack_strings (rb_recvList b @ [rb_bulk_value c])))"
    unfolding Cons.prems(9) by (simp add: pack_strings_def)
  have u: "unat (of_nat (length (rb_recvList b) + length (c # bs)) :: size_t) =
        length (rb_recvList b) + length (c # bs)"
    "unat (of_nat (length (rb_recvList b) + 1) :: size_t) = length (rb_recvList b) + 1"
    using Cons.prems(8) by (intro unat_of_nat_size; simp)+
  have last: "of_nat (length (rb_recvList b) + 1) = rb_mutSize b \<longleftrightarrow> bs = []"
  proof
    assume "of_nat (length (rb_recvList b) + 1) = rb_mutSize b"
    then have "length (rb_recvList b) + 1 = length (rb_recvList b) + length (c # bs)"
      using u unfolding Cons.prems(7) by metis
    then show "bs = []" by simp
  qed (simp add: Cons.prems(7))
  show ?case
  proof (cases "bs = []")
    case True
    let ?b = "upd k\<lparr>m_state := st\<rparr>"
    have v: "rb_values r = rb_recvList b @ [rb_bulk_value c]" using Cons.prems(10) True by simp
    have "length (rb_bytes cast r) = 8 + length (pack_strings (rb_values r))"
      using assms(11) by (simp add: rb_bytes_def rb_packed_def rb_payload_def)
    then have "rb_recvSize ?b = of_nat (length (rb_bytes cast r))"
      using sz by (simp add: upd_def v)
    from rb_make_done [OF assms(10), of ?b dbg] this obtain x where
      "makeRedisBuffer dbg cast ?b = Inr x" "rb_done cast (x\<lparr>m_state := STATE_DONE\<rparr>) r"
      "m_session x = m_session b"
      using assms(11) Cons.prems(6) v by (auto simp: upd_def)
    then show ?thesis using e True last by simp
  next
    case False
    let ?b = "upd k\<lparr>m_state := STATE_BODY\<rparr>"
    have "nb_inv bf1" "nb_unread bf1 = concat (map bulk_bytes bs) @ rest"
      using e(1) by (simp_all add: left_over_def)
    note IH = Cons.IH [OF this False, of ?b]
    have "\<exists>b' bf'. rb_recvMulti dbg cast ?b bf1 = Inr (True, b', bf') \<and> rb_done cast b' r \<and>
           m_session b' = m_session ?b \<and> left_over bf1 bf' rest"
      by (rule IH) (use Cons.prems sz in \<open>simp_all add: upd_def\<close>)
    then show ?thesis
      using e False last left_over_trans [OF e(1)] by (auto simp: upd_def)
  qed
qed

text \<open>A whole reply of any kind that is in the buffer is received by one call.\<close>

lemma rb_recv_whole:
  assumes b: "rb_fresh b p" and inv: "nb_inv bf" and r: "rb_ok cast r"
    and eq: "p @ nb_unread bf = resp_bytes r @ rest"
  shows "\<exists>b' bf'. rb_recv dbg cast b bf = Inr (True, b', bf') \<and> rb_done cast b' r \<and>
           m_session b' = m_session b \<and> left_over bf bf' rest"
proof (cases "resp_body r = [] \<and> (\<forall>bs. r \<noteq> Multi (Some bs))")
  case True
  then show ?thesis using rb_recv_line [OF b inv r] eq by (simp add: resp_bytes_def)
next
  case nl: False
  have "p @ nb_unread bf = resp_head r @ REDIS_LBR @ (resp_body r @ rest)" using eq by (simp add: resp_bytes_def)
  from rb_recv_first_line [OF b inv r this] obtain bf1 where
    rd: "rb_readline dbg b bf = Inr (Some (resp_head r), b\<lparr>rb_temp := []\<rparr>, bf1)"
      "left_over bf bf1 (resp_body r @ rest)" "getReplyType (resp_head r) = resp_type r" by blast
  have inv1: "nb_inv bf1" "nb_unread bf1 = resp_body r @ rest" using rd(2) by (simp_all add: left_over_def)
  have f: "rb_type b = no_reply" "rb_recvList b = []" using b by (simp_all add: rb_fresh_def)
  have ok: "resp_ok r" using r by (simp add: rb_ok_def)
  consider s where "r = Bulk (Some s)" | bs where "r = Multi (Some bs)"
    using nl by (cases r rule: resp_body.cases; cases "\<exists>s. r = Bulk (Some s)"; cases "r = Bulk None") auto
  then show ?thesis
  proof cases
    case 1
    have n: "int (length s) + 2 \<le> INT_MAX" "int (length s) \<le> INT_MAX" using ok 1 by simp_all
    note N = len_plus_2 [OF n(1)]
    let ?b = "b\<lparr>rb_temp := [], rb_type := bulk_reply, rb_recvSize := 4, rb_bufSize := of_nat (length s + 2),
        m_state := STATE_BODY\<rparr>"
    have "rb_bulk ?b (length s) []" using f n(1) by (simp add: rb_bulk_def)
    from rb_recv_bulk_done [OF this inv1(1), of rest dbg] inv1(2) r obtain b' bf2 where
      "rb_recvBody dbg cast ?b bf1 = Inr (True, b', bf2)" "rb_done cast b' (Bulk (Some s))"
      "m_session b' = m_session b" "left_over bf1 bf2 rest" using 1 by auto
    moreover have "b\<lparr>rb_temp := [], rb_type := bulk_reply, rb_bufSize := of_nat (length s + 2),
        rb_recvSize := 4, m_state := STATE_BODY\<rparr> = ?b" by (cases b) simp
    ultimately show ?thesis
      using rd 1 f n(2) N(1) left_over_trans [OF rd(2)]
      by (auto simp: rb_recv_def Let_def cast_dec)
  next
    case 2
    have n: "int (length bs) \<le> INT_MAX" "bs \<noteq> []" "list_all bulk_ok bs" using ok 2 by simp_all
    define c where "c = b\<lparr>rb_temp := [], rb_type := multi_bulk_reply, m_state := STATE_BODY,
        rb_mutSize := of_nat (length bs), rb_recvSize := 8\<rparr>"
    have "nb_unread bf1 = concat (map bulk_bytes bs) @ rest" using inv1(2) 2 by simp
    have "\<exists>b' bf'. rb_recvMulti dbg cast c bf1 = Inr (True, b', bf') \<and> rb_done cast b' r \<and>
           m_session b' = m_session c \<and> left_over bf1 bf' rest"
      by (rule rb_recvMulti_ok [OF inv1(1) _ n(2,3) _ _ _ _ _ r])
        (use 2 inv1(2) f n(1) in \<open>simp_all add: c_def pack_strings_def INT_MAX_def PTRDIFF_MAX_def\<close>)
    then obtain b' bf2 where m: "rb_recvMulti dbg cast c bf1 = Inr (True, b', bf2)" "rb_done cast b' r"
           "m_session b' = m_session b" "left_over bf1 bf2 rest" by (auto simp: c_def)
    have "b\<lparr>rb_temp := [], rb_type := multi_bulk_reply, m_state := STATE_BODY,
        rb_recvSize := 8, rb_mutSize := of_nat (length bs)\<rparr> = c" by (cases b) (simp add: c_def)
    then have "rb_recv dbg cast b bf = rb_recvBody dbg cast c bf1"
      using rd 2 f n(1) by (simp add: rb_recv_def Let_def cast_dec)
    moreover have "rb_recvBody dbg cast c bf1 = rb_recvMulti dbg cast c bf1"
      by (simp add: rb_recvBody_def c_def)
    ultimately show ?thesis using m left_over_trans [OF rd(2)] by auto
  qed
qed

end

section \<open>Receiving a stream of replies\<close>

text \<open>A waiting message that took the bytes \<open>p\<close>.\<close>

definition rb_repr :: "redis_block \<Rightarrow> bytes \<Rightarrow> bool" where
  "rb_repr b p \<longleftrightarrow> rb_fresh b p \<or>
     (\<exists>n q. p = (CHR ''$'' # dec_nat n) @ REDIS_LBR @ q \<and> rb_bulk b n q)"

definition rb_valid :: "(string \<Rightarrow> int option) \<Rightarrow> resp \<Rightarrow> bool" where
  "rb_valid cast r \<longleftrightarrow> simple r \<and> rb_ok cast r"

lemma redisBlock_nodata:
  "\<exists>b. redisBlock s 0 = Inr b \<and> rb_fresh b [] \<and> m_session b = s \<and> m_data b = None"
  by (simp add: redisBlock_def netBlockBase_def block_base.defs redis_block.defs rb_fresh_def)

lemma rb_repr_not_whole:
  assumes b: "rb_repr b p" and r: "resp_ok r"
  shows "p \<noteq> resp_bytes r @ rest"
  using b unfolding rb_repr_def
proof (elim disjE exE conjE)
  assume "rb_fresh b p"
  then show ?thesis by (auto simp: rb_fresh_def resp_bytes_def REDIS_LBR_def)
next
  fix n q
  assume p: "p = (CHR ''$'' # dec_nat n) @ REDIS_LBR @ q" and "rb_bulk b n q"
  then have "parse_wait (bulk_wait n q) p" by (auto simp: parse_wait_def rb_bulk_def)
  from parse_wait_not_whole [OF this r] show ?thesis .
qed

text \<open>The counted string a message waits for is the one the stream announced.\<close>

lemma rb_bulk_head:
  assumes eq: "((CHR ''$'' # dec_nat n) @ REDIS_LBR @ q) @ z = resp_bytes r @ rest" and r: "resp_ok r"
  obtains s where "r = Bulk (Some s)" "length s = n" "q @ z = (s @ REDIS_LBR) @ rest"
proof -
  have "(CHR ''$'' # dec_nat n) @ REDIS_LBR @ (q @ z) = resp_head r @ REDIS_LBR @ (resp_body r @ rest)"
    using eq by (simp add: resp_bytes_def)
  note H = bulk_head_unique [OF resp_head_clean [OF r] this]
  obtain s where "r = Bulk (Some s)" "length s = n" using bulk_of_head [OF H(1) r] by blast
  then show thesis using H(2) that by simp
qed

context decimal_cast
begin

lemma redisBlock_recv_complete:
  assumes b: "rb_repr b p" and inv: "nb_inv bf" and r: "rb_ok cast r"
    and whole: "simple r \<or> rb_fresh b p"
    and eq: "p @ nb_unread bf = resp_bytes r @ rest"
  shows "\<exists>b' bf'. redisBlock_recv dbg cast b (Some bf) = Inr (True, b', Some bf') \<and> rb_done cast b' r \<and>
           m_session b' = m_session b \<and> left_over bf bf' rest"
proof -
  have "\<exists>b' bf'. rb_recv dbg cast b bf = Inr (True, b', bf') \<and> rb_done cast b' r \<and>
           m_session b' = m_session b \<and> left_over bf bf' rest"
    using b unfolding rb_repr_def
  proof (elim disjE exE conjE)
    assume "rb_fresh b p"
    then show ?thesis using rb_recv_whole [OF _ inv r eq] by blast
  next
    fix n q
    assume p: "p = (CHR ''$'' # dec_nat n) @ REDIS_LBR @ q" and w: "rb_bulk b n q"
    have "resp_ok r" using r by (simp add: rb_ok_def)
    then obtain s where s: "r = Bulk (Some s)" "length s = n" "q @ nb_unread bf = (s @ REDIS_LBR) @ rest"
      using rb_bulk_head [OF eq [unfolded p]] by blast
    have "rb_type b = bulk_reply" using w by (simp add: rb_bulk_def)
    then have "rb_recv dbg cast b bf = rb_recvBody dbg cast b bf" by (simp add: rb_recv_def)
    then show ?thesis using rb_recv_bulk_done [OF _ inv _ s(3), of b dbg] w r s by simp
  qed
  then show ?thesis by (auto simp: redisBlock_recv_def)
qed

lemma redisBlock_recv_partial:
  assumes b: "rb_repr b p" and inv: "nb_inv bf" and r: "rb_valid cast r"
    and eq: "p @ nb_unread bf @ later = resp_bytes r" and later: "later \<noteq> []"
  shows "\<exists>b' bf'. redisBlock_recv dbg cast b (Some bf) = Inr (False, b', Some bf') \<and>
           rb_repr b' (p @ nb_unread bf) \<and> m_state b' \<noteq> STATE_DONE \<and>
           m_session b' = m_session b \<and> left_over bf bf' []"
proof -
  have ok: "resp_ok r" "simple r" "rb_ok cast r" using r by (simp_all add: rb_valid_def rb_ok_def)
  have st: "m_state x \<noteq> STATE_DONE" if "rb_bulk x n q \<or> rb_fresh x q" for x n q
    using that by (auto simp: rb_bulk_def rb_fresh_def)
  have "\<exists>b' bf'. rb_recv dbg cast b bf = Inr (False, b', bf') \<and>
           rb_repr b' (p @ nb_unread bf) \<and> m_state b' \<noteq> STATE_DONE \<and>
           m_session b' = m_session b \<and> left_over bf bf' []"
    using b [unfolded rb_repr_def]
  proof (elim disjE exE conjE)
    assume f: "rb_fresh b p"
    show ?thesis
    proof (cases "LF \<in> set (nb_unread bf)")
      case False
      from rb_readline_partial [OF inv this, of dbg b] obtain bf1 where
        "rb_readline dbg b bf = Inr (None, b\<lparr>rb_temp := p @ nb_unread bf\<rparr>, bf1)" "left_over bf bf1 []"
        using f by (auto simp: rb_fresh_def)
      moreover have "rb_fresh (b\<lparr>rb_temp := p @ nb_unread bf\<rparr>) (p @ nb_unread bf)"
        using f False by (simp add: rb_fresh_def)
      ultimately show ?thesis using f st by (simp add: rb_recv_def rb_fresh_def rb_repr_def)
    next
      case True
      have "(p @ nb_unread bf) @ later = resp_head r @ REDIS_LBR @ resp_body r"
        using eq by (simp add: resp_bytes_def)
      then obtain u where u: "p @ nb_unread bf = (resp_head r @ REDIS_LBR) @ u" "resp_body r = u @ later"
        using line_prefix [OF _ resp_head_clean [OF ok(1)]] True by (metis Un_iff set_append)
      obtain s where s: "r = Bulk (Some s)"
        using u(2) later ok(2) by (cases r rule: resp_body.cases; cases "\<exists>b. r = Bulk b")
          (auto simp: simple_def elim!: bulk_body.elims)
      have n: "int (length s) + 2 \<le> INT_MAX" "int (length s) \<le> INT_MAX" using ok(1) s by simp_all
      note N = len_plus_2 [OF n(1)]
      have "p @ nb_unread bf = resp_head r @ REDIS_LBR @ u" using u(1) by simp
      from rb_recv_first_line [OF f inv ok(3) this] obtain bf1 where
        rd: "rb_readline dbg b bf = Inr (Some (resp_head r), b\<lparr>rb_temp := []\<rparr>, bf1)"
          "left_over bf bf1 u" "getReplyType (resp_head r) = resp_type r" by blast
      let ?b = "b\<lparr>rb_temp := [], rb_type := bulk_reply, rb_recvSize := 4,
          rb_bufSize := of_nat (length s + 2), m_state := STATE_BODY\<rparr>"
      have w: "rb_bulk ?b (length s) []" using f n(1) by (simp add: rb_bulk_def rb_fresh_def)
      have inv1: "nb_inv bf1" "nb_unread bf1 = u" using rd(2) by (simp_all add: left_over_def)
      have "length ([] :: bytes) + length (nb_unread bf1) < length s + 2"
        unfolding inv1(2) using arg_cong [OF u(2), of length] later s by (simp add: REDIS_LBR_def)
      from rb_recv_bulk_part [OF w inv1(1) this, of dbg] obtain b' bf2 where
        b': "rb_recvBody dbg cast ?b bf1 = Inr (False, b', bf2)" "rb_bulk b' (length s) u"
        "m_session b' = m_session b" "left_over bf1 bf2 []" using inv1(2) by auto
      have "rb_recv dbg cast b bf = rb_recvBody dbg cast ?b bf1"
        using rd(1,3) s f n(2) N(1) by (simp add: rb_recv_def Let_def cast_dec rb_fresh_def)
      moreover have "rb_repr b' (p @ nb_unread bf)"
        using b'(2) u(1) s by (auto simp: rb_repr_def)
      ultimately show ?thesis using b' st left_over_trans [OF rd(2)] by auto
    qed
  next
    fix n q
    assume p: "p = (CHR ''$'' # dec_nat n) @ REDIS_LBR @ q" and w: "rb_bulk b n q"
    have "((CHR ''$'' # dec_nat n) @ REDIS_LBR @ q) @ (nb_unread bf @ later) = resp_bytes r @ []"
      using eq p by simp
    from rb_bulk_head [OF this ok(1)] obtain s where
      s: "r = Bulk (Some s)" "length s = n" "q @ nb_unread bf @ later = (s @ REDIS_LBR) @ []" by blast
    have "length q + length (nb_unread bf) < n + 2"
      using arg_cong [OF s(3), of length] later s(2) by (cases later) (simp_all add: REDIS_LBR_def)
    from rb_recv_bulk_part [OF w inv this, of dbg] obtain b' bf2 where
      b': "rb_recvBody dbg cast b bf = Inr (False, b', bf2)" "rb_bulk b' n (q @ nb_unread bf)"
        "m_session b' = m_session b" "left_over bf bf2 []" by blast
    have "rb_type b = bulk_reply" using w by (simp add: rb_bulk_def)
    then have "rb_recv dbg cast b bf = rb_recvBody dbg cast b bf" by (simp add: rb_recv_def)
    moreover have "rb_repr b' (p @ nb_unread bf)" using b'(2) p by (auto simp: rb_repr_def)
    ultimately show ?thesis using b' st by auto
  qed
  then show ?thesis by (auto simp: redisBlock_recv_def)
qed

end

section \<open>Pushing and cloning\<close>

lemma redisBlock_push_ok:
  assumes "0 < sz" and s: "unat s \<le> PTRDIFF_MAX" and len: "unat len = length data"
    and room: "2 * length data \<le> PTRDIFF_MAX"
  shows "\<exists>b b' d x. redisBlock s sz = Inr b \<and> redisBlock_push dbg b data len = Inr (x, b') \<and>
           m_session b' = s \<and> m_data b' = Some d \<and> nb_inv d \<and> \<not> m_lock d \<and> nb_unread d = data"
  using fresh_push_ok [OF s len room, of dbg] assms(1)
  by (auto simp: redisBlock_def netBlockBase_def block_base.defs redis_block.defs redisBlock_push_def)

text \<open>A clone of a finished message is a finished message with the same packed reply.\<close>

lemma redisBlock_clone_ok:
  assumes "rb_done cast b r" and "rb_ok cast r"
  shows "\<exists>b'. redisBlock_clone dbg b s = Inr b' \<and> rb_done cast b' r \<and> m_session b' = s"
proof -
  obtain d where d: "m_data b = Some d" "holds (of_nat (length (rb_bytes cast r))) d (rb_bytes cast r)"
    using assms(1) by (auto simp: rb_done_def)
  have "2 * length (nb_content d) \<le> PTRDIFF_MAX" using d(2) assms(2) by (simp add: holds_def rb_ok_def)
  from copy_buffer_ok [OF _ this, of dbg] d obtain d0 x d' where
    "netBuffer (maxLength d) = Inr d0" "tailData dbg d0 (m_buffer d) (nb_length d) = Inr (x, d')"
    "holds (of_nat (length (rb_bytes cast r))) d' (rb_bytes cast r)"
    by (auto simp: holds_def)
  then show ?thesis
    using d assms(1) redisBlock_nodata [of s] by (auto simp: redisBlock_clone_def rb_done_def)
qed

end
