(* ===== verification/Connection.thy ===== *)
theory Connection
  imports Redis_Block
begin

text \<open>
  One TCP connection: the class \<open>Connection\<close> of \<open>src/connection.h\<close> and
  \<open>src/connection.cpp\<close>, over the virtual functions of the messages it carries.

  A handler is a function of the connection that returns the new connection and the list
  of its effects, in order: calls of the callbacks of \<open>ConnectionProperty\<close>, tasks posted to
  the \<open>io_service\<close>, and asynchronous socket operations started.  Their completion calls a
  handler again.  A \<open>boost::system::error_code\<close> is used only through its conversion to
  \<open>bool\<close>: it is \<open>True\<close> for an error.
\<close>

section \<open>The virtual functions of a message\<close>

text \<open>
  The members of \<open>NetBlockBase\<close> that are called on a message of unknown class, and the
  callback \<open>_blockMakerFun\<close> that makes a new one.
\<close>

record 'b block_vt =
  vt_make :: "session_id \<Rightarrow> size_t \<Rightarrow> 'b res"
  vt_recv :: "'b \<Rightarrow> bufferPtr \<Rightarrow> (bool \<times> 'b \<times> bufferPtr) res"
  vt_bodyDone :: "'b \<Rightarrow> bool"
  vt_data :: "'b \<Rightarrow> bufferPtr"
  vt_setData :: "'b \<Rightarrow> net_buffer \<Rightarrow> 'b"
  vt_session :: "'b \<Rightarrow> session_id"
  vt_clone :: "'b \<Rightarrow> session_id \<Rightarrow> 'b res"

definition netBlock_vt :: "bool \<Rightarrow> net_block block_vt" where
  "netBlock_vt dbg = \<lparr>vt_make = sMakeDefaultBlock dbg, vt_recv = netBlock_recv dbg,
     vt_bodyDone = bodyDone, vt_data = m_data, vt_setData = (\<lambda>b d. b\<lparr>m_data := Some d\<rparr>),
     vt_session = m_session, vt_clone = netBlock_clone dbg\<rparr>"

definition redisBlock2_vt :: "bool \<Rightarrow> (string \<Rightarrow> int option) \<Rightarrow> redis_block2 block_vt" where
  "redisBlock2_vt dbg cast = \<lparr>vt_make = redisBlock2, vt_recv = redisBlock2_recv dbg cast,
     vt_bodyDone = bodyDone, vt_data = m_data, vt_setData = (\<lambda>b d. b\<lparr>m_data := Some d\<rparr>),
     vt_session = m_session, vt_clone = redisBlock2_clone dbg\<rparr>"

definition redisBlock_vt :: "bool \<Rightarrow> (string \<Rightarrow> int option) \<Rightarrow> redis_block block_vt" where
  "redisBlock_vt dbg cast = \<lparr>vt_make = redisBlock, vt_recv = redisBlock_recv dbg cast,
     vt_bodyDone = bodyDone, vt_data = m_data, vt_setData = (\<lambda>b d. b\<lparr>m_data := Some d\<rparr>),
     vt_session = m_session, vt_clone = redisBlock_clone dbg\<rparr>"

section \<open>State and handlers\<close>

record 'b connection =
  c_session :: session_id
  m_bufferSend :: net_buffer
  m_bufferRecv :: net_buffer
  m_waitMessage :: "'b option"
  m_connect :: bool
  m_totalRevc :: size_t
  m_totalSend :: size_t
  m_isSend :: bool
  m_sendList :: "'b list"

datatype io_task = RunWrite size_t | RunClose bool | RunAccept

datatype 'b effect =
    EventPostRecv 'b
  | EventConnect session_id
  | EventClose session_id
  | EventConnectFailed
  | IoPost io_task
  | AsyncReadSome size_t     \<comment> \<open>room for so many bytes at the write pointer\<close>
  | AsyncWrite bytes         \<comment> \<open>the bytes at the read pointer\<close>
  | AsyncConnect
  | SocketShutdown
  | SocketClose

type_synonym 'b handler = "('b connection \<times> 'b effect list) res"

definition newConnection :: "session_id \<Rightarrow> size_t \<Rightarrow> 'b connection res" where
  "newConnection s sz =
     rbind (netBuffer sz) (\<lambda>bs.
     rbind (netBuffer sz) (\<lambda>br.
     Inr \<lparr>c_session = s, m_bufferSend = bs, m_bufferRecv = br, m_waitMessage = None,
          m_connect = False, m_totalRevc = 0, m_totalSend = 0, m_isSend = False,
          m_sendList = []\<rparr>))"

definition DEFAULT_SIZE :: size_t where
  "DEFAULT_SIZE = 65535"

definition conn_send :: "'b connection \<Rightarrow> 'b \<Rightarrow> 'b connection \<times> 'b effect list" where
  "conn_send c p = (c\<lparr>m_sendList := m_sendList c @ [p]\<rparr>, [IoPost (RunWrite 0)])"

definition conn_close :: "'b connection \<Rightarrow> bool \<Rightarrow> 'b connection \<times> 'b effect list" where
  "conn_close c er = (c, [IoPost (RunClose er)])"

definition onError :: "'b connection \<Rightarrow> bool \<Rightarrow> 'b connection \<times> 'b effect list" where
  "onError c er = conn_close c er"

definition handleClose :: "'b connection \<Rightarrow> bool \<Rightarrow> 'b connection \<times> 'b effect list" where
  "handleClose c er =
     (if \<not> er \<and> (m_isSend c \<or> m_sendList c \<noteq> [] \<or> hasRead (m_bufferSend c))
      then conn_close c er
      else (c\<lparr>m_connect := False\<rparr>, [SocketShutdown, SocketClose, EventClose (c_session c)]))"

definition beginRead :: "'b connection \<Rightarrow> 'b effect list" where
  "beginRead c = [AsyncReadSome (maxLength (m_bufferRecv c) - nb_length (m_bufferRecv c))]"

text \<open>The lambda \<open>readMessage\<close> of \<open>handleReadSome\<close>: a finished message, or none.\<close>

definition readMessage :: "'b block_vt \<Rightarrow> 'b connection \<Rightarrow> ('b option \<times> 'b connection) res" where
  "readMessage vt c =
     rbind (case m_waitMessage c of None \<Rightarrow> vt_make vt (c_session c) 0 | Some w \<Rightarrow> Inr w) (\<lambda>w.
     rbind (vt_recv vt w (Some (m_bufferRecv c))) (\<lambda>(_, w', buf).
     rbind (deref buf) (\<lambda>b.
     if vt_bodyDone vt w' then Inr (Some w', c\<lparr>m_bufferRecv := b, m_waitMessage := None\<rparr>)
     else Inr (None, c\<lparr>m_bufferRecv := b, m_waitMessage := Some w'\<rparr>))))"

text \<open>The loop over the messages in the receive buffer; \<open>None\<close> if it does not end.\<close>

partial_function (option) readLoop ::
    "'b block_vt \<Rightarrow> 'b connection \<Rightarrow> 'b effect list \<Rightarrow> 'b handler option" where
  "readLoop vt c acts =
     (if \<not> hasWrite (m_bufferRecv c) then Some (Inr (c, acts))
      else case readMessage vt c of
             Inl e \<Rightarrow> Some (Inl e)
           | Inr (p, c') \<Rightarrow>
               (case p of
                  None \<Rightarrow> Some (Inr (c', acts))
                | Some m \<Rightarrow> readLoop vt c' (acts @ [EventPostRecv m])))"

text \<open>
  \<open>data\<close> are the \<open>bytes_transferred\<close> bytes that \<open>async_read_some\<close> stored at the write
  pointer it was given.
\<close>

definition handleReadSome ::
    "bool \<Rightarrow> 'b block_vt \<Rightarrow> 'b connection \<Rightarrow> bool \<Rightarrow> bytes \<Rightarrow> 'b handler option" where
  "handleReadSome dbg vt c er data =
     (if \<not> m_connect c then Some (Inr (c, []))
      else if er then Some (Inr (onError c er))
      else
        let bf = m_bufferRecv c; n = of_nat (length data) in
        case rbind (memcpy (m_buffer bf) (unat (nb_length bf)) data 0 (length data)) (\<lambda>m.
             writeData dbg (bf\<lparr>m_buffer := m\<rparr>) n) of
          Inl e \<Rightarrow> Some (Inl e)
        | Inr (_, bf') \<Rightarrow>
            (case readLoop vt (c\<lparr>m_bufferRecv := bf', m_totalRevc := m_totalRevc c + n\<rparr>) [] of
               None \<Rightarrow> None
             | Some r \<Rightarrow> Some (rbind r (\<lambda>(c', acts). Inr (c', acts @ beginRead c')))))"

definition handlAccept :: "'b connection \<Rightarrow> 'b connection \<times> 'b effect list" where
  "handlAccept c =
     (let c' = c\<lparr>m_connect := True\<rparr> in (c', EventConnect (c_session c') # beginRead c'))"

text \<open>The loop of \<open>writeMessage\<close> over the messages to send.\<close>

fun sendLoop :: "bool \<Rightarrow> 'b block_vt \<Rightarrow> net_buffer \<Rightarrow> 'b list \<Rightarrow> (net_buffer \<times> 'b list) res" where
  "sendLoop dbg vt buf [] = Inr (buf, [])"
| "sendLoop dbg vt buf (p # ps) =
     rbind (deref (vt_data vt p)) (\<lambda>d.
     rbind (readBuffer dbg False d buf) (\<lambda>(_, d', buf').
     if hasRead d' then Inr (buf', vt_setData vt p d' # ps)
     else sendLoop dbg vt buf' ps))"

definition writeMessage :: "bool \<Rightarrow> 'b block_vt \<Rightarrow> 'b connection \<Rightarrow> size_t \<Rightarrow> 'b handler" where
  "writeMessage dbg vt c sz =
     (if \<not> m_connect c then Inr (c, [])
      else if m_isSend c then Inr (c, [])
      else
        rbind (readData dbg (m_bufferSend c) sz) (\<lambda>(_, b1).
        rbind (clearReadBuffer dbg b1) (\<lambda>b2.
        rbind (sendLoop dbg vt b2 (m_sendList c)) (\<lambda>(b3, ps).
        let c' = c\<lparr>m_bufferSend := b3, m_sendList := ps, m_totalSend := m_totalSend c + sz\<rparr> in
        if hasRead b3
        then Inr (c'\<lparr>m_isSend := True\<rparr>, [AsyncWrite (nb_unread b3)])
        else Inr (c', [])))))"

definition handleWrite :: "bool \<Rightarrow> 'b block_vt \<Rightarrow> 'b connection \<Rightarrow> bool \<Rightarrow> size_t \<Rightarrow> 'b handler" where
  "handleWrite dbg vt c er sz =
     (let c' = c\<lparr>m_isSend := False\<rparr> in
      if er then Inr (onError c' er)
      else if m_connect c' then writeMessage dbg vt c' sz
      else Inr (c', []))"

definition handleConnect :: "'b connection \<Rightarrow> bool \<Rightarrow> 'b connection \<times> 'b effect list" where
  "handleConnect c er =
     (if m_connect c then (c, [])
      else if er then (c\<lparr>m_connect := False\<rparr>, [EventConnectFailed])
      else let c' = c\<lparr>m_connect := True\<rparr> in (c', EventConnect (c_session c') # beginRead c'))"

definition postAccept :: "'b connection \<Rightarrow> 'b connection \<times> 'b effect list" where
  "postAccept c = (c, [IoPost RunAccept])"

definition conn_connect :: "'b connection \<Rightarrow> 'b connection \<times> 'b effect list" where
  "conn_connect c = (c, [AsyncConnect])"

end
