(* ===== verification/Std_Map.thy ===== *)
theory Std_Map
  imports Net_Prelude "HOL-Library.List_Lexorder" "HOL-Library.Char_ord"
begin

text \<open>
  \<open>std::map\<close>: a list of pairs in the order of the keys, which is the order of iteration;
  strings are compared lexicographically by the unsigned values of their characters.
  The contract \<open>std_map\<close> is what the code relies on, proved for the lists here.
  A \<open>std::set\<close> is a map to the unit value.
\<close>

section \<open>The contract\<close>

locale std_map =
  fixes find :: "'m \<Rightarrow> 'k \<Rightarrow> 'v option"
    and put :: "'k \<Rightarrow> 'v \<Rightarrow> 'm \<Rightarrow> 'm"
    and erase :: "'k \<Rightarrow> 'm \<Rightarrow> 'm"
    and empty :: 'm
    and inv :: "'m \<Rightarrow> bool"
  assumes inv_empty: "inv empty"
    and inv_put: "inv m \<Longrightarrow> inv (put k v m)"
    and inv_erase: "inv m \<Longrightarrow> inv (erase k m)"
    and find_empty: "find empty k = None"
    and find_put: "inv m \<Longrightarrow> find (put k v m) k' = (if k' = k then Some v else find m k')"
    and find_erase: "inv m \<Longrightarrow> find (erase k m) k' = (if k' = k then None else find m k')"
begin

definition keys :: "'m \<Rightarrow> 'k set" where
  "keys m = {k. find m k \<noteq> None}"

lemma keys_empty: "keys empty = {}"
  by (simp add: keys_def find_empty)

lemma keys_put: "inv m \<Longrightarrow> keys (put k v m) = insert k (keys m)"
  by (auto simp: keys_def find_put)

lemma keys_erase: "inv m \<Longrightarrow> keys (erase k m) = keys m - {k}"
  by (auto simp: keys_def find_erase)

lemma put_erase: "inv m \<Longrightarrow> find m k = None \<Longrightarrow> find (erase k (put k v m)) k' = find m k'"
  by (simp add: find_put find_erase inv_put)

end

section \<open>Sorted lists of pairs\<close>

fun om_find :: "('k \<times> 'v) list \<Rightarrow> 'k \<Rightarrow> 'v option" where
  "om_find [] k = None"
| "om_find ((k', v) # m) k = (if k = k' then Some v else om_find m k)"

text \<open>\<open>m[k] = v\<close>, and \<open>insert\<close> of a key that is not there.\<close>

fun om_put :: "'k::linorder \<Rightarrow> 'v \<Rightarrow> ('k \<times> 'v) list \<Rightarrow> ('k \<times> 'v) list" where
  "om_put k v [] = [(k, v)]"
| "om_put k v ((k', v') # m) =
     (if k < k' then (k, v) # (k', v') # m
      else if k = k' then (k, v) # m
      else (k', v') # om_put k v m)"

fun om_erase :: "'k \<Rightarrow> ('k \<times> 'v) list \<Rightarrow> ('k \<times> 'v) list" where
  "om_erase k [] = []"
| "om_erase k ((k', v) # m) = (if k = k' then m else (k', v) # om_erase k m)"

definition om_inv :: "('k::linorder \<times> 'v) list \<Rightarrow> bool" where
  "om_inv m \<longleftrightarrow> sorted_wrt (<) (map fst m)"

lemma om_inv_simps [simp]:
  "om_inv []" "om_inv ((k, v) # m) \<longleftrightarrow> (\<forall>x \<in> set m. k < fst x) \<and> om_inv m"
  by (simp_all add: om_inv_def)

lemma om_put_keys: "fst ` set (om_put k v m) = insert k (fst ` set m)"
  by (induction k v m rule: om_put.induct) auto

lemma om_erase_sub: "set (om_erase k m) \<subseteq> set m"
  by (induction k m rule: om_erase.induct) auto

lemma om_put_inv: "om_inv m \<Longrightarrow> om_inv (om_put k v m)"
proof (induction k v m rule: om_put.induct)
  case (2 k v k' v' m)
  have "fst x = k \<or> fst x \<in> fst ` set m" if "x \<in> set (om_put k v m)" for x
    using that om_put_keys [of k v m] by blast
  then have "\<forall>x \<in> set (om_put k v m). k' < fst x" if "\<not> k < k'" "k \<noteq> k'"
    using that "2.prems" by fastforce
  then show ?case using 2 by auto
qed simp

lemma om_erase_inv: "om_inv m \<Longrightarrow> om_inv (om_erase k m)"
proof (induction k m rule: om_erase.induct)
  case (2 k k' v m)
  then show ?case using om_erase_sub [of k m] by auto
qed simp

lemma om_find_absent: "k \<notin> fst ` set m \<Longrightarrow> om_find m k = None"
  by (induction m k rule: om_find.induct) auto

lemma om_find_Some: "om_find m k = Some v \<Longrightarrow> (k, v) \<in> set m"
  by (induction m k rule: om_find.induct) (auto split: if_splits)

lemma om_find_put: "om_inv m \<Longrightarrow> om_find (om_put k v m) k' = (if k' = k then Some v else om_find m k')"
  by (induction k v m rule: om_put.induct) auto

lemma om_find_erase: "om_inv m \<Longrightarrow> om_find (om_erase k m) k' = (if k' = k then None else om_find m k')"
proof (induction k m rule: om_erase.induct)
  case (2 k k'' v m)
  then have "k'' \<notin> fst ` set m" by auto
  then show ?case using 2 om_find_absent by auto
qed simp

interpretation om: std_map om_find om_put om_erase "[]" om_inv
  by unfold_locales (simp_all add: om_put_inv om_erase_inv om_find_put om_find_erase)

lemma om_find_iff: "om_inv m \<Longrightarrow> om_find m k = Some v \<longleftrightarrow> (k, v) \<in> set m"
proof (induction m k rule: om_find.induct)
  case (2 k' v' m k)
  then show ?case by auto
qed simp

lemma om_keys: "om_inv m \<Longrightarrow> om.keys m = fst ` set m"
  unfolding om.keys_def by (force simp: om_find_iff dest: om_find_Some)

text \<open>Changing the value of a key keeps the order.\<close>

lemma om_inv_update: "om_inv m \<Longrightarrow> map fst m' = map fst m \<Longrightarrow> om_inv m'"
  by (simp add: om_inv_def)

end
