(* ===== verification/Io_Pool.thy ===== *)
theory Io_Pool
  imports Std_Map
begin

text \<open>
  The pool of \<open>io_service\<close> threads: \<open>IoObjectPool\<close> of \<open>src/io_pool.h\<close>.  An \<open>IoObject\<close>, a
  thread that runs an \<open>io_service\<close>, is named by its index at creation; a connection is
  named by its session id.  \<open>alive s\<close> is whether some \<open>shared_ptr\<close> to the connection \<open>s\<close>
  still exists.  The functions are called from several threads without a lock; the model
  is their sequential behaviour.
\<close>

section \<open>State and member functions\<close>

record io_pool =
  m_curIndex :: size_t
  m_curSessionId :: session_id
  m_netIo :: "nat list"
  p_onlines :: "(session_id \<times> session_id) list"

definition INVALID_SESSION_ID :: session_id where
  "INVALID_SESSION_ID = 0"

definition ioObjectPool :: "bool \<Rightarrow> size_t \<Rightarrow> io_pool res" where
  "ioObjectPool dbg sz =
     rbind (MYASSERT dbg (sz > 0)) (\<lambda>_.
     Inr \<lparr>m_curIndex = 0, m_curSessionId = INVALID_SESSION_ID, m_netIo = [0..<unat sz], p_onlines = []\<rparr>)"

definition getIoService :: "io_pool \<Rightarrow> (nat \<times> io_pool) res" where
  "getIoService pool =
     (let pool = (if m_curIndex pool \<ge> of_nat (length (m_netIo pool)) then pool\<lparr>m_curIndex := 0\<rparr> else pool);
          i = unat (m_curIndex pool) in
      if i < length (m_netIo pool)
      then Inr (m_netIo pool ! i, pool\<lparr>m_curIndex := m_curIndex pool + 1\<rparr>)
      else Inl MemFault)"

definition nextSession :: "io_pool \<Rightarrow> session_id \<times> io_pool" where
  "nextSession pool = (m_curSessionId pool + 1, pool\<lparr>m_curSessionId := m_curSessionId pool + 1\<rparr>)"

definition addSession :: "session_id \<Rightarrow> io_pool \<Rightarrow> io_pool" where
  "addSession s pool = pool\<lparr>p_onlines := om_put s s (p_onlines pool)\<rparr>"

definition delSession :: "session_id \<Rightarrow> io_pool \<Rightarrow> io_pool" where
  "delSession s pool =
     (if om_find (p_onlines pool) s \<noteq> None then pool\<lparr>p_onlines := om_erase s (p_onlines pool)\<rparr> else pool)"

definition pool_session :: "(session_id \<Rightarrow> bool) \<Rightarrow> io_pool \<Rightarrow> session_id \<Rightarrow> session_id option" where
  "pool_session alive pool s =
     (case om_find (p_onlines pool) s of
        None \<Rightarrow> None
      | Some wp \<Rightarrow> if alive wp then Some wp else None)"

definition hasOnline :: "io_pool \<Rightarrow> bool" where
  "hasOnline pool \<longleftrightarrow> p_onlines pool \<noteq> []"

definition pool_stop :: "io_pool \<Rightarrow> io_pool" where
  "pool_stop pool = pool\<lparr>m_netIo := [], p_onlines := []\<rparr>"

section \<open>What the operations do\<close>

text \<open>The map is ordered, and every entry is a pointer to the connection of its key.\<close>

definition pool_inv :: "io_pool \<Rightarrow> bool" where
  "pool_inv pool \<longleftrightarrow> om_inv (p_onlines pool) \<and> (\<forall>(s, wp) \<in> set (p_onlines pool). wp = s) \<and>
     m_netIo pool \<noteq> [] \<and> length (m_netIo pool) < 2 ^ 64"

text \<open>The sessions the pool knows.\<close>

definition pool_keys :: "io_pool \<Rightarrow> session_id set" where
  "pool_keys pool = om.keys (p_onlines pool)"

lemma ioObjectPool_ok:
  assumes "0 < sz"
  shows "\<exists>pool. ioObjectPool dbg sz = Inr pool \<and> pool_inv pool \<and> pool_keys pool = {} \<and>
           m_curIndex pool = 0 \<and> m_curSessionId pool = 0 \<and> m_netIo pool = [0..<unat sz]"
proof -
  have "0 < unat sz" using assms by (simp add: unat_gt_0)
  then show ?thesis
    using assms unat_size_bound [of sz]
    by (simp add: ioObjectPool_def pool_inv_def pool_keys_def om.keys_empty INVALID_SESSION_ID_def)
qed

lemma addSession_ok:
  assumes "pool_inv pool"
  shows "pool_inv (addSession s pool)" "pool_keys (addSession s pool) = insert s (pool_keys pool)"
proof -
  have "(s', wp) \<in> set (om_put s s m) \<Longrightarrow> om_inv m \<Longrightarrow> (s', wp) = (s, s) \<or> (s', wp) \<in> set m" for s' wp and m :: "(session_id \<times> session_id) list"
    using om_find_put [of m s s s'] by (auto simp: om_put_inv simp flip: om_find_iff split: if_splits)
  then show "pool_inv (addSession s pool)"
    using assms by (fastforce simp: pool_inv_def addSession_def om_put_inv)
  show "pool_keys (addSession s pool) = insert s (pool_keys pool)"
    using assms by (simp add: pool_keys_def addSession_def pool_inv_def om.keys_put)
qed

lemma delSession_ok:
  assumes "pool_inv pool"
  shows "pool_inv (delSession s pool)" "pool_keys (delSession s pool) = pool_keys pool - {s}"
proof -
  show "pool_inv (delSession s pool)"
    using assms om_erase_sub by (fastforce simp: pool_inv_def delSession_def om_erase_inv)
  show "pool_keys (delSession s pool) = pool_keys pool - {s}"
    using assms by (auto simp: pool_keys_def delSession_def pool_inv_def om.keys_erase om.keys_def om_find_erase)
qed

lemma pool_session_ok:
  assumes "pool_inv pool"
  shows "pool_session alive pool s = (if s \<in> pool_keys pool \<and> alive s then Some s else None)"
proof (cases "om_find (p_onlines pool) s")
  case None
  then show ?thesis by (simp add: pool_session_def pool_keys_def om.keys_def)
next
  case (Some wp)
  then have "wp = s" using assms om_find_Some [OF Some] by (auto simp: pool_inv_def)
  then show ?thesis using Some by (simp add: pool_session_def pool_keys_def om.keys_def)
qed

lemma hasOnline_keys: "pool_inv pool \<Longrightarrow> hasOnline pool \<longleftrightarrow> pool_keys pool \<noteq> {}"
  by (simp add: hasOnline_def pool_keys_def pool_inv_def om_keys)

section \<open>Round robin and session ids\<close>

text \<open>Calling \<open>getIoService\<close> or \<open>nextSession\<close> \<open>n\<close> times.\<close>

fun io_calls :: "nat \<Rightarrow> io_pool \<Rightarrow> (nat list \<times> io_pool) res" where
  "io_calls 0 pool = Inr ([], pool)"
| "io_calls (Suc n) pool =
     rbind (getIoService pool) (\<lambda>(io, pool1).
     rbind (io_calls n pool1) (\<lambda>(ios, pool2). Inr (io # ios, pool2)))"

fun session_calls :: "nat \<Rightarrow> io_pool \<Rightarrow> session_id list \<times> io_pool" where
  "session_calls 0 pool = ([], pool)"
| "session_calls (Suc n) pool =
     (let (s, pool1) = nextSession pool; (ss, pool2) = session_calls n pool1 in (s # ss, pool2))"

text \<open>The index of the next service: where the counter points, or the first one.\<close>

definition io_next :: "io_pool \<Rightarrow> nat" where
  "io_next pool = (if unat (m_curIndex pool) < length (m_netIo pool) then unat (m_curIndex pool) else 0)"

lemma getIoService_ok:
  assumes "m_netIo pool \<noteq> []" and "length (m_netIo pool) < 2 ^ 64"
  shows "\<exists>pool'. getIoService pool = Inr (m_netIo pool ! io_next pool, pool') \<and>
           m_netIo pool' = m_netIo pool \<and> p_onlines pool' = p_onlines pool \<and>
           m_curSessionId pool' = m_curSessionId pool \<and>
           io_next pool' = Suc (io_next pool) mod length (m_netIo pool)"
proof -
  let ?n = "length (m_netIo pool)"
  have u: "unat (of_nat ?n :: size_t) = ?n"
    using assms(2) by (simp add: unat_of_nat take_bit_nat_eq_self)
  have ge: "m_curIndex pool \<ge> of_nat ?n \<longleftrightarrow> \<not> unat (m_curIndex pool) < ?n"
    by (simp add: size_cmp u not_less)
  define i where "i = (if m_curIndex pool \<ge> of_nat ?n then 0 else m_curIndex pool)"
  have i: "unat i = io_next pool" "io_next pool < ?n"
    using assms(1) ge by (auto simp: i_def io_next_def)
  have "Suc (unat i) < 2 ^ 64 \<or> Suc (unat i) = 2 ^ 64" using unat_size_bound [of i] by linarith
  then have "unat (i + 1) = Suc (unat i)"
  proof
    assume "Suc (unat i) < 2 ^ 64"
    then have "unat (of_nat (Suc (unat i)) :: size_t) = Suc (unat i)"
      by (simp add: unat_of_nat take_bit_nat_eq_self del: of_nat_Suc of_nat_unat)
    then show ?thesis by (simp add: add.commute)
  next
    assume "Suc (unat i) = 2 ^ 64"
    then show ?thesis using i assms(2) by simp
  qed
  then have nx: "(if unat (i + 1) < ?n then unat (i + 1) else 0) = Suc (io_next pool) mod ?n"
    using i by (auto simp: mod_Suc)
  have "getIoService pool = Inr (m_netIo pool ! io_next pool, pool\<lparr>m_curIndex := i + 1\<rparr>)"
    using i by (auto simp: getIoService_def i_def Let_def)
  moreover have "io_next (pool\<lparr>m_curIndex := i + 1\<rparr>) = Suc (io_next pool) mod ?n"
    by (simp add: nx [symmetric] io_next_def [of "pool\<lparr>m_curIndex := i + 1\<rparr>"])
  ultimately show ?thesis by simp
qed

text \<open>Every service gets its turn: the calls go round the pool.\<close>

lemma io_calls_ok:
  assumes "m_netIo pool \<noteq> []" and "length (m_netIo pool) < 2 ^ 64"
  shows "\<exists>pool'. io_calls n pool =
           Inr (map (\<lambda>k. m_netIo pool ! ((io_next pool + k) mod length (m_netIo pool))) [0..<n], pool') \<and>
           p_onlines pool' = p_onlines pool"
  using assms
proof (induction n arbitrary: pool)
  case 0
  then show ?case by simp
next
  case (Suc n)
  let ?l = "length (m_netIo pool)"
  obtain p1 where p1: "getIoService pool = Inr (m_netIo pool ! io_next pool, p1)"
      "m_netIo p1 = m_netIo pool" "p_onlines p1 = p_onlines pool"
      "io_next p1 = Suc (io_next pool) mod ?l"
    using getIoService_ok [OF Suc.prems] by blast
  obtain p2 where p2: "io_calls n p1 =
      Inr (map (\<lambda>k. m_netIo p1 ! ((io_next p1 + k) mod ?l)) [0..<n], p2)" "p_onlines p2 = p_onlines p1"
    using Suc.IH [of p1] Suc.prems p1(2) by auto
  have "io_next pool < ?l" using Suc.prems(1) by (auto simp: io_next_def)
  moreover have "(io_next p1 + k) mod ?l = (io_next pool + Suc k) mod ?l" for k
    by (simp add: p1(4) mod_add_left_eq)
  ultimately have "m_netIo pool ! io_next pool # map (\<lambda>k. m_netIo p1 ! ((io_next p1 + k) mod ?l)) [0..<n] =
      map (\<lambda>k. m_netIo pool ! ((io_next pool + k) mod ?l)) (0 # map Suc [0..<n])"
    by (simp add: p1(2) comp_def)
  moreover have "0 # map Suc [0..<n] = [0..<Suc n]" by (simp add: map_Suc_upt upt_conv_Cons del: upt_Suc)
  ultimately show ?case using p1 p2 by simp
qed

text \<open>Session ids are the numbers from the counter on: all different, and none is invalid.\<close>

lemma session_calls_ok:
  "fst (session_calls n pool) = map (\<lambda>k. m_curSessionId pool + of_nat (Suc k)) [0..<n]"
proof (induction n arbitrary: pool)
  case 0
  then show ?case by simp
next
  case (Suc n)
  let ?f = "\<lambda>k. m_curSessionId pool + of_nat (Suc k)"
  have "0 # map Suc [0..<n] = [0..<Suc n]" by (simp add: map_Suc_upt upt_conv_Cons del: upt_Suc)
  moreover have "fst (session_calls (Suc n) pool) = map ?f (0 # map Suc [0..<n])"
    by (simp add: Let_def nextSession_def case_prod_unfold Suc comp_def algebra_simps)
  ultimately show ?case by simp
qed

lemma session_calls_distinct:
  assumes "unat (m_curSessionId pool) + n < 2 ^ 64"
  shows "distinct (fst (session_calls n pool))" "INVALID_SESSION_ID \<notin> set (fst (session_calls n pool))"
proof -
  have u: "unat (m_curSessionId pool + of_nat (Suc k)) = unat (m_curSessionId pool) + Suc k" if "k < n" for k
  proof -
    have k: "unat (of_nat (Suc k) :: size_t) = Suc k"
      using assms that by (simp add: unat_of_nat take_bit_nat_eq_self del: of_nat_Suc)
    then show ?thesis using assms that by (subst unat_plus_if') (simp add: k)
  qed
  show "distinct (fst (session_calls n pool))"
    unfolding session_calls_ok distinct_map
  proof (intro conjI inj_onI)
    fix j k
    assume jk: "j \<in> set [0..<n]" "k \<in> set [0..<n]"
      and e: "m_curSessionId pool + of_nat (Suc j) = m_curSessionId pool + of_nat (Suc k)"
    from arg_cong [OF e, of unat] have "unat (m_curSessionId pool) + Suc j = unat (m_curSessionId pool) + Suc k"
      using u [of j] u [of k] jk by (simp only: set_upt atLeastLessThan_iff)
    then show "j = k" by simp
  qed simp
  show "INVALID_SESSION_ID \<notin> set (fst (session_calls n pool))"
    unfolding session_calls_ok INVALID_SESSION_ID_def
    using u by (auto simp del: of_nat_Suc) (metis add_is_0 nat.simps(3) unat_0)
qed

end
