(* ===== verification/Tcp_Object.thy ===== *)
theory Tcp_Object
  imports Connection Io_Pool
begin

text \<open>
  A named endpoint of the library: \<open>TcpObj\<close> of \<open>src/tcp_object.h\<close>, \<open>TcpServer\<close> and
  \<open>TcpClient\<close> of \<open>src/tcp_object.cpp\<close>, with their \<open>Config\<close> and \<open>NetProperty\<close> of
  \<open>include/config.h\<close> and \<open>include/fannynet.h\<close>.

  The handlers of the connections push events, the user's thread runs them in \<open>poll\<close>.  A
  function returns the object, the pool it shares with the other endpoints, and the list
  of its calls, in order: the user's functions, member functions of connections, and the
  acceptor.  A connection is named by its session id.
\<close>

section \<open>Configuration\<close>

datatype service_flag = SERVER_FLAG | CLIENT_FLAG

record config =
  m_name :: string
  m_address :: string
  m_port :: uint32
  m_timeOut :: int
  m_maxConnect :: int
  m_serviceType :: service_flag
  m_autoReconnect :: bool
  m_allow :: string

definition config_server :: "string \<Rightarrow> string \<Rightarrow> uint32 \<Rightarrow> int \<Rightarrow> int \<Rightarrow> string \<Rightarrow> config" where
  "config_server name addr port time maxConn allow =
     \<lparr>m_name = name, m_address = addr, m_port = port, m_timeOut = time, m_maxConnect = maxConn,
      m_serviceType = SERVER_FLAG, m_autoReconnect = False, m_allow = allow\<rparr>"

definition config_client :: "string \<Rightarrow> string \<Rightarrow> uint32 \<Rightarrow> bool \<Rightarrow> config" where
  "config_client name addr port autoConn =
     \<lparr>m_name = name, m_address = addr, m_port = port, m_timeOut = 0, m_maxConnect = 1,
      m_serviceType = CLIENT_FLAG, m_autoReconnect = autoConn, m_allow = []\<rparr>"

text \<open>The functions of the user are not part of the state: calling one is an action.\<close>

record 'b net_property =
  np_config :: config
  np_funBlock :: "session_id \<Rightarrow> size_t \<Rightarrow> 'b res"

definition netProperty ::
    "bool \<Rightarrow> config \<Rightarrow> (session_id \<Rightarrow> size_t \<Rightarrow> net_block res) option \<Rightarrow> net_block net_property" where
  "netProperty dbg c fb =
     \<lparr>np_config = c, np_funBlock = (case fb of None \<Rightarrow> sMakeDefaultBlock dbg | Some f \<Rightarrow> f)\<rparr>"

section \<open>State\<close>

record endpoint =
  ep_address :: string
  ep_port :: uint16

datatype 'b tcp_event = EvRecv 'b | EvConnect session_id | EvClose session_id | EvStart

record 'b tcp_obj =
  m_call :: "'b tcp_event list"
  t_onlines :: "(session_id \<times> unit) list"
  m_netProperty :: "'b net_property"
  m_stop :: bool
  m_acceptor :: bool
  m_current :: "session_id option"
  t_session :: "session_id option"
  m_endpoint :: endpoint

datatype 'b conn_call =
    CallSend 'b
  | CallClose bool
  | CallOnError bool
  | CallPostAccept
  | CallConnect endpoint

datatype 'b action =
    CallFun string 'b
  | ConnectFun string session_id
  | CloseFun string session_id
  | NewConnection session_id nat
  | OnConn session_id "'b conn_call"
  | AcceptorListen uint16 nat
  | AsyncAccept session_id
  | AcceptorClose

text \<open>What a call does to the connection.\<close>

definition run_call :: "'b connection \<Rightarrow> 'b conn_call \<Rightarrow> 'b connection \<times> 'b effect list" where
  "run_call c k =
     (case k of
        CallSend b \<Rightarrow> conn_send c b
      | CallClose er \<Rightarrow> conn_close c er
      | CallOnError er \<Rightarrow> onError c er
      | CallPostAccept \<Rightarrow> postAccept c
      | CallConnect _ \<Rightarrow> conn_connect c)"

definition t_config :: "'b tcp_obj \<Rightarrow> config" where
  "t_config t = np_config (m_netProperty t)"

definition onlines :: "'b tcp_obj \<Rightarrow> session_id list" where
  "onlines t = map fst (t_onlines t)"

type_synonym 'b tcp_step = "('b tcp_obj \<times> io_pool \<times> 'b action list) res"

section \<open>Events\<close>

definition tcp_push :: "'b tcp_event \<Rightarrow> 'b tcp_obj \<Rightarrow> 'b tcp_obj" where
  "tcp_push ev t = t\<lparr>m_call := m_call t @ [ev]\<rparr>"

definition eventRecv :: "'b \<Rightarrow> 'b tcp_obj \<Rightarrow> 'b tcp_obj" where
  "eventRecv p t = tcp_push (EvRecv p) t"

definition eventConnect :: "session_id \<Rightarrow> 'b tcp_obj \<Rightarrow> 'b tcp_obj" where
  "eventConnect s t = tcp_push (EvConnect s) t"

definition eventCloseFun :: "session_id \<Rightarrow> 'b tcp_obj \<Rightarrow> 'b tcp_obj" where
  "eventCloseFun s t = tcp_push (EvClose s) t"

text \<open>\<open>_eventConnectFailedFun\<close> of a client.\<close>

definition eventConnectFailed :: "'b tcp_obj \<Rightarrow> 'b tcp_obj" where
  "eventConnectFailed t = (if m_autoReconnect (t_config t) then tcp_push EvStart t else t)"

text \<open>\<open>createPropertyBase\<close>: the callbacks of a connection are the events of its object.\<close>

definition deliver :: "'b tcp_obj \<Rightarrow> 'b effect \<Rightarrow> 'b tcp_obj" where
  "deliver t e =
     (case e of
        EventPostRecv p \<Rightarrow> eventRecv p t
      | EventConnect s \<Rightarrow> eventConnect s t
      | EventClose s \<Rightarrow> eventCloseFun s t
      | EventConnectFailed \<Rightarrow> eventConnectFailed t
      | _ \<Rightarrow> t)"

definition createConnection :: "io_pool \<Rightarrow> (session_id \<times> io_pool \<times> 'b action list) res" where
  "createConnection pool =
     rbind (getIoService pool) (\<lambda>(io, pool1).
     let (s, pool2) = nextSession pool1 in
     Inr (s, pool2, [NewConnection s io]))"

section \<open>Server and client\<close>

text \<open>
  What the calls of the acceptor up to \<open>listen\<close> do: succeed, throw an \<open>error_code\<close>, which
  the code catches, or throw something else.
\<close>

datatype listen_outcome = ListenOk | ThrowsErrorCode | ThrowsOther

definition beginAccept :: "'b tcp_obj \<Rightarrow> io_pool \<Rightarrow> 'b tcp_step" where
  "beginAccept t pool =
     (if m_stop t then Inr (t, pool, [])
      else
        rbind (createConnection pool) (\<lambda>(s, pool', acts).
        let t' = t\<lparr>m_current := Some s\<rparr> in
        if m_acceptor t' then Inr (t', pool', acts @ [AsyncAccept s]) else Inl NullDeref))"

definition acceptSocket :: "'b tcp_obj \<Rightarrow> io_pool \<Rightarrow> bool \<Rightarrow> 'b tcp_step" where
  "acceptSocket t pool er =
     (case m_current t of
        None \<Rightarrow> Inr (t, pool, [])
      | Some s \<Rightarrow>
          if m_stop t then Inr (t, pool, [])
          else
            rbind (beginAccept t pool) (\<lambda>(t', pool', acts).
            Inr (t', pool', OnConn s (if er then CallOnError er else CallPostAccept) # acts)))"

definition server_doStart ::
    "listen_outcome \<Rightarrow> 'b tcp_obj \<Rightarrow> io_pool \<Rightarrow> (bool \<times> 'b tcp_obj \<times> io_pool \<times> 'b action list) res" where
  "server_doStart lo t pool =
     (let ep = ucast (m_port (t_config t)) in
      rbind (getIoService pool) (\<lambda>(io, pool1).
      let t1 = t\<lparr>m_acceptor := True\<rparr> in
      case lo of
        ThrowsErrorCode \<Rightarrow> Inr (False, t1, pool1, [])
      | ThrowsOther \<Rightarrow> Inl RuntimeError
      | ListenOk \<Rightarrow>
          rbind (beginAccept t1 pool1) (\<lambda>(t2, pool2, acts).
          Inr (True, t2, pool2, AcceptorListen ep io # acts))))"

definition server_doStop :: "'b tcp_obj \<Rightarrow> (bool \<times> 'b action list) res" where
  "server_doStop t =
     rbind (deref (m_current t)) (\<lambda>s.
     Inr (True, (if m_acceptor t then [AcceptorClose] else []) @ [OnConn s (CallClose False)]))"

definition client_doStart :: "'b tcp_obj \<Rightarrow> bool \<times> 'b action list" where
  "client_doStart t =
     (True, case t_session t of None \<Rightarrow> [] | Some s \<Rightarrow> [OnConn s (CallConnect (m_endpoint t))])"

definition client_doStop :: "'b tcp_obj \<Rightarrow> bool" where
  "client_doStop t = True"

definition tcp_start ::
    "listen_outcome \<Rightarrow> 'b tcp_obj \<Rightarrow> io_pool \<Rightarrow> (bool \<times> 'b tcp_obj \<times> io_pool \<times> 'b action list) res" where
  "tcp_start lo t pool =
     (let t' = t\<lparr>m_stop := False\<rparr> in
      case m_serviceType (t_config t') of
        SERVER_FLAG \<Rightarrow> server_doStart lo t' pool
      | CLIENT_FLAG \<Rightarrow> (let (r, acts) = client_doStart t' in Inr (r, t', pool, acts)))"

definition tcp_stop :: "'b tcp_obj \<Rightarrow> (bool \<times> 'b tcp_obj \<times> 'b action list) res" where
  "tcp_stop t =
     (let t' = t\<lparr>m_stop := True\<rparr>;
          acts = map (\<lambda>s. OnConn s (CallClose False)) (onlines t') in
      case m_serviceType (t_config t') of
        SERVER_FLAG \<Rightarrow> rbind (server_doStop t') (\<lambda>(r, acts'). Inr (r, t', acts @ acts'))
      | CLIENT_FLAG \<Rightarrow> Inr (client_doStop t', t', acts))"

text \<open>
  The constructors.  \<open>resolve\<close> stands for \<open>gethostbyname\<close> and \<open>address_v4::from_string\<close>:
  \<open>None\<close> if the latter throws.
\<close>

definition tcpObj :: "'b net_property \<Rightarrow> 'b tcp_obj" where
  "tcpObj p = \<lparr>m_call = [], t_onlines = [], m_netProperty = p, m_stop = True, m_acceptor = False,
     m_current = None, t_session = None, m_endpoint = \<lparr>ep_address = ''0.0.0.0'', ep_port = 0\<rparr>\<rparr>"

definition tcpClient ::
    "(string \<Rightarrow> string option) \<Rightarrow> 'b net_property \<Rightarrow> io_pool \<Rightarrow> 'b tcp_step" where
  "tcpClient resolve p pool =
     rbind (createConnection pool) (\<lambda>(s, pool', acts).
     case resolve (m_address (np_config p)) of
       None \<Rightarrow> Inl RuntimeError
     | Some ip \<Rightarrow>
         Inr ((tcpObj p)\<lparr>t_session := Some s,
                m_endpoint := \<lparr>ep_address = ip, ep_port = ucast (m_port (np_config p))\<rparr>\<rparr>, pool', acts))"

definition tcp_create ::
    "(string \<Rightarrow> string option) \<Rightarrow> 'b net_property option \<Rightarrow> io_pool \<Rightarrow>
     ('b tcp_obj option \<times> io_pool \<times> 'b action list) res" where
  "tcp_create resolve p pool =
     (case p of
        None \<Rightarrow> Inr (None, pool, [])
      | Some q \<Rightarrow>
          (case m_serviceType (np_config q) of
             CLIENT_FLAG \<Rightarrow> rbind (tcpClient resolve q pool) (\<lambda>(t, pool', acts). Inr (Some t, pool', acts))
           | SERVER_FLAG \<Rightarrow> Inr (Some (tcpObj q), pool, [])))"

section \<open>Polling\<close>

definition run_event :: "listen_outcome \<Rightarrow> 'b tcp_obj \<Rightarrow> io_pool \<Rightarrow> 'b tcp_event \<Rightarrow> 'b tcp_step" where
  "run_event lo t pool ev =
     (let name = m_name (t_config t) in
      case ev of
        EvRecv p \<Rightarrow> Inr (t, pool, [CallFun name p])
      | EvConnect s \<Rightarrow>
          Inr (t\<lparr>t_onlines := om_put s () (t_onlines t)\<rparr>, addSession s pool, [ConnectFun name s])
      | EvClose s \<Rightarrow>
          Inr (t\<lparr>t_onlines := om_erase s (t_onlines t)\<rparr>, delSession s pool, [CloseFun name s])
      | EvStart \<Rightarrow>
          rbind (tcp_start lo t pool) (\<lambda>(_, t', pool', acts). Inr (t', pool', acts)))"

fun run_events :: "listen_outcome \<Rightarrow> 'b tcp_obj \<Rightarrow> io_pool \<Rightarrow> 'b tcp_event list \<Rightarrow> 'b tcp_step" where
  "run_events lo t pool [] = Inr (t, pool, [])"
| "run_events lo t pool (ev # evs) =
     rbind (run_event lo t pool ev) (\<lambda>(t1, pool1, acts1).
     rbind (run_events lo t1 pool1 evs) (\<lambda>(t2, pool2, acts2).
     Inr (t2, pool2, acts1 @ acts2)))"

definition tcp_poll :: "listen_outcome \<Rightarrow> 'b tcp_obj \<Rightarrow> io_pool \<Rightarrow> 'b tcp_step" where
  "tcp_poll lo t pool = run_events lo (t\<lparr>m_call := []\<rparr>) pool (m_call t)"

section \<open>What polling does\<close>

text \<open>The sessions the endpoint knows.\<close>

definition tcp_keys :: "'b tcp_obj \<Rightarrow> session_id set" where
  "tcp_keys t = om.keys (t_onlines t)"

definition tcp_inv :: "'b tcp_obj \<Rightarrow> bool" where
  "tcp_inv t \<longleftrightarrow> om_inv (t_onlines t)"

lemma tcp_keys_onlines: "tcp_inv t \<Longrightarrow> set (onlines t) = tcp_keys t"
  by (simp add: tcp_keys_def tcp_inv_def om_keys onlines_def)

text \<open>The user's function an event calls, and the set of sessions after it.\<close>

fun event_action :: "string \<Rightarrow> 'b tcp_event \<Rightarrow> 'b action list" where
  "event_action name (EvRecv p) = [CallFun name p]"
| "event_action name (EvConnect s) = [ConnectFun name s]"
| "event_action name (EvClose s) = [CloseFun name s]"
| "event_action name EvStart = []"

fun event_keys :: "session_id set \<Rightarrow> 'b tcp_event \<Rightarrow> session_id set" where
  "event_keys S (EvConnect s) = insert s S"
| "event_keys S (EvClose s) = S - {s}"
| "event_keys S _ = S"

lemma run_event_ok:
  assumes "ev \<noteq> EvStart" and "tcp_inv t" and "pool_inv pool"
  shows "\<exists>t' pool'. run_event lo t pool ev = Inr (t', pool', event_action (m_name (t_config t)) ev) \<and>
           tcp_inv t' \<and> pool_inv pool' \<and> t_config t' = t_config t \<and> m_call t' = m_call t \<and>
           m_stop t' = m_stop t \<and> t_session t' = t_session t \<and> m_endpoint t' = m_endpoint t \<and>
           tcp_keys t' = event_keys (tcp_keys t) ev \<and>
           pool_keys pool' = event_keys (pool_keys pool) ev"
  using assms
  by (cases ev) (simp_all add: run_event_def tcp_inv_def om_put_inv om_erase_inv t_config_def tcp_keys_def
      om.keys_put om.keys_erase addSession_ok delSession_ok)

text \<open>
  The events are run in the order in which they were pushed, each exactly once, and the
  queue is empty afterwards.
\<close>

lemma run_events_ok:
  assumes "EvStart \<notin> set evs" and "tcp_inv t" and "pool_inv pool"
  shows "\<exists>t' pool'. run_events lo t pool evs =
             Inr (t', pool', concat (map (event_action (m_name (t_config t))) evs)) \<and>
           tcp_inv t' \<and> pool_inv pool' \<and> t_config t' = t_config t \<and> m_call t' = m_call t \<and>
           tcp_keys t' = foldl event_keys (tcp_keys t) evs \<and>
           pool_keys pool' = foldl event_keys (pool_keys pool) evs"
  using assms
proof (induction evs arbitrary: t pool)
  case Nil
  then show ?case by simp
next
  case (Cons ev evs)
  then have ne: "ev \<noteq> EvStart" "EvStart \<notin> set evs" by auto
  from run_event_ok [OF ne(1) Cons.prems(2,3), of lo] obtain t1 p1 where
    1: "run_event lo t pool ev = Inr (t1, p1, event_action (m_name (t_config t)) ev)" "tcp_inv t1"
      "pool_inv p1" "t_config t1 = t_config t" "m_call t1 = m_call t"
      "tcp_keys t1 = event_keys (tcp_keys t) ev" "pool_keys p1 = event_keys (pool_keys pool) ev" by blast
  from Cons.IH [OF ne(2) 1(2,3)] show ?case using 1 by auto
qed

lemma tcp_poll_ok:
  assumes "EvStart \<notin> set (m_call t)" and "tcp_inv t" and "pool_inv pool"
  shows "\<exists>t' pool'. tcp_poll lo t pool =
             Inr (t', pool', concat (map (event_action (m_name (t_config t))) (m_call t))) \<and>
           tcp_inv t' \<and> pool_inv pool' \<and> t_config t' = t_config t \<and> m_call t' = [] \<and>
           tcp_keys t' = foldl event_keys (tcp_keys t) (m_call t) \<and>
           pool_keys pool' = foldl event_keys (pool_keys pool) (m_call t)"
  using run_events_ok [OF assms(1), of "t\<lparr>m_call := []\<rparr>" pool lo] assms(2,3)
  by (simp add: tcp_poll_def tcp_inv_def t_config_def tcp_keys_def)

text \<open>Messages posted by connections reach the user's function, in order, unchanged.\<close>

lemma foldl_deliver_posted:
  "m_call (foldl deliver t (map EventPostRecv bs)) = m_call t @ map EvRecv bs \<and>
   t_config (foldl deliver t (map EventPostRecv bs)) = t_config t \<and>
   t_onlines (foldl deliver t (map EventPostRecv bs)) = t_onlines t"
  by (induction bs arbitrary: t) (simp_all add: deliver_def eventRecv_def tcp_push_def t_config_def)

section \<open>Starting and stopping\<close>

lemma createConnection_ok:
  assumes "pool_inv pool"
  shows "\<exists>io pool'. createConnection pool = Inr (m_curSessionId pool + 1, pool', [NewConnection (m_curSessionId pool + 1) io]) \<and>
           io = m_netIo pool ! io_next pool \<and> pool_inv pool' \<and> pool_keys pool' = pool_keys pool \<and>
           m_curSessionId pool' = m_curSessionId pool + 1"
proof -
  obtain p1 where "getIoService pool = Inr (m_netIo pool ! io_next pool, p1)" "m_netIo p1 = m_netIo pool"
      "p_onlines p1 = p_onlines pool" "m_curSessionId p1 = m_curSessionId pool"
    using getIoService_ok [of pool] assms by (auto simp: pool_inv_def)
  then show ?thesis
    using assms by (simp add: createConnection_def nextSession_def pool_inv_def pool_keys_def)
qed

text \<open>\<open>stop\<close> closes each connection of the endpoint once; the objects of a server are closed too.\<close>

lemma tcp_stop_client:
  assumes "m_serviceType (t_config t) = CLIENT_FLAG"
  shows "tcp_stop t = Inr (True, t\<lparr>m_stop := True\<rparr>, map (\<lambda>s. OnConn s (CallClose False)) (onlines t))"
  using assms by (simp add: tcp_stop_def client_doStop_def t_config_def onlines_def)

lemma tcp_stop_server:
  assumes "m_serviceType (t_config t) = SERVER_FLAG"
  shows "tcp_stop t =
    (case m_current t of
       None \<Rightarrow> Inl NullDeref
     | Some c \<Rightarrow> Inr (True, t\<lparr>m_stop := True\<rparr>, map (\<lambda>s. OnConn s (CallClose False)) (onlines t) @
         (if m_acceptor t then [AcceptorClose] else []) @ [OnConn c (CallClose False)]))"
  using assms by (simp add: tcp_stop_def server_doStop_def t_config_def onlines_def deref_def split: option.split)

lemma server_start_ok:
  fixes t :: "'b tcp_obj"
  assumes "m_serviceType (t_config t) = SERVER_FLAG" and "pool_inv pool"
  shows "\<exists>t' pool' io io'. tcp_start ListenOk t pool =
           Inr (True, t', pool', [AcceptorListen (ucast (m_port (t_config t))) io,
             NewConnection (m_curSessionId pool + 1) io', AsyncAccept (m_curSessionId pool + 1)]) \<and>
           pool_inv pool' \<and> pool_keys pool' = pool_keys pool \<and> \<not> m_stop t' \<and>
           m_current t' = Some (m_curSessionId pool + 1) \<and> t_onlines t' = t_onlines t"
proof -
  obtain io p1 where p1: "getIoService pool = Inr (io, p1)" "m_netIo p1 = m_netIo pool"
      "p_onlines p1 = p_onlines pool" "m_curSessionId p1 = m_curSessionId pool"
    using getIoService_ok [of pool] assms(2) by (auto simp: pool_inv_def)
  have "pool_inv p1" "pool_keys p1 = pool_keys pool" using p1 assms(2) by (simp_all add: pool_inv_def pool_keys_def)
  moreover from createConnection_ok [OF this(1)] p1(4) obtain io' p2 where
    "createConnection p1 = (Inr (m_curSessionId pool + 1, p2, [NewConnection (m_curSessionId pool + 1) io'])
      :: (_ \<times> _ \<times> 'b action list) res)" "pool_inv p2" "pool_keys p2 = pool_keys p1" by auto
  ultimately show ?thesis
    using p1 assms(1) by (simp add: tcp_start_def server_doStart_def beginAccept_def t_config_def Let_def)
qed

text \<open>
  A server that starts listens at the end point of its configuration, of whose port only
  the lower 16 bits are used, and has exactly one new connection waiting for a socket; the
  sessions online do not change. If the acceptor throws the \<open>error_code\<close> that the code catches
  it returns \<open>false\<close>, accepts nothing, and is not marked as stopped.
\<close>

lemma server_listens:
  assumes "m_serviceType (t_config t) = SERVER_FLAG" and "pool_inv pool"
  shows "(\<exists>t' pool' io io'. tcp_start ListenOk t pool =
      Inr (True, t', pool', [AcceptorListen (of_nat (unat (m_port (t_config t)) mod 65536)) io,
        NewConnection (m_curSessionId pool + 1) io', AsyncAccept (m_curSessionId pool + 1)]) \<and>
      \<not> m_stop t' \<and> m_current t' = Some (m_curSessionId pool + 1) \<and> onlines t' = onlines t \<and>
      pool_inv pool' \<and> pool_keys pool' = pool_keys pool) \<and>
    (\<exists>t' pool'. tcp_start ThrowsErrorCode t pool = Inr (False, t', pool', []) \<and>
      \<not> m_stop t' \<and> m_current t' = m_current t) \<and>
    tcp_start ThrowsOther t pool = Inl RuntimeError"
proof -
  have port: "(ucast (m_port (t_config t)) :: 16 word) = of_nat (unat (m_port (t_config t)) mod 65536)"
    by (simp add: word_unat_eq_iff unsigned_ucast_eq unsigned_of_nat take_bit_eq_mod)
  obtain io p1 where "getIoService pool = Inr (io, p1)"
    using getIoService_ok [of pool] assms(2) by (auto simp: pool_inv_def)
  then show ?thesis
    using server_start_ok [OF assms] assms(1) unfolding port
    by (auto simp: tcp_start_def server_doStart_def t_config_def Let_def onlines_def)
qed

text \<open>
  After a failed connect a client that reconnects starts again at the next \<open>poll\<close>: it connects
  its one connection to its end point, and it is no longer stopped, even if it was stopped in
  between; a client that does not reconnect does nothing.
\<close>

lemma failed_connect_restarts:
  assumes "m_serviceType (t_config t) = CLIENT_FLAG" and "t_session t = Some s" and "m_call t = []"
  shows "\<exists>t' acts. tcp_stop t = Inr (True, t', acts) \<and> m_stop t' \<and>
    tcp_poll lo (deliver t' EventConnectFailed) pool =
      (if m_autoReconnect (t_config t)
       then Inr (t'\<lparr>m_stop := False\<rparr>, pool, [OnConn s (CallConnect (m_endpoint t))])
       else Inr (t', pool, [])) \<and>
    tcp_poll lo (deliver t EventConnectFailed) pool =
      (if m_autoReconnect (t_config t)
       then Inr (t\<lparr>m_stop := False\<rparr>, pool, [OnConn s (CallConnect (m_endpoint t))])
       else Inr (t, pool, []))"
  using tcp_stop_client [OF assms(1)] assms
  by (simp add: deliver_def eventConnectFailed_def tcp_push_def tcp_poll_def run_event_def tcp_start_def
      client_doStart_def t_config_def Let_def)

end
