(* ===== verification/Net_Service.thy ===== *)
theory Net_Service
  imports Complex_Main Tcp_Object
begin

text \<open>
  The library's interface: \<open>NetService\<close> of \<open>src/service.h\<close> and \<open>src/service.cpp\<close>, a map from
  names to endpoints over one pool of \<open>io_service\<close> threads, and \<open>NetManager\<close> of
  \<open>include/manager.h\<close> and \<open>src/manager.cpp\<close>, which hands each call to it.

  The functions of the user that \<open>poll\<close> calls are actions in the result; that they may call
  the service again is not modelled.
\<close>

section \<open>State and member functions\<close>

datatype service_state = STATE_SERVICE_INIT | STATE_SERVICE_RUN | STATE_SERVICE_STOP

type_synonym 'b nets = "(string \<times> 'b tcp_obj) list"

record 'b net_service =
  m_ioPool :: io_pool
  m_nets :: "'b nets"
  sv_state :: service_state

type_synonym 'b service_step = "(bool \<times> 'b net_service \<times> 'b action list) res"

definition netService :: "bool \<Rightarrow> size_t \<Rightarrow> 'b net_service res" where
  "netService dbg t =
     rbind (ioObjectPool dbg t) (\<lambda>pool.
     Inr \<lparr>m_ioPool = pool, m_nets = [], sv_state = STATE_SERVICE_INIT\<rparr>)"

definition isRun :: "'b net_service \<Rightarrow> bool" where
  "isRun sv \<longleftrightarrow> sv_state sv = STATE_SERVICE_RUN"

text \<open>The loop of \<open>start\<close>, which ends at the first endpoint that does not start.\<close>

fun start_nets ::
    "(string \<Rightarrow> listen_outcome) \<Rightarrow> 'b nets \<Rightarrow> io_pool \<Rightarrow> (bool \<times> 'b nets \<times> io_pool \<times> 'b action list) res" where
  "start_nets lo [] pool = Inr (True, [], pool, [])"
| "start_nets lo ((n, t) # nets) pool =
     rbind (tcp_start (lo n) t pool) (\<lambda>(ok, t1, pool1, acts1).
     if \<not> ok then Inr (False, (n, t1) # nets, pool1, acts1)
     else rbind (start_nets lo nets pool1) (\<lambda>(r, nets2, pool2, acts2).
          Inr (r, (n, t1) # nets2, pool2, acts1 @ acts2)))"

definition service_start :: "(string \<Rightarrow> listen_outcome) \<Rightarrow> 'b net_service \<Rightarrow> 'b service_step" where
  "service_start lo sv =
     (let sv1 = sv\<lparr>sv_state := STATE_SERVICE_RUN\<rparr> in
      rbind (start_nets lo (m_nets sv1) (m_ioPool sv1)) (\<lambda>(r, nets, pool, acts).
      Inr (r, sv1\<lparr>m_ioPool := pool, m_nets := nets\<rparr>, acts)))"

text \<open>A loop over all endpoints, in the order of their names.\<close>

fun each_net ::
    "(string \<Rightarrow> 'b tcp_obj \<Rightarrow> io_pool \<Rightarrow> 'b tcp_step) \<Rightarrow> 'b nets \<Rightarrow> io_pool \<Rightarrow>
     ('b nets \<times> io_pool \<times> 'b action list) res" where
  "each_net f [] pool = Inr ([], pool, [])"
| "each_net f ((n, t) # nets) pool =
     rbind (f n t pool) (\<lambda>(t1, pool1, acts1).
     rbind (each_net f nets pool1) (\<lambda>(nets2, pool2, acts2).
     Inr ((n, t1) # nets2, pool2, acts1 @ acts2)))"

definition stop_net :: "string \<Rightarrow> 'b tcp_obj \<Rightarrow> io_pool \<Rightarrow> 'b tcp_step" where
  "stop_net n t pool = rbind (tcp_stop t) (\<lambda>(_, t', acts). Inr (t', pool, acts))"

definition setStop :: "'b net_service \<Rightarrow> ('b net_service \<times> 'b action list) res" where
  "setStop sv =
     (let sv1 = sv\<lparr>sv_state := STATE_SERVICE_STOP\<rparr> in
      rbind (each_net stop_net (m_nets sv1) (m_ioPool sv1)) (\<lambda>(nets, pool, acts).
      Inr (sv1\<lparr>m_ioPool := pool, m_nets := nets\<rparr>, acts)))"

definition service_poll :: "(string \<Rightarrow> listen_outcome) \<Rightarrow> 'b net_service \<Rightarrow> 'b service_step" where
  "service_poll lo sv =
     rbind (each_net (\<lambda>n. tcp_poll (lo n)) (m_nets sv) (m_ioPool sv)) (\<lambda>(nets, pool, acts).
     Inr (True, sv\<lparr>m_ioPool := pool, m_nets := nets\<rparr>, acts))"

text \<open>
  The loop of \<open>stop\<close>.  \<open>elapsed k\<close> is the \<open>k\<close>-th reading of the \<open>boost::timer\<close>, \<open>env k\<close> what the
  other threads do between two rounds; \<open>None\<close> if the loop does not end.
\<close>

partial_function (option) stop_loop ::
    "(string \<Rightarrow> listen_outcome) \<Rightarrow> (nat \<Rightarrow> real) \<Rightarrow> (nat \<Rightarrow> 'b net_service \<Rightarrow> 'b net_service) \<Rightarrow> nat \<Rightarrow>
     nat \<Rightarrow> 'b net_service \<Rightarrow> 'b action list \<Rightarrow> 'b service_step option" where
  "stop_loop lo elapsed env sec k sv acts =
     (case service_poll lo sv of
        Inl e \<Rightarrow> Some (Inl e)
      | Inr (_, sv1, acts1) \<Rightarrow>
          if elapsed k < of_nat sec \<and> hasOnline (m_ioPool sv1)
          then stop_loop lo elapsed env sec (Suc k) (env k sv1) (acts @ acts1)
          else Some (Inr (True, sv1, acts @ acts1)))"

definition service_stop ::
    "(string \<Rightarrow> listen_outcome) \<Rightarrow> (nat \<Rightarrow> real) \<Rightarrow> (nat \<Rightarrow> 'b net_service \<Rightarrow> 'b net_service) \<Rightarrow> uint32 \<Rightarrow>
     'b net_service \<Rightarrow> 'b service_step option" where
  "service_stop lo elapsed env sec sv =
     (if sv_state sv \<noteq> STATE_SERVICE_STOP then Some (Inr (False, sv, []))
      else stop_loop lo elapsed env (unat (if sec \<le> 15 then 20 else sec)) 0 sv [])"

definition service_add ::
    "(string \<Rightarrow> string option) \<Rightarrow> 'b net_property option \<Rightarrow> 'b net_service \<Rightarrow> 'b service_step" where
  "service_add resolve p sv =
     rbind (deref p) (\<lambda>q.
     let name = m_name (np_config q) in
     if om_find (m_nets sv) name \<noteq> None then Inr (False, sv, [])
     else
       rbind (tcp_create resolve p (m_ioPool sv)) (\<lambda>(t, pool, acts).
       rbind (deref t) (\<lambda>t'.
       Inr (True, sv\<lparr>m_ioPool := pool, m_nets := om_put name t' (m_nets sv)\<rparr>, acts))))"

text \<open>\<open>remove\<close>: the iterator is used when it is \<open>end()\<close>, which points to no element.\<close>

definition service_remove :: "string \<Rightarrow> 'b net_service \<Rightarrow> 'b service_step" where
  "service_remove name sv =
     (if om_find (m_nets sv) name \<noteq> None then Inr (False, sv, []) else Inl MemFault)"

definition service_send ::
    "'b block_vt \<Rightarrow> (session_id \<Rightarrow> bool) \<Rightarrow> 'b \<Rightarrow> 'b net_service \<Rightarrow> 'b service_step" where
  "service_send vt alive msg sv =
     (if \<not> isRun sv then Inr (False, sv, [])
      else case pool_session alive (m_ioPool sv) (vt_session vt msg) of
             Some c \<Rightarrow> Inr (True, sv, [OnConn c (CallSend msg)])
           | None \<Rightarrow> Inr (False, sv, []))"

fun send_clones :: "'b block_vt \<Rightarrow> 'b \<Rightarrow> session_id list \<Rightarrow> 'b action list res" where
  "send_clones vt msg [] = Inr []"
| "send_clones vt msg (c # cs) =
     rbind (vt_clone vt msg c) (\<lambda>m.
     rbind (send_clones vt msg cs) (\<lambda>acts. Inr (OnConn c (CallSend m) # acts)))"

definition service_send_name ::
    "'b block_vt \<Rightarrow> string \<Rightarrow> 'b \<Rightarrow> 'b net_service \<Rightarrow> 'b service_step" where
  "service_send_name vt name msg sv =
     (if \<not> isRun sv then Inr (False, sv, [])
      else case om_find (m_nets sv) name of
             None \<Rightarrow> Inr (False, sv, [])
           | Some net \<Rightarrow>
               rbind (send_clones vt msg (onlines net)) (\<lambda>acts. Inr (True, sv, acts)))"

definition service_kick :: "(session_id \<Rightarrow> bool) \<Rightarrow> session_id \<Rightarrow> 'b net_service \<Rightarrow> 'b service_step" where
  "service_kick alive s sv =
     Inr (True, sv, case pool_session alive (m_ioPool sv) s of
                      Some c \<Rightarrow> [OnConn c (CallClose False)] | None \<Rightarrow> [])"

section \<open>The manager\<close>

text \<open>
  The calls of \<open>NetManager\<close> that return at once, each of which is the one of the service.
\<close>

datatype 'b request =
    ReqStart
  | ReqAdd "'b net_property option"
  | ReqRemove string
  | ReqPoll
  | ReqSend 'b
  | ReqSendName string 'b
  | ReqKick session_id
  | ReqIsRun
  | ReqSetStop

definition net_manager ::
    "'b block_vt \<Rightarrow> (string \<Rightarrow> string option) \<Rightarrow> (string \<Rightarrow> listen_outcome) \<Rightarrow> (session_id \<Rightarrow> bool) \<Rightarrow>
     'b request \<Rightarrow> 'b net_service \<Rightarrow> 'b service_step" where
  "net_manager vt resolve lo alive rq sv =
     (case rq of
        ReqStart \<Rightarrow> service_start lo sv
      | ReqAdd p \<Rightarrow> service_add resolve p sv
      | ReqRemove name \<Rightarrow> service_remove name sv
      | ReqPoll \<Rightarrow> service_poll lo sv
      | ReqSend msg \<Rightarrow> service_send vt alive msg sv
      | ReqSendName name msg \<Rightarrow> service_send_name vt name msg sv
      | ReqKick s \<Rightarrow> service_kick alive s sv
      | ReqIsRun \<Rightarrow> Inr (isRun sv, sv, [])
      | ReqSetStop \<Rightarrow> rbind (setStop sv) (\<lambda>(sv', acts). Inr (True, sv', acts)))"

end
