(* ===== verification/Service_Invariant.thy ===== *)
theory Service_Invariant
  imports Net_Service
begin

text \<open>
  The service as a transition system: calls of the manager, events of connections and
  accepted sockets in any order.  The invariant ties the two places where online sessions
  are kept together: an endpoint knows exactly the sessions of the pool that are its own.
  From it follow what \<open>send\<close>, \<open>kick\<close> and the broadcast reach.
\<close>

section \<open>The invariant\<close>

text \<open>
  \<open>owner s\<close> is the endpoint that created the connection \<open>s\<close>: its callbacks are bound to that
  endpoint, so events about \<open>s\<close> are pushed there only.
\<close>

fun event_session :: "'b tcp_event \<Rightarrow> session_id option" where
  "event_session (EvConnect s) = Some s"
| "event_session (EvClose s) = Some s"
| "event_session _ = None"

definition own_events :: "(session_id \<Rightarrow> string) \<Rightarrow> string \<Rightarrow> 'b tcp_event list \<Rightarrow> bool" where
  "own_events owner n evs \<longleftrightarrow> (\<forall>ev \<in> set evs. \<forall>s. event_session ev = Some s \<longrightarrow> owner s = n)"

definition net_ok :: "(session_id \<Rightarrow> string) \<Rightarrow> io_pool \<Rightarrow> string \<Rightarrow> 'b tcp_obj \<Rightarrow> bool" where
  "net_ok owner pool n t \<longleftrightarrow> tcp_inv t \<and> m_name (t_config t) = n \<and> own_events owner n (m_call t) \<and>
     tcp_keys t = {s \<in> pool_keys pool. owner s = n}"

definition nets_ok :: "(session_id \<Rightarrow> string) \<Rightarrow> io_pool \<Rightarrow> 'b nets \<Rightarrow> bool" where
  "nets_ok owner pool nets \<longleftrightarrow> (\<forall>(n, t) \<in> set nets. net_ok owner pool n t)"

definition service_inv :: "(session_id \<Rightarrow> string) \<Rightarrow> 'b net_service \<Rightarrow> bool" where
  "service_inv owner sv \<longleftrightarrow> pool_inv (m_ioPool sv) \<and> om_inv (m_nets sv) \<and>
     nets_ok owner (m_ioPool sv) (m_nets sv) \<and>
     (\<forall>s \<in> pool_keys (m_ioPool sv). owner s \<in> fst ` set (m_nets sv))"

text \<open>A step of the endpoint \<open>n\<close> changes the pool's sessions of that endpoint only.\<close>

definition own_step :: "(session_id \<Rightarrow> string) \<Rightarrow> string \<Rightarrow> io_pool \<Rightarrow> io_pool \<Rightarrow> bool" where
  "own_step owner n pool pool' \<longleftrightarrow> (\<forall>s. owner s \<noteq> n \<longrightarrow> s \<in> pool_keys pool' \<longleftrightarrow> s \<in> pool_keys pool)"

definition net_step_ok ::
    "(session_id \<Rightarrow> string) \<Rightarrow> (string \<Rightarrow> 'b tcp_obj \<Rightarrow> io_pool \<Rightarrow> 'b tcp_step) \<Rightarrow> bool" where
  "net_step_ok owner f \<longleftrightarrow> (\<forall>n t pool t' pool' acts. pool_inv pool \<longrightarrow> net_ok owner pool n t \<longrightarrow>
     f n t pool = Inr (t', pool', acts) \<longrightarrow>
     pool_inv pool' \<and> net_ok owner pool' n t' \<and> own_step owner n pool pool')"

lemma net_step_okD:
  "net_step_ok owner f \<Longrightarrow> pool_inv pool \<Longrightarrow> net_ok owner pool n t \<Longrightarrow> f n t pool = Inr (t', pool', acts) \<Longrightarrow>
   pool_inv pool' \<and> net_ok owner pool' n t' \<and> own_step owner n pool pool'"
  unfolding net_step_ok_def by blast

lemma net_ok_frame: "own_step owner n pool pool' \<Longrightarrow> m \<noteq> n \<Longrightarrow> net_ok owner pool' m t = net_ok owner pool m t"
  unfolding net_ok_def own_step_def by auto

lemma own_step_refl: "own_step owner n pool pool"
  by (simp add: own_step_def)

lemma own_step_trans:
  "own_step owner n p q \<Longrightarrow> own_step owner n q r \<Longrightarrow> own_step owner n p r"
  by (simp add: own_step_def)

section \<open>Steps of one endpoint\<close>

lemma pool_keys_same:
  "p_onlines p' = p_onlines p \<Longrightarrow> m_netIo p' = m_netIo p \<Longrightarrow>
   pool_keys p' = pool_keys p \<and> pool_inv p' = pool_inv p"
  by (simp add: pool_keys_def pool_inv_def)

lemma getIoService_same:
  "getIoService p = Inr (io, p') \<Longrightarrow> p_onlines p' = p_onlines p \<and> m_netIo p' = m_netIo p"
  by (auto simp: getIoService_def Let_def split: if_splits)

lemma createConnection_same:
  "createConnection p = Inr (s, p', acts) \<Longrightarrow> p_onlines p' = p_onlines p \<and> m_netIo p' = m_netIo p"
  by (auto simp: createConnection_def nextSession_def rbind_eq_Inr dest: getIoService_same)

lemma beginAccept_same:
  assumes "beginAccept t p = Inr (t', p', acts)"
  shows "p_onlines p' = p_onlines p \<and> m_netIo p' = m_netIo p \<and> t_onlines t' = t_onlines t \<and>
         m_call t' = m_call t \<and> m_netProperty t' = m_netProperty t"
  using assms by (auto simp: beginAccept_def rbind_eq_Inr Let_def split: if_splits dest: createConnection_same)

lemma tcp_start_same:
  assumes "tcp_start lo t p = Inr (r, t', p', acts)"
  shows "p_onlines p' = p_onlines p \<and> m_netIo p' = m_netIo p \<and> t_onlines t' = t_onlines t \<and>
         m_call t' = m_call t \<and> m_netProperty t' = m_netProperty t"
proof (cases "m_serviceType (t_config t)")
  case CLIENT_FLAG
  then show ?thesis
    using assms by (auto simp: tcp_start_def client_doStart_def t_config_def Let_def)
next
  case SERVER_FLAG
  let ?t = "t\<lparr>m_stop := False\<rparr>"
  have "server_doStart lo ?t p = Inr (r, t', p', acts)"
    using assms SERVER_FLAG by (simp add: tcp_start_def t_config_def)
  then obtain io p1 where g: "getIoService p = Inr (io, p1)" and
    c: "(t', p') = (?t\<lparr>m_acceptor := True\<rparr>, p1) \<or>
        (\<exists>a. beginAccept (?t\<lparr>m_acceptor := True\<rparr>) p1 = Inr (t', p', a))"
    by (cases lo) (auto simp: server_doStart_def rbind_eq_Inr Let_def)
  show ?thesis using getIoService_same [OF g] c by (auto dest!: beginAccept_same)
qed

lemma net_ok_same:
  assumes "net_ok owner p n t" and "t_onlines t' = t_onlines t" and "m_call t' = m_call t"
    and "m_netProperty t' = m_netProperty t" and "p_onlines p' = p_onlines p"
  shows "net_ok owner p' n t'"
  using assms by (simp add: net_ok_def tcp_inv_def t_config_def tcp_keys_def pool_keys_def)

lemma same_step_ok:
  assumes "\<And>n t p t' p' acts. f n t p = Inr (t', p', acts) \<Longrightarrow>
      p_onlines p' = p_onlines p \<and> m_netIo p' = m_netIo p \<and> t_onlines t' = t_onlines t \<and>
      m_call t' = m_call t \<and> m_netProperty t' = m_netProperty t"
  shows "net_step_ok owner f"
  unfolding net_step_ok_def
proof (intro allI impI)
  fix n t p t' p' acts
  assume p: "pool_inv p" "net_ok owner p n t" and f: "f n t p = Inr (t', p', acts)"
  note S = assms [OF f]
  then show "pool_inv p' \<and> net_ok owner p' n t' \<and> own_step owner n p p'"
    using p pool_keys_same [of p' p] net_ok_same [OF p(2), of t' p'] by (simp add: own_step_def)
qed

lemma run_event_step:
  assumes "pool_inv p" and "tcp_inv t" and "run_event lo t p ev = Inr (t', p', acts)"
    and "tcp_keys t = {s \<in> pool_keys p. owner s = n}"
    and "\<And>s. event_session ev = Some s \<Longrightarrow> owner s = n"
  shows "pool_inv p' \<and> tcp_inv t' \<and> t_config t' = t_config t \<and> m_call t' = m_call t \<and>
    tcp_keys t' = {s \<in> pool_keys p'. owner s = n} \<and> own_step owner n p p'"
proof (cases "ev = EvStart")
  case True
  then obtain r where "tcp_start lo t p = Inr (r, t', p', acts)"
    using assms(3) by (auto simp: run_event_def rbind_eq_Inr Let_def)
  from tcp_start_same [OF this] show ?thesis
    using assms(1,2,4) pool_keys_same [of p' p]
    by (simp add: tcp_inv_def t_config_def tcp_keys_def own_step_def)
next
  case False
  from run_event_ok [OF this assms(2,1), of lo] assms(3) have
    e: "pool_inv p'" "tcp_inv t'" "t_config t' = t_config t" "m_call t' = m_call t"
      "tcp_keys t' = event_keys (tcp_keys t) ev" "pool_keys p' = event_keys (pool_keys p) ev" by auto
  have "event_keys (tcp_keys t) ev = {s \<in> event_keys (pool_keys p) ev. owner s = n}"
    using assms(4,5) by (cases ev) auto
  moreover have "own_step owner n p p'"
    using assms(5) e(6) by (cases ev) (auto simp: own_step_def)
  ultimately show ?thesis using e by simp
qed

lemma run_events_step:
  assumes "pool_inv p" and "tcp_inv t" and "run_events lo t p evs = Inr (t', p', acts)"
    and "tcp_keys t = {s \<in> pool_keys p. owner s = n}" and "own_events owner n evs"
  shows "pool_inv p' \<and> tcp_inv t' \<and> t_config t' = t_config t \<and> m_call t' = m_call t \<and>
    tcp_keys t' = {s \<in> pool_keys p'. owner s = n} \<and> own_step owner n p p'"
  using assms
proof (induction evs arbitrary: t p acts)
  case Nil
  then show ?case by (simp add: own_step_refl)
next
  case (Cons ev evs)
  obtain t1 p1 a1 a2 where 1: "run_event lo t p ev = Inr (t1, p1, a1)"
      "run_events lo t1 p1 evs = Inr (t', p', a2)"
    using Cons.prems(3) by (auto simp: rbind_eq_Inr)
  have ow: "own_events owner n evs" "\<And>s. event_session ev = Some s \<Longrightarrow> owner s = n"
    using Cons.prems(5) by (auto simp: own_events_def)
  have S: "pool_inv p1 \<and> tcp_inv t1 \<and> t_config t1 = t_config t \<and> m_call t1 = m_call t \<and>
    tcp_keys t1 = {s \<in> pool_keys p1. owner s = n} \<and> own_step owner n p p1"
    by (rule run_event_step [OF Cons.prems(1,2) 1(1) Cons.prems(4) ow(2)])
  then show ?case using Cons.IH [OF _ _ 1(2) _ ow(1)] own_step_trans [of owner n p p1 p'] by simp
qed

lemma poll_step_ok: "net_step_ok owner (\<lambda>n. tcp_poll (lo n))"
  unfolding net_step_ok_def
proof (intro allI impI)
  fix n t p t' p' acts
  assume p: "pool_inv p" "net_ok owner p n t" and f: "tcp_poll (lo n) t p = Inr (t', p', acts)"
  let ?t = "t\<lparr>m_call := []\<rparr>"
  have "tcp_inv ?t" "tcp_keys ?t = {s \<in> pool_keys p. owner s = n}" "own_events owner n (m_call t)"
    using p(2) by (simp_all add: net_ok_def tcp_inv_def tcp_keys_def)
  from run_events_step [OF p(1) this(1) f [unfolded tcp_poll_def] this(2,3)] p(2)
  show "pool_inv p' \<and> net_ok owner p' n t' \<and> own_step owner n p p'"
    by (simp add: net_ok_def t_config_def own_events_def)
qed

lemma stop_step_ok: "net_step_ok owner stop_net"
  by (rule same_step_ok)
    (auto simp: stop_net_def tcp_stop_def rbind_eq_Inr Let_def split: service_flag.splits)

section \<open>Steps of all endpoints\<close>

lemma each_net_ok:
  assumes "net_step_ok owner f" and "pool_inv p" and "nets_ok owner p nets" and "distinct (map fst nets)"
    and "each_net f nets p = Inr (nets', p', acts)"
  shows "pool_inv p' \<and> nets_ok owner p' nets' \<and> map fst nets' = map fst nets \<and>
    (\<forall>s. owner s \<notin> fst ` set nets \<longrightarrow> s \<in> pool_keys p' \<longleftrightarrow> s \<in> pool_keys p)"
  using assms(2-5)
proof (induction nets arbitrary: p nets' acts)
  case Nil
  then show ?case by simp
next
  case (Cons x nets)
  obtain n t where x: "x = (n, t)" by (cases x)
  obtain t1 p1 a1 nets2 a2 where 1: "f n t p = Inr (t1, p1, a1)" "each_net f nets p1 = Inr (nets2, p', a2)"
      "nets' = (n, t1) # nets2"
    using Cons.prems(4) by (auto simp: x rbind_eq_Inr)
  have ok: "net_ok owner p n t" "nets_ok owner p nets" using Cons.prems(2) by (simp_all add: x nets_ok_def)
  have dist: "n \<notin> fst ` set nets" "distinct (map fst nets)" using Cons.prems(3) by (simp_all add: x)
  note S = net_step_okD [OF assms(1) Cons.prems(1) ok(1) 1(1)]
  have "nets_ok owner p1 nets"
    using ok(2) dist(1) S net_ok_frame [of owner n p p1] unfolding nets_ok_def by (metis (mono_tags, lifting) case_prodI2 case_prod_conv image_eqI fst_conv)
  from Cons.IH [OF _ this dist(2) 1(2)] S have IH: "pool_inv p'" "nets_ok owner p' nets2"
      "map fst nets2 = map fst nets"
      "\<forall>s. owner s \<notin> fst ` set nets \<longrightarrow> s \<in> pool_keys p' \<longleftrightarrow> s \<in> pool_keys p1" by auto
  have "net_ok owner p' n t1"
    using S IH(4) dist(1) by (auto simp: net_ok_def)
  moreover have "s \<in> pool_keys p' \<longleftrightarrow> s \<in> pool_keys p" if "owner s \<notin> fst ` set (x # nets)" for s
    using that IH(4) S by (auto simp: x own_step_def)
  ultimately show ?case using IH 1(3) by (simp add: x nets_ok_def)
qed

lemma om_inv_distinct: "om_inv m \<Longrightarrow> distinct (map fst m)"
  unfolding om_inv_def by (simp add: strict_sorted_iff)

text \<open>A loop over all endpoints keeps the invariant, whatever the service's state becomes.\<close>

lemma each_net_inv:
  assumes "net_step_ok owner f" and inv: "service_inv owner sv"
    and e: "each_net f (m_nets sv) (m_ioPool sv) = Inr (nets, pool, acts)"
  shows "service_inv owner (sv\<lparr>sv_state := st, m_ioPool := pool, m_nets := nets\<rparr>)"
proof -
  have I: "pool_inv (m_ioPool sv)" "nets_ok owner (m_ioPool sv) (m_nets sv)" "om_inv (m_nets sv)"
    "\<forall>s \<in> pool_keys (m_ioPool sv). owner s \<in> fst ` set (m_nets sv)"
    using inv by (simp_all add: service_inv_def)
  note E = each_net_ok [OF assms(1) I(1,2) om_inv_distinct [OF I(3)] e]
  then have "fst ` set nets = fst ` set (m_nets sv)" by (metis set_map)
  then show ?thesis using E I om_inv_update [OF I(3)] by (auto simp: service_inv_def)
qed

lemma start_nets_same:
  assumes "start_nets lo nets p = Inr (r, nets', p', acts)"
  shows "p_onlines p' = p_onlines p \<and> m_netIo p' = m_netIo p \<and> map fst nets' = map fst nets \<and>
    list_all2 (\<lambda>(n, t) (n', t'). t_onlines t' = t_onlines t \<and> m_call t' = m_call t \<and>
      m_netProperty t' = m_netProperty t) nets nets'"
  using assms
proof (induction nets arbitrary: p r nets' acts)
  case Nil
  then show ?case by simp
next
  case (Cons x nets)
  obtain n t where x: "x = (n, t)" by (cases x)
  obtain ok t1 p1 a1 where 1: "tcp_start (lo n) t p = Inr (ok, t1, p1, a1)"
    using Cons.prems by (auto simp: x rbind_eq_Inr)
  note S = tcp_start_same [OF 1]
  have refl: "list_all2 (\<lambda>(n, t) (n', t'). t_onlines t' = t_onlines t \<and> m_call t' = m_call t \<and>
      m_netProperty t' = m_netProperty t) nets nets" by (rule list.rel_refl) auto
  show ?case
  proof (cases ok)
    case False
    then show ?thesis using Cons.prems 1 S refl by (auto simp: x)
  next
    case True
    then obtain r2 nets2 a2 where 2: "start_nets lo nets p1 = Inr (r2, nets2, p', a2)" "nets' = (n, t1) # nets2"
      using Cons.prems 1 by (auto simp: x rbind_eq_Inr)
    show ?thesis using Cons.IH [OF 2(1)] 2(2) S by (simp add: x)
  qed
qed

lemma nets_ok_same:
  assumes "nets_ok owner p nets" and "p_onlines p' = p_onlines p" and "map fst nets' = map fst nets"
    and "list_all2 (\<lambda>(n, t) (n', t'). t_onlines t' = t_onlines t \<and> m_call t' = m_call t \<and>
      m_netProperty t' = m_netProperty t) nets nets'"
  shows "nets_ok owner p' nets'"
  using assms(4,1,3)
proof (induction nets nets' rule: list_all2_induct)
  case Nil
  then show ?case by (simp add: nets_ok_def)
next
  case (Cons x xs y ys)
  then show ?case
    using assms(2) net_ok_same [of owner p _ _ _ p'] by (auto simp: nets_ok_def case_prod_unfold)
qed

lemma service_start_inv:
  assumes inv: "service_inv owner sv" and e: "service_start lo sv = Inr (r, sv', acts)"
  shows "service_inv owner sv'"
proof -
  obtain nets p where s: "start_nets lo (m_nets sv) (m_ioPool sv) = Inr (r, nets, p, acts)"
      "sv' = sv\<lparr>sv_state := STATE_SERVICE_RUN, m_ioPool := p, m_nets := nets\<rparr>"
    using e by (auto simp: service_start_def rbind_eq_Inr Let_def)
  note S = start_nets_same [OF s(1)]
  have "fst ` set nets = fst ` set (m_nets sv)" using S by (metis set_map)
  moreover have "pool_keys p = pool_keys (m_ioPool sv)" "pool_inv p = pool_inv (m_ioPool sv)"
    using S pool_keys_same [of p "m_ioPool sv"] by auto
  moreover have "nets_ok owner p nets"
    by (rule nets_ok_same [of owner "m_ioPool sv" "m_nets sv"])
      (use inv S in \<open>simp_all only: service_inv_def\<close>)
  moreover have "om_inv nets" using S inv om_inv_update by (metis service_inv_def)
  ultimately show ?thesis using inv s(2) by (simp add: service_inv_def)
qed

section \<open>A new endpoint\<close>

lemma nets_okD: "nets_ok owner p nets \<Longrightarrow> om_find nets n = Some t \<Longrightarrow> net_ok owner p n t"
  by (auto simp: nets_ok_def dest: om_find_Some)

text \<open>Replacing or adding one endpoint, for which the pool may have changed.\<close>

lemma service_inv_put:
  assumes inv: "service_inv owner sv" and p: "pool_inv p" and t: "net_ok owner p n t"
    and o: "own_step owner n (m_ioPool sv) p"
  shows "service_inv owner (sv\<lparr>m_ioPool := p, m_nets := om_put n t (m_nets sv)\<rparr>)"
proof -
  have I: "om_inv (m_nets sv)" "nets_ok owner (m_ioPool sv) (m_nets sv)"
    "\<forall>s \<in> pool_keys (m_ioPool sv). owner s \<in> fst ` set (m_nets sv)"
    using inv by (simp_all add: service_inv_def)
  have put: "(m, u) = (n, t) \<or> ((m, u) \<in> set (m_nets sv) \<and> m \<noteq> n)" if "(m, u) \<in> set (om_put n t (m_nets sv))" for m u
    using that om_find_put [OF I(1), of n t m] by (auto simp: om_put_inv I(1) simp flip: om_find_iff split: if_splits)
  have "net_ok owner p m u" if mu: "(m, u) \<in> set (om_put n t (m_nets sv))" for m u
  proof (cases "(m, u) = (n, t)")
    case True
    then show ?thesis using t by simp
  next
    case False
    then have "(m, u) \<in> set (m_nets sv)" "m \<noteq> n" using put [OF mu] by auto
    then show ?thesis using I(2) net_ok_frame [OF o, of m u] by (auto simp: nets_ok_def)
  qed
  then have "nets_ok owner p (om_put n t (m_nets sv))" by (auto simp: nets_ok_def)
  moreover have "owner s \<in> fst ` set (om_put n t (m_nets sv))" if "s \<in> pool_keys p" for s
    using that o I(3) by (cases "owner s = n") (auto simp: om_put_keys own_step_def)
  ultimately show ?thesis using p I(1) by (simp add: service_inv_def om_put_inv)
qed

text \<open>
  A name is added once.  An endpoint starts without sessions, so none of the pool may be its
  own: the sessions of the pool all belong to endpoints that exist.
\<close>

lemma service_add_inv:
  assumes inv: "service_inv owner sv" and e: "service_add resolve p sv = Inr (r, sv', acts)"
  shows "service_inv owner sv'"
proof -
  obtain q where q: "p = Some q" using e by (cases p) (auto simp: service_add_def)
  let ?n = "m_name (np_config q)"
  show ?thesis
  proof (cases "om_find (m_nets sv) ?n")
    case (Some t)
    then show ?thesis using e inv by (simp add: service_add_def q)
  next
    case None
    then obtain t pool where c: "tcp_create resolve p (m_ioPool sv) = Inr (Some t, pool, acts)"
        "sv' = sv\<lparr>m_ioPool := pool, m_nets := om_put ?n t (m_nets sv)\<rparr>"
      using e by (auto simp: service_add_def q rbind_eq_Inr deref_def split: option.splits)
    have t: "t_onlines t = []" "m_call t = []" "t_config t = np_config q" and
      p: "p_onlines pool = p_onlines (m_ioPool sv)" "m_netIo pool = m_netIo (m_ioPool sv)"
      using c(1) by (auto simp: tcp_create_def q tcpClient_def tcpObj_def rbind_eq_Inr t_config_def
          split: service_flag.splits option.splits dest: createConnection_same)
    have I: "om_inv (m_nets sv)" "pool_inv (m_ioPool sv)"
      "\<forall>s \<in> pool_keys (m_ioPool sv). owner s \<in> fst ` set (m_nets sv)"
      using inv by (simp_all add: service_inv_def)
    have "?n \<notin> fst ` set (m_nets sv)" using None I(1) by (force simp: om_find_iff [symmetric])
    then have "{s \<in> pool_keys (m_ioPool sv). owner s = ?n} = {}" using I(3) by (metis (mono_tags, lifting) empty_Collect_eq)
    then have "{s \<in> pool_keys pool. owner s = ?n} = {}" using pool_keys_same [OF p] by simp
    then have "net_ok owner pool ?n t"
      using t by (simp add: net_ok_def tcp_inv_def tcp_keys_def om.keys_empty own_events_def)
    moreover have "pool_inv pool" "own_step owner ?n (m_ioPool sv) pool"
      using pool_keys_same [OF p] I(2) by (simp_all add: own_step_def)
    ultimately show ?thesis using service_inv_put [OF inv] c(2) by blast
  qed
qed

section \<open>The transition system\<close>

text \<open>
  A call of the manager; an effect of a connection that its endpoint is told about; a socket
  that the acceptor of a server accepted, or an error of the acceptor.
\<close>

inductive service_step ::
    "'b block_vt \<Rightarrow> (string \<Rightarrow> string option) \<Rightarrow> (string \<Rightarrow> listen_outcome) \<Rightarrow> (session_id \<Rightarrow> bool) \<Rightarrow>
     (session_id \<Rightarrow> string) \<Rightarrow> 'b net_service \<Rightarrow> 'b net_service \<Rightarrow> bool"
  for vt resolve lo alive owner where
  Request: "net_manager vt resolve lo alive rq sv = Inr (r, sv', acts) \<Longrightarrow>
    service_step vt resolve lo alive owner sv sv'"
| Event: "om_find (m_nets sv) n = Some t \<Longrightarrow>
    (\<forall>s. e = EventConnect s \<or> e = EventClose s \<longrightarrow> owner s = n) \<Longrightarrow>
    service_step vt resolve lo alive owner sv (sv\<lparr>m_nets := om_put n (deliver t e) (m_nets sv)\<rparr>)"
| Accept: "om_find (m_nets sv) n = Some t \<Longrightarrow> acceptSocket t (m_ioPool sv) er = Inr (t', pool, acts) \<Longrightarrow>
    service_step vt resolve lo alive owner sv (sv\<lparr>m_ioPool := pool, m_nets := om_put n t' (m_nets sv)\<rparr>)"

inductive service_reach ::
    "'b block_vt \<Rightarrow> (string \<Rightarrow> string option) \<Rightarrow> (string \<Rightarrow> listen_outcome) \<Rightarrow> (session_id \<Rightarrow> bool) \<Rightarrow>
     (session_id \<Rightarrow> string) \<Rightarrow> 'b net_service \<Rightarrow> bool"
  for vt resolve lo alive owner where
  Start: "netService dbg n = Inr sv \<Longrightarrow> 0 < n \<Longrightarrow> service_reach vt resolve lo alive owner sv"
| Step: "service_reach vt resolve lo alive owner sv \<Longrightarrow> service_step vt resolve lo alive owner sv sv' \<Longrightarrow>
    service_reach vt resolve lo alive owner sv'"

lemma service_inv_start:
  assumes "netService dbg n = Inr sv" and "0 < n"
  shows "service_inv owner sv"
proof -
  obtain pool where "ioObjectPool dbg n = Inr pool" "pool_inv pool" "pool_keys pool = {}"
    using ioObjectPool_ok [OF assms(2)] by blast
  then show ?thesis using assms(1) by (auto simp: netService_def service_inv_def nets_ok_def)
qed

lemma net_manager_inv:
  assumes inv: "service_inv owner sv" and e: "net_manager vt resolve lo alive rq sv = Inr (r, sv', acts)"
  shows "service_inv owner sv'"
proof (cases rq)
  case ReqStart
  then show ?thesis using service_start_inv [OF inv] e by (simp add: net_manager_def)
next
  case (ReqAdd p)
  then show ?thesis using service_add_inv [OF inv] e by (simp add: net_manager_def)
next
  case ReqPoll
  then obtain nets pool where p: "each_net (\<lambda>n. tcp_poll (lo n)) (m_nets sv) (m_ioPool sv) = Inr (nets, pool, acts)"
      "sv' = sv\<lparr>m_ioPool := pool, m_nets := nets\<rparr>"
    using e by (auto simp: net_manager_def service_poll_def rbind_eq_Inr)
  from each_net_inv [OF poll_step_ok inv p(1), of "sv_state sv"] show ?thesis by (simp add: p(2))
next
  case ReqSetStop
  then obtain nets pool a where p: "each_net stop_net (m_nets sv) (m_ioPool sv) = Inr (nets, pool, a)"
      "sv' = sv\<lparr>sv_state := STATE_SERVICE_STOP, m_ioPool := pool, m_nets := nets\<rparr>"
    using e by (auto simp: net_manager_def setStop_def rbind_eq_Inr Let_def)
  from each_net_inv [OF stop_step_ok inv p(1)] show ?thesis by (simp add: p(2))
qed (use e inv in \<open>auto simp: net_manager_def service_remove_def service_send_def service_send_name_def
      service_kick_def rbind_eq_Inr split: if_splits option.splits\<close>)

lemma deliver_ok:
  assumes "net_ok owner p n t" and "\<forall>s. e = EventConnect s \<or> e = EventClose s \<longrightarrow> owner s = n"
  shows "net_ok owner p n (deliver t e)"
  using assms
  by (cases e) (auto simp: deliver_def eventRecv_def eventConnect_def eventCloseFun_def eventConnectFailed_def
      tcp_push_def net_ok_def tcp_inv_def t_config_def tcp_keys_def own_events_def)

lemma acceptSocket_same:
  assumes "acceptSocket t p er = Inr (t', p', acts)"
  shows "p_onlines p' = p_onlines p \<and> m_netIo p' = m_netIo p \<and> t_onlines t' = t_onlines t \<and>
         m_call t' = m_call t \<and> m_netProperty t' = m_netProperty t"
  using assms
  by (auto simp: acceptSocket_def rbind_eq_Inr split: option.splits if_splits dest: beginAccept_same)

lemma service_inv_step:
  assumes step: "service_step vt resolve lo alive owner sv sv'" and inv: "service_inv owner sv"
  shows "service_inv owner sv'"
  using step
proof cases
  case (Request rq r acts)
  then show ?thesis using net_manager_inv [OF inv] by blast
next
  case (Event n t e)
  note f = Event(2) and e = Event(3) and sv' = Event(1)
  have I: "pool_inv (m_ioPool sv)" "net_ok owner (m_ioPool sv) n t"
    using inv nets_okD [OF _ f] by (simp_all add: service_inv_def)
  from service_inv_put [OF inv I(1) deliver_ok [OF I(2) e] own_step_refl] show ?thesis by (simp add: sv')
next
  case (Accept n t er t' pool acts)
  note f = Accept(2) and a = Accept(3) and sv' = Accept(1)
  have I: "pool_inv (m_ioPool sv)" "net_ok owner (m_ioPool sv) n t"
    using inv nets_okD [OF _ f] by (simp_all add: service_inv_def)
  note S = acceptSocket_same [OF a]
  then have "pool_inv pool" "own_step owner n (m_ioPool sv) pool"
    using pool_keys_same [of pool "m_ioPool sv"] I(1) by (simp_all add: own_step_def)
  then show ?thesis using service_inv_put [OF inv _ net_ok_same [OF I(2)]] S sv' by simp
qed

lemma service_inv_reach: "service_reach vt resolve lo alive owner sv \<Longrightarrow> service_inv owner sv"
  by (induction rule: service_reach.induct) (auto intro: service_inv_start service_inv_step)

section \<open>What sending reaches\<close>

text \<open>A session is known to the pool exactly if it is online at the endpoint that owns it.\<close>

lemma session_online:
  assumes inv: "service_inv owner sv"
  shows "pool_session alive (m_ioPool sv) s =
    (if alive s \<and> (\<exists>n t. om_find (m_nets sv) n = Some t \<and> s \<in> set (onlines t)) then Some s else None)"
proof -
  have I: "pool_inv (m_ioPool sv)" "om_inv (m_nets sv)" "nets_ok owner (m_ioPool sv) (m_nets sv)"
    "\<forall>s \<in> pool_keys (m_ioPool sv). owner s \<in> fst ` set (m_nets sv)"
    using inv by (simp_all add: service_inv_def)
  have net: "s \<in> set (onlines t) \<longleftrightarrow> s \<in> pool_keys (m_ioPool sv) \<and> owner s = n"
    if "om_find (m_nets sv) n = Some t" for n t
    using nets_okD [OF I(3) that] tcp_keys_onlines [of t] by (auto simp: net_ok_def)
  have "s \<in> pool_keys (m_ioPool sv) \<longleftrightarrow> (\<exists>n t. om_find (m_nets sv) n = Some t \<and> s \<in> set (onlines t))"
  proof
    assume s: "s \<in> pool_keys (m_ioPool sv)"
    then obtain t where "(owner s, t) \<in> set (m_nets sv)" using I(4) by fastforce
    then have "om_find (m_nets sv) (owner s) = Some t" using I(2) by (simp add: om_find_iff)
    then show "\<exists>n t. om_find (m_nets sv) n = Some t \<and> s \<in> set (onlines t)" using net s by blast
  qed (use net in blast)
  then show ?thesis using pool_session_ok [OF I(1)] by auto
qed

text \<open>A broadcast sends each online connection of the endpoint a clone made for its session.\<close>

lemma send_clones_ok:
  assumes "\<And>c. \<exists>m. vt_clone vt msg c = Inr m \<and> P c m"
  shows "\<exists>ms. send_clones vt msg cs = Inr (map2 (\<lambda>c m. OnConn c (CallSend m)) cs ms) \<and> list_all2 P cs ms"
proof (induction cs)
  case Nil
  then show ?case by simp
next
  case (Cons c cs)
  then obtain ms where ms: "send_clones vt msg cs = Inr (map2 (\<lambda>c m. OnConn c (CallSend m)) cs ms)"
      "list_all2 P cs ms" by blast
  obtain m where "vt_clone vt msg c = Inr m" "P c m" using assms by blast
  then show ?case using ms by (intro exI [of _ "m # ms"]) simp
qed

section \<open>The end of the service\<close>

text \<open>
  The loop of \<open>stop\<close> ends once the timer reached the limit.
\<close>

lemma stop_loop_ends:
  assumes "elapsed (k + d) \<ge> real sec"
  shows "\<exists>r. stop_loop lo elapsed env sec k sv acts = Some r"
  using assms
proof (induction d arbitrary: k sv acts)
  case 0
  then show ?case
    by (subst stop_loop.simps) (auto split: sum.splits)
next
  case (Suc d)
  have "\<exists>r. stop_loop lo elapsed env sec (Suc k) sv' acts' = Some r" for sv' acts'
    using Suc.IH [of "Suc k"] Suc.prems by simp
  then show ?case
    by (subst stop_loop.simps) (auto split: sum.splits)
qed

section \<open>Stopping all endpoints\<close>

text \<open>What \<open>stop\<close> of an endpoint calls, and whether it can.\<close>

definition stop_acts :: "'b tcp_obj \<Rightarrow> 'b action list" where
  "stop_acts t = map (\<lambda>s. OnConn s (CallClose False)) (onlines t) @
     (case m_serviceType (t_config t) of
        CLIENT_FLAG \<Rightarrow> []
      | SERVER_FLAG \<Rightarrow> (if m_acceptor t then [AcceptorClose] else []) @
          (case m_current t of None \<Rightarrow> [] | Some c \<Rightarrow> [OnConn c (CallClose False)]))"

definition cannot_stop :: "'b tcp_obj \<Rightarrow> bool" where
  "cannot_stop t \<longleftrightarrow> m_serviceType (t_config t) = SERVER_FLAG \<and> m_current t = None"

lemma stop_net_eq:
  "stop_net n t pool = (if cannot_stop t then Inl NullDeref else Inr (t\<lparr>m_stop := True\<rparr>, pool, stop_acts t))"
  by (cases "m_serviceType (t_config t)")
    (auto simp: stop_net_def tcp_stop_client tcp_stop_server cannot_stop_def stop_acts_def split: option.split)

lemma each_net_stop:
  "each_net stop_net nets pool =
     (if \<exists>t \<in> snd ` set nets. cannot_stop t then Inl NullDeref
      else Inr (map (\<lambda>(n, t). (n, t\<lparr>m_stop := True\<rparr>)) nets, pool, concat (map (stop_acts \<circ> snd) nets)))"
proof (induction nets)
  case Nil
  then show ?case by simp
next
  case (Cons x nets)
  then show ?case by (cases x) (simp add: stop_net_eq comp_def)
qed

text \<open>A small reachable state with one session online, for the examples.\<close>

lemma online_example:
  fixes vt :: "'b block_vt" and p :: "'b net_property"
  assumes c: "np_config p = config_server ''game'' ''0.0.0.0'' 80 0 10 []"
  shows "\<exists>sv t. service_reach vt resolve lo alive (\<lambda>_. ''game'') sv \<and> isRun sv \<and>
    om_find (m_nets sv) ''game'' = Some t \<and> onlines t = [7] \<and> m_nets sv = [(''game'', t)] \<and>
    t_config t = np_config p \<and> m_current t = None \<and> m_call t = []"
proof -
  let ?R = "service_reach vt resolve lo alive (\<lambda>_. ''game'')"
  obtain sv0 :: "'b net_service" where 0: "netService False 2 = Inr sv0" "m_nets sv0 = []"
    using ioObjectPool_ok [of 2 False] by (auto simp: netService_def)
  have "(0 :: size_t) < 2" by simp
  with 0(1) have r0: "?R sv0" by (rule service_reach.Start)
  let ?sv1 = "sv0\<lparr>sv_state := STATE_SERVICE_RUN, m_ioPool := m_ioPool sv0, m_nets := []\<rparr>"
  have "net_manager vt resolve lo alive ReqStart sv0 = Inr (True, ?sv1, [])"
    using 0(2) by (simp add: net_manager_def service_start_def)
  from service_reach.Step [OF r0 service_step.Request [OF this]] have r1: "?R ?sv1" .
  let ?t = "tcpObj p"
  let ?sv2 = "?sv1\<lparr>m_ioPool := m_ioPool sv0, m_nets := [(''game'', ?t)]\<rparr>"
  have "net_manager vt resolve lo alive (ReqAdd (Some p)) ?sv1 = Inr (True, ?sv2, [])"
    using c by (simp add: net_manager_def service_add_def tcp_create_def config_server_def)
  from service_reach.Step [OF r1 service_step.Request [OF this]] have r2: "?R ?sv2" .
  let ?sv3 = "?sv2\<lparr>m_nets := om_put ''game'' (deliver ?t (EventConnect 7)) (m_nets ?sv2)\<rparr>"
  have "service_step vt resolve lo alive (\<lambda>_. ''game'') ?sv2 ?sv3"
    by (rule service_step.Event) simp_all
  from service_reach.Step [OF r2 this] have r3: "?R ?sv3" .
  let ?t4 = "?t\<lparr>t_onlines := [(7, ())]\<rparr>"
  let ?sv4 = "?sv3\<lparr>m_ioPool := addSession 7 (m_ioPool sv0), m_nets := [(''game'', ?t4)]\<rparr>"
  have "net_manager vt resolve lo alive ReqPoll ?sv3 = Inr (True, ?sv4, [ConnectFun ''game'' 7])"
    using c by (simp add: net_manager_def service_poll_def tcp_poll_def run_event_def deliver_def eventConnect_def
        tcp_push_def tcpObj_def t_config_def config_server_def)
  from service_reach.Step [OF r3 service_step.Request [OF this]] have "?R ?sv4" .
  then show ?thesis
    by (intro exI [of _ ?sv4] exI [of _ ?t4]) (simp add: isRun_def onlines_def tcpObj_def t_config_def)
qed

section \<open>Endpoints stay\<close>

lemma each_net_names: "each_net f nets p = Inr (nets', p', acts) \<Longrightarrow> map fst nets' = map fst nets"
  by (induction nets arbitrary: p nets' acts) (auto simp: rbind_eq_Inr)

lemma request_names:
  assumes "net_manager vt resolve lo alive rq sv = Inr (r, sv', acts)"
  shows "fst ` set (m_nets sv) \<subseteq> fst ` set (m_nets sv')"
proof (cases rq)
  case ReqStart
  then show ?thesis
    using assms by (auto simp: net_manager_def service_start_def rbind_eq_Inr Let_def simp flip: set_map dest!: start_nets_same)
next
  case (ReqAdd p)
  then consider "sv' = sv" | n t where "m_nets sv' = om_put n t (m_nets sv)"
    using assms by (auto simp: net_manager_def service_add_def rbind_eq_Inr Let_def split: if_splits)
  then show ?thesis by cases (simp_all add: om_put_keys subset_insertI)
next
  case ReqPoll
  then show ?thesis
    using assms by (auto simp: net_manager_def service_poll_def rbind_eq_Inr simp flip: set_map dest!: each_net_names)
next
  case ReqSetStop
  then show ?thesis
    using assms by (auto simp: net_manager_def setStop_def rbind_eq_Inr Let_def simp flip: set_map dest!: each_net_names)
qed (use assms in \<open>auto simp: net_manager_def service_remove_def service_send_def service_send_name_def
      service_kick_def rbind_eq_Inr split: if_splits option.splits\<close>)

lemma service_step_names:
  assumes "service_step vt resolve lo alive owner sv sv'"
  shows "fst ` set (m_nets sv) \<subseteq> fst ` set (m_nets sv')"
  using assms by cases (auto simp: om_put_keys dest: request_names)

lemma service_steps_names:
  "(service_step vt resolve lo alive owner)\<^sup>*\<^sup>* sv sv' \<Longrightarrow> fst ` set (m_nets sv) \<subseteq> fst ` set (m_nets sv')"
proof (induction rule: rtranclp_induct)
  case base
  show ?case by simp
next
  case (step sv1 sv2)
  from step.IH service_step_names [OF step.hyps(2)] show ?case by (rule subset_trans)
qed

text \<open>
  A name can be added once: after \<open>add\<close> returned \<open>true\<close> in a reachable state the endpoint is
  there, with no session online and not started, every other endpoint is as before, and any
  further \<open>add\<close> of that name returns \<open>false\<close> and changes nothing.
\<close>

lemma add_once:
  assumes "service_reach vt resolve lo alive owner sv"
    and "service_add resolve (Some q) sv = Inr (True, sv', acts)"
    and "m_name (np_config q') = m_name (np_config q)"
  shows "(\<exists>t. om_find (m_nets sv') (m_name (np_config q)) = Some t \<and> onlines t = [] \<and> m_stop t) \<and>
    om_find (m_nets sv) (m_name (np_config q)) = None \<and>
    (\<forall>n. n = m_name (np_config q) \<or> om_find (m_nets sv') n = om_find (m_nets sv) n) \<and>
    service_add resolve (Some q') sv' = Inr (False, sv', [])"
proof -
  let ?n = "m_name (np_config q)"
  have inv: "om_inv (m_nets sv)" using service_inv_reach [OF assms(1)] by (simp add: service_inv_def)
  have none: "om_find (m_nets sv) ?n = None" using assms(2) by (auto simp: service_add_def Let_def split: if_splits)
  then obtain t pool where t: "tcp_create resolve (Some q) (m_ioPool sv) = Inr (Some t, pool, acts)"
      "sv' = sv\<lparr>m_ioPool := pool, m_nets := om_put ?n t (m_nets sv)\<rparr>"
    using assms(2) by (auto simp: service_add_def rbind_eq_Inr deref_def split: option.splits)
  then have "onlines t = [] \<and> m_stop t"
    by (auto simp: tcp_create_def tcpClient_def tcpObj_def rbind_eq_Inr onlines_def
        split: service_flag.splits option.splits)
  then show ?thesis using none t(2) om_find_put [OF inv] assms(3) by (simp add: service_add_def)
qed

end
