(* ===== verification/Connection_Send.thy ===== *)
theory Connection_Send
  imports Connection
begin

text \<open>
  The sending side of a connection.  A contract on the message classes (their buffer can be
  read and replaced) is enough to show that \<open>writeMessage\<close> moves bytes from the queue of
  messages to the socket without losing, repeating or reordering any.  A system of one
  connection, the tasks posted to its \<open>io_service\<close> and the write in flight gives the
  step relation in which this is an invariant of every interleaving.
\<close>

section \<open>The contract of a message that can be sent\<close>

locale block_class =
  fixes vt :: "'b block_vt"
  assumes data_set: "vt_data vt (vt_setData vt b d) = Some d"

interpretation net_class: block_class "netBlock_vt dbg"
  by unfold_locales (simp add: netBlock_vt_def)

interpretation redis2_class: block_class "redisBlock2_vt dbg cast"
  by unfold_locales (simp add: redisBlock2_vt_def)

interpretation redis_class: block_class "redisBlock_vt dbg cast"
  by unfold_locales (simp add: redisBlock_vt_def)

text \<open>A message with a buffer, and the bytes of it that are still to be sent.\<close>

definition sendable :: "'b block_vt \<Rightarrow> 'b \<Rightarrow> bool" where
  "sendable vt p \<longleftrightarrow> (case vt_data vt p of None \<Rightarrow> False | Some d \<Rightarrow> nb_inv d)"

definition block_out :: "'b block_vt \<Rightarrow> 'b \<Rightarrow> bytes" where
  "block_out vt p = (case vt_data vt p of None \<Rightarrow> [] | Some d \<Rightarrow> nb_unread d)"

definition list_out :: "'b block_vt \<Rightarrow> 'b list \<Rightarrow> bytes" where
  "list_out vt ps = concat (map (block_out vt) ps)"

text \<open>Everything the connection still has to send, in order.\<close>

definition conn_out :: "'b block_vt \<Rightarrow> 'b connection \<Rightarrow> bytes" where
  "conn_out vt c = nb_unread (m_bufferSend c) @ list_out vt (m_sendList c)"

definition send_inv :: "'b block_vt \<Rightarrow> 'b connection \<Rightarrow> bool" where
  "send_inv vt c \<longleftrightarrow> nb_inv (m_bufferSend c) \<and> \<not> m_lock (m_bufferSend c) \<and>
     m_maxLen (m_bufferSend c) > 0 \<and> list_all (sendable vt) (m_sendList c)"

lemma list_out_simps [simp]:
  "list_out vt [] = []"
  "list_out vt (p # ps) = block_out vt p @ list_out vt ps"
  "list_out vt (ps @ qs) = list_out vt ps @ list_out vt qs"
  by (simp_all add: list_out_def)

context block_class
begin

lemma sendLoop_ok:
  assumes "nb_inv buf" and "\<not> m_lock buf" and "list_all (sendable vt) ps"
  shows "\<exists>buf' ps'. sendLoop dbg vt buf ps = Inr (buf', ps') \<and> nb_inv buf' \<and> \<not> m_lock buf' \<and>
           m_maxLen buf' = m_maxLen buf \<and> m_readPos buf' = m_readPos buf \<and>
           list_all (sendable vt) ps' \<and>
           nb_unread buf' @ list_out vt ps' = nb_unread buf @ list_out vt ps \<and>
           (ps' \<noteq> [] \<longrightarrow> nb_free buf' = 0)"
  using assms
proof (induction ps arbitrary: buf)
  case Nil
  then show ?case by simp
next
  case (Cons p ps)
  then obtain d where d: "vt_data vt p = Some d" "nb_inv d" "block_out vt p = nb_unread d"
    by (auto simp: sendable_def block_out_def split: option.splits)
  obtain d' buf1 where rb: "readBuffer dbg False d buf = Inr (0 < nb_moved d buf, d', buf1)"
      "nb_inv d'" "nb_inv buf1" "nb_unread d' = drop (nb_moved d buf) (nb_unread d)"
      "nb_content buf1 = nb_content buf @ take (nb_moved d buf) (nb_unread d)"
      "nb_unread buf1 = nb_unread buf @ take (nb_moved d buf) (nb_unread d)"
      "m_maxLen buf1 = m_maxLen buf" "m_readPos buf1 = m_readPos buf" "\<not> m_lock buf1"
    using readBuffer_ok [OF d(2) Cons.prems(1,2), of dbg] by blast
  show ?case
  proof (cases "hasRead d'")
    case True
    then have "nb_moved d buf < length (nb_unread d)"
      using rb(2,4) by (simp only: hasRead_iff) (simp only: drop_eq_Nil not_le)
    then have "nb_moved d buf = nb_free buf" by (auto simp: nb_moved_def min_def simp del: nb_unread_length split: if_splits)
    moreover have "unat (m_writePos buf1) = unat (m_writePos buf) + nb_moved d buf"
      using arg_cong [OF rb(5), of length] rb(3) Cons.prems(1) \<open>nb_moved d buf < length (nb_unread d)\<close>
      by (simp only: nb_content_length length_append length_take min_def) simp
    ultimately have "nb_free buf1 = 0" by (simp add: nb_free_def rb(7))
    moreover have "sendLoop dbg vt buf (p # ps) = Inr (buf1, vt_setData vt p d' # ps)"
      using True by (simp add: d rb(1))
    ultimately show ?thesis
      using rb d Cons.prems(3) by (simp add: sendable_def block_out_def data_set)
  next
    case False
    then have "drop (nb_moved d buf) (nb_unread d) = []"
      using rb(2,4) by (simp only: hasRead_iff) simp
    then have "take (nb_moved d buf) (nb_unread d) = nb_unread d"
      by (simp only: drop_eq_Nil take_all)
    moreover have "sendLoop dbg vt buf (p # ps) = sendLoop dbg vt buf1 ps"
      using False by (simp add: d rb(1))
    ultimately show ?thesis
      using Cons.IH [OF rb(3,9)] Cons.prems(3) d(3) rb(6-8) by auto
  qed
qed

text \<open>
  \<open>writeMessage(n)\<close> after \<open>n\<close> bytes were written: these are dropped, and a new write is
  started exactly if something is left to send; it takes the bytes of the send buffer.
\<close>

lemma writeMessage_ok:
  assumes inv: "send_inv vt c" and on: "m_connect c" "\<not> m_isSend c"
    and n: "unat n \<le> length (nb_unread (m_bufferSend c))"
  shows "\<exists>c'. writeMessage dbg vt c n =
           Inr (c', if m_isSend c' then [AsyncWrite (nb_unread (m_bufferSend c'))] else []) \<and>
           send_inv vt c' \<and> conn_out vt c' = drop (unat n) (conn_out vt c) \<and>
           m_connect c' \<and> (m_isSend c' \<longleftrightarrow> nb_unread (m_bufferSend c') \<noteq> []) \<and>
           (\<not> m_isSend c' \<longrightarrow> m_sendList c' = []) \<and>
           c_session c' = c_session c \<and> m_bufferRecv c' = m_bufferRecv c \<and>
           m_waitMessage c' = m_waitMessage c"
proof -
  let ?b = "m_bufferSend c"
  have I: "nb_inv ?b" "\<not> m_lock ?b" "0 < m_maxLen ?b" "list_all (sendable vt) (m_sendList c)"
    using inv by (simp_all add: send_inv_def)
  note R = readData_ok [OF I(1) n]
  obtain b2 where b2: "clearReadBuffer dbg (?b\<lparr>m_readPos := m_readPos ?b + n\<rparr>) = Inr b2" "nb_inv b2"
      "nb_unread b2 = drop (unat n) (nb_unread ?b)" "m_readPos b2 = 0" "m_maxLen b2 = m_maxLen ?b"
      "\<not> m_lock b2"
    using clearReadBuffer_ok [OF R(2), of dbg] R(4) I(2) by auto
  obtain b3 ps where b3: "sendLoop dbg vt b2 (m_sendList c) = Inr (b3, ps)" "nb_inv b3" "\<not> m_lock b3"
      "m_maxLen b3 = m_maxLen b2" "m_readPos b3 = m_readPos b2" "list_all (sendable vt) ps"
      "nb_unread b3 @ list_out vt ps = nb_unread b2 @ list_out vt (m_sendList c)"
      "ps \<noteq> [] \<longrightarrow> nb_free b3 = 0"
    using sendLoop_ok [OF b2(2,6) I(4), of dbg] by blast
  have full: "ps = []" if "nb_unread b3 = []"
  proof (rule ccontr)
    assume "ps \<noteq> []"
    then have "unat (m_maxLen b3) \<le> unat (m_writePos b3)" using b3(8) by (simp add: nb_free_def)
    moreover have "unat (m_writePos b3) = 0"
      using arg_cong [OF that, of length] b3(2,5) b2(4) by simp
    ultimately show False using I(3) b3(4) b2(5) by (simp add: size_cmp)
  qed
  let ?c = "c\<lparr>m_bufferSend := b3, m_sendList := ps, m_totalSend := m_totalSend c + n\<rparr>"
  let ?c' = "if nb_unread b3 \<noteq> [] then ?c\<lparr>m_isSend := True\<rparr> else ?c"
  have "writeMessage dbg vt c n =
      Inr (?c', if m_isSend ?c' then [AsyncWrite (nb_unread (m_bufferSend ?c'))] else [])"
    using on b3(2) by (simp add: writeMessage_def R(1) b2(1) b3(1) Let_def hasRead_iff)
  moreover have "send_inv vt ?c'" using b3 b2 I by (simp add: send_inv_def)
  moreover have "conn_out vt ?c' = nb_unread b3 @ list_out vt ps" by (simp add: conn_out_def)
  then have "conn_out vt ?c' = drop (unat n) (conn_out vt c)"
    using b3(7) b2(3) n by (simp add: conn_out_def del: nb_unread_length)
  ultimately show ?thesis using full on by (intro exI [of _ ?c']) simp
qed

end

section \<open>A connection and its environment\<close>

text \<open>
  The connection, the tasks posted to its \<open>io_service\<close> (run one after the other by one
  thread), the bytes of the write in flight and, to state properties, the bytes the peer's
  socket accepted, the bytes of all messages given to \<open>send\<close>, whether a write failed, and
  the events reported.
\<close>

record 'b conn_sys =
  s_conn :: "'b connection"
  s_queue :: "io_task list"
  s_flight :: "bytes option"
  s_wire :: bytes
  s_submitted :: bytes
  s_broken :: bool
  s_events :: "'b effect list"

fun absorb :: "'b effect list \<Rightarrow> 'b conn_sys \<Rightarrow> 'b conn_sys" where
  "absorb [] s = s"
| "absorb (IoPost t # es) s = absorb es (s\<lparr>s_queue := s_queue s @ [t]\<rparr>)"
| "absorb (AsyncWrite b # es) s = absorb es (s\<lparr>s_flight := Some b\<rparr>)"
| "absorb (e # es) s = absorb es (s\<lparr>s_events := s_events s @ [e]\<rparr>)"

text \<open>
  The steps: a user thread calls \<open>send\<close> or \<open>close\<close>; the oldest posted task runs; the write
  in flight completes with all its bytes, as \<open>async_write\<close> does without an error, or fails
  after a part of them, after which the socket accepts nothing more; a read completes. These are
  the steps of one opening of a connection: \<open>handlAccept\<close> and \<open>handleConnect\<close>, which bring it up, are
  before the start, and a client that connects again is a matter of whole processes (theory \<open>Node\<close>).
\<close>

inductive conn_step :: "bool \<Rightarrow> 'b block_vt \<Rightarrow> 'b conn_sys \<Rightarrow> 'b conn_sys \<Rightarrow> bool"
  for dbg :: bool and vt :: "'b block_vt" where
  Send: "sendable vt p \<Longrightarrow> conn_send (s_conn s) p = (c, es) \<Longrightarrow>
    conn_step dbg vt s (absorb es (s\<lparr>s_conn := c, s_submitted := s_submitted s @ block_out vt p\<rparr>))"
| Close: "conn_close (s_conn s) er = (c, es) \<Longrightarrow>
    conn_step dbg vt s (absorb es (s\<lparr>s_conn := c\<rparr>))"
| Task_write: "s_queue s = RunWrite n # q \<Longrightarrow> writeMessage dbg vt (s_conn s) n = Inr (c, es) \<Longrightarrow>
    conn_step dbg vt s (absorb es (s\<lparr>s_conn := c, s_queue := q\<rparr>))"
| Task_close: "s_queue s = RunClose er # q \<Longrightarrow> handleClose (s_conn s) er = (c, es) \<Longrightarrow>
    conn_step dbg vt s (absorb es (s\<lparr>s_conn := c, s_queue := q\<rparr>))"
| Write_done: "s_flight s = Some b \<Longrightarrow> \<not> s_broken s \<Longrightarrow>
    handleWrite dbg vt (s_conn s) False (of_nat (length b)) = Inr (c, es) \<Longrightarrow>
    conn_step dbg vt s (absorb es (s\<lparr>s_conn := c, s_flight := None, s_wire := s_wire s @ b\<rparr>))"
| Write_fail: "s_flight s = Some b \<Longrightarrow> (s_broken s \<Longrightarrow> k = 0) \<Longrightarrow>
    handleWrite dbg vt (s_conn s) True (of_nat k) = Inr (c, es) \<Longrightarrow>
    conn_step dbg vt s (absorb es (s\<lparr>s_conn := c, s_flight := None,
      s_wire := s_wire s @ take k b, s_broken := True\<rparr>))"
| Read_some: "handleReadSome dbg vt (s_conn s) er data = Some (Inr (c, es)) \<Longrightarrow>
    conn_step dbg vt s (absorb es (s\<lparr>s_conn := c\<rparr>))"

inductive_cases conn_stepE: "conn_step dbg vt s t"

text \<open>A connection that has just been accepted or connected.\<close>

definition fresh_conn :: "'b connection \<Rightarrow> bool" where
  "fresh_conn c \<longleftrightarrow> nb_inv (m_bufferSend c) \<and> \<not> m_lock (m_bufferSend c) \<and>
     m_maxLen (m_bufferSend c) > 0 \<and> nb_unread (m_bufferSend c) = [] \<and>
     m_sendList c = [] \<and> \<not> m_isSend c \<and> m_connect c"

definition start_sys :: "'b connection \<Rightarrow> 'b conn_sys" where
  "start_sys c = \<lparr>s_conn = c, s_queue = [], s_flight = None, s_wire = [], s_submitted = [],
                  s_broken = False, s_events = []\<rparr>"

inductive conn_reach :: "bool \<Rightarrow> 'b block_vt \<Rightarrow> 'b conn_sys \<Rightarrow> bool"
  for dbg :: bool and vt :: "'b block_vt" where
  Start: "fresh_conn c \<Longrightarrow> conn_reach dbg vt (start_sys c)"
| Step: "conn_reach dbg vt s \<Longrightarrow> conn_step dbg vt s t \<Longrightarrow> conn_reach dbg vt t"

section \<open>The invariant of the sending side\<close>

definition sys_inv :: "'b block_vt \<Rightarrow> 'b conn_sys \<Rightarrow> bool" where
  "sys_inv vt s \<longleftrightarrow>
     send_inv vt (s_conn s) \<and>
     (\<exists>rest. s_submitted s = s_wire s @ rest) \<and>
     (\<not> s_broken s \<and> (m_connect (s_conn s) \<or> s_flight s \<noteq> None) \<longrightarrow>
        s_submitted s = s_wire s @ conn_out vt (s_conn s)) \<and>
     (\<forall>b. s_flight s = Some b \<longrightarrow> b = nb_unread (m_bufferSend (s_conn s))) \<and>
     (s_flight s \<noteq> None \<longleftrightarrow> m_isSend (s_conn s)) \<and>
     (\<forall>n. RunWrite n \<in> set (s_queue s) \<longrightarrow> n = 0) \<and> RunAccept \<notin> set (s_queue s) \<and>
     (\<not> s_broken s \<and> m_connect (s_conn s) \<and>
        (m_sendList (s_conn s) \<noteq> [] \<or> nb_unread (m_bufferSend (s_conn s)) \<noteq> []) \<longrightarrow>
        m_isSend (s_conn s) \<or> RunWrite 0 \<in> set (s_queue s))"

lemma sys_inv_start: "fresh_conn c \<Longrightarrow> sys_inv vt (start_sys c)"
  by (auto simp: sys_inv_def fresh_conn_def start_sys_def send_inv_def conn_out_def)

text \<open>Reading leaves the sending side alone.\<close>

definition same_send :: "'b connection \<Rightarrow> 'b connection \<Rightarrow> bool" where
  "same_send c c' \<longleftrightarrow> m_bufferSend c' = m_bufferSend c \<and> m_sendList c' = m_sendList c \<and>
     m_isSend c' = m_isSend c \<and> m_connect c' = m_connect c \<and> c_session c' = c_session c"

lemma readMessage_same: "readMessage vt c = Inr (p, c') \<Longrightarrow> same_send c c'"
  by (auto simp: readMessage_def rbind_eq_Inr same_send_def split: if_splits)

lemma readLoop_same:
  fixes vt :: "'b block_vt"
  assumes ret: "readLoop vt c es = Some (Inr (c', es'))"
    and es: "\<forall>e \<in> set es. \<exists>m. e = EventPostRecv m"
  shows "same_send c c' \<and> (\<forall>e \<in> set es'. \<exists>m. e = EventPostRecv m)"
proof -
  let ?P = "\<lambda>(vt :: 'b block_vt) (c :: 'b connection) (es :: 'b effect list) (r :: 'b handler). \<forall>c' es'. r = Inr (c', es') \<longrightarrow> (\<forall>e \<in> set es. \<exists>m. e = EventPostRecv m) \<longrightarrow>
      same_send c c' \<and> (\<forall>e \<in> set es'. \<exists>m. e = EventPostRecv m)"
  have "?P vt c es (Inr (c', es'))"
  proof (rule readLoop.raw_induct [where P = ?P, OF _ ret])
    fix loop and vt :: "'b block_vt" and c :: "'b connection" and es :: "'b effect list" and r
    assume IH: "\<And>vt c es r. loop vt c es = Some r \<Longrightarrow> ?P vt c es r"
      and eq: "(if \<not> hasWrite (m_bufferRecv c) then Some (Inr (c, es))
        else case readMessage vt c of Inl e \<Rightarrow> Some (Inl e)
           | Inr (p, c') \<Rightarrow> (case p of None \<Rightarrow> Some (Inr (c', es))
                | Some m \<Rightarrow> loop vt c' (es @ [EventPostRecv m]))) = Some r"
    show "?P vt c es r"
    proof (cases "hasWrite (m_bufferRecv c)")
      case False
      then show ?thesis using eq by (auto simp: same_send_def)
    next
      case True
      show ?thesis
      proof (cases "readMessage vt c")
        case (Inl e)
        then show ?thesis using eq True by auto
      next
        case (Inr t)
        obtain p c1 where t: "t = (p, c1)" by (cases t)
        have s1: "same_send c c1" using Inr t readMessage_same by blast
        show ?thesis
        proof (cases p)
          case None
          then show ?thesis using eq True Inr t s1 by auto
        next
          case (Some m)
          then have "loop vt c1 (es @ [EventPostRecv m]) = Some r" using eq True Inr t by simp
          note rec = IH [OF this]
          show ?thesis
          proof (intro allI impI)
            fix c2 es2
            assume r: "r = Inr (c2, es2)" and e: "\<forall>e \<in> set es. \<exists>m. e = EventPostRecv m"
            have "\<forall>e \<in> set (es @ [EventPostRecv m]). \<exists>m. e = EventPostRecv m" using e by simp
            with rec r have "same_send c1 c2 \<and> (\<forall>e \<in> set es2. \<exists>m. e = EventPostRecv m)" by blast
            then show "same_send c c2 \<and> (\<forall>e \<in> set es2. \<exists>m. e = EventPostRecv m)"
              using s1 by (simp add: same_send_def)
          qed
        qed
      qed
    qed
  qed
  then show ?thesis using es by simp
qed

lemma handleReadSome_same:
  assumes "handleReadSome dbg vt c er data = Some (Inr (c', es))"
  shows "same_send c c' \<and>
    (\<forall>e \<in> set es. (\<exists>m. e = EventPostRecv m) \<or> (\<exists>n. e = AsyncReadSome n) \<or> (\<exists>x. e = IoPost (RunClose x)))"
proof (cases "\<not> m_connect c \<or> er")
  case True
  then show ?thesis
    using assms by (auto simp: handleReadSome_def onError_def conn_close_def same_send_def split: if_splits)
next
  case False
  then obtain bf' es1 where lp: "readLoop vt (c\<lparr>m_bufferRecv := bf',
        m_totalRevc := m_totalRevc c + of_nat (length data)\<rparr>) [] = Some (Inr (c', es1))"
      "es = es1 @ beginRead c'"
    using assms by (auto simp: handleReadSome_def Let_def rbind_eq_Inr split: sum.splits option.splits)
  from readLoop_same [OF lp(1)] lp(2) show ?thesis
    by (auto simp: same_send_def beginRead_def)
qed

text \<open>Effects that do not start a write or post one leave the observed state in place.\<close>

lemma absorb_quiet:
  assumes "\<forall>e \<in> set es. (\<exists>m. e = EventPostRecv m) \<or> (\<exists>n. e = AsyncReadSome n) \<or> (\<exists>x. e = IoPost (RunClose x))"
  shows "s_conn (absorb es s) = s_conn s \<and> s_flight (absorb es s) = s_flight s \<and>
    s_wire (absorb es s) = s_wire s \<and> s_submitted (absorb es s) = s_submitted s \<and>
    s_broken (absorb es s) = s_broken s \<and>
    (\<exists>q. s_queue (absorb es s) = s_queue s @ q \<and> (\<forall>t \<in> set q. \<exists>x. t = RunClose x))"
  using assms
proof (induction es s rule: absorb.induct)
  case (2 t es s)
  then obtain q where "s_queue (absorb es (s\<lparr>s_queue := s_queue s @ [t]\<rparr>)) = (s_queue s @ [t]) @ q"
      "\<forall>t \<in> set q. \<exists>x. t = RunClose x" by auto
  moreover have "\<exists>x. t = RunClose x" using 2 by auto
  ultimately show ?case using 2 by (auto intro!: exI [of _ "t # q"])
qed auto

lemma sys_invD:
  assumes "sys_inv vt s"
  shows "send_inv vt (s_conn s)" and "\<exists>rest. s_submitted s = s_wire s @ rest"
    and "\<not> s_broken s \<Longrightarrow> m_connect (s_conn s) \<or> s_flight s \<noteq> None \<Longrightarrow>
         s_submitted s = s_wire s @ conn_out vt (s_conn s)"
    and "s_flight s = Some b \<Longrightarrow> b = nb_unread (m_bufferSend (s_conn s)) \<and> m_isSend (s_conn s)"
    and "s_flight s = None \<Longrightarrow> \<not> m_isSend (s_conn s)"
    and "RunWrite n \<in> set (s_queue s) \<Longrightarrow> n = 0" and "RunAccept \<notin> set (s_queue s)"
    and "\<not> s_broken s \<Longrightarrow> m_connect (s_conn s) \<Longrightarrow> \<not> m_isSend (s_conn s) \<Longrightarrow>
         RunWrite 0 \<notin> set (s_queue s) \<Longrightarrow>
         m_sendList (s_conn s) = [] \<and> nb_unread (m_bufferSend (s_conn s)) = []"
  using assms unfolding sys_inv_def by blast+

lemma sys_inv_send:
  assumes inv: "sys_inv vt s" and p: "sendable vt p" and c: "conn_send (s_conn s) p = (c, es)"
  shows "sys_inv vt (absorb es (s\<lparr>s_conn := c, s_submitted := s_submitted s @ block_out vt p\<rparr>))"
proof -
  have eq: "c = (s_conn s)\<lparr>m_sendList := m_sendList (s_conn s) @ [p]\<rparr>" "es = [IoPost (RunWrite 0)]"
    using c by (simp_all add: conn_send_def)
  show ?thesis
    using inv p by (auto simp: sys_inv_def eq send_inv_def conn_out_def)
qed

lemma sys_inv_close:
  assumes inv: "sys_inv vt s" and c: "conn_close (s_conn s) er = (c, es)"
  shows "sys_inv vt (absorb es (s\<lparr>s_conn := c\<rparr>))"
proof -
  have eq: "c = s_conn s" "es = [IoPost (RunClose er)]" using c by (simp_all add: conn_close_def)
  show ?thesis using inv by (auto simp: sys_inv_def eq)
qed

lemma sys_inv_task_close:
  assumes inv: "sys_inv vt s" and q: "s_queue s = RunClose er # q"
    and c: "handleClose (s_conn s) er = (c, es)"
  shows "sys_inv vt (absorb es (s\<lparr>s_conn := c, s_queue := q\<rparr>))"
proof (cases "\<not> er \<and> (m_isSend (s_conn s) \<or> m_sendList (s_conn s) \<noteq> [] \<or> hasRead (m_bufferSend (s_conn s)))")
  case True
  then have eq: "c = s_conn s" "es = [IoPost (RunClose er)]"
    using c by (simp_all add: handleClose_def conn_close_def)
  show ?thesis using inv q by (auto simp: sys_inv_def eq)
next
  case False
  then have eq: "c = (s_conn s)\<lparr>m_connect := False\<rparr>"
      "es = [SocketShutdown, SocketClose, EventClose (c_session (s_conn s))]"
    using c by (auto simp: handleClose_def)
  show ?thesis using inv q by (auto simp: sys_inv_def eq send_inv_def conn_out_def)
qed

lemma sys_inv_read:
  assumes inv: "sys_inv vt s" and c: "handleReadSome dbg vt (s_conn s) er data = Some (Inr (c, es))"
  shows "sys_inv vt (absorb es (s\<lparr>s_conn := c\<rparr>))"
proof -
  note H = handleReadSome_same [OF c]
  from absorb_quiet [of es "s\<lparr>s_conn := c\<rparr>"] H obtain q where
    a: "s_conn (absorb es (s\<lparr>s_conn := c\<rparr>)) = c" "s_flight (absorb es (s\<lparr>s_conn := c\<rparr>)) = s_flight s"
      "s_wire (absorb es (s\<lparr>s_conn := c\<rparr>)) = s_wire s"
      "s_submitted (absorb es (s\<lparr>s_conn := c\<rparr>)) = s_submitted s"
      "s_broken (absorb es (s\<lparr>s_conn := c\<rparr>)) = s_broken s"
      "s_queue (absorb es (s\<lparr>s_conn := c\<rparr>)) = s_queue s @ q" "\<forall>t \<in> set q. \<exists>x. t = RunClose x" by auto
  have same: "m_bufferSend c = m_bufferSend (s_conn s)" "m_sendList c = m_sendList (s_conn s)"
    "m_isSend c = m_isSend (s_conn s)" "m_connect c = m_connect (s_conn s)"
    using H by (simp_all add: same_send_def)
  have q: "RunWrite n \<notin> set q" "RunAccept \<notin> set q" for n using a(7) by auto
  show ?thesis
    using inv q unfolding sys_inv_def a(1-6) send_inv_def conn_out_def same by auto
qed

context block_class
begin

text \<open>A write is started, or nothing is left: the state after \<open>writeMessage\<close> ran to its end.\<close>

lemma sys_inv_written:
  assumes "send_inv vt c" and "m_connect c" and "m_isSend c \<longleftrightarrow> nb_unread (m_bufferSend c) \<noteq> []"
    and "\<not> m_isSend c \<longrightarrow> m_sendList c = []"
    and "\<not> s_broken s \<longrightarrow> s_submitted s = s_wire s @ conn_out vt c"
    and "\<exists>rest. s_submitted s = s_wire s @ rest"
    and "\<forall>n. RunWrite n \<in> set (s_queue s) \<longrightarrow> n = 0" and "RunAccept \<notin> set (s_queue s)"
    and "s_flight s = None" and "s_conn s = c"
  shows "sys_inv vt (absorb (if m_isSend c then [AsyncWrite (nb_unread (m_bufferSend c))] else []) s)"
  using assms by (auto simp: sys_inv_def)

lemma sys_inv_task_write:
  assumes inv: "sys_inv vt s" and q: "s_queue s = RunWrite n # q"
    and c: "writeMessage dbg vt (s_conn s) n = Inr (c, es)"
  shows "sys_inv vt (absorb es (s\<lparr>s_conn := c, s_queue := q\<rparr>))"
proof -
  note D = sys_invD [OF inv]
  have n: "n = 0" using D(6) q by simp
  show ?thesis
  proof (cases "m_connect (s_conn s) \<and> \<not> m_isSend (s_conn s)")
    case False
    then have "c = s_conn s" "es = []" using c by (auto simp: writeMessage_def split: if_splits)
    then show ?thesis using inv q False by (auto simp: sys_inv_def)
  next
    case True
    then have fl: "s_flight s = None" using D(4) by (cases "s_flight s") auto
    from writeMessage_ok [OF D(1), of n dbg] True c n
    have W: "es = (if m_isSend c then [AsyncWrite (nb_unread (m_bufferSend c))] else [])"
      "send_inv vt c" "conn_out vt c = conn_out vt (s_conn s)" "m_connect c"
      "m_isSend c \<longleftrightarrow> nb_unread (m_bufferSend c) \<noteq> []" "\<not> m_isSend c \<longrightarrow> m_sendList c = []"
      by auto
    have "\<not> s_broken s \<longrightarrow> s_submitted s = s_wire s @ conn_out vt c"
      using D(3) True W(3) by simp
    then show ?thesis
      unfolding W(1) using W D(2,6,7) q fl by (intro sys_inv_written) simp_all
  qed
qed

lemma sys_inv_write_done:
  assumes inv: "sys_inv vt s" and f: "s_flight s = Some b" and ok: "\<not> s_broken s"
    and c: "handleWrite dbg vt (s_conn s) False (of_nat (length b)) = Inr (c, es)"
  shows "sys_inv vt (absorb es (s\<lparr>s_conn := c, s_flight := None, s_wire := s_wire s @ b\<rparr>))"
proof -
  note D = sys_invD [OF inv]
  let ?c = "(s_conn s)\<lparr>m_isSend := False\<rparr>"
  have b: "b = nb_unread (m_bufferSend (s_conn s))" using D(4) [OF f] by simp
  have sub: "s_submitted s = s_wire s @ conn_out vt (s_conn s)" using D(3) ok f by simp
  have out: "conn_out vt (s_conn s) = b @ drop (length b) (conn_out vt (s_conn s))"
    by (simp add: conn_out_def b del: nb_unread_length)
  show ?thesis
  proof (cases "m_connect (s_conn s)")
    case False
    then have "c = ?c" "es = []" using c by (auto simp: handleWrite_def Let_def)
    then show ?thesis
      using D(1,6,7) False sub out by (auto simp: sys_inv_def send_inv_def)
  next
    case True
    have bi: "nb_inv (m_bufferSend (s_conn s))" using D(1) by (simp add: send_inv_def)
    have "length b \<le> PTRDIFF_MAX" using nb_invD [OF bi] bi by (simp add: b)
    then have n: "unat (of_nat (length b) :: size_t) = length b" by (rule unat_of_nat_size)
    have si: "send_inv vt ?c" using D(1) by (simp add: send_inv_def)
    have "writeMessage dbg vt ?c (of_nat (length b)) = Inr (c, es)"
      using c True by (simp add: handleWrite_def Let_def)
    then have W: "es = (if m_isSend c then [AsyncWrite (nb_unread (m_bufferSend c))] else [])"
      "send_inv vt c" "conn_out vt c = drop (length b) (conn_out vt ?c)" "m_connect c"
      "m_isSend c \<longleftrightarrow> nb_unread (m_bufferSend c) \<noteq> []" "\<not> m_isSend c \<longrightarrow> m_sendList c = []"
      using writeMessage_ok [OF si, of "of_nat (length b)" dbg] True n by (auto simp: b)
    have "conn_out vt ?c = conn_out vt (s_conn s)" by (simp add: conn_out_def)
    then have "s_submitted s = (s_wire s @ b) @ conn_out vt c" using sub out W(3) by simp
    then show ?thesis
      unfolding W(1) using W D(6,7) ok by (intro sys_inv_written) simp_all
  qed
qed

lemma sys_inv_write_fail:
  assumes inv: "sys_inv vt s" and f: "s_flight s = Some b" and k: "s_broken s \<longrightarrow> k = 0"
    and c: "handleWrite dbg vt (s_conn s) True (of_nat k) = Inr (c, es)"
  shows "sys_inv vt (absorb es (s\<lparr>s_conn := c, s_flight := None,
      s_wire := s_wire s @ take k b, s_broken := True\<rparr>))"
proof -
  note D = sys_invD [OF inv]
  have eq: "c = (s_conn s)\<lparr>m_isSend := False\<rparr>" "es = [IoPost (RunClose True)]"
    using c by (simp_all add: handleWrite_def onError_def conn_close_def)
  have b: "b = nb_unread (m_bufferSend (s_conn s))" using D(4) [OF f] by simp
  have "\<exists>rest. s_submitted s = (s_wire s @ take k b) @ rest"
  proof (cases "s_broken s")
    case True
    then show ?thesis using D(2) k by auto
  next
    case False
    then have "s_submitted s = s_wire s @ b @ list_out vt (m_sendList (s_conn s))"
      using D(3) f by (simp add: conn_out_def b)
    then have "s_submitted s = (s_wire s @ take k b) @ drop k b @ list_out vt (m_sendList (s_conn s))"
      by simp
    then show ?thesis by blast
  qed
  then show ?thesis using D(1,6,7) by (auto simp: sys_inv_def eq send_inv_def)
qed

lemma sys_inv_step: "conn_step dbg vt s t \<Longrightarrow> sys_inv vt s \<Longrightarrow> sys_inv vt t"
  by (erule conn_stepE)
    (auto intro: sys_inv_send sys_inv_close sys_inv_task_write sys_inv_task_close
      sys_inv_write_done sys_inv_write_fail sys_inv_read)

lemma sys_inv_reach: "conn_reach dbg vt s \<Longrightarrow> sys_inv vt s"
  by (induction rule: conn_reach.induct) (auto intro: sys_inv_start sys_inv_step)

text \<open>What the peer received is a prefix of what was sent; with nothing pending it is all of it.\<close>

lemma wire_prefix: "conn_reach dbg vt s \<Longrightarrow> \<exists>rest. s_submitted s = s_wire s @ rest"
  using sys_inv_reach sys_invD(2) by blast

lemma wire_complete:
  assumes "conn_reach dbg vt s" and "\<not> s_broken s" and "m_connect (s_conn s)"
    and "s_flight s = None" and "RunWrite 0 \<notin> set (s_queue s)"
  shows "s_wire s = s_submitted s"
proof -
  note I = sys_inv_reach [OF assms(1)]
  have "\<not> m_isSend (s_conn s)" using sys_invD(5) [OF I assms(4)] .
  then have "conn_out vt (s_conn s) = []"
    using sys_invD(8) [OF I assms(2,3) _ assms(5)] by (simp add: conn_out_def)
  then show ?thesis using sys_invD(3) [OF I assms(2)] assms(3) by simp
qed

text \<open>A close without an error ends the connection only when everything was sent.\<close>

lemma close_flushes:
  assumes "conn_reach dbg vt s" and "\<not> s_broken s" and "m_connect (s_conn s)"
    and "handleClose (s_conn s) False = (c, es)" and "\<not> m_connect c"
  shows "s_wire s = s_submitted s"
proof -
  note I = sys_inv_reach [OF assms(1)]
  have bi: "nb_inv (m_bufferSend (s_conn s))" using sys_invD(1) [OF I] by (simp add: send_inv_def)
  have "m_sendList (s_conn s) = []" "\<not> hasRead (m_bufferSend (s_conn s))"
    using assms(3-5) by (auto simp: handleClose_def conn_close_def split: if_splits)
  then have "conn_out vt (s_conn s) = []" using bi by (simp add: conn_out_def hasRead_iff)
  then show ?thesis using sys_invD(3) [OF I assms(2)] assms(3) by simp
qed

end

end
