(* ===== verification/Connection_Recv.thy ===== *)
theory Connection_Recv
  imports Connection_Send
begin

text \<open>
  The receiving side of a connection.  The contract \<open>stream_class\<close> says what \<open>recv\<close> of a
  message class does to the bytes of the stream; under it \<open>handleReadSome\<close> reports exactly
  the messages of the stream, in order, however the network cut it, and its loop ends.
  The default message and the Redis message meet the contract.
\<close>

section \<open>The contract of a message class that is received\<close>

text \<open>
  \<open>repr b p\<close>: a waiting message that took the bytes \<open>p\<close>; \<open>finished b m\<close>: a message that is
  done and carries \<open>m\<close>; \<open>enc m\<close>: the bytes of \<open>m\<close> on the wire; \<open>valid m\<close>: the class can
  receive \<open>m\<close>.
\<close>

locale stream_class = block_class vt for vt :: "'b block_vt" +
  fixes repr :: "'b \<Rightarrow> bytes \<Rightarrow> bool"
    and finished :: "'b \<Rightarrow> 'm \<Rightarrow> bool"
    and enc :: "'m \<Rightarrow> bytes"
    and valid :: "'m \<Rightarrow> bool"
  assumes make: "\<exists>b. vt_make vt s 0 = Inr b \<and> repr b []"
    and waiting: "repr b p \<Longrightarrow> valid m \<Longrightarrow> p \<noteq> enc m @ rest"
    and complete: "repr b p \<Longrightarrow> nb_inv bf \<Longrightarrow> m_readPos bf = 0 \<Longrightarrow> nb_unread bf \<noteq> [] \<Longrightarrow> valid m \<Longrightarrow>
      p @ nb_unread bf = enc m @ rest \<Longrightarrow>
      \<exists>x b' bf'. vt_recv vt b (Some bf) = Inr (x, b', Some bf') \<and> vt_bodyDone vt b' \<and> finished b' m \<and>
        nb_inv bf' \<and> m_maxLen bf' = m_maxLen bf \<and> m_readPos bf' = 0 \<and> nb_unread bf' = rest"
    and partial: "repr b p \<Longrightarrow> nb_inv bf \<Longrightarrow> m_readPos bf = 0 \<Longrightarrow> nb_unread bf \<noteq> [] \<Longrightarrow> valid m \<Longrightarrow>
      p @ nb_unread bf @ later = enc m \<Longrightarrow> later \<noteq> [] \<Longrightarrow>
      \<exists>x b' bf' p'. vt_recv vt b (Some bf) = Inr (x, b', Some bf') \<and> \<not> vt_bodyDone vt b' \<and>
        repr b' p' \<and> p @ nb_unread bf = p' @ nb_unread bf' \<and>
        nb_inv bf' \<and> m_maxLen bf' = m_maxLen bf \<and> m_readPos bf' = 0"

text \<open>
  The receiving side of a connection that holds the bytes \<open>s\<close> of the stream: in the waiting
  message, if there is one, and in the receive buffer.
\<close>

definition recv_holds ::
    "('b \<Rightarrow> bytes \<Rightarrow> bool) \<Rightarrow> 'b connection \<Rightarrow> bytes \<Rightarrow> bool" where
  "recv_holds repr c s \<longleftrightarrow> nb_inv (m_bufferRecv c) \<and> m_readPos (m_bufferRecv c) = 0 \<and>
     (case m_waitMessage c of
        None \<Rightarrow> s = nb_unread (m_bufferRecv c)
      | Some w \<Rightarrow> \<exists>p. repr w p \<and> s = p @ nb_unread (m_bufferRecv c))"

text \<open>\<open>part\<close> is a proper part of a valid message: what is left after the whole ones.\<close>

definition proper_part :: "('m \<Rightarrow> bytes) \<Rightarrow> ('m \<Rightarrow> bool) \<Rightarrow> bytes \<Rightarrow> bool" where
  "proper_part enc valid part \<longleftrightarrow> (\<exists>m later. valid m \<and> part @ later = enc m \<and> later \<noteq> [])"

lemma fresh_holds:
  assumes "nb_inv (m_bufferRecv c)" and "nb_content (m_bufferRecv c) = []" and "m_waitMessage c = None"
  shows "recv_holds repr c [] \<and> nb_free (m_bufferRecv c) = unat (m_maxLen (m_bufferRecv c))"
proof -
  have w: "m_writePos (m_bufferRecv c) = 0"
    using assms(1,2) nb_content_length [of "m_bufferRecv c"] by (simp add: size_cmp)
  then have "m_readPos (m_bufferRecv c) = 0" using nb_invD [OF assms(1)] by (simp add: size_cmp)
  then show ?thesis using assms w by (simp add: recv_holds_def nb_unread_def nb_free_def)
qed

lemma hasWrite_unread: "nb_inv b \<Longrightarrow> m_readPos b = 0 \<Longrightarrow> hasWrite b \<longleftrightarrow> nb_unread b \<noteq> []"
  by (simp add: hasWrite_iff nb_unread_def)

context stream_class
begin

lemma recv_holds_wait:
  assumes "recv_holds repr c s"
  obtains w p where
    "(case m_waitMessage c of None \<Rightarrow> vt_make vt (c_session c) 0 | Some w \<Rightarrow> Inr w) = Inr w"
    "repr w p" "s = p @ nb_unread (m_bufferRecv c)"
proof (cases "m_waitMessage c")
  case None
  then show thesis using assms make [of "c_session c"] that by (auto simp: recv_holds_def)
next
  case (Some w)
  then show thesis using assms that by (auto simp: recv_holds_def)
qed

lemma readMessage_complete:
  assumes h: "recv_holds repr c (enc m @ rest)" and w: "hasWrite (m_bufferRecv c)" and m: "valid m"
  shows "\<exists>b c'. readMessage vt c = Inr (Some b, c') \<and> finished b m \<and> recv_holds repr c' rest \<and>
           m_waitMessage c' = None \<and> same_send c c' \<and> c_session c' = c_session c \<and>
           m_maxLen (m_bufferRecv c') = m_maxLen (m_bufferRecv c) \<and> m_totalRevc c' = m_totalRevc c"
proof -
  obtain wt p where wt: "(case m_waitMessage c of None \<Rightarrow> vt_make vt (c_session c) 0 | Some w \<Rightarrow> Inr w) = Inr wt"
      "repr wt p" "enc m @ rest = p @ nb_unread (m_bufferRecv c)"
    using recv_holds_wait [OF h] by blast
  have bf: "nb_inv (m_bufferRecv c)" "m_readPos (m_bufferRecv c) = 0" using h by (simp_all add: recv_holds_def)
  have "nb_unread (m_bufferRecv c) \<noteq> []" using w hasWrite_unread [OF bf] by simp
  from complete [OF wt(2) bf this m wt(3) [symmetric]] obtain x b' bf' where
    r: "vt_recv vt wt (Some (m_bufferRecv c)) = Inr (x, b', Some bf')" "vt_bodyDone vt b'" "finished b' m"
      "nb_inv bf'" "m_maxLen bf' = m_maxLen (m_bufferRecv c)" "m_readPos bf' = 0" "nb_unread bf' = rest" by blast
  then show ?thesis
    by (simp add: readMessage_def wt(1) recv_holds_def same_send_def)
qed

lemma readMessage_partial:
  assumes h: "recv_holds repr c part" and w: "hasWrite (m_bufferRecv c)" and m: "proper_part enc valid part"
  shows "\<exists>c'. readMessage vt c = Inr (None, c') \<and> recv_holds repr c' part \<and>
           same_send c c' \<and> c_session c' = c_session c \<and>
           m_maxLen (m_bufferRecv c') = m_maxLen (m_bufferRecv c) \<and> m_totalRevc c' = m_totalRevc c"
proof -
  obtain wt p where wt: "(case m_waitMessage c of None \<Rightarrow> vt_make vt (c_session c) 0 | Some w \<Rightarrow> Inr w) = Inr wt"
      "repr wt p" "part = p @ nb_unread (m_bufferRecv c)"
    using recv_holds_wait [OF h] by blast
  obtain m later where ml: "valid m" "p @ nb_unread (m_bufferRecv c) @ later = enc m" "later \<noteq> []"
    using m wt(3) by (auto simp: proper_part_def)
  have bf: "nb_inv (m_bufferRecv c)" "m_readPos (m_bufferRecv c) = 0" using h by (simp_all add: recv_holds_def)
  have "nb_unread (m_bufferRecv c) \<noteq> []" using w hasWrite_unread [OF bf] by simp
  from partial [OF wt(2) bf this ml] obtain x b' bf' p' where
    r: "vt_recv vt wt (Some (m_bufferRecv c)) = Inr (x, b', Some bf')" "\<not> vt_bodyDone vt b'" "repr b' p'"
      "p @ nb_unread (m_bufferRecv c) = p' @ nb_unread bf'"
      "nb_inv bf'" "m_maxLen bf' = m_maxLen (m_bufferRecv c)" "m_readPos bf' = 0" by blast
  then show ?thesis
    using wt(3) by (auto simp: readMessage_def wt(1) recv_holds_def same_send_def)
qed

text \<open>The loop ends and reports the whole messages, in order; the rest is kept.\<close>

lemma readLoop_ok:
  assumes "recv_holds repr c (concat (map enc ms) @ part)" and "\<forall>m \<in> set ms. valid m"
    and "proper_part enc valid part"
  shows "\<exists>c' bs. readLoop vt c es = Some (Inr (c', es @ map EventPostRecv bs)) \<and>
           list_all2 finished bs ms \<and> recv_holds repr c' part \<and> same_send c c' \<and>
           c_session c' = c_session c \<and>
           m_maxLen (m_bufferRecv c') = m_maxLen (m_bufferRecv c) \<and> m_totalRevc c' = m_totalRevc c"
  using assms
proof (induction ms arbitrary: c es)
  case Nil
  show ?case
  proof (cases "hasWrite (m_bufferRecv c)")
    case False
    then show ?thesis using Nil by (subst readLoop.simps) (auto simp: same_send_def)
  next
    case True
    have "recv_holds repr c part" using Nil.prems(1) by simp
    from readMessage_partial [OF this True Nil.prems(3)] show ?thesis
      using True by (subst readLoop.simps) auto
  qed
next
  case (Cons m ms)
  have h: "recv_holds repr c (enc m @ concat (map enc ms) @ part)" using Cons.prems(1) by simp
  have m: "valid m" using Cons.prems(2) by simp
  have w: "hasWrite (m_bufferRecv c)"
  proof (rule ccontr)
    assume n: "\<not> hasWrite (m_bufferRecv c)"
    obtain wt p where wt: "repr wt p" "enc m @ concat (map enc ms) @ part = p @ nb_unread (m_bufferRecv c)"
      using recv_holds_wait [OF h] by blast
    have "nb_unread (m_bufferRecv c) = []" using n h by (simp add: recv_holds_def hasWrite_unread)
    then show False using waiting [OF wt(1) m, of "concat (map enc ms) @ part"] wt(2) by simp
  qed
  from readMessage_complete [OF h w m] obtain b c1 where
    c1: "readMessage vt c = Inr (Some b, c1)" "finished b m" "recv_holds repr c1 (concat (map enc ms) @ part)"
      "same_send c c1" "c_session c1 = c_session c" "m_maxLen (m_bufferRecv c1) = m_maxLen (m_bufferRecv c)"
      "m_totalRevc c1 = m_totalRevc c" by blast
  have "\<forall>m \<in> set ms. valid m" using Cons.prems(2) by simp
  from Cons.IH [OF c1(3) this Cons.prems(3), of "es @ [EventPostRecv b]"] obtain c2 bs where
    c2: "readLoop vt c1 (es @ [EventPostRecv b]) =
        Some (Inr (c2, (es @ [EventPostRecv b]) @ map EventPostRecv bs))"
      "list_all2 finished bs ms" "recv_holds repr c2 part" "same_send c1 c2" "c_session c2 = c_session c1"
      "m_maxLen (m_bufferRecv c2) = m_maxLen (m_bufferRecv c1)" "m_totalRevc c2 = m_totalRevc c1" by blast
  have "readLoop vt c es = readLoop vt c1 (es @ [EventPostRecv b])"
    using w c1(1) by (subst readLoop.simps) simp
  then show ?case
    using c1 c2 by (intro exI [of _ c2] exI [of _ "b # bs"]) (simp add: same_send_def)
qed

end

text \<open>The bytes the network delivered are appended to what the receive buffer holds.\<close>

lemma fill_buffer_ok:
  assumes inv: "nb_inv bf" and n: "length data \<le> nb_free bf"
  shows "\<exists>bf'. rbind (memcpy (m_buffer bf) (unat (nb_length bf)) data 0 (length data)) (\<lambda>m.
             writeData dbg (bf\<lparr>m_buffer := m\<rparr>) (of_nat (length data))) = Inr (Some (m_writePos bf), bf') \<and>
           nb_inv bf' \<and> nb_unread bf' = nb_unread bf @ data \<and> m_readPos bf' = m_readPos bf \<and>
           m_maxLen bf' = m_maxLen bf"
proof -
  note D = nb_invD [OF inv]
  let ?w = "unat (m_writePos bf)" and ?n = "of_nat (length data) :: size_t"
  let ?m = "take ?w (m_buffer bf) @ data @ drop (?w + length data) (m_buffer bf)"
  have fit: "?w + length data \<le> unat (m_maxLen bf)" using D n by (simp add: nb_free_def)
  have u: "unat ?n = length data" using fit D(4) by (intro unat_of_nat_size) simp
  have cp: "memcpy (m_buffer bf) (unat (nb_length bf)) data 0 (length data) = Inr ?m"
    using fit D by (simp add: memcpy_def nb_length_def)
  have ln: "length ?m = length (m_buffer bf)" using fit D by simp
  have inv': "nb_inv (bf\<lparr>m_buffer := ?m\<rparr>)" using D ln by (intro nb_invI) simp_all
  have "unat ?n \<le> nb_free (bf\<lparr>m_buffer := ?m\<rparr>)" using n u by (simp add: nb_free_def)
  note W = writeData_ok [OF inv' this]
  have wu: "unat (m_writePos bf + ?n) = ?w + length data" using W(2) u by simp
  have pre: "take (unat (m_writePos bf + ?n)) ?m = nb_content bf @ data"
    using D by (simp add: wu nb_content_def)
  note A = nb_append_inv [OF inv fit ln wu pre]
  show ?thesis using W(1) A by (simp add: cp)
qed

text \<open>A completed read puts the bytes into the receive buffer and runs the loop.\<close>

lemma handleReadSome_loop:
  assumes h: "recv_holds repr c s" and on: "m_connect c" and room: "length data \<le> nb_free (m_bufferRecv c)"
  shows "\<exists>c1. handleReadSome dbg vt c False data =
      (case readLoop vt c1 [] of None \<Rightarrow> None
       | Some r \<Rightarrow> Some (rbind r (\<lambda>(c', acts). Inr (c', acts @ beginRead c')))) \<and>
    recv_holds repr c1 (s @ data) \<and> same_send c c1 \<and> c_session c1 = c_session c \<and>
    m_maxLen (m_bufferRecv c1) = m_maxLen (m_bufferRecv c)"
proof -
  have inv: "nb_inv (m_bufferRecv c)" "m_readPos (m_bufferRecv c) = 0"
    using h by (simp_all add: recv_holds_def)
  obtain bf' where bf': "rbind (memcpy (m_buffer (m_bufferRecv c)) (unat (nb_length (m_bufferRecv c))) data 0 (length data))
        (\<lambda>m. writeData dbg ((m_bufferRecv c)\<lparr>m_buffer := m\<rparr>) (of_nat (length data))) =
      Inr (Some (m_writePos (m_bufferRecv c)), bf')" "nb_inv bf'"
      "nb_unread bf' = nb_unread (m_bufferRecv c) @ data" "m_readPos bf' = 0"
      "m_maxLen bf' = m_maxLen (m_bufferRecv c)"
    using fill_buffer_ok [OF inv(1) room, of dbg] inv(2) by auto
  let ?c = "c\<lparr>m_bufferRecv := bf', m_totalRevc := m_totalRevc c + of_nat (length data)\<rparr>"
  have "recv_holds repr ?c (s @ data)"
    using h bf' by (auto simp: recv_holds_def split: option.splits)
  then show ?thesis
    using on bf'(5) by (intro exI [of _ ?c]) (simp add: handleReadSome_def Let_def bf'(1) same_send_def)
qed

context stream_class
begin

text \<open>
  One completed read: with the new bytes the connection holds whole messages and a proper
  part; the messages are posted in order, the part is kept, and the next read is started.
\<close>

lemma handleReadSome_ok:
  assumes h: "recv_holds repr c s" and on: "m_connect c"
    and room: "length data \<le> nb_free (m_bufferRecv c)"
    and str: "s @ data = concat (map enc ms) @ part" and ms: "\<forall>m \<in> set ms. valid m"
    and part: "proper_part enc valid part"
  shows "\<exists>c' bs. handleReadSome dbg vt c False data =
             Some (Inr (c', map EventPostRecv bs @ beginRead c')) \<and>
           list_all2 finished bs ms \<and> recv_holds repr c' part \<and> same_send c c' \<and>
           c_session c' = c_session c \<and>
           m_maxLen (m_bufferRecv c') = m_maxLen (m_bufferRecv c)"
proof -
  obtain c1 where c1: "handleReadSome dbg vt c False data =
      (case readLoop vt c1 [] of None \<Rightarrow> None
       | Some r \<Rightarrow> Some (rbind r (\<lambda>(c', acts). Inr (c', acts @ beginRead c'))))"
    "recv_holds repr c1 (s @ data)" "same_send c c1" "c_session c1 = c_session c"
    "m_maxLen (m_bufferRecv c1) = m_maxLen (m_bufferRecv c)"
    using handleReadSome_loop [OF h on room, of dbg vt] by blast
  have "recv_holds repr c1 (concat (map enc ms) @ part)" using c1(2) str by simp
  from readLoop_ok [OF this ms part, of "[]"] obtain c' bs where
    lp: "readLoop vt c1 [] = Some (Inr (c', map EventPostRecv bs))" "list_all2 finished bs ms"
      "recv_holds repr c' part" "same_send c1 c'" "c_session c' = c_session c1"
      "m_maxLen (m_bufferRecv c') = m_maxLen (m_bufferRecv c1)" by auto
  show ?thesis
    using lp c1 by (intro exI [of _ c'] exI [of _ bs]) (simp add: same_send_def)
qed

end

section \<open>A stream in any number of reads\<close>

text \<open>The messages reported by a list of effects.\<close>

fun posted :: "'b effect list \<Rightarrow> 'b list" where
  "posted [] = []"
| "posted (EventPostRecv m # es) = m # posted es"
| "posted (_ # es) = posted es"

text \<open>
  The network holds the bytes \<open>net\<close>; each read transfers as many of them as \<open>ks\<close> says, but
  no more than the connection asked for.  The result is what the network still holds, the
  connection, and all effects.
\<close>

fun recvRun :: "bool \<Rightarrow> 'b block_vt \<Rightarrow> 'b connection \<Rightarrow> bytes \<Rightarrow> nat list \<Rightarrow>
    (bytes \<times> 'b connection \<times> 'b effect list) res option" where
  "recvRun dbg vt c net [] = Some (Inr (net, c, []))"
| "recvRun dbg vt c net (k # ks) =
     (let n = min k (unat (maxLength (m_bufferRecv c) - nb_length (m_bufferRecv c))) in
      case handleReadSome dbg vt c False (take n net) of
        None \<Rightarrow> None
      | Some (Inl e) \<Rightarrow> Some (Inl e)
      | Some (Inr (c1, es1)) \<Rightarrow>
          (case recvRun dbg vt c1 (drop n net) ks of
             None \<Rightarrow> None
           | Some r \<Rightarrow> Some (rbind r (\<lambda>(net', c2, es2). Inr (net', c2, es1 @ es2)))))"

lemma posted_append [simp]: "posted (es @ fs) = posted es @ posted fs"
  by (induction es rule: posted.induct) simp_all

lemma posted_map [simp]: "posted (map EventPostRecv bs) = bs"
  by (induction bs) simp_all

lemma posted_beginRead [simp]: "posted (beginRead c) = []"
  by (simp add: beginRead_def)

lemma read_room: "nb_inv b \<Longrightarrow> unat (maxLength b - nb_length b) = nb_free b"
  using nb_invD [of b] by (simp add: nb_free_def maxLength_def nb_length_def unat_minus_size size_cmp)

text \<open>Any cut of a stream of messages is a cut between messages and inside one of them.\<close>

lemma stream_split:
  assumes "a @ b = concat (map enc ms) @ part" and "proper_part enc valid part"
    and "\<forall>m \<in> set ms. valid m"
  shows "\<exists>ms1 ms2 part1. ms = ms1 @ ms2 \<and> a = concat (map enc ms1) @ part1 \<and>
           part1 @ b = concat (map enc ms2) @ part \<and> proper_part enc valid part1 \<and> (b = [] \<longrightarrow> ms2 = [])"
  using assms
proof (induction ms arbitrary: a)
  case Nil
  then obtain m later where "valid m" "a @ (b @ later) = enc m" "b @ later \<noteq> []"
    by (auto simp: proper_part_def)
  then have "proper_part enc valid a" unfolding proper_part_def by blast
  then show ?case using Nil.prems(1)
    by (intro exI [of _ "[]"] exI [of _ a]) simp
next
  case (Cons m ms)
  have "a @ b = enc m @ concat (map enc ms) @ part" using Cons.prems(1) by simp
  then obtain us where us: "a = enc m @ us \<and> us @ b = concat (map enc ms) @ part \<or>
      a @ us = enc m \<and> b = us @ concat (map enc ms) @ part"
    unfolding append_eq_append_conv2 by blast
  show ?case
  proof (cases "\<exists>us. a = enc m @ us \<and> us @ b = concat (map enc ms) @ part")
    case True
    then obtain us where a: "a = enc m @ us" "us @ b = concat (map enc ms) @ part" by blast
    from Cons.IH [OF a(2) Cons.prems(2)] Cons.prems(3) obtain ms1 ms2 part1 where
      s: "ms = ms1 @ ms2" "us = concat (map enc ms1) @ part1"
      "part1 @ b = concat (map enc ms2) @ part" "proper_part enc valid part1" "b = [] \<longrightarrow> ms2 = []"
      by auto
    then show ?thesis using a(1)
      by (intro exI [of _ "m # ms1"] exI [of _ ms2] exI [of _ part1]) simp
  next
    case False
    then have u: "a @ us = enc m" "b = us @ concat (map enc ms) @ part" using us by blast+
    have "us \<noteq> []" using False u by auto
    then have "proper_part enc valid a"
      unfolding proper_part_def using u(1) Cons.prems(3) by (intro exI [of _ m] exI [of _ us]) simp
    then show ?thesis using Cons.prems(1) u(2) \<open>us \<noteq> []\<close>
      by (intro exI [of _ "[]"] exI [of _ "m # ms"] exI [of _ a]) simp
  qed
qed

context stream_class
begin

lemma enc_nonempty: "valid m \<Longrightarrow> enc m \<noteq> []"
  using make [of 0] waiting [of _ "[]" m "[]"] by auto

lemma recvRun_holds:
  assumes "recv_holds repr c s" and "m_connect c" and "s @ net = concat (map enc ms) @ part"
    and "\<forall>m \<in> set ms. valid m" and "proper_part enc valid part" and "net = [] \<longrightarrow> ms = []"
  shows "\<exists>net' c' es ms1 ms2 part1. recvRun dbg vt c net ks = Some (Inr (net', c', es)) \<and>
           ms = ms1 @ ms2 \<and> list_all2 finished (posted es) ms1 \<and> recv_holds repr c' part1 \<and>
           part1 @ net' = concat (map enc ms2) @ part \<and> (net' = [] \<longrightarrow> ms2 = []) \<and> same_send c c'"
  using assms
proof (induction ks arbitrary: c s net ms)
  case Nil
  then show ?case
    by (intro exI [of _ net] exI [of _ c] exI [of _ "[]"] exI [of _ ms] exI [of _ s])
      (simp add: same_send_def)
next
  case (Cons k ks)
  let ?n = "min k (unat (maxLength (m_bufferRecv c) - nb_length (m_bufferRecv c)))"
  have inv: "nb_inv (m_bufferRecv c)" using Cons.prems(1) by (simp add: recv_holds_def)
  have room: "length (take ?n net) \<le> nb_free (m_bufferRecv c)"
    by (simp add: read_room [OF inv])
  have "(s @ take ?n net) @ drop ?n net = concat (map enc ms) @ part" using Cons.prems(3) by simp
  from stream_split [OF this Cons.prems(5,4)] obtain ma mb pa where
    sp: "ms = ma @ mb" "s @ take ?n net = concat (map enc ma) @ pa"
    "pa @ drop ?n net = concat (map enc mb) @ part" "proper_part enc valid pa"
    "drop ?n net = [] \<longrightarrow> mb = []" by blast
  have va: "\<forall>m \<in> set ma. valid m" "\<forall>m \<in> set mb. valid m" using sp(1) Cons.prems(4) by simp_all
  from handleReadSome_ok [OF Cons.prems(1,2) room sp(2) va(1) sp(4), of dbg] obtain c1 bs where
    h: "handleReadSome dbg vt c False (take ?n net) = Some (Inr (c1, map EventPostRecv bs @ beginRead c1))"
    "list_all2 finished bs ma" "recv_holds repr c1 pa" "same_send c c1" by blast
  have "m_connect c1" using h(4) Cons.prems(2) by (simp add: same_send_def)
  from Cons.IH [OF h(3) this sp(3) va(2) Cons.prems(5) sp(5)] obtain net' c' es ms1 ms2 part1 where
    r: "recvRun dbg vt c1 (drop ?n net) ks = Some (Inr (net', c', es))" "mb = ms1 @ ms2"
    "list_all2 finished (posted es) ms1" "recv_holds repr c' part1"
    "part1 @ net' = concat (map enc ms2) @ part" "net' = [] \<longrightarrow> ms2 = []" "same_send c1 c'" by blast
  have "recvRun dbg vt c net (k # ks) = Some (Inr (net', c', map EventPostRecv bs @ beginRead c1 @ es))"
    using h(1) r(1) by (simp add: Let_def)
  moreover have "list_all2 finished (posted (map EventPostRecv bs @ beginRead c1 @ es)) (ma @ ms1)"
    using h(2) r(3) by (simp add: list_all2_appendI)
  moreover have "ms = (ma @ ms1) @ ms2" "same_send c c'" using sp(1) r(2,7) h(4) by (simp_all add: same_send_def)
  ultimately show ?case using r(4-6)
    by (intro exI [of _ net'] exI [of _ c'] exI [of _ "map EventPostRecv bs @ beginRead c1 @ es"]
        exI [of _ "ma @ ms1"] exI [of _ ms2] exI [of _ part1]) simp
qed

text \<open>
  From a fresh connection: exactly the whole messages of what was transferred are posted, in
  order; once everything is transferred, all of them.
\<close>

lemma recvRun_ok:
  assumes "m_connect c" and "nb_inv (m_bufferRecv c)" and "nb_content (m_bufferRecv c) = []"
    and "m_waitMessage c = None"
    and "net = concat (map enc ms) @ part" and ms: "\<forall>m \<in> set ms. valid m" and "proper_part enc valid part"
  shows "\<exists>net' c' es ms1 ms2 part1. recvRun dbg vt c net ks = Some (Inr (net', c', es)) \<and>
           ms = ms1 @ ms2 \<and> list_all2 finished (posted es) ms1 \<and> recv_holds repr c' part1 \<and>
           part1 @ net' = concat (map enc ms2) @ part \<and> (net' = [] \<longrightarrow> ms2 = []) \<and> same_send c c'"
proof -
  have h: "recv_holds repr c []" using fresh_holds [OF assms(2-4)] by blast
  have n: "net = [] \<longrightarrow> ms = []" using assms(5) ms enc_nonempty by (cases ms) auto
  have s: "[] @ net = concat (map enc ms) @ part" using assms(5) by simp
  show ?thesis by (rule recvRun_holds [OF h assms(1) s ms assms(7) n])
qed

end

section \<open>The default message\<close>

text \<open>A message of the default class: any header that announces the body's length, and the body.\<close>

definition net_enc :: "head \<times> bytes \<Rightarrow> bytes" where
  "net_enc m = head_bytes (fst m) @ snd m"

definition net_valid :: "head \<times> bytes \<Rightarrow> bool" where
  "net_valid m \<longleftrightarrow> unat (h_len (fst m)) = 12 + length (snd m)"

definition net_finished :: "net_block \<Rightarrow> head \<times> bytes \<Rightarrow> bool" where
  "net_finished b m \<longleftrightarrow> nblk_done b (snd m)"

lemma net_enc_frame:
  assumes "net_valid m"
  shows "frame_total (net_enc m @ s) = 12 + length (snd m)" "frame_ready (net_enc m @ s)"
    "\<not> malformed (net_enc m @ s)" "frame_body (net_enc m @ s) = snd m"
    "drop (12 + length (snd m)) (net_enc m @ s) = s" "length (net_enc m) = 12 + length (snd m)"
  using assms by (simp_all add: net_valid_def net_enc_def frame_ready_def malformed_def frame_body_def)

lemma net_enc_part:
  assumes "net_valid m" and "s @ later = net_enc m" and "later \<noteq> []"
  shows "\<not> frame_ready s" "\<not> malformed s"
proof -
  have len: "length s < length (net_enc m)"
    using assms(3) by (simp add: assms(2) [symmetric])
  have "frame_total s = 12 + length (snd m)" if "12 \<le> length s"
    using frame_total_append [OF that, of later] net_enc_frame(1) [OF assms(1), of "[]"] by (simp add: assms(2))
  then show "\<not> frame_ready s" "\<not> malformed s"
    using len net_enc_frame(6) [OF assms(1)] by (auto simp: frame_ready_def malformed_def)
qed

interpretation net_stream: stream_class "netBlock_vt False" nblk_repr net_finished net_enc net_valid
proof unfold_locales
  fix s
  show "\<exists>b. vt_make (netBlock_vt False) s 0 = Inr b \<and> nblk_repr b []"
    by (simp add: netBlock_vt_def sMakeDefaultBlock_def netBlock_zero netBlock_nosize_eq nblk_repr_def)
next
  fix b p m rest
  assume r: "nblk_repr b p" and m: "net_valid m"
  show "p \<noteq> net_enc m @ rest"
  proof
    assume eq: "p = net_enc m @ rest"
    then have "12 \<le> length p" using net_enc_frame(6) [OF m] by simp
    then have "length p < frame_total p" using r by (auto simp: nblk_repr_def)
    then show False using eq net_enc_frame(1,6) [OF m] by simp
  qed
next
  fix b p bf m rest
  assume r: "nblk_repr b p" and bf: "nb_inv bf" "m_readPos bf = 0" and m: "net_valid m"
    and eq: "p @ nb_unread bf = net_enc m @ rest"
  note F = net_enc_frame [OF m]
  from netBlock_recv_ok [OF r bf eq [symmetric] F(3), of False] show
    "\<exists>x b' bf'. vt_recv (netBlock_vt False) b (Some bf) = Inr (x, b', Some bf') \<and>
       vt_bodyDone (netBlock_vt False) b' \<and> net_finished b' m \<and>
       nb_inv bf' \<and> m_maxLen bf' = m_maxLen bf \<and> m_readPos bf' = 0 \<and> nb_unread bf' = rest"
    using F by (auto simp: netBlock_vt_def net_finished_def nblk_done_def bodyDone_def)
next
  fix b p bf m later
  assume r: "nblk_repr b p" and bf: "nb_inv bf" "m_readPos bf = 0" and m: "net_valid m"
    and eq: "p @ nb_unread bf @ later = net_enc m" and l: "later \<noteq> []"
  have "(p @ nb_unread bf) @ later = net_enc m" using eq by simp
  note P = net_enc_part [OF m this l]
  from netBlock_recv_ok [OF r bf refl P(2), of False] P(1) obtain x b' bf' p' where
    "netBlock_recv False b (Some bf) = Inr (x, b', Some bf')" "nb_inv bf'" "m_maxLen bf' = m_maxLen bf"
      "m_readPos bf' = 0" "nblk_repr b' p'" "p @ nb_unread bf = p' @ nb_unread bf'"
    by auto
  moreover from this have "\<not> bodyDone b'" by (auto simp: nblk_repr_def bodyDone_def)
  ultimately show "\<exists>x b' bf' p'. vt_recv (netBlock_vt False) b (Some bf) = Inr (x, b', Some bf') \<and>
      \<not> vt_bodyDone (netBlock_vt False) b' \<and> nblk_repr b' p' \<and> p @ nb_unread bf = p' @ nb_unread bf' \<and>
      nb_inv bf' \<and> m_maxLen bf' = m_maxLen bf \<and> m_readPos bf' = 0"
    by (auto simp: netBlock_vt_def)
qed

text \<open>
  Whatever the bytes, the loop ends: the frames of the stream are posted in order, and what
  is left is kept; unless the stream then announces a frame shorter than a header, at which
  the program fails.
\<close>

lemma recv_holds_net:
  assumes "recv_holds nblk_repr c s"
  obtains w p where
    "(case m_waitMessage c of None \<Rightarrow> vt_make (netBlock_vt False) (c_session c) 0 | Some w \<Rightarrow> Inr w) = Inr w"
    "nblk_repr w p" "s = p @ nb_unread (m_bufferRecv c)" "nb_inv (m_bufferRecv c)" "m_readPos (m_bufferRecv c) = 0"
  using net_stream.recv_holds_wait [OF assms] assms unfolding recv_holds_def by blast

text \<open>What a read leaves in the receive buffer: less than a header, so there is room for the next one.\<close>

definition recv_left :: "'b connection \<Rightarrow> 'b connection \<Rightarrow> bool" where
  "recv_left c c' \<longleftrightarrow> m_maxLen (m_bufferRecv c') = m_maxLen (m_bufferRecv c) \<and>
     length (nb_unread (m_bufferRecv c')) < 12"

lemma readMessage_net:
  assumes h: "recv_holds nblk_repr c s" and w: "hasWrite (m_bufferRecv c)"
  shows "if malformed s then readMessage (netBlock_vt False) c = Inl NullDeref
    else if frame_ready s then \<exists>b c'. readMessage (netBlock_vt False) c = Inr (Some b, c') \<and>
      nblk_done b (frame_body s) \<and> recv_holds nblk_repr c' (drop (frame_total s) s) \<and> same_send c c' \<and>
      m_maxLen (m_bufferRecv c') = m_maxLen (m_bufferRecv c)
    else \<exists>c'. readMessage (netBlock_vt False) c = Inr (None, c') \<and> recv_holds nblk_repr c' s \<and>
      same_send c c' \<and> recv_left c c'"
proof -
  obtain b p where b: "(case m_waitMessage c of None \<Rightarrow> vt_make (netBlock_vt False) (c_session c) 0 | Some w \<Rightarrow> Inr w) = Inr b"
      "nblk_repr b p" "s = p @ nb_unread (m_bufferRecv c)" "nb_inv (m_bufferRecv c)" "m_readPos (m_bufferRecv c) = 0"
    using recv_holds_net [OF h] by blast
  show ?thesis
  proof (cases "malformed s")
    case True
    have "m_state b = STATE_INIT \<and> m_data b = None \<and> p = []"
    proof (rule ccontr)
      assume "\<not> ?thesis"
      then have p: "12 \<le> length p" "length p < frame_total p" using b(2) by (auto simp: nblk_repr_def)
      then have "frame_total s = frame_total p" by (simp add: b(3))
      then show False using True p by (simp add: malformed_def)
    qed
    then have "netBlock_recv False b (Some (m_bufferRecv c)) = Inl NullDeref"
      using netBlock_recv_malformed [of b "m_bufferRecv c" False] b(3,4) True by simp
    then have "vt_recv (netBlock_vt False) b (Some (m_bufferRecv c)) = Inl NullDeref"
      by (simp add: netBlock_vt_def)
    then show ?thesis using True b(1) by (simp add: readMessage_def)
  next
    case False
    from netBlock_recv_ok [OF b(2,4,5,3) False, of False] obtain x b' bf' where
      r: "netBlock_recv False b (Some (m_bufferRecv c)) = Inr (x, b', Some bf')" "nb_inv bf'" "m_readPos bf' = 0"
        "if frame_ready s then nblk_done b' (frame_body s) \<and> nb_unread bf' = drop (frame_total s) s
         else (\<exists>p'. nblk_repr b' p' \<and> s = p' @ nb_unread bf') \<and> length (nb_unread bf') < 12"
        "m_maxLen bf' = m_maxLen (m_bufferRecv c)"
      by (auto split: if_splits simp del: nb_unread_length)
    have vt: "vt_recv (netBlock_vt False) b (Some (m_bufferRecv c)) = Inr (x, b', Some bf')"
      using r(1) by (simp add: netBlock_vt_def)
    have "vt_bodyDone (netBlock_vt False) b' \<longleftrightarrow> frame_ready s"
      using r(4) by (auto simp: netBlock_vt_def bodyDone_def nblk_done_def nblk_repr_def split: if_splits)
    then show ?thesis
      using False b(1) vt r(2-5)
      by (cases "frame_ready s") (auto simp: readMessage_def recv_holds_def same_send_def recv_left_def simp del: nb_unread_length)
  qed
qed

lemma readLoop_net:
  assumes "recv_holds nblk_repr c s"
  shows "if malformed (snd (deframe s)) then readLoop (netBlock_vt False) c es = Some (Inl NullDeref)
    else \<exists>c' bs. readLoop (netBlock_vt False) c es = Some (Inr (c', es @ map EventPostRecv bs)) \<and>
      list_all2 nblk_done bs (fst (deframe s)) \<and> recv_holds nblk_repr c' (snd (deframe s)) \<and> same_send c c' \<and> recv_left c c'"
  using assms
proof (induction "length s" arbitrary: s c es rule: less_induct)
  case less
  obtain b p where b: "nblk_repr b p" "s = p @ nb_unread (m_bufferRecv c)" "nb_inv (m_bufferRecv c)" "m_readPos (m_bufferRecv c) = 0"
    using recv_holds_net [OF less.prems] by blast
  show ?case
  proof (cases "hasWrite (m_bufferRecv c)")
    case False
    then have "s = p" using b by (simp add: hasWrite_unread)
    then have "\<not> frame_ready s" using b(1) by (auto simp: nblk_repr_def frame_ready_def)
    moreover from this have "\<not> malformed s" by (auto simp: frame_ready_def malformed_def)
    moreover have "recv_left c c" using False b(3,4) by (simp add: recv_left_def hasWrite_unread del: nb_unread_length)
    ultimately show ?thesis
      using False less.prems by (subst (1 2) readLoop.simps) (auto simp: deframe_not_ready same_send_def)
  next
    case True
    note R = readMessage_net [OF less.prems True]
    show ?thesis
    proof (cases "malformed s")
      case m: True
      then show ?thesis using R True by (subst (1 2) readLoop.simps) (simp add: deframe_malformed)
    next
      case nm: False
      show ?thesis
      proof (cases "frame_ready s")
        case False
        then show ?thesis using R True nm
          by (subst (1 2) readLoop.simps) (auto simp: deframe_not_ready intro!: exI [of _ "[]"])
      next
        case fr: True
        let ?r = "drop (frame_total s) s"
        obtain m c1 where c1: "readMessage (netBlock_vt False) c = Inr (Some m, c1)"
            "nblk_done m (frame_body s)" "recv_holds nblk_repr c1 ?r" "same_send c c1"
            "m_maxLen (m_bufferRecv c1) = m_maxLen (m_bufferRecv c)"
          using R nm fr by auto
        have "length ?r < length s" using fr nm by (auto simp: frame_ready_def malformed_def)
        note IH = less.hyps [OF this c1(3), of "es @ [EventPostRecv m]"]
        have st: "readLoop (netBlock_vt False) c es = readLoop (netBlock_vt False) c1 (es @ [EventPostRecv m])"
          using True c1(1) by (subst readLoop.simps) simp
        show ?thesis
        proof (cases "malformed (snd (deframe ?r))")
          case True
          then show ?thesis using IH fr nm st by (simp add: deframe_ready)
        next
          case False
          with IH obtain c2 bs where "readLoop (netBlock_vt False) c1 (es @ [EventPostRecv m]) =
              Some (Inr (c2, (es @ [EventPostRecv m]) @ map EventPostRecv bs))"
            "list_all2 nblk_done bs (fst (deframe ?r))" "recv_holds nblk_repr c2 (snd (deframe ?r))"
            "same_send c1 c2" "recv_left c1 c2" by auto
          then show ?thesis using False fr nm st c1
            by (auto simp: deframe_ready same_send_def recv_left_def simp del: nb_unread_length intro!: exI [of _ "m # bs"])
        qed
      qed
    qed
  qed
qed

lemma handleReadSome_net:
  assumes h: "recv_holds nblk_repr c s" and on: "m_connect c" and room: "length data \<le> nb_free (m_bufferRecv c)"
  shows "if malformed (snd (deframe (s @ data)))
    then handleReadSome dbg (netBlock_vt False) c False data = Some (Inl NullDeref)
    else \<exists>c' bs. handleReadSome dbg (netBlock_vt False) c False data =
        Some (Inr (c', map EventPostRecv bs @ beginRead c')) \<and>
      list_all2 nblk_done bs (fst (deframe (s @ data))) \<and>
      recv_holds nblk_repr c' (snd (deframe (s @ data))) \<and> same_send c c' \<and> recv_left c c'"
proof -
  obtain c1 where c1: "handleReadSome dbg (netBlock_vt False) c False data =
      (case readLoop (netBlock_vt False) c1 [] of None \<Rightarrow> None
       | Some r \<Rightarrow> Some (rbind r (\<lambda>(c', acts). Inr (c', acts @ beginRead c'))))"
    "recv_holds nblk_repr c1 (s @ data)" "same_send c c1" "m_maxLen (m_bufferRecv c1) = m_maxLen (m_bufferRecv c)"
    using handleReadSome_loop [OF h on room, of dbg "netBlock_vt False"] by blast
  note L = readLoop_net [OF c1(2), of "[]"]
  show ?thesis
  proof (cases "malformed (snd (deframe (s @ data)))")
    case True
    then show ?thesis using L c1(1) by simp
  next
    case False
    then obtain c' bs where "readLoop (netBlock_vt False) c1 [] = Some (Inr (c', map EventPostRecv bs))"
      "list_all2 nblk_done bs (fst (deframe (s @ data)))" "recv_holds nblk_repr c' (snd (deframe (s @ data)))"
      "same_send c1 c'" "recv_left c1 c'" using L by auto
    then show ?thesis using False c1
      by (simp only: if_False) (intro exI [of _ c'] exI [of _ bs], simp add: same_send_def recv_left_def del: nb_unread_length)
  qed
qed

section \<open>The Redis message\<close>

definition rb2_valid :: "resp \<Rightarrow> bool" where
  "rb2_valid r \<longleftrightarrow> simple r \<and> resp_ok r"

sublocale decimal_cast \<subseteq> rb2: stream_class "redisBlock2_vt dbg cast" rb2_repr rb2_done resp_bytes rb2_valid
  for dbg
proof unfold_locales
  fix s
  show "\<exists>b. vt_make (redisBlock2_vt dbg cast) s 0 = Inr b \<and> rb2_repr b []"
    by (simp add: redisBlock2_vt_def redisBlock2_nodata rb2_repr_def parse_wait_def)
next
  fix b p m rest
  assume "rb2_repr b p" and "rb2_valid m"
  then show "p \<noteq> resp_bytes m @ rest"
    using parse_wait_not_whole by (auto simp: rb2_repr_def rb2_valid_def)
next
  fix b p bf m rest
  assume r: "rb2_repr b p" and bf: "nb_inv bf" "m_readPos bf = 0" "nb_unread bf \<noteq> []" and m: "rb2_valid m"
    and eq: "p @ nb_unread bf = resp_bytes m @ rest"
  from redisBlock2_recv_complete [OF r bf(1,3) eq, of dbg] m show
    "\<exists>x b' bf'. vt_recv (redisBlock2_vt dbg cast) b (Some bf) = Inr (x, b', Some bf') \<and>
       vt_bodyDone (redisBlock2_vt dbg cast) b' \<and> rb2_done b' m \<and>
       nb_inv bf' \<and> m_maxLen bf' = m_maxLen bf \<and> m_readPos bf' = 0 \<and> nb_unread bf' = rest"
    by (auto simp: redisBlock2_vt_def rb2_valid_def rb2_done_def bodyDone_def)
next
  fix b p bf m later
  assume r: "rb2_repr b p" and bf: "nb_inv bf" "m_readPos bf = 0" "nb_unread bf \<noteq> []" and m: "rb2_valid m"
    and eq: "p @ nb_unread bf @ later = resp_bytes m" and l: "later \<noteq> []"
  from redisBlock2_recv_partial [OF r bf(1,3) eq l, of dbg] m show
    "\<exists>x b' bf' p'. vt_recv (redisBlock2_vt dbg cast) b (Some bf) = Inr (x, b', Some bf') \<and>
       \<not> vt_bodyDone (redisBlock2_vt dbg cast) b' \<and> rb2_repr b' p' \<and>
       p @ nb_unread bf = p' @ nb_unread bf' \<and>
       nb_inv bf' \<and> m_maxLen bf' = m_maxLen bf \<and> m_readPos bf' = 0"
    by (fastforce simp: redisBlock2_vt_def rb2_valid_def rb2_repr_def bodyDone_def)
qed

sublocale decimal_cast \<subseteq> rb: stream_class "redisBlock_vt dbg cast" rb_repr "rb_done cast" resp_bytes "rb_valid cast"
  for dbg
proof unfold_locales
  fix s
  show "\<exists>b. vt_make (redisBlock_vt dbg cast) s 0 = Inr b \<and> rb_repr b []"
    using redisBlock_nodata [of s] by (auto simp: redisBlock_vt_def rb_repr_def)
next
  fix b p m rest
  assume "rb_repr b p" and "rb_valid cast m"
  then show "p \<noteq> resp_bytes m @ rest"
    using rb_repr_not_whole by (simp add: rb_valid_def rb_ok_def)
next
  fix b p bf m rest
  assume r: "rb_repr b p" and bf: "nb_inv bf" "m_readPos bf = 0" "nb_unread bf \<noteq> []" and m: "rb_valid cast m"
    and eq: "p @ nb_unread bf = resp_bytes m @ rest"
  from redisBlock_recv_complete [OF r bf(1) _ _ eq, of dbg] m show
    "\<exists>x b' bf'. vt_recv (redisBlock_vt dbg cast) b (Some bf) = Inr (x, b', Some bf') \<and>
       vt_bodyDone (redisBlock_vt dbg cast) b' \<and> rb_done cast b' m \<and>
       nb_inv bf' \<and> m_maxLen bf' = m_maxLen bf \<and> m_readPos bf' = 0 \<and> nb_unread bf' = rest"
    by (auto simp: redisBlock_vt_def rb_valid_def rb_done_def bodyDone_def left_over_def)
next
  fix b p bf m later
  assume r: "rb_repr b p" and bf: "nb_inv bf" "m_readPos bf = 0" "nb_unread bf \<noteq> []" and m: "rb_valid cast m"
    and eq: "p @ nb_unread bf @ later = resp_bytes m" and l: "later \<noteq> []"
  from redisBlock_recv_partial [OF r bf(1) m eq l, of dbg] show
    "\<exists>x b' bf' p'. vt_recv (redisBlock_vt dbg cast) b (Some bf) = Inr (x, b', Some bf') \<and>
       \<not> vt_bodyDone (redisBlock_vt dbg cast) b' \<and> rb_repr b' p' \<and>
       p @ nb_unread bf = p' @ nb_unread bf' \<and>
       nb_inv bf' \<and> m_maxLen bf' = m_maxLen bf \<and> m_readPos bf' = 0"
    by (fastforce simp: redisBlock_vt_def bodyDone_def left_over_def)
qed

end
