(* ===== verification/Redis_Command.thy ===== *)
theory Redis_Command
  imports Redis_Parser
begin

text \<open>
  \<open>RedisCommand::makeCommand\<close> of \<open>src/redisblock.cpp\<close>: the bytes of a command.  A command
  has the form of a multi-bulk reply without null strings, so the reader of replies reads
  it back.
\<close>

definition makeCommand :: "string \<Rightarrow> string list \<Rightarrow> bytes" where
  "makeCommand cmd args =
     (let oss = REDIS_PREFIX_MULTI_BULK_REPLY @ dec_nat (length args + 1) @ REDIS_LBR;
          oss = oss @ REDIS_PREFIX_SINGLE_BULK_REPLY @ dec_nat (length cmd) @ REDIS_LBR;
          oss = oss @ cmd @ REDIS_LBR in
      foldl (\<lambda>oss param.
        (oss @ REDIS_PREFIX_SINGLE_BULK_REPLY @ dec_nat (length param) @ REDIS_LBR) @ param @ REDIS_LBR)
        oss args)"

definition command :: "string list \<Rightarrow> resp" where
  "command ws = Multi (Some (map Some ws))"

lemma foldl_append: "foldl (\<lambda>acc x. (acc @ f x) @ g x) acc xs = acc @ concat (map (\<lambda>x. f x @ g x) xs)"
  by (induction xs arbitrary: acc) simp_all

lemma makeCommand_resp: "makeCommand cmd args = resp_bytes (command (cmd # args))"
proof -
  have "map bulk_bytes (map Some args) =
      map (\<lambda>p. (REDIS_PREFIX_SINGLE_BULK_REPLY @ dec_nat (length p) @ REDIS_LBR) @ p @ REDIS_LBR) args"
    by (simp add: bulk_bytes_def REDIS_PREFIX_SINGLE_BULK_REPLY_def)
  then show ?thesis
    unfolding makeCommand_def Let_def foldl_append
    by (simp add: command_def resp_bytes_def bulk_bytes_def REDIS_PREFIX_SINGLE_BULK_REPLY_def
        REDIS_PREFIX_MULTI_BULK_REPLY_def comp_def)
qed

text \<open>The strings of a command are in the scope of the reader.\<close>

definition command_ok :: "string list \<Rightarrow> bool" where
  "command_ok ws \<longleftrightarrow> int (length ws) \<le> INT_MAX \<and> list_all (\<lambda>w. int (length w) + 2 \<le> INT_MAX) ws"

lemma resp_ok_command: "ws \<noteq> [] \<Longrightarrow> command_ok ws \<Longrightarrow> resp_ok (command ws)"
  by (simp add: command_def command_ok_def list_all_iff)

lemma resp_values_command: "resp_values (command ws) = ws"
  by (simp add: command_def comp_def)


end
