(* ===== verification/Message_Flow.thy ===== *)
theory Message_Flow
  imports Connection_Recv Redis_Command Tcp_Object
begin

text \<open>
  From one end to the other: what a connection made by the constructor and \<open>handlAccept\<close>
  reports when a stream of messages arrives in any number of reads, for both classes of
  messages, and when the stream is what another connection sent.
\<close>

section \<open>Streams of messages\<close>

text \<open>The bytes a list of default messages puts on the wire.\<close>

definition net_stream :: "bytes list \<Rightarrow> bytes" where
  "net_stream bodies = concat (map frame_of bodies)"

definition redis_stream :: "resp list \<Rightarrow> bytes" where
  "redis_stream rs = concat (map resp_bytes rs)"

text \<open>The message the default class receives for a body.\<close>

definition as_message :: "bytes \<Rightarrow> head \<times> bytes" where
  "as_message body = (\<lparr>h_len = of_nat (12 + length body), h_mask = 0, h_check = 0\<rparr>, body)"

lemma as_message_simps:
  "net_enc (as_message body) = frame_of body"
  "net_finished b (as_message body) \<longleftrightarrow> nblk_done b body"
  "12 + length body < 2 ^ 32 \<Longrightarrow> net_valid (as_message body)"
  using unat_of_nat32 [of "12 + length body"]
  by (simp_all add: as_message_def net_enc_def frame_of_def net_finished_def net_valid_def)

lemma newConnection_ok:
  assumes "unat sz \<le> PTRDIFF_MAX"
  shows "\<exists>c. newConnection s sz = Inr c \<and> c_session c = s \<and> nb_inv (m_bufferSend c) \<and>
           nb_inv (m_bufferRecv c) \<and> nb_content (m_bufferSend c) = [] \<and> nb_content (m_bufferRecv c) = [] \<and>
           nb_unread (m_bufferSend c) = [] \<and>
           m_maxLen (m_bufferSend c) = sz \<and> m_maxLen (m_bufferRecv c) = sz \<and> \<not> m_lock (m_bufferSend c) \<and>
           m_waitMessage c = None \<and> \<not> m_connect c \<and> \<not> m_isSend c \<and> m_sendList c = []"
  using netBuffer_ok [OF assms] by (auto simp: newConnection_def)

text \<open>What a new connection is after \<open>handlAccept\<close>: ready to receive.\<close>

lemma accepted_ready:
  assumes "unat sz \<le> PTRDIFF_MAX" and "newConnection s sz = Inr (c :: 'b connection)"
  shows "m_connect (fst (handlAccept c))" "nb_inv (m_bufferRecv (fst (handlAccept c)))"
    "nb_content (m_bufferRecv (fst (handlAccept c))) = []" "m_waitMessage (fst (handlAccept c)) = None"
    "m_maxLen (m_bufferRecv (fst (handlAccept c))) = sz"
proof -
  obtain c' :: "'b connection" where "newConnection s sz = Inr c'" "nb_inv (m_bufferRecv c')"
      "nb_content (m_bufferRecv c') = []" "m_waitMessage c' = None" "m_maxLen (m_bufferRecv c') = sz"
    using newConnection_ok [OF assms(1), of s] by blast
  moreover from this(1) have "c' = c" using assms(2) by simp
  ultimately show "m_connect (fst (handlAccept c))" "nb_inv (m_bufferRecv (fst (handlAccept c)))"
    "nb_content (m_bufferRecv (fst (handlAccept c))) = []" "m_waitMessage (fst (handlAccept c)) = None"
    "m_maxLen (m_bufferRecv (fst (handlAccept c))) = sz"
    by (simp_all add: handlAccept_def Let_def nb_content_def)
qed

lemma list_all2_split:
  assumes "list_all2 P xs ms1" and "map f ys = ms1 @ ms2"
  shows "list_all2 (\<lambda>x y. P x (f y)) xs (take (length ms1) ys)"
proof -
  have "map f (take (length ms1) ys) = ms1" by (simp add: assms(2) flip: take_map)
  then show ?thesis using assms(1) by (metis list_all2_map2)
qed

lemma net_stream_run:
  assumes sz: "unat sz \<le> PTRDIFF_MAX" and c: "newConnection s sz = Inr c"
    and part: "proper_part net_enc net_valid part"
    and ok: "\<forall>b \<in> set bodies. 12 + length b < 2 ^ 32"
  shows "\<exists>net' c' es n. recvRun False (netBlock_vt False) (fst (handlAccept c))
             (net_stream bodies @ part) ks = Some (Inr (net', c', es)) \<and>
           list_all2 nblk_done (posted es) (take n bodies) \<and> (net' = [] \<longrightarrow> n = length bodies)"
proof -
  note A = accepted_ready(1-4) [OF sz c]
  have eq: "net_stream bodies @ part = concat (map net_enc (map as_message bodies)) @ part"
    by (simp add: net_stream_def comp_def as_message_simps)
  have v: "\<forall>m \<in> set (map as_message bodies). net_valid m" using ok by (simp add: as_message_simps)
  from net_stream.recvRun_ok [OF A eq v part, of False ks] obtain net' c' es ms1 ms2 where
    r: "recvRun False (netBlock_vt False) (fst (handlAccept c)) (net_stream bodies @ part) ks =
        Some (Inr (net', c', es))" "map as_message bodies = ms1 @ ms2"
      "list_all2 net_finished (posted es) ms1" "net' = [] \<longrightarrow> ms2 = []" by blast
  have "list_all2 nblk_done (posted es) (take (length ms1) bodies)"
    using list_all2_split [OF r(3,2)] by (simp add: as_message_simps)
  moreover have "net' = [] \<longrightarrow> length ms1 = length bodies"
    using r(4) arg_cong [OF r(2), of length] by auto
  ultimately show ?thesis using r(1) by blast
qed

section \<open>A sender and a receiver\<close>

lemma net_empty_part: "proper_part net_enc net_valid []"
  unfolding proper_part_def
  by (intro exI [of _ "as_message []"] exI [of _ "frame_of []"])
    (simp add: as_message_simps frame_of_def head_bytes_def le32_def)

lemma sealed_out: "nblk_sealed b body \<Longrightarrow> block_out (netBlock_vt d) b = frame_of body"
  by (auto simp: nblk_sealed_def block_out_def netBlock_vt_def nb_unread_def)

lemma sealed_sendable: "nblk_sealed b body \<Longrightarrow> sendable (netBlock_vt d) b"
  by (auto simp: nblk_sealed_def sendable_def netBlock_vt_def)

text \<open>
  The bytes on the wire of a connection that was given whole messages, in any reachable
  state, arrive at a new connection in any number of reads: it posts the first messages in
  order, and all of them once everything was written and read.
\<close>

lemma net_sender_receiver:
  assumes reach: "conn_reach d (netBlock_vt d) t" and sub: "s_submitted t = net_stream bodies"
    and sz: "unat sz \<le> PTRDIFF_MAX" and c: "newConnection s sz = Inr c"
    and ok: "\<forall>b \<in> set bodies. 12 + length b < 2 ^ 32"
  shows "\<exists>net' c' es n. recvRun False (netBlock_vt False) (fst (handlAccept c)) (s_wire t) ks =
             Some (Inr (net', c', es)) \<and>
           list_all2 nblk_done (posted es) (take n bodies) \<and>
           (s_wire t = s_submitted t \<and> net' = [] \<longrightarrow> n = length bodies)"
proof -
  obtain rest where "s_submitted t = s_wire t @ rest" using net_class.wire_prefix [OF reach] by blast
  then have eq: "s_wire t @ rest = concat (map net_enc (map as_message bodies)) @ []"
    using sub by (simp add: net_stream_def comp_def as_message_simps)
  have v: "\<forall>m \<in> set (map as_message bodies). net_valid m" using ok by (simp add: as_message_simps)
  from stream_split [OF eq net_empty_part v] obtain ms1 ms2 part where
    sp: "map as_message bodies = ms1 @ ms2" "s_wire t = concat (map net_enc ms1) @ part"
      "proper_part net_enc net_valid part" "rest = [] \<longrightarrow> ms2 = []" by blast
  let ?k = "length ms1"
  have "ms1 = map as_message (take ?k bodies)" by (simp add: sp(1) flip: take_map)
  then have w: "s_wire t = net_stream (take ?k bodies) @ part"
    by (simp add: sp(2) net_stream_def comp_def as_message_simps(1)) (metis (no_types) map_map comp_def as_message_simps(1) map_cong)
  have "\<forall>b \<in> set (take ?k bodies). 12 + length b < 2 ^ 32" using ok by (auto dest: in_set_takeD)
  from net_stream_run [OF sz c sp(3) this, of ks] obtain net' c' es n where
    r: "recvRun False (netBlock_vt False) (fst (handlAccept c)) (s_wire t) ks = Some (Inr (net', c', es))"
      "list_all2 nblk_done (posted es) (take n (take ?k bodies))"
      "net' = [] \<longrightarrow> n = length (take ?k bodies)" unfolding w by blast
  have k: "?k \<le> length bodies" using arg_cong [OF sp(1), of length] by simp
  have "?k = length bodies \<and> (net' = [] \<longrightarrow> n = length bodies)" if "s_wire t = s_submitted t"
    using that \<open>s_submitted t = s_wire t @ rest\<close> sp(4) r(3) k arg_cong [OF sp(1), of length] by auto
  then show ?thesis using r(1,2)
    by (intro exI [of _ net'] exI [of _ c'] exI [of _ es] exI [of _ "min n ?k"]) (use k in auto)
qed

section \<open>Streams of replies\<close>

context decimal_cast
begin

lemma redis_stream_run:
  assumes sz: "unat sz \<le> PTRDIFF_MAX" and c: "newConnection s sz = Inr c"
    and part: "proper_part resp_bytes rb2_valid part" and ok: "\<forall>r \<in> set rs. rb2_valid r"
  shows "\<exists>net' c' es n. recvRun dbg (redisBlock2_vt dbg cast) (fst (handlAccept c))
             (redis_stream rs @ part) ks = Some (Inr (net', c', es)) \<and>
           list_all2 rb2_done (posted es) (take n rs) \<and> (net' = [] \<longrightarrow> n = length rs)"
proof -
  note A = accepted_ready(1-4) [OF sz c]
  have eq: "redis_stream rs @ part = concat (map resp_bytes rs) @ part" by (simp add: redis_stream_def)
  from rb2.recvRun_ok [OF A eq ok part, of dbg dbg ks] obtain net' c' es ms1 ms2 where
    r: "recvRun dbg (redisBlock2_vt dbg cast) (fst (handlAccept c)) (redis_stream rs @ part) ks =
        Some (Inr (net', c', es))" "rs = ms1 @ ms2" "list_all2 rb2_done (posted es) ms1"
      "net' = [] \<longrightarrow> ms2 = []" by blast
  then show ?thesis by (intro exI [of _ net'] exI [of _ c'] exI [of _ es] exI [of _ "length ms1"]) simp
qed

lemma rb_stream_run:
  assumes sz: "unat sz \<le> PTRDIFF_MAX" and c: "newConnection s sz = Inr c"
    and part: "proper_part resp_bytes (rb_valid cast) part" and ok: "\<forall>r \<in> set rs. rb_valid cast r"
  shows "\<exists>net' c' es n. recvRun dbg (redisBlock_vt dbg cast) (fst (handlAccept c))
             (redis_stream rs @ part) ks = Some (Inr (net', c', es)) \<and>
           list_all2 (rb_done cast) (posted es) (take n rs) \<and> (net' = [] \<longrightarrow> n = length rs)"
proof -
  note A = accepted_ready(1-4) [OF sz c]
  have eq: "redis_stream rs @ part = concat (map resp_bytes rs) @ part" by (simp add: redis_stream_def)
  from rb.recvRun_ok [OF A eq ok part, of dbg dbg ks] obtain net' c' es ms1 ms2 where
    r: "recvRun dbg (redisBlock_vt dbg cast) (fst (handlAccept c)) (redis_stream rs @ part) ks =
        Some (Inr (net', c', es))" "rs = ms1 @ ms2" "list_all2 (rb_done cast) (posted es) ms1"
      "net' = [] \<longrightarrow> ms2 = []" by blast
  then show ?thesis by (intro exI [of _ net'] exI [of _ c'] exI [of _ es] exI [of _ "length ms1"]) simp
qed

end

section \<open>Senders\<close>

text \<open>A connection that has been accepted is a start of the system.\<close>

lemma accepted_fresh:
  assumes "unat sz \<le> PTRDIFF_MAX" and "0 < sz" and "newConnection s sz = Inr (c :: 'b connection)"
  shows "fresh_conn (fst (handlAccept c))"
proof -
  obtain c' :: "'b connection" where "newConnection s sz = Inr c'" "nb_inv (m_bufferSend c')"
      "nb_unread (m_bufferSend c') = []" "m_maxLen (m_bufferSend c') = sz" "\<not> m_lock (m_bufferSend c')"
      "\<not> m_isSend c'" "m_sendList c' = []"
    using newConnection_ok [OF assms(1), of s] by blast
  moreover from this(1) have "c' = c" using assms(3) by simp
  ultimately show ?thesis using assms(2) by (simp add: fresh_conn_def handlAccept_def Let_def)
qed

text \<open>A system in which one message was given to \<open>send\<close>.\<close>

lemma sent_one:
  assumes "unat sz \<le> PTRDIFF_MAX" and "0 < sz" and "newConnection s sz = Inr (c :: net_block connection)"
    and "nblk_sealed b body"
  shows "\<exists>t. conn_reach d (netBlock_vt d) t \<and> s_submitted t = net_stream [body]"
proof -
  let ?s = "start_sys (fst (handlAccept c))"
  have "conn_reach d (netBlock_vt d) ?s"
    using accepted_fresh [OF assms(1-3)] by (rule conn_reach.Start)
  moreover obtain c1 es where c1: "conn_send (s_conn ?s) b = (c1, es)" by (cases "conn_send (s_conn ?s) b")
  ultimately have "conn_reach d (netBlock_vt d)
      (absorb es (?s\<lparr>s_conn := c1, s_submitted := s_submitted ?s @ block_out (netBlock_vt d) b\<rparr>))"
    using sealed_sendable [OF assms(4), of d] by (blast intro: conn_reach.Step conn_step.Send)
  moreover have "s_submitted (absorb es (?s\<lparr>s_conn := c1, s_submitted := s_submitted ?s @ block_out (netBlock_vt d) b\<rparr>)) =
      net_stream [body]"
    using c1 sealed_out [OF assms(4), of d]
    by (auto simp: conn_send_def start_sys_def net_stream_def)
  ultimately show ?thesis by blast
qed

text \<open>A message made by the constructor and one \<open>push\<close>.\<close>

lemma made_message:
  assumes "unat s \<le> PTRDIFF_MAX" and "2 * (12 + length body) \<le> PTRDIFF_MAX"
  shows "\<exists>b0 b. netBlock d s 1 = Inr b0 \<and> push_all d b0 [body] = Inr b \<and> nblk_sealed b body \<and> m_session b = s"
proof -
  have "unat (1 + sizeof head_pod) = 1 + 12"
    by (subst unat_plus_size) (simp_all add: PTRDIFF_MAX_def unat_1)
  then have "(1 :: size_t) + sizeof head_pod > 0" by (simp add: size_cmp)
  then obtain b0 where b0: "netBlock d s 1 = Inr b0" "nblk_open b0 []" "m_session b0 = s"
    using netBlock_ok [of 1 s d] assms(1) by auto
  have "unat (of_nat (length body) :: size_t) = length body" using assms(2) by (intro unat_of_nat_size) simp
  from netBlock_push_ok [OF b0(2) this, of d] assms(2) b0 show ?thesis by auto
qed

section \<open>From a connection to the user\<close>

text \<open>Reading has no effects on the endpoint other than the messages it posts.\<close>

lemma recvRun_quiet:
  assumes "recvRun dbg vt c net ks = Some (Inr (net', c', es))"
  shows "\<forall>e \<in> set es. (\<exists>m. e = EventPostRecv m) \<or> (\<exists>n. e = AsyncReadSome n) \<or> (\<exists>x. e = IoPost (RunClose x))"
  using assms
proof (induction ks arbitrary: c net es)
  case Nil
  then show ?case by simp
next
  case (Cons k ks)
  let ?n = "min k (unat (maxLength (m_bufferRecv c) - nb_length (m_bufferRecv c)))"
  obtain c1 es1 es2 where 1: "handleReadSome dbg vt c False (take ?n net) = Some (Inr (c1, es1))"
      "recvRun dbg vt c1 (drop ?n net) ks = Some (Inr (net', c', es2))" "es = es1 @ es2"
    using Cons.prems by (auto simp: Let_def rbind_eq_Inr split: option.splits sum.splits)
  show ?case using handleReadSome_same [OF 1(1)] Cons.IH [OF 1(2)] 1(3) by auto
qed

lemma deliver_quiet:
  assumes "\<forall>e \<in> set es. (\<exists>m. e = EventPostRecv m) \<or> (\<exists>n. e = AsyncReadSome n) \<or> (\<exists>x. e = IoPost (RunClose x))"
  shows "m_call (foldl deliver t es) = m_call t @ map EvRecv (posted es) \<and>
    t_config (foldl deliver t es) = t_config t \<and> t_onlines (foldl deliver t es) = t_onlines t"
  using assms
proof (induction es arbitrary: t)
  case Nil
  then show ?case by simp
next
  case (Cons e es)
  then have IH: "m_call (foldl deliver (deliver t e) es) = m_call (deliver t e) @ map EvRecv (posted es) \<and>
    t_config (foldl deliver (deliver t e) es) = t_config (deliver t e) \<and>
    t_onlines (foldl deliver (deliver t e) es) = t_onlines (deliver t e)" by simp
  have "(\<exists>m. e = EventPostRecv m) \<or> (\<exists>n. e = AsyncReadSome n) \<or> (\<exists>x. e = IoPost (RunClose x))"
    using Cons.prems by simp
  then have "m_call (deliver t e) = m_call t @ map EvRecv (posted [e])"
    "t_config (deliver t e) = t_config t" "t_onlines (deliver t e) = t_onlines t"
    by (auto simp: deliver_def eventRecv_def tcp_push_def t_config_def)
  moreover have "posted (e # es) = posted [e] @ posted es" using posted_append [of "[e]" es] by simp
  ultimately show ?case using IH by simp
qed

text \<open>One \<open>poll\<close> hands the messages of any number of reads to the user's function, in order.\<close>

lemma poll_delivers:
  assumes run: "recvRun dbg vt c net ks = Some (Inr (net', c', es))" and t: "tcp_inv t" "m_call t = []"
    and p: "pool_inv pool"
  shows "\<exists>t' pool'. tcp_poll lo (foldl deliver t es) pool =
      Inr (t', pool', map (CallFun (m_name (t_config t))) (posted es)) \<and>
    tcp_inv t' \<and> pool_inv pool' \<and> m_call t' = [] \<and>
    tcp_keys t' = tcp_keys t \<and> pool_keys pool' = pool_keys pool"
proof -
  let ?t = "foldl deliver t es" and ?n = "m_name (t_config t)"
  note D = deliver_quiet [OF recvRun_quiet [OF run], of t]
  have call: "m_call ?t = map EvRecv (posted es)" using D t(2) by simp
  have "EvStart \<notin> set (m_call ?t)" by (auto simp: call)
  moreover have "tcp_inv ?t" using D t(1) by (simp add: tcp_inv_def)
  moreover have "concat (map (event_action ?n) (map EvRecv ms)) = map (CallFun ?n) ms" for ms :: "'a list"
    by (induction ms) simp_all
  moreover have "foldl event_keys S (map EvRecv ms) = S" for S and ms :: "'a list"
    by (induction ms) simp_all
  ultimately show ?thesis
    using tcp_poll_ok [of ?t pool lo] p D by (auto simp: call tcp_keys_def)
qed

section \<open>A line longer than the receive buffer\<close>

text \<open>
  A Redis message of one line that is longer than the receive buffer: nothing is taken off the
  full buffer, so the next read is one of no bytes, which changes nothing.
\<close>

lemma parse_no_line:
  assumes "at_pos buf sz 0 s" and "LF \<notin> set s" and "s \<noteq> []" and "m_type ps = no_reply" and "\<not> m_done ps"
  shows "parse dbg cast ps buf sz 0 = Inr (False, ps, 0)"
proof -
  have "sz \<noteq> 0" "0 < sz" using at_pos_nonempty [OF assms(1)] assms(3) by (auto simp: word_neq_0_conv)
  moreover have "readLine ps buf sz 0 [] = Inr (False, ps, 0, [])" using readLine_partial assms(1,2) by blast
  ultimately show ?thesis using assms(4,5) by (simp add: parse_def parseType_def)
qed

lemma nothing_to_clear:
  assumes "nb_inv b" and "m_readPos b = 0"
  shows "clearReadBuffer dbg b = Inr b"
  using nb_invD [OF assms(1)] assms by (simp add: clearReadBuffer_def memmove_def memcpy_def nb_inv_def)

lemma long_line_stalls:
  fixes w :: redis_block2
  assumes on: "m_connect c" and bf: "nb_inv (m_bufferRecv c)" "m_readPos (m_bufferRecv c) = 0" "isFull (m_bufferRecv c)"
    and line: "nb_unread (m_bufferRecv c) \<noteq> []" "LF \<notin> set (nb_unread (m_bufferRecv c))"
    and w: "m_waitMessage c = Some w" "m_state w = STATE_BODY" "m_type (m_parse w) = no_reply" "\<not> m_done (m_parse w)"
  shows "handleReadSome dbg (redisBlock2_vt dbg cast) c False [] = Some (Inr (c, [AsyncReadSome 0]))"
proof -
  let ?b = "m_bufferRecv c"
  note D = nb_invD [OF bf(1)]
  have full: "m_writePos ?b = m_maxLen ?b" using bf(1,3) by (simp add: nb_inv_def isFull_def)
  have "memcpy (m_buffer ?b) (unat (nb_length ?b)) [] 0 0 = Inr (m_buffer ?b)"
    using D by (simp add: memcpy_def nb_length_def)
  then have wr: "rbind (memcpy (m_buffer ?b) (unat (nb_length ?b)) [] 0 (length []))
      (\<lambda>m. writeData dbg (?b\<lparr>m_buffer := m\<rparr>) (of_nat (length []))) = Inr (Some (m_writePos ?b), ?b)"
    using full by (simp add: writeData_def)
  have p: "parse dbg cast (m_parse w) (drop (unat (m_readPos ?b)) (m_buffer ?b)) (needReadLength ?b) 0 =
      Inr (False, m_parse w, 0)"
    using parse_no_line [OF buffer_at_pos [OF bf(1)] line(2,1) w(3,4)] .
  have "redisBlock2_recv dbg cast w (Some ?b) = Inr (False, w, Some ?b)"
    using p w(2,4) nothing_to_clear [OF bf(1,2)]
    by (simp add: redisBlock2_recv_def readData_def canRead_def isDone_def Let_def)
  then have "readMessage (redisBlock2_vt dbg cast) c = Inr (None, c)"
    using w(1,2) by (simp add: readMessage_def redisBlock2_vt_def bodyDone_def)
  moreover have "hasWrite ?b" using hasWrite_unread [OF bf(1,2)] line(1) by simp
  ultimately have "readLoop (redisBlock2_vt dbg cast) c [] = Some (Inr (c, []))"
    by (subst readLoop.simps) simp
  then show ?thesis
    using on wr full by (simp add: handleReadSome_def Let_def beginRead_def maxLength_def nb_length_def)
qed

end
