(* ===== verification/Connection_Life.thy ===== *)
theory Connection_Life
  imports Service_Invariant Message_Flow
begin

text \<open>
  How long a connection lives.  A \<open>Connection\<close> is owned by \<open>shared_ptr\<close>: the tasks that are
  posted with \<open>shared_from_this()\<close>, the events in the queue of its endpoint, the set of online
  connections, and \<open>m_current\<close> of a server or \<open>m_session\<close> of a client each hold one; the pool
  holds a \<open>weak_ptr\<close>.  The handlers of \<open>async_read_some\<close>, \<open>async_write\<close> and \<open>async_connect\<close> are
  bound to the bare \<open>this\<close> (\<open>src/connection.cpp\<close>, \<open>src/tcp_object.h\<close>, \<open>src/tcp_object.cpp\<close>).

  The state is one connection with its endpoint and the pool; the steps are the posted tasks,
  the completions of socket operations, and the calls of the endpoint, in any order.
\<close>

section \<open>State and steps\<close>

record 'b life =
  lf_conn :: "'b connection"
  lf_obj :: "'b tcp_obj"
  lf_pool :: io_pool
  lf_tasks :: "io_task list"
  lf_read :: bool             \<comment> \<open>\<open>async_read_some\<close> is not completed\<close>
  lf_write :: "bytes option"  \<comment> \<open>the bytes of the \<open>async_write\<close> that is not completed\<close>
  lf_connect :: bool          \<comment> \<open>\<open>async_connect\<close> is not completed\<close>
  lf_closed :: bool           \<comment> \<open>the user was told that the session is closed\<close>

text \<open>Who holds a \<open>shared_ptr\<close> to the connection of a session.\<close>

definition keeps :: "'b tcp_obj \<Rightarrow> session_id \<Rightarrow> bool" where
  "keeps t s \<longleftrightarrow> m_current t = Some s \<or> t_session t = Some s \<or> s \<in> set (onlines t) \<or>
     list_ex (\<lambda>ev. event_session ev = Some s) (m_call t)"

definition held :: "'b life \<Rightarrow> bool" where
  "held st \<longleftrightarrow> lf_tasks st \<noteq> [] \<or> keeps (lf_obj st) (c_session (lf_conn st))"

text \<open>An operation whose handler will use the connection.\<close>

definition pending :: "'b life \<Rightarrow> bool" where
  "pending st \<longleftrightarrow> lf_read st \<or> lf_write st \<noteq> None \<or> lf_connect st"

fun posts :: "'b effect list \<Rightarrow> io_task list" where
  "posts [] = []"
| "posts (IoPost k # es) = k # posts es"
| "posts (_ # es) = posts es"

fun writes :: "'b effect list \<Rightarrow> bytes list" where
  "writes [] = []"
| "writes (AsyncWrite b # es) = b # writes es"
| "writes (_ # es) = writes es"

fun is_read :: "'b effect \<Rightarrow> bool" where
  "is_read (AsyncReadSome n) = True"
| "is_read _ = False"

fun is_connect :: "'b effect \<Rightarrow> bool" where
  "is_connect AsyncConnect = True"
| "is_connect _ = False"

definition lf_effects :: "'b effect list \<Rightarrow> 'b life \<Rightarrow> 'b life" where
  "lf_effects es st = st\<lparr>lf_obj := foldl deliver (lf_obj st) es, lf_tasks := lf_tasks st @ posts es,
     lf_read := lf_read st \<or> list_ex is_read es,
     lf_write := (case writes es of [] \<Rightarrow> lf_write st | b # _ \<Rightarrow> Some b),
     lf_connect := lf_connect st \<or> list_ex is_connect es\<rparr>"

text \<open>A posted task, and the calls of the endpoint.\<close>

definition run_task :: "bool \<Rightarrow> 'b block_vt \<Rightarrow> 'b connection \<Rightarrow> io_task \<Rightarrow> 'b handler" where
  "run_task dbg vt c k =
     (case k of
        RunWrite n \<Rightarrow> writeMessage dbg vt c n
      | RunClose er \<Rightarrow> Inr (handleClose c er)
      | RunAccept \<Rightarrow> Inr (handlAccept c))"

datatype ep_call = EpPoll | EpAccept bool | EpStart | EpStop

definition ep_run :: "listen_outcome \<Rightarrow> ep_call \<Rightarrow> 'b tcp_obj \<Rightarrow> io_pool \<Rightarrow> 'b tcp_step" where
  "ep_run lo k t pool =
     (case k of
        EpPoll \<Rightarrow> tcp_poll lo t pool
      | EpAccept er \<Rightarrow> acceptSocket t pool er
      | EpStart \<Rightarrow> rbind (tcp_start lo t pool) (\<lambda>(_, t', pool', acts). Inr (t', pool', acts))
      | EpStop \<Rightarrow> rbind (tcp_stop t) (\<lambda>(_, t', acts). Inr (t', pool, acts)))"

text \<open>The calls among the actions that are for this connection.\<close>

fun run_own :: "'b action list \<Rightarrow> 'b connection \<Rightarrow> 'b connection \<times> 'b effect list" where
  "run_own [] c = (c, [])"
| "run_own (OnConn s k # acts) c =
     (if s = c_session c
      then (let (c1, es1) = run_call c k; (c2, es2) = run_own acts c1 in (c2, es1 @ es2))
      else run_own acts c)"
| "run_own (_ # acts) c = run_own acts c"

inductive life_step :: "bool \<Rightarrow> 'b block_vt \<Rightarrow> 'b life \<Rightarrow> 'b life \<Rightarrow> bool"
  for dbg :: bool and vt :: "'b block_vt" where
  Task: "lf_tasks st = k # q \<Longrightarrow> run_task dbg vt (lf_conn st) k = Inr (c, es) \<Longrightarrow>
    life_step dbg vt st (lf_effects es (st\<lparr>lf_conn := c, lf_tasks := q\<rparr>))"
| Read: "lf_read st \<Longrightarrow> held st \<Longrightarrow> handleReadSome dbg vt (lf_conn st) er data = Some (Inr (c, es)) \<Longrightarrow>
    life_step dbg vt st (lf_effects es (st\<lparr>lf_conn := c, lf_read := False\<rparr>))"
| Written: "lf_write st = Some b \<Longrightarrow> held st \<Longrightarrow> handleWrite dbg vt (lf_conn st) er n = Inr (c, es) \<Longrightarrow>
    life_step dbg vt st (lf_effects es (st\<lparr>lf_conn := c, lf_write := None\<rparr>))"
| Connected: "lf_connect st \<Longrightarrow> held st \<Longrightarrow> handleConnect (lf_conn st) er = (c, es) \<Longrightarrow>
    life_step dbg vt st (lf_effects es (st\<lparr>lf_conn := c, lf_connect := False\<rparr>))"
| Call: "c_session (lf_conn st) \<in> set (onlines (lf_obj st)) \<Longrightarrow> k = CallSend p \<or> k = CallClose er \<Longrightarrow>
    run_call (lf_conn st) k = (c, es) \<Longrightarrow>
    life_step dbg vt st (lf_effects es (st\<lparr>lf_conn := c\<rparr>))"
| Endpoint: "ep_run lo k (lf_obj st) (lf_pool st) = Inr (t, pool, acts) \<Longrightarrow>
    run_own acts (lf_conn st) = (c, es) \<Longrightarrow>
    life_step dbg vt st (lf_effects es (st\<lparr>lf_conn := c, lf_obj := t, lf_pool := pool,
      lf_closed := lf_closed st \<or> CloseFun (m_name (t_config t)) (c_session c) \<in> set acts\<rparr>))"
| Other: "(\<forall>s. e = EventConnect s \<or> e = EventClose s \<longrightarrow> s \<noteq> c_session (lf_conn st)) \<Longrightarrow>
    life_step dbg vt st (st\<lparr>lf_obj := deliver (lf_obj st) e\<rparr>)"

text \<open>A new connection that waits for its socket at a server, or that a client was made with.\<close>

definition life_start :: "'b life \<Rightarrow> bool" where
  "life_start st \<longleftrightarrow> (\<exists>s sz. newConnection s sz = Inr (lf_conn st) \<and>
       (m_current (lf_obj st) = Some s \<or> t_session (lf_obj st) = Some s)) \<and>
     tcp_inv (lf_obj st) \<and> pool_inv (lf_pool st) \<and> lf_tasks st = [] \<and> \<not> pending st \<and> \<not> lf_closed st"

inductive life_reach :: "bool \<Rightarrow> 'b block_vt \<Rightarrow> 'b life \<Rightarrow> bool"
  for dbg :: bool and vt :: "'b block_vt" where
  Start: "life_start st \<Longrightarrow> life_reach dbg vt st"
| Step: "life_reach dbg vt st \<Longrightarrow> life_step dbg vt st st' \<Longrightarrow> life_reach dbg vt st'"

section \<open>What the handlers do to the life of a connection\<close>

text \<open>An event about the session is on its way to the user, or the session is online.\<close>

definition reported :: "'b tcp_obj \<Rightarrow> session_id \<Rightarrow> bool" where
  "reported t s \<longleftrightarrow> s \<in> set (onlines t) \<or> EvConnect s \<in> set (m_call t) \<or> EvClose s \<in> set (m_call t)"

lemma reported_keeps: "reported t s \<Longrightarrow> keeps t s"
  unfolding reported_def keeps_def list_ex_iff by force

lemma deliver_same:
  "t_onlines (deliver t e) = t_onlines t \<and> t_session (deliver t e) = t_session t \<and> m_current (deliver t e) = m_current t \<and>
   m_netProperty (deliver t e) = m_netProperty t \<and> set (m_call t) \<subseteq> set (m_call (deliver t e))"
  by (cases e) (auto simp: deliver_def eventRecv_def eventConnect_def eventCloseFun_def eventConnectFailed_def tcp_push_def)

lemma delivers_same:
  "t_onlines (foldl deliver t es) = t_onlines t \<and> t_session (foldl deliver t es) = t_session t \<and>
   m_current (foldl deliver t es) = m_current t \<and> m_netProperty (foldl deliver t es) = m_netProperty t \<and>
   set (m_call t) \<subseteq> set (m_call (foldl deliver t es))"
proof (induction es arbitrary: t)
  case (Cons e es)
  show ?case using Cons.IH [of "deliver t e"] deliver_same [of t e] by auto
qed simp

lemma delivers_connect:
  "EventConnect s \<in> set es \<Longrightarrow> EvConnect s \<in> set (m_call (foldl deliver t es))"
proof (induction es arbitrary: t)
  case (Cons e es)
  have "EvConnect s \<in> set (m_call (deliver t (EventConnect s)))"
    by (simp add: deliver_def eventConnect_def tcp_push_def)
  then show ?case using Cons delivers_same [of "deliver t e" es] by auto
qed simp

lemma reported_delivers: "reported t s \<Longrightarrow> reported (foldl deliver t es) s"
  using delivers_same [of t es] by (auto simp: reported_def onlines_def)

lemma tcp_inv_delivers: "tcp_inv (foldl deliver t es) = tcp_inv t"
  using delivers_same [of t es] by (simp add: tcp_inv_def)

text \<open>
  A handler starts reads and writes only on a connection that is up, and a connection comes up
  only together with the report of it.
\<close>

definition handler_ok :: "'b connection \<Rightarrow> 'b connection \<Rightarrow> 'b effect list \<Rightarrow> bool" where
  "handler_ok c c' es \<longleftrightarrow> c_session c' = c_session c \<and> \<not> list_ex is_connect es \<and>
     (m_connect c' \<or> list_ex is_read es \<or> writes es \<noteq> [] \<longrightarrow> m_connect c \<or> EventConnect (c_session c) \<in> set es)"

lemma writes_ne: "writes es \<noteq> [] \<Longrightarrow> \<exists>b. AsyncWrite b \<in> set es"
  by (induction es rule: writes.induct) auto

lemma writeMessage_life:
  assumes "writeMessage dbg vt c n = Inr (c', es)"
  shows "handler_ok c c' es"
  using assms
  by (auto simp: writeMessage_def rbind_eq_Inr Let_def handler_ok_def split: if_splits)

lemma handleClose_life: "handleClose c er = (c', es) \<Longrightarrow> handler_ok c c' es"
  by (auto simp: handleClose_def conn_close_def handler_ok_def split: if_splits)

lemma handlAccept_life: "handlAccept c = (c', es) \<Longrightarrow> handler_ok c c' es"
  by (auto simp: handlAccept_def Let_def beginRead_def handler_ok_def)

lemma run_task_life: "run_task dbg vt c k = Inr (c', es) \<Longrightarrow> handler_ok c c' es"
  by (cases k) (auto simp: run_task_def intro: writeMessage_life handleClose_life handlAccept_life)

lemma handleReadSome_life:
  assumes "handleReadSome dbg vt c er data = Some (Inr (c', es))"
  shows "handler_ok c c' es"
proof -
  note S = handleReadSome_same [OF assms]
  then have "\<not> list_ex is_connect es" by (force simp: list_ex_iff)
  moreover have "writes es = []" using S writes_ne [of es] by force
  moreover have "m_connect c" if "list_ex is_read es"
    using assms that by (auto simp: handleReadSome_def split: if_splits)
  ultimately show ?thesis using S by (auto simp: handler_ok_def same_send_def)
qed

lemma handleWrite_life: "handleWrite dbg vt c er n = Inr (c', es) \<Longrightarrow> handler_ok c c' es"
  by (auto simp: handleWrite_def Let_def onError_def conn_close_def handler_ok_def split: if_splits
      dest!: writeMessage_life)

lemma handleConnect_life: "handleConnect c er = (c', es) \<Longrightarrow> handler_ok c c' es"
  by (auto simp: handleConnect_def Let_def beginRead_def handler_ok_def split: if_splits)

lemma run_call_life:
  "run_call c k = (c', es) \<Longrightarrow> c_session c' = c_session c \<and> m_connect c' = m_connect c \<and>
    \<not> list_ex is_read es \<and> writes es = [] \<and> (list_ex is_connect es \<longleftrightarrow> (\<exists>e. k = CallConnect e))"
  by (cases k) (auto simp: run_call_def conn_send_def conn_close_def onError_def postAccept_def conn_connect_def)

lemma writes_append [simp]: "writes (es @ fs) = writes es @ writes fs"
  by (induction es rule: writes.induct) simp_all

lemma run_own_life:
  assumes "run_own acts c = (c', es)"
  shows "c_session c' = c_session c \<and> m_connect c' = m_connect c \<and> \<not> list_ex is_read es \<and> writes es = [] \<and>
    (list_ex is_connect es \<longrightarrow> (\<exists>e. OnConn (c_session c) (CallConnect e) \<in> set acts))"
  using assms
proof (induction acts c arbitrary: c' es rule: run_own.induct)
  case (2 s k acts c)
  show ?case
  proof (cases "s = c_session c")
    case True
    obtain c1 es1 c2 es2 where r: "run_call c k = (c1, es1)" "run_own acts c1 = (c2, es2)" by fastforce
    have "c' = c2" "es = es1 @ es2" using "2.prems" True r by simp_all
    then show ?thesis
      using "2.IH"(1) [OF True r(1) [symmetric] refl r(2)] run_call_life [OF r(1)] True by auto
  next
    case False
    then show ?thesis using "2.IH"(2) [OF False, of c' es] "2.prems" by auto
  qed
qed auto

section \<open>What the endpoint does\<close>

lemma beginAccept_life:
  assumes "beginAccept t p = Inr (t', p', acts)"
  shows "t_session t' = t_session t \<and> (\<forall>s e. OnConn s (CallConnect e) \<notin> set acts)"
  using assms by (auto simp: beginAccept_def createConnection_def nextSession_def rbind_eq_Inr Let_def split: if_splits)

lemma start_life:
  assumes "tcp_start lo t p = Inr (r, t', p', acts)"
  shows "t_session t' = t_session t \<and> (\<forall>s e. OnConn s (CallConnect e) \<in> set acts \<longrightarrow> t_session t = Some s)"
proof (cases "m_serviceType (t_config t)")
  case CLIENT_FLAG
  then show ?thesis
    using assms by (auto simp: tcp_start_def client_doStart_def t_config_def Let_def split: option.splits)
next
  case SERVER_FLAG
  then show ?thesis
    using assms by (cases lo) (auto simp: tcp_start_def server_doStart_def t_config_def Let_def rbind_eq_Inr
        dest: beginAccept_life)
qed

lemma stop_life:
  assumes "tcp_stop t = Inr (r, t', acts)"
  shows "t' = t\<lparr>m_stop := True\<rparr> \<and> (\<forall>s e. OnConn s (CallConnect e) \<notin> set acts)"
  using assms by (auto simp: tcp_stop_def server_doStop_def rbind_eq_Inr Let_def split: service_flag.splits if_splits)

lemma accept_life:
  assumes "acceptSocket t p er = Inr (t', p', acts)"
  shows "t_session t' = t_session t \<and> (\<forall>s e. OnConn s (CallConnect e) \<notin> set acts)"
  using assms by (auto simp: acceptSocket_def rbind_eq_Inr split: option.splits if_splits dest: beginAccept_life)

lemma run_event_life:
  assumes "tcp_inv t" and "pool_inv p" and "run_event lo t p ev = Inr (t', p', acts)"
  shows "tcp_inv t' \<and> pool_inv p' \<and> t_session t' = t_session t \<and> t_config t' = t_config t \<and>
    tcp_keys t' = event_keys (tcp_keys t) ev \<and> m_call t' = m_call t \<and>
    (\<forall>s. ev = EvClose s \<longrightarrow> CloseFun (m_name (t_config t)) s \<in> set acts) \<and>
    (\<forall>s e. OnConn s (CallConnect e) \<in> set acts \<longrightarrow> t_session t = Some s)"
proof (cases "ev = EvStart")
  case False
  from run_event_ok [OF this assms(1,2), of lo] assms(3) show ?thesis by (cases ev) auto
next
  case True
  then obtain r where s: "tcp_start lo t p = Inr (r, t', p', acts)"
    using assms(3) by (auto simp: run_event_def rbind_eq_Inr Let_def)
  from start_life [OF s] tcp_start_same [OF s] show ?thesis
    using True assms(1,2) pool_keys_same [of p' p] by (simp add: tcp_inv_def t_config_def tcp_keys_def)
qed

lemma run_events_life:
  assumes "tcp_inv t" and "pool_inv p" and "run_events lo t p evs = Inr (t', p', acts)"
  shows "tcp_inv t' \<and> pool_inv p' \<and> t_session t' = t_session t \<and> t_config t' = t_config t \<and>
    tcp_keys t' = foldl event_keys (tcp_keys t) evs \<and> m_call t' = m_call t \<and>
    (\<forall>s. EvClose s \<in> set evs \<longrightarrow> CloseFun (m_name (t_config t)) s \<in> set acts) \<and>
    (\<forall>s e. OnConn s (CallConnect e) \<in> set acts \<longrightarrow> t_session t = Some s)"
  using assms
proof (induction evs arbitrary: t p acts)
  case Nil
  then show ?case by simp
next
  case (Cons ev evs)
  obtain t1 p1 a1 a2 where 1: "run_event lo t p ev = Inr (t1, p1, a1)" "run_events lo t1 p1 evs = Inr (t', p', a2)"
      "acts = a1 @ a2"
    using Cons.prems(3) by (auto simp: rbind_eq_Inr)
  note E = run_event_life [OF Cons.prems(1,2) 1(1)]
  then show ?case using Cons.IH [OF _ _ 1(2)] 1(3) by auto
qed

text \<open>A session that is online, or about to be, stays so unless a close of it is run.\<close>

lemma event_keys_stay:
  assumes "s \<in> S \<or> EvConnect s \<in> set evs" and "EvClose s \<notin> set evs"
  shows "s \<in> foldl event_keys S evs"
  using assms
proof (induction evs arbitrary: S)
  case (Cons ev evs)
  have "s \<in> event_keys S ev \<or> EvConnect s \<in> set evs" using Cons.prems by (cases ev) auto
  then show ?case using Cons by simp
qed simp

lemma ep_run_life:
  assumes "tcp_inv t" and "pool_inv p" and "ep_run lo k t p = Inr (t', p', acts)"
  shows "tcp_inv t' \<and> pool_inv p' \<and> t_session t' = t_session t \<and>
    (\<forall>s e. OnConn s (CallConnect e) \<in> set acts \<longrightarrow> t_session t = Some s) \<and>
    (reported t s \<longrightarrow> reported t' s \<or> CloseFun (m_name (t_config t')) s \<in> set acts)"
proof (cases k)
  case EpPoll
  then have r: "run_events lo (t\<lparr>m_call := []\<rparr>) p (m_call t) = Inr (t', p', acts)"
    using assms(3) by (simp add: ep_run_def tcp_poll_def)
  have "tcp_inv (t\<lparr>m_call := []\<rparr>)" using assms(1) by (simp add: tcp_inv_def)
  note E = run_events_life [OF this assms(2) r]
  have "s \<in> set (onlines t')" if "reported t s" "EvClose s \<notin> set (m_call t)"
  proof -
    have "s \<in> tcp_keys t \<or> EvConnect s \<in> set (m_call t)"
      using that tcp_keys_onlines [OF assms(1)] by (auto simp: reported_def)
    from event_keys_stay [OF this that(2)] show ?thesis using E tcp_keys_onlines [of t'] by (simp add: tcp_keys_def)
  qed
  then show ?thesis using E by (auto simp: reported_def t_config_def)
next
  case (EpAccept er)
  then have a: "acceptSocket t p er = Inr (t', p', acts)" using assms(3) by (simp add: ep_run_def)
  show ?thesis using accept_life [OF a] acceptSocket_same [OF a] assms(1,2) pool_keys_same [of p' p]
    by (auto simp: tcp_inv_def reported_def onlines_def)
next
  case EpStart
  then obtain r where a: "tcp_start lo t p = Inr (r, t', p', acts)" using assms(3) by (auto simp: ep_run_def rbind_eq_Inr)
  show ?thesis using start_life [OF a] tcp_start_same [OF a] assms(1,2) pool_keys_same [of p' p]
    by (auto simp: tcp_inv_def reported_def onlines_def)
next
  case EpStop
  then obtain r where a: "tcp_stop t = Inr (r, t', acts)" "p' = p" using assms(3) by (auto simp: ep_run_def rbind_eq_Inr)
  show ?thesis using stop_life [OF a(1)] a(2) assms(1,2) by (auto simp: tcp_inv_def reported_def onlines_def)
qed

section \<open>While the session is not closed\<close>

definition life_inv :: "'b life \<Rightarrow> bool" where
  "life_inv st \<longleftrightarrow> tcp_inv (lf_obj st) \<and> pool_inv (lf_pool st) \<and>
     (lf_connect st \<longrightarrow> t_session (lf_obj st) = Some (c_session (lf_conn st))) \<and>
     (m_connect (lf_conn st) \<or> lf_read st \<or> lf_write st \<noteq> None \<longrightarrow>
        lf_closed st \<or> reported (lf_obj st) (c_session (lf_conn st)))"

lemma life_inv_handler:
  assumes inv: "life_inv st" and h: "handler_ok (lf_conn st) c es"
    and st': "lf_obj st' = lf_obj st" "lf_pool st' = lf_pool st" "lf_conn st' = c" "lf_closed st' = lf_closed st"
      "lf_read st' \<longrightarrow> lf_read st" "lf_connect st' \<longrightarrow> lf_connect st" "lf_write st' \<noteq> None \<longrightarrow> lf_write st \<noteq> None"
  shows "life_inv (lf_effects es st')"
proof -
  let ?s = "c_session (lf_conn st)"
  have "reported (foldl deliver (lf_obj st) es) ?s"
    if "EventConnect ?s \<in> set es \<or> reported (lf_obj st) ?s"
    using that delivers_connect [of ?s es "lf_obj st"] reported_delivers by (auto simp: reported_def)
  note rep = this
  let ?t = "lf_effects es st'"
  have sel: "lf_obj ?t = foldl deliver (lf_obj st) es" "lf_pool ?t = lf_pool st" "lf_conn ?t = c"
    "lf_closed ?t = lf_closed st" "c_session c = ?s"
    using st' h by (simp_all add: lf_effects_def handler_ok_def)
  have "lf_connect ?t \<longrightarrow> lf_connect st" using st'(6) h by (simp add: lf_effects_def handler_ok_def)
  moreover have "m_connect c \<or> lf_read ?t \<or> lf_write ?t \<noteq> None \<longrightarrow>
      m_connect (lf_conn st) \<or> lf_read st \<or> lf_write st \<noteq> None \<or> EventConnect ?s \<in> set es"
    using st'(5,7) h by (cases "writes es") (auto simp: lf_effects_def handler_ok_def)
  ultimately show ?thesis
    unfolding life_inv_def sel tcp_inv_delivers
    using inv rep delivers_same [of "lf_obj st" es] unfolding life_inv_def by metis
qed

lemma life_inv_step:
  assumes step: "life_step dbg vt st st'" and inv: "life_inv st"
  shows "life_inv st'"
  using step
proof cases
  case (Task k q c es)
  show ?thesis unfolding Task(1) by (rule life_inv_handler [OF inv run_task_life [OF Task(3)]]) simp_all
next
  case (Read er data c es)
  show ?thesis unfolding Read(1) by (rule life_inv_handler [OF inv handleReadSome_life [OF Read(4)]]) simp_all
next
  case (Written b er n c es)
  show ?thesis unfolding Written(1) by (rule life_inv_handler [OF inv handleWrite_life [OF Written(4)]]) simp_all
next
  case (Connected er c es)
  show ?thesis unfolding Connected(1) by (rule life_inv_handler [OF inv handleConnect_life [OF Connected(4)]]) simp_all
next
  case (Call k p er c es)
  then have "handler_ok (lf_conn st) c es" using run_call_life [OF Call(4)] by (auto simp: handler_ok_def)
  then show ?thesis unfolding Call(1) by (rule life_inv_handler [OF inv]) simp_all
next
  case (Endpoint lo k t pool acts c es)
  have I: "tcp_inv (lf_obj st)" "pool_inv (lf_pool st)" using inv by (simp_all add: life_inv_def)
  note E = ep_run_life [OF I Endpoint(2), of "c_session (lf_conn st)"]
  note O = run_own_life [OF Endpoint(3)]
  show ?thesis
    unfolding Endpoint(1) using inv E O reported_delivers [of t "c_session (lf_conn st)" es] delivers_same [of t es]
    by (auto simp: life_inv_def lf_effects_def tcp_inv_delivers)
next
  case (Other e)
  show ?thesis
    unfolding Other(1) using inv deliver_same [of "lf_obj st" e]
    by (auto simp: life_inv_def tcp_inv_def reported_def onlines_def)
qed

lemma new_connection_down: "newConnection s sz = Inr c \<Longrightarrow> \<not> m_connect c"
  by (auto simp: newConnection_def rbind_eq_Inr)

lemma life_inv_reach: "life_reach dbg vt st \<Longrightarrow> life_inv st"
proof (induction rule: life_reach.induct)
  case (Start st)
  then have "\<not> m_connect (lf_conn st)" using new_connection_down by (auto simp: life_start_def)
  then show ?case using Start by (simp add: life_start_def life_inv_def pending_def)
next
  case (Step st st')
  then show ?case using life_inv_step by blast
qed

text \<open>
  Until the close of its session was reported to the user, a connection with an operation
  that is not completed is held; and a connection of a client always is.
\<close>

lemma pending_held:
  assumes "life_reach dbg vt st" and "pending st"
  shows "held st \<or> lf_closed st \<and> t_session (lf_obj st) \<noteq> Some (c_session (lf_conn st))"
  using life_inv_reach [OF assms(1)] assms(2) reported_keeps [of "lf_obj st" "c_session (lf_conn st)"]
  by (auto simp: life_inv_def pending_def held_def keeps_def)

section \<open>After the close was reported\<close>

text \<open>
  An accepted connection that is closed while its read is not completed: the socket is closed
  and the close reported; once that event was polled nothing holds the connection, but the
  handler of the aborted read is still to be called.
\<close>

definition online_life :: "'b connection \<Rightarrow> 'b tcp_obj \<Rightarrow> io_pool \<Rightarrow> 'b life" where
  "online_life c t pool = \<lparr>lf_conn = c, lf_obj = t, lf_pool = pool, lf_tasks = [], lf_read = True,
     lf_write = None, lf_connect = False, lf_closed = False\<rparr>"

lemma accepted_online:
  fixes vt :: "'b block_vt"
  shows "\<exists>c t pool. life_reach dbg vt (online_life c t pool) \<and> c_session c = 7 \<and> \<not> m_isSend c \<and>
    m_sendList c = [] \<and> \<not> hasRead (m_bufferSend c) \<and> m_call t = [] \<and> t_onlines t = [(7, ())] \<and>
    m_current t = Some 8 \<and> t_session t = None"
proof -
  let ?p = "\<lparr>np_config = config_server [] [] 0 0 0 [], np_funBlock = \<lambda>_ _. Inl NullDeref\<rparr> :: 'b net_property"
  let ?R = "life_reach dbg vt"
  let ?lo = ListenOk
  have "unat (64 :: size_t) \<le> PTRDIFF_MAX" by (simp add: PTRDIFF_MAX_def)
  then obtain c :: "'b connection" where c: "newConnection 7 64 = Inr c" "c_session c = 7" "\<not> m_isSend c" "m_sendList c = []"
      "nb_inv (m_bufferSend c)" "nb_unread (m_bufferSend c) = []"
    using newConnection_ok by blast
  then have nr: "\<not> hasRead (m_bufferSend c)" by (simp add: hasRead_iff)
  obtain pool0 where pool0: "pool_inv pool0" "m_curSessionId pool0 = 0" using ioObjectPool_ok [of 2 False] by auto
  let ?pool = "pool0\<lparr>m_curSessionId := 7\<rparr>"
  have pool: "pool_inv ?pool" using pool0 by (simp add: pool_inv_def)
  from createConnection_ok [OF this] obtain io p1 where
    p1: "createConnection ?pool = (Inr (8, p1, [NewConnection 8 io]) :: (_ \<times> _ \<times> 'b action list) res)"
      "pool_inv p1" "pool_keys p1 = pool_keys ?pool" by auto
  let ?t0 = "(tcpObj ?p)\<lparr>m_stop := False, m_acceptor := True, m_current := Some 7\<rparr>"
  let ?s0 = "\<lparr>lf_conn = c, lf_obj = ?t0, lf_pool = ?pool, lf_tasks = [], lf_read = False, lf_write = None,
      lf_connect = False, lf_closed = False\<rparr>"
  have "life_start ?s0"
    unfolding life_start_def using c(1) pool
    by (auto simp: pending_def tcpObj_def tcp_inv_def intro: exI [of _ 7])
  then have r0: "?R ?s0" by (rule life_reach.Start)
  let ?t1 = "?t0\<lparr>m_current := Some 8\<rparr>"
  let ?s1 = "?s0\<lparr>lf_obj := ?t1, lf_pool := p1, lf_tasks := [RunAccept]\<rparr>"
  have "ep_run ?lo (EpAccept False) (lf_obj ?s0) (lf_pool ?s0) =
      Inr (?t1, p1, [OnConn 7 CallPostAccept, NewConnection 8 io, AsyncAccept 8])"
    using p1(1) by (simp add: ep_run_def acceptSocket_def beginAccept_def tcpObj_def)
  moreover have "run_own [OnConn 7 CallPostAccept, NewConnection 8 io, AsyncAccept 8] (lf_conn ?s0) =
      (c, [IoPost RunAccept])"
    using c(2) by (simp add: run_call_def postAccept_def)
  ultimately have "life_step dbg vt ?s0 ?s1"
    using life_step.Endpoint [of ?lo "EpAccept False" ?s0] by (force simp: lf_effects_def deliver_def)
  with r0 have r1: "?R ?s1" by (rule life_reach.Step)
  let ?c2 = "c\<lparr>m_connect := True\<rparr>"
  let ?s2 = "?s1\<lparr>lf_conn := ?c2, lf_obj := ?t1\<lparr>m_call := [EvConnect 7]\<rparr>, lf_tasks := [], lf_read := True\<rparr>"
  have "run_task dbg vt (lf_conn ?s1) RunAccept = Inr (?c2, [EventConnect 7,
      AsyncReadSome (maxLength (m_bufferRecv ?c2) - nb_length (m_bufferRecv ?c2))])"
    using c(2) by (simp add: run_task_def handlAccept_def beginRead_def)
  from life_step.Task [of ?s1 RunAccept "[]", OF _ this] have "life_step dbg vt ?s1 ?s2"
    by (simp add: lf_effects_def deliver_def eventConnect_def tcp_push_def tcpObj_def)
  with r1 have r2: "?R ?s2" by (rule life_reach.Step)
  let ?t3 = "?t1\<lparr>t_onlines := [(7, ())]\<rparr>"
  let ?s3 = "?s2\<lparr>lf_obj := ?t3, lf_pool := addSession 7 p1\<rparr>"
  have "ep_run ?lo EpPoll (lf_obj ?s2) (lf_pool ?s2) = Inr (?t3, addSession 7 p1, [ConnectFun (m_name (np_config ?p)) 7])"
    by (simp add: ep_run_def tcp_poll_def run_event_def tcpObj_def t_config_def)
  from life_step.Endpoint [OF this, of ?c2 "[]" dbg vt] have "life_step dbg vt ?s2 ?s3"
    by (simp add: lf_effects_def)
  with r2 have r3: "?R ?s3" by (rule life_reach.Step)
  have "?s3 = online_life ?c2 ?t3 (addSession 7 p1)" by (simp add: online_life_def)
  with r3 show ?thesis
    using c nr by (intro exI [of _ ?c2] exI [of _ ?t3] exI [of _ "addSession 7 p1"]) (simp add: tcpObj_def)
qed

lemma dangling_read:
  fixes vt :: "'b block_vt"
  shows "\<exists>st. life_reach dbg vt (st :: 'b life) \<and> lf_read st \<and> \<not> held st"
proof -
  obtain c t pool where r3: "life_reach dbg vt (online_life c t pool)" and
    c: "c_session c = 7" "\<not> m_isSend c" "m_sendList c = []" "\<not> hasRead (m_bufferSend c)" and
    t: "m_call t = []" "t_onlines t = [(7, ())]" "m_current t = Some 8" "t_session t = None"
    using accepted_online by blast
  let ?R = "life_reach dbg vt" and ?s3 = "online_life c t pool"
  let ?s4 = "?s3\<lparr>lf_tasks := [RunClose False]\<rparr>"
  have "run_call (lf_conn ?s3) (CallClose False) = (c, [IoPost (RunClose False)])"
    by (simp add: run_call_def conn_close_def online_life_def)
  from life_step.Call [OF _ _ this, of undefined False dbg vt] have "life_step dbg vt ?s3 ?s4"
    using c(1) t(2) by (simp add: lf_effects_def deliver_def onlines_def online_life_def)
  with r3 have r4: "?R ?s4" by (rule life_reach.Step)
  let ?c5 = "c\<lparr>m_connect := False\<rparr>"
  let ?s5 = "?s4\<lparr>lf_conn := ?c5, lf_obj := t\<lparr>m_call := [EvClose 7]\<rparr>, lf_tasks := []\<rparr>"
  have "run_task dbg vt (lf_conn ?s4) (RunClose False) = Inr (?c5, [SocketShutdown, SocketClose, EventClose 7])"
    using c by (simp add: run_task_def handleClose_def online_life_def)
  from life_step.Task [of ?s4 "RunClose False" "[]", OF _ this] have "life_step dbg vt ?s4 ?s5"
    using t(1) by (simp add: lf_effects_def deliver_def eventCloseFun_def tcp_push_def online_life_def)
  with r4 have r5: "?R ?s5" by (rule life_reach.Step)
  let ?t6 = "t\<lparr>m_call := [], t_onlines := []\<rparr>"
  let ?s6 = "?s5\<lparr>lf_obj := ?t6, lf_pool := delSession 7 pool, lf_closed := True\<rparr>"
  have "ep_run ListenOk EpPoll (lf_obj ?s5) (lf_pool ?s5) =
      Inr (?t6, delSession 7 pool, [CloseFun (m_name (t_config t)) 7])"
    using t(2) by (simp add: ep_run_def tcp_poll_def run_event_def t_config_def online_life_def)
  from life_step.Endpoint [OF this, of ?c5 "[]" dbg vt] have "life_step dbg vt ?s5 ?s6"
    using c(1) by (simp add: lf_effects_def t_config_def online_life_def)
  with r5 have "?R ?s6" by (rule life_reach.Step)
  moreover have "lf_read ?s6" "\<not> held ?s6" using c(1) t by (simp_all add: held_def keeps_def onlines_def online_life_def)
  ultimately show ?thesis by blast
qed

end
