(* ===== verification/Session_Ids.thy ===== *)
theory Session_Ids
  imports Service_Invariant
begin

text \<open>
  The ids of the connections a service makes, in every call that may make one: \<open>add\<close> of a
  client, the start of a server, an accepted socket, and the events a poll runs.  A connection
  is known by its id everywhere, so two of them must not share one.
\<close>

section \<open>Connections that are made\<close>

fun new_ids :: "'b action list \<Rightarrow> session_id list" where
  "new_ids [] = []"
| "new_ids (NewConnection s io # acts) = s # new_ids acts"
| "new_ids (_ # acts) = new_ids acts"

lemma new_ids_append [simp]: "new_ids (as @ bs) = new_ids as @ new_ids bs"
  by (induction as rule: new_ids.induct) simp_all

lemma new_ids_OnConn [simp]: "new_ids (map (\<lambda>s. OnConn s (f s)) ss) = []"
  by (induction ss) simp_all

text \<open>A step that takes the pool from \<open>p\<close> to \<open>p'\<close> gives out the next ids, in order.\<close>

definition mints :: "io_pool \<Rightarrow> 'b action list \<Rightarrow> io_pool \<Rightarrow> bool" where
  "mints p acts p' \<longleftrightarrow>
     new_ids acts = map (\<lambda>k. m_curSessionId p + of_nat (Suc k)) [0..<length (new_ids acts)] \<and>
     m_curSessionId p' = m_curSessionId p + of_nat (length (new_ids acts))"

lemma mints_none: "new_ids acts = [] \<Longrightarrow> m_curSessionId p' = m_curSessionId p \<Longrightarrow> mints p acts p'"
  by (simp add: mints_def)

lemma mints_append:
  assumes "mints p as q" and "mints q bs r"
  shows "mints p (as @ bs) r"
proof -
  let ?m = "length (new_ids as)" and ?n = "length (new_ids bs)"
  let ?f = "\<lambda>p k. m_curSessionId p + of_nat (Suc k)"
  have "map (?f q) [0..<?n] = map (?f p) [?m..<?m + ?n]"
    using assms(1) by (auto simp: mints_def intro!: nth_equalityI)
  then have "new_ids bs = map (?f p) [?m..<?m + ?n]" using assms(2) by (simp only: mints_def)
  moreover have "new_ids as = map (?f p) [0..<?m]" using assms(1) by (simp only: mints_def)
  moreover have "[0..<?m + ?n] = [0..<?m] @ [?m..<?m + ?n]" by (rule upt_add_eq_append) simp
  ultimately have "new_ids (as @ bs) = map (?f p) [0..<?m + ?n]" by (simp only: new_ids_append map_append)
  moreover have "m_curSessionId r = m_curSessionId p + of_nat (?m + ?n)" using assms by (simp add: mints_def)
  ultimately show ?thesis by (simp add: mints_def)
qed

lemma mints_skip [simp]:
  "mints p (OnConn s k # acts) r = mints p acts r" "mints p (AcceptorListen ep io # acts) r = mints p acts r"
  by (simp_all add: mints_def)

lemma mints_after: "mints p as r \<Longrightarrow> new_ids bs = [] \<Longrightarrow> mints p (as @ bs) r"
  by (simp add: mints_def)

section \<open>Steps of an endpoint\<close>

lemma getIoService_id: "getIoService p = Inr (io, p') \<Longrightarrow> m_curSessionId p' = m_curSessionId p"
  by (auto simp: getIoService_def Let_def split: if_splits)

lemma createConnection_mints: "createConnection p = Inr (s, p', acts) \<Longrightarrow> mints p acts p'"
  by (auto simp: createConnection_def nextSession_def mints_def rbind_eq_Inr dest: getIoService_id)

lemma beginAccept_mints:
  assumes "beginAccept t p = Inr (t', p', acts)"
  shows "mints p acts p'"
  using assms
  by (auto simp: beginAccept_def rbind_eq_Inr Let_def split: if_splits
      intro: mints_none mints_after createConnection_mints)

lemma acceptSocket_mints:
  assumes "acceptSocket t p er = Inr (t', p', acts)"
  shows "mints p acts p'"
  using assms
  by (auto simp: acceptSocket_def rbind_eq_Inr split: option.splits if_splits
      intro: mints_none dest: beginAccept_mints)

lemma tcp_start_mints:
  fixes t :: "'b tcp_obj"
  assumes "tcp_start lo t p = Inr (r, t', p', acts)"
  shows "mints p acts p'"
proof (cases "m_serviceType (t_config t)")
  case CLIENT_FLAG
  then show ?thesis
    using assms by (auto simp: tcp_start_def client_doStart_def t_config_def Let_def intro: mints_none split: option.splits)
next
  case SERVER_FLAG
  let ?t = "t\<lparr>m_stop := False\<rparr>"
  have "server_doStart lo ?t p = Inr (r, t', p', acts)"
    using assms SERVER_FLAG by (simp add: tcp_start_def t_config_def)
  then obtain io p1 where g: "getIoService p = Inr (io, p1)" and
    c: "acts = [] \<and> p' = p1 \<or> (\<exists>ep a. beginAccept (?t\<lparr>m_acceptor := True\<rparr>) p1 = Inr (t', p', a) \<and>
          acts = AcceptorListen ep io # a)"
    by (cases lo) (auto simp: server_doStart_def rbind_eq_Inr Let_def)
  have m: "mints p ([] :: 'b action list) p1" using getIoService_id [OF g] by (simp add: mints_none)
  from m mints_append [OF m] c show ?thesis by (auto dest: beginAccept_mints)
qed

lemma run_event_mints:
  assumes "run_event lo t p ev = Inr (t', p', acts)"
  shows "mints p acts p'"
  using assms
  by (cases ev) (auto simp: run_event_def rbind_eq_Inr addSession_def delSession_def
      intro: mints_none dest: tcp_start_mints)

lemma run_events_mints: "run_events lo t p evs = Inr (t', p', acts) \<Longrightarrow> mints p acts p'"
  by (induction evs arbitrary: t p acts)
    (auto simp: rbind_eq_Inr mints_none dest!: run_event_mints intro: mints_append)

lemma stop_net_mints: "stop_net n t p = Inr (t', p', acts) \<Longrightarrow> mints p acts p'"
  by (auto simp: stop_net_def tcp_stop_def server_doStop_def rbind_eq_Inr Let_def intro!: mints_none
      split: service_flag.splits)

section \<open>Calls of the manager\<close>

lemma each_net_mints:
  assumes "\<And>n t p t' p' acts. f n t p = Inr (t', p', acts) \<Longrightarrow> mints p acts p'"
    and "each_net f nets p = Inr (nets', p', acts)"
  shows "mints p acts p'"
  using assms(2)
proof (induction nets arbitrary: p nets' acts)
  case (Cons x nets)
  obtain t1 p1 a1 nets2 a2 where 1: "f (fst x) (snd x) p = Inr (t1, p1, a1)" "each_net f nets p1 = Inr (nets2, p', a2)"
      "acts = a1 @ a2"
    using Cons.prems by (cases x) (auto simp: rbind_eq_Inr)
  show ?case unfolding 1(3) by (rule mints_append [OF assms(1) [OF 1(1)] Cons.IH [OF 1(2)]])
qed (simp add: mints_none)

lemma start_nets_mints: "start_nets lo nets p = Inr (r, nets', p', acts) \<Longrightarrow> mints p acts p'"
proof (induction nets arbitrary: p r nets' acts)
  case (Cons x nets)
  obtain ok t1 p1 a1 where 1: "tcp_start (lo (fst x)) (snd x) p = Inr (ok, t1, p1, a1)"
    using Cons.prems by (cases x) (auto simp: rbind_eq_Inr)
  note m = tcp_start_mints [OF 1]
  show ?case
  proof (cases ok)
    case False
    then show ?thesis using Cons.prems 1 m by (cases x) auto
  next
    case True
    then obtain r2 nets2 a2 where 2: "start_nets lo nets p1 = Inr (r2, nets2, p', a2)" "acts = a1 @ a2"
      using Cons.prems 1 by (cases x) (auto simp: rbind_eq_Inr)
    show ?thesis unfolding 2(2) by (rule mints_append [OF m Cons.IH [OF 2(1)]])
  qed
qed (simp add: mints_none)

lemma send_clones_ids: "send_clones vt msg cs = Inr acts \<Longrightarrow> new_ids acts = []"
  by (induction cs arbitrary: acts) (auto simp: rbind_eq_Inr)

lemma request_mints:
  assumes "net_manager vt resolve lo alive rq sv = Inr (r, sv', acts)"
  shows "mints (m_ioPool sv) acts (m_ioPool sv')"
proof (cases rq)
  case ReqStart
  then show ?thesis
    using assms by (auto simp: net_manager_def service_start_def rbind_eq_Inr Let_def dest: start_nets_mints)
next
  case (ReqAdd p)
  then show ?thesis
    using assms
    by (auto simp: net_manager_def service_add_def tcp_create_def tcpClient_def rbind_eq_Inr Let_def
        split: if_splits option.splits service_flag.splits intro: mints_none dest: createConnection_mints)
next
  case ReqPoll
  have "mints p a p'" if "tcp_poll (lo n) t p = Inr (t', p', a)" for n t p t' p' a
    using that by (simp add: tcp_poll_def run_events_mints)
  from each_net_mints [where f = "\<lambda>n. tcp_poll (lo n)", OF this] ReqPoll assms show ?thesis
    by (auto simp: net_manager_def service_poll_def rbind_eq_Inr)
next
  case ReqSetStop
  from each_net_mints [where f = stop_net, OF stop_net_mints] ReqSetStop assms show ?thesis
    by (auto simp: net_manager_def setStop_def rbind_eq_Inr Let_def)
qed (use assms in \<open>auto simp: net_manager_def service_remove_def service_send_def service_send_name_def
      service_kick_def rbind_eq_Inr intro!: mints_none dest: send_clones_ids split: if_splits option.splits\<close>)

section \<open>Runs\<close>

text \<open>
  A run of the service with all its actions: calls of the manager, effects of connections an
  endpoint is told about, accepted sockets, in any order.
\<close>

inductive service_run ::
    "'b block_vt \<Rightarrow> (string \<Rightarrow> string option) \<Rightarrow> (string \<Rightarrow> listen_outcome) \<Rightarrow> (session_id \<Rightarrow> bool) \<Rightarrow>
     'b net_service \<Rightarrow> 'b action list \<Rightarrow> 'b net_service \<Rightarrow> bool"
  for vt resolve lo alive sv where
  Done: "service_run vt resolve lo alive sv [] sv"
| Request: "service_run vt resolve lo alive sv acts sv1 \<Longrightarrow>
    net_manager vt resolve lo alive rq sv1 = Inr (r, sv2, acts') \<Longrightarrow>
    service_run vt resolve lo alive sv (acts @ acts') sv2"
| Event: "service_run vt resolve lo alive sv acts sv1 \<Longrightarrow> om_find (m_nets sv1) n = Some t \<Longrightarrow>
    service_run vt resolve lo alive sv acts (sv1\<lparr>m_nets := om_put n (deliver t e) (m_nets sv1)\<rparr>)"
| Accept: "service_run vt resolve lo alive sv acts sv1 \<Longrightarrow> om_find (m_nets sv1) n = Some t \<Longrightarrow>
    acceptSocket t (m_ioPool sv1) er = Inr (t', pool, acts') \<Longrightarrow>
    service_run vt resolve lo alive sv (acts @ acts')
      (sv1\<lparr>m_ioPool := pool, m_nets := om_put n t' (m_nets sv1)\<rparr>)"

lemma service_run_mints:
  "service_run vt resolve lo alive sv acts sv' \<Longrightarrow> mints (m_ioPool sv) acts (m_ioPool sv')"
proof (induction rule: service_run.induct)
  case Done
  show ?case by (simp add: mints_none)
next
  case (Request acts sv1 rq r sv2 acts')
  from mints_append [OF Request.IH request_mints [OF Request.hyps(2)]] show ?case .
next
  case (Event acts sv1 n t e)
  then show ?case by simp
next
  case (Accept acts sv1 n t er t' pool acts')
  from mints_append [OF Accept.IH acceptSocket_mints [OF Accept.hyps(3)]] show ?case by simp
qed

text \<open>Two clients that are added get the ids 1 and 2.\<close>

lemma two_clients:
  "\<exists>sv0 acts sv. netService False 2 = Inr (sv0 :: 'b net_service) \<and> new_ids acts = [1, 2] \<and>
     service_run vt (\<lambda>_. Some ''127.0.0.1'') lo alive sv0 acts sv"
proof -
  let ?p = "\<lambda>n. \<lparr>np_config = config_client n ''localhost'' 80 True, np_funBlock = \<lambda>_ _. Inl NullDeref\<rparr> :: 'b net_property"
  let ?resolve = "\<lambda>_ :: string. Some ''127.0.0.1''"
  obtain sv0 :: "'b net_service" where sv0: "netService False 2 = Inr sv0" "m_nets sv0 = []"
      "pool_inv (m_ioPool sv0)" "m_curSessionId (m_ioPool sv0) = 0"
    using ioObjectPool_ok [of 2 False] by (auto simp: netService_def)
  from createConnection_ok [OF sv0(3)] obtain io1 p1 where c1:
    "createConnection (m_ioPool sv0) = (Inr (1, p1, [NewConnection 1 io1]) :: (_ \<times> _ \<times> 'b action list) res)"
    "pool_inv p1" "m_curSessionId p1 = 1" using sv0(4) by auto
  from createConnection_ok [OF c1(2)] obtain io2 p2 where c2:
    "createConnection p1 = (Inr (2, p2, [NewConnection 2 io2]) :: (_ \<times> _ \<times> 'b action list) res)" using c1(3) by auto
  obtain sv1 where 1: "net_manager vt ?resolve lo alive (ReqAdd (Some (?p ''a''))) sv0 =
      Inr (True, sv1, [NewConnection 1 io1])" "m_ioPool sv1 = p1" "om_find (m_nets sv1) ''b'' = None"
    using sv0(2) c1(1) by (auto simp: net_manager_def service_add_def tcp_create_def tcpClient_def config_client_def
        om_find_put om_inv_def deref_def)
  obtain sv2 where 2: "net_manager vt ?resolve lo alive (ReqAdd (Some (?p ''b''))) sv1 =
      Inr (True, sv2, [NewConnection 2 io2])"
    using 1(2,3) c2(1) by (auto simp: net_manager_def service_add_def tcp_create_def tcpClient_def config_client_def
        deref_def Let_def)
  from service_run.Request [OF service_run.Request [OF service_run.Done 1(1)] 2] sv0(1) show ?thesis
    by (intro exI [of _ sv0] exI [of _ "[] @ [NewConnection 1 io1] @ [NewConnection 2 io2]"] exI [of _ sv2]) simp
qed

text \<open>The ids of a run are those of as many calls of \<open>nextSession\<close>, and the next one is new too.\<close>

lemma run_ids:
  assumes "service_run vt resolve lo alive sv acts sv'"
  shows "new_ids acts @ [fst (nextSession (m_ioPool sv'))] =
    fst (session_calls (Suc (length (new_ids acts))) (m_ioPool sv))"
proof -
  let ?c = "m_curSessionId (m_ioPool sv)" and ?n = "length (new_ids acts)"
  have "new_ids acts = map (\<lambda>k. ?c + of_nat (Suc k)) [0..<?n]" "m_curSessionId (m_ioPool sv') = ?c + of_nat ?n"
    using service_run_mints [OF assms] by (simp_all only: mints_def)
  moreover have "?c + of_nat ?n + 1 = ?c + of_nat (Suc ?n)" by simp
  ultimately have "new_ids acts @ [fst (nextSession (m_ioPool sv'))] =
      map (\<lambda>k. ?c + of_nat (Suc k)) ([0..<?n] @ [?n])" by (simp only: nextSession_def fst_conv map_append list.map)
  also have "[0..<?n] @ [?n] = [0..<Suc ?n]" by simp
  finally show ?thesis by (simp only: session_calls_ok)
qed

lemma start_id: "netService dbg n = Inr sv \<Longrightarrow> m_curSessionId (m_ioPool sv) = 0"
  by (auto simp: netService_def ioObjectPool_def rbind_eq_Inr INVALID_SESSION_ID_def)

end
