(* ===== verification/Session_Notes.thy ===== *)
theory Session_Notes
  imports Connection_Life Session_Ids
begin

text \<open>
  What the user is told about one session: that it opened, a message, that it closed.  The
  same notes can be read off the effects of the connection, off the events in the queue of
  its endpoint, and off the calls of the user's functions.  Every handler of a connection
  reports its own session, gives its messages that session, and reports a message only while
  the connection is up (\<open>src/connection.cpp\<close>, \<open>src/tcp_object.cpp\<close>).
\<close>

section \<open>Notes\<close>

datatype 'b notice = Opened | Message 'b | Closed

fun effect_notes :: "'b effect \<Rightarrow> 'b notice list" where
  "effect_notes (EventConnect s) = [Opened]"
| "effect_notes (EventPostRecv b) = [Message b]"
| "effect_notes (EventClose s) = [Closed]"
| "effect_notes _ = []"

fun event_notes :: "'b block_vt \<Rightarrow> session_id \<Rightarrow> 'b tcp_event \<Rightarrow> 'b notice list" where
  "event_notes vt s (EvConnect x) = (if x = s then [Opened] else [])"
| "event_notes vt s (EvRecv b) = (if vt_session vt b = s then [Message b] else [])"
| "event_notes vt s (EvClose x) = (if x = s then [Closed] else [])"
| "event_notes vt s EvStart = []"

fun action_notes :: "'b block_vt \<Rightarrow> session_id \<Rightarrow> 'b action \<Rightarrow> 'b notice list" where
  "action_notes vt s (ConnectFun n x) = (if x = s then [Opened] else [])"
| "action_notes vt s (CallFun n b) = (if vt_session vt b = s then [Message b] else [])"
| "action_notes vt s (CloseFun n x) = (if x = s then [Closed] else [])"
| "action_notes vt s _ = []"

definition notices :: "'b effect list \<Rightarrow> 'b notice list" where
  "notices es = concat (map effect_notes es)"

definition queued :: "'b block_vt \<Rightarrow> session_id \<Rightarrow> 'b tcp_event list \<Rightarrow> 'b notice list" where
  "queued vt s evs = concat (map (event_notes vt s) evs)"

definition seen :: "'b block_vt \<Rightarrow> session_id \<Rightarrow> 'b action list \<Rightarrow> 'b notice list" where
  "seen vt s acts = concat (map (action_notes vt s) acts)"

lemma notices_simps [simp]:
  "notices [] = []" "notices (e # es) = effect_notes e @ notices es" "notices (es @ fs) = notices es @ notices fs"
  by (simp_all add: notices_def)

lemma queued_simps [simp]:
  "queued vt s [] = []" "queued vt s (ev # evs) = event_notes vt s ev @ queued vt s evs"
  "queued vt s (evs @ evs') = queued vt s evs @ queued vt s evs'"
  by (simp_all add: queued_def)

lemma seen_simps [simp]:
  "seen vt s [] = []" "seen vt s (a # acts) = action_notes vt s a @ seen vt s acts"
  "seen vt s (as @ bs) = seen vt s as @ seen vt s bs"
  by (simp_all add: seen_def)

lemma notices_posted: "notices (map EventPostRecv bs) = map Message bs"
  by (induction bs) simp_all

text \<open>The messages of a list of notes, and how often it says that the session opened.\<close>

fun told :: "'b notice list \<Rightarrow> 'b list" where
  "told [] = []"
| "told (Message b # ns) = b # told ns"
| "told (_ # ns) = told ns"

lemma told_append [simp]: "told (ms @ ns) = told ms @ told ns"
  by (induction ms rule: told.induct) simp_all

lemma told_map [simp]: "told (map Message bs) = bs"
  by (induction bs) simp_all

text \<open>
  The order of the notes of a session: a message only while it is open.  It may be closed
  when it is not open: an acceptor's error is reported so, and a connection may be closed twice.
\<close>

fun run_notes :: "bool \<Rightarrow> 'b notice list \<Rightarrow> bool option" where
  "run_notes up [] = Some up"
| "run_notes up (Opened # ns) = run_notes True ns"
| "run_notes up (Message b # ns) = (if up then run_notes up ns else None)"
| "run_notes up (Closed # ns) = run_notes False ns"

fun up_after :: "bool \<Rightarrow> 'b notice list \<Rightarrow> bool" where
  "up_after up [] = up"
| "up_after up (Opened # ns) = up_after True ns"
| "up_after up (Message b # ns) = up_after up ns"
| "up_after up (Closed # ns) = up_after False ns"

lemma run_notes_append:
  "run_notes up (ms @ ns) = (case run_notes up ms of None \<Rightarrow> None | Some up' \<Rightarrow> run_notes up' ns)"
  by (induction up ms rule: run_notes.induct) simp_all

lemma run_notes_prefix: "run_notes up (ms @ ns) \<noteq> None \<Longrightarrow> run_notes up ms \<noteq> None"
  by (auto simp: run_notes_append split: option.splits)

lemma run_notes_messages [simp]: "run_notes True (map Message bs) = Some True"
  by (induction bs) simp_all

lemma up_after_append [simp]: "up_after up (ms @ ns) = up_after (up_after up ms) ns"
  by (induction up ms rule: up_after.induct) simp_all

lemma run_notes_up: "run_notes up ns = Some up' \<Longrightarrow> up' = up_after up ns"
  by (induction up ns rule: run_notes.induct) (auto split: if_splits)

lemma up_after_opened: "up_after False ns \<Longrightarrow> Opened \<in> set ns"
proof (induction ns rule: rev_induct)
  case (snoc n ns)
  then show ?case by (cases n) auto
qed simp

lemma run_notes_between:
  assumes "run_notes False (xs @ Message b # ys) \<noteq> None"
  shows "\<exists>us vs. xs = us @ Opened # vs \<and> Closed \<notin> set vs"
proof -
  have "run_notes False xs = Some True"
    using assms by (auto simp: run_notes_append split: option.splits if_splits)
  then have "up_after False xs" using run_notes_up by fastforce
  then show ?thesis
  proof (induction xs rule: rev_induct)
    case (snoc n ns)
    show ?case
    proof (cases n)
      case Opened
      then show ?thesis by (intro exI [of _ ns] exI [of _ "[]"]) simp
    next
      case (Message m)
      then obtain us vs where "ns = us @ Opened # vs" "Closed \<notin> set vs" using snoc by auto
      then show ?thesis using Message by (intro exI [of _ us] exI [of _ "vs @ [n]"]) simp
    next
      case Closed
      then show ?thesis using snoc.prems by simp
    qed
  qed simp
qed

text \<open>An event leads to the call of the user's function that says the same.\<close>

lemma seen_event_action: "seen vt s (event_action n ev) = event_notes vt s ev"
  by (cases ev) simp_all

section \<open>Message classes that know their session\<close>

locale session_class = block_class vt for vt :: "'b block_vt" +
  assumes make_session: "vt_make vt s sz = Inr b \<Longrightarrow> vt_session vt b = s"
    and recv_session: "vt_recv vt b buf = Inr (x, b', buf') \<Longrightarrow> vt_session vt b' = vt_session vt b"

lemma netBlockBase_session: "netBlockBase s sz = Inr b \<Longrightarrow> m_session b = s"
  by (auto simp: netBlockBase_def rbind_eq_Inr split: if_splits)

lemma netBlock_session: "netBlock dbg s sz = Inr b \<Longrightarrow> m_session b = s"
  by (auto simp: netBlock_def rbind_eq_Inr Let_def block_base.defs net_block.defs dest!: netBlockBase_session
      split: option.splits)

lemma recvBody_session: "recvBody dbg None b buf = Inr (x, b', buf') \<Longrightarrow> m_session b' = m_session b"
  by (auto simp: recvBody_def rbind_eq_Inr Let_def apply_crypt_def split: if_splits option.splits)

lemma netBlock_recv_session:
  assumes "netBlock_recv dbg b buf = Inr (x, b', buf')"
  shows "m_session b' = m_session b"
  using assms by (auto simp: netBlock_recv_def recvHead_def rbind_eq_Inr split: if_splits option.splits
      dest!: recvBody_session)

interpretation net_session: session_class "netBlock_vt dbg"
  by unfold_locales (auto simp: netBlock_vt_def sMakeDefaultBlock_def dest: netBlock_session netBlock_recv_session)

lemma redisBlock2_session:
  "redisBlock2 s sz = Inr b \<Longrightarrow> m_session b = s"
  "redisBlock2_recv dbg cast b buf = Inr (x, b', buf') \<Longrightarrow> m_session b' = m_session b"
  by (auto simp: redisBlock2_def redisBlock2_recv_def rbind_eq_Inr Let_def block_base.defs redis_block2.defs
      dest!: netBlockBase_session)

interpretation redis2_session: session_class "redisBlock2_vt dbg cast"
  by unfold_locales (auto simp: redisBlock2_vt_def dest: redisBlock2_session)

lemma makeRedisBuffer_session: "makeRedisBuffer dbg cast b = Inr b' \<Longrightarrow> m_session b' = m_session b"
  by (auto simp: makeRedisBuffer_def rbind_eq_Inr Let_def split: if_splits)

lemma rb_reads_session:
  "rb_readline dbg b buf = Inr (l, b', buf') \<Longrightarrow> m_session b' = m_session b"
  "rb_readLen dbg b buf n = Inr (l, b', buf') \<Longrightarrow> m_session b' = m_session b"
  by (auto simp: rb_readline_def rb_readLen_def rbind_eq_Inr Let_def split: if_splits)

lemma rb_recvMulti_session:
  "rb_recvMulti dbg cast b buf = Inr (x, b', buf') \<Longrightarrow> m_session b' = m_session b"
proof (induction "unat (needReadLength buf)" arbitrary: b buf rule: less_induct)
  case less
  note S = rb_reads_session makeRedisBuffer_session
  from less.prems obtain line b1 buf1 where l: "rb_readline dbg b buf = Inr (line, b1, buf1)"
    by (subst (asm) rb_recvMulti.simps) (auto simp: rbind_eq_Inr)
  show ?case
  proof (cases line)
    case None
    then show ?thesis using less.prems l by (subst (asm) rb_recvMulti.simps) (auto dest: S)
  next
    case (Some str)
    note c = rb_readline_consumes [OF l [unfolded Some]]
    have IH: "rb_recvMulti dbg cast b2 buf2 = Inr (x, b', buf') \<Longrightarrow> m_session b' = m_session b2"
      if "unat (needReadLength buf2) \<le> unat (needReadLength buf1)" for b2 buf2
      using less.hyps [of buf2 b2] that c by simp
    note m1 = rb_reads_session(1) [OF l]
    obtain sub n where n: "str_substr str 1 = Inr sub" "lexical_cast cast sub = Inr n"
      using less.prems l Some by (subst (asm) rb_recvMulti.simps) (auto simp: rbind_eq_Inr Let_def)
    show ?thesis
    proof (cases "n = -1")
      case True
      then show ?thesis using less.prems l Some n m1
        by (subst (asm) rb_recvMulti.simps)
          (auto simp: rbind_eq_Inr Let_def split: if_splits dest!: IH [OF order_refl] makeRedisBuffer_session)
    next
      case False
      let ?b = "b1\<lparr>m_state := STATE_BODY, rb_bufSize := of_int n + 2\<rparr>"
      obtain bb b5 buf2 where r: "rb_readLen dbg ?b buf1 (of_int n + 2) = Inr (bb, b5, buf2)"
        using less.prems l Some n False by (subst (asm) rb_recvMulti.simps) (auto simp: rbind_eq_Inr Let_def)
      have m5: "m_session b5 = m_session b" using rb_reads_session(2) [OF r] m1 by simp
      note IH2 = IH [OF rb_readLen_consumes [OF r]]
      show ?thesis using less.prems l Some n False r m5
        by (subst (asm) rb_recvMulti.simps)
          (auto simp: rbind_eq_Inr Let_def split: if_splits option.splits dest!: IH2 makeRedisBuffer_session)
    qed
  qed
qed

lemma rb_recvBody_session:
  assumes "rb_recvBody dbg cast b buf = Inr (x, b', buf')"
  shows "m_session b' = m_session b"
  using assms
  by (auto simp: rb_recvBody_def rbind_eq_Inr Let_def split: if_splits option.splits
      dest!: rb_reads_session(2) makeRedisBuffer_session rb_recvMulti_session)

lemma rb_finish_session: "rb_finish dbg cast b vs n = Inr b' \<Longrightarrow> m_session b' = m_session b"
  unfolding rb_finish_def by (drule makeRedisBuffer_session) simp

lemma rb_recv_session:
  assumes "rb_recv dbg cast b buf = Inr (x, b', buf')"
  shows "m_session b' = m_session b"
proof (cases "no_reply \<noteq> rb_type b")
  case True
  then show ?thesis using assms by (simp add: rb_recv_def rb_recvBody_session)
next
  case False
  then obtain line b1 buf1 where l: "rb_readline dbg b buf = Inr (line, b1, buf1)"
    using assms by (auto simp: rb_recv_def rbind_eq_Inr)
  show ?thesis
    using assms False l rb_reads_session(1) [OF l]
    by (auto simp: rb_recv_def rbind_eq_Inr Let_def split: option.splits reply_t.splits if_splits
        dest!: rb_finish_session rb_recvBody_session)
qed

lemma redisBlock_session:
  "redisBlock s sz = Inr b \<Longrightarrow> m_session b = s"
  "redisBlock_recv dbg cast b buf = Inr (x, b', buf') \<Longrightarrow> m_session b' = m_session b"
  by (auto simp: redisBlock_def redisBlock_recv_def rbind_eq_Inr block_base.defs redis_block.defs
      dest!: netBlockBase_session rb_recv_session)

interpretation redis_session: session_class "redisBlock_vt dbg cast"
  by unfold_locales (auto simp: redisBlock_vt_def dest: redisBlock_session)

section \<open>What a handler reports\<close>

text \<open>The waiting message belongs to the session, and so does everything that is reported.\<close>

definition wait_ok :: "'b block_vt \<Rightarrow> 'b connection \<Rightarrow> bool" where
  "wait_ok vt c \<longleftrightarrow> (\<forall>w. m_waitMessage c = Some w \<longrightarrow> vt_session vt w = c_session c)"

fun own_effect :: "'b block_vt \<Rightarrow> session_id \<Rightarrow> 'b effect \<Rightarrow> bool" where
  "own_effect vt s (EventPostRecv b) \<longleftrightarrow> vt_session vt b = s"
| "own_effect vt s (EventConnect x) \<longleftrightarrow> x = s"
| "own_effect vt s (EventClose x) \<longleftrightarrow> x = s"
| "own_effect vt s _ \<longleftrightarrow> True"

definition reports :: "'b block_vt \<Rightarrow> 'b connection \<Rightarrow> 'b connection \<Rightarrow> 'b effect list \<Rightarrow> bool" where
  "reports vt c c' es \<longleftrightarrow> c_session c' = c_session c \<and> (wait_ok vt c \<longrightarrow> wait_ok vt c' \<and>
     list_all (own_effect vt (c_session c)) es \<and> run_notes (m_connect c) (notices es) = Some (m_connect c'))"

lemma wait_ok_update [simp]: "wait_ok vt (c\<lparr>m_isSend := x\<rparr>) = wait_ok vt c"
  by (simp add: wait_ok_def)

lemma writeMessage_reports: "writeMessage dbg vt c n = Inr (c', es) \<Longrightarrow> reports vt c c' es"
  by (auto simp: writeMessage_def rbind_eq_Inr Let_def reports_def wait_ok_def split: if_splits)

lemma handleClose_reports: "handleClose c er = (c', es) \<Longrightarrow> reports vt c c' es"
  by (auto simp: handleClose_def conn_close_def reports_def wait_ok_def split: if_splits)

lemma handlAccept_reports: "handlAccept c = (c', es) \<Longrightarrow> reports vt c c' es"
  by (auto simp: handlAccept_def Let_def beginRead_def reports_def wait_ok_def)

lemma run_task_reports: "run_task dbg vt c k = Inr (c', es) \<Longrightarrow> reports vt c c' es"
  by (cases k) (auto simp: run_task_def intro: writeMessage_reports handleClose_reports handlAccept_reports)

lemma handleWrite_reports:
  assumes "handleWrite dbg vt c er n = Inr (c', es)"
  shows "reports vt c c' es"
proof (cases "er \<or> \<not> m_connect c")
  case True
  then show ?thesis
    using assms by (auto simp: handleWrite_def Let_def onError_def conn_close_def reports_def wait_ok_def split: if_splits)
next
  case False
  then have "writeMessage dbg vt (c\<lparr>m_isSend := False\<rparr>) n = Inr (c', es)"
    using assms by (simp add: handleWrite_def Let_def)
  from writeMessage_reports [OF this] show ?thesis by (simp add: reports_def)
qed

lemma handleConnect_reports:
  assumes "handleConnect c er = (c', es)"
  shows "reports vt c c' es"
proof (cases "m_connect c")
  case True
  then show ?thesis using assms by (simp add: handleConnect_def reports_def)
next
  case False
  then show ?thesis
    using assms by (cases er) (auto simp: handleConnect_def Let_def beginRead_def reports_def wait_ok_def)
qed

lemma run_call_reports:
  "run_call c k = (c', es) \<Longrightarrow> reports vt c c' es \<and> notices es = [] \<and> m_waitMessage c' = m_waitMessage c \<and>
     m_bufferRecv c' = m_bufferRecv c"
  by (cases k) (auto simp: run_call_def conn_send_def conn_close_def onError_def postAccept_def conn_connect_def
      reports_def wait_ok_def)

context session_class
begin

lemma readMessage_session:
  assumes "readMessage vt c = Inr (p, c')" and "wait_ok vt c"
  shows "c_session c' = c_session c \<and> wait_ok vt c' \<and> (\<forall>m. p = Some m \<longrightarrow> vt_session vt m = c_session c)"
proof -
  obtain w x w' buf where w: "(case m_waitMessage c of None \<Rightarrow> vt_make vt (c_session c) 0 | Some w \<Rightarrow> Inr w) = Inr w"
      "vt_recv vt w (Some (m_bufferRecv c)) = Inr (x, w', buf)"
    using assms(1) by (auto simp: readMessage_def rbind_eq_Inr)
  have "vt_session vt w = c_session c"
    using w(1) assms(2) make_session by (auto simp: wait_ok_def split: option.splits)
  then have "vt_session vt w' = c_session c" using recv_session [OF w(2)] by simp
  then show ?thesis
    using assms(1) w by (auto simp: readMessage_def rbind_eq_Inr wait_ok_def split: if_splits)
qed

lemma readLoop_session:
  assumes ret: "readLoop vt c es = Some (Inr (c', es'))" and ok: "wait_ok vt c"
  shows "c_session c' = c_session c \<and> wait_ok vt c' \<and>
    (\<exists>bs. es' = es @ map EventPostRecv bs \<and> (\<forall>b \<in> set bs. vt_session vt b = c_session c))"
proof -
  let ?P = "\<lambda>vt' (c :: 'b connection) (es :: 'b effect list) (r :: 'b handler). vt' = vt \<longrightarrow> wait_ok vt c \<longrightarrow>
    (\<forall>c' es'. r = Inr (c', es') \<longrightarrow> c_session c' = c_session c \<and> wait_ok vt c' \<and>
      (\<exists>bs. es' = es @ map EventPostRecv bs \<and> (\<forall>b \<in> set bs. vt_session vt b = c_session c)))"
  have "?P vt c es (Inr (c', es'))"
  proof (rule readLoop.raw_induct [where P = ?P, OF _ ret])
    fix f and vt' :: "'b block_vt" and c :: "'b connection" and es r
    assume IH: "\<And>vt' c es r. f vt' c es = Some r \<Longrightarrow> ?P vt' c es r"
      and eq: "(if \<not> hasWrite (m_bufferRecv c) then Some (Inr (c, es))
        else case readMessage vt' c of Inl e \<Rightarrow> Some (Inl e)
          | Inr (p, c') \<Rightarrow> (case p of None \<Rightarrow> Some (Inr (c', es)) | Some m \<Rightarrow> f vt' c' (es @ [EventPostRecv m]))) = Some r"
    show "?P vt' c es r"
    proof (intro impI allI)
      fix c2 es2
      assume vt': "vt' = vt" and w: "wait_ok vt c" and r: "r = Inr (c2, es2)"
      show "c_session c2 = c_session c \<and> wait_ok vt c2 \<and>
        (\<exists>bs. es2 = es @ map EventPostRecv bs \<and> (\<forall>b \<in> set bs. vt_session vt b = c_session c))"
      proof (cases "hasWrite (m_bufferRecv c)")
        case False
        then show ?thesis using eq r w by simp
      next
        case True
        then obtain p c1 where 1: "readMessage vt c = Inr (p, c1)"
          using eq r vt' by (auto split: sum.splits)
        note S = readMessage_session [OF 1 w]
        show ?thesis
        proof (cases p)
          case None
          then show ?thesis using eq r vt' True 1 S by simp
        next
          case (Some m)
          then have "f vt' c1 (es @ [EventPostRecv m]) = Some r" using eq vt' True 1 by simp
          with IH [OF this] vt' S r obtain bs where "es2 = (es @ [EventPostRecv m]) @ map EventPostRecv bs"
              "\<forall>b \<in> set bs. vt_session vt b = c_session c1" "c_session c2 = c_session c1" "wait_ok vt c2" by blast
          then show ?thesis using S Some by (auto intro!: exI [of _ "m # bs"])
        qed
      qed
    qed
  qed
  then show ?thesis using ok by simp
qed

lemma handleReadSome_reports:
  assumes "handleReadSome dbg vt c er data = Some (Inr (c', es))"
  shows "reports vt c c' es"
proof (cases "\<not> m_connect c \<or> er")
  case True
  then show ?thesis
    using assms by (auto simp: handleReadSome_def onError_def conn_close_def reports_def split: if_splits)
next
  case False
  then obtain bf es1 where lp: "readLoop vt (c\<lparr>m_bufferRecv := bf, m_totalRevc := m_totalRevc c + of_nat (length data)\<rparr>) [] =
        Some (Inr (c', es1))" "es = es1 @ beginRead c'"
    using assms by (auto simp: handleReadSome_def Let_def rbind_eq_Inr split: sum.splits option.splits)
  have s: "c_session c' = c_session c" "m_connect c'"
    using readLoop_same [OF lp(1)] False by (simp_all add: same_send_def)
  have "wait_ok vt c' \<and> list_all (own_effect vt (c_session c)) es \<and>
    run_notes (m_connect c) (notices es) = Some (m_connect c')" if "wait_ok vt c"
  proof -
    have "wait_ok vt (c\<lparr>m_bufferRecv := bf, m_totalRevc := m_totalRevc c + of_nat (length data)\<rparr>)"
      using that by (simp add: wait_ok_def)
    from readLoop_session [OF lp(1) this] show ?thesis
      using False s lp(2) by (auto simp: notices_posted beginRead_def list_all_iff)
  qed
  then show ?thesis using s by (simp add: reports_def)
qed

end

end
