(* ===== verification/User_Calls.thy ===== *)
theory User_Calls
  imports Session_Notes
begin

text \<open>
  The functions of the user call the manager again: \<open>poll\<close> runs them in the middle of its work,
  and a program that answers messages sends from them (\<open>test/test.cpp\<close>).  Here \<open>poll\<close> is
  modelled with functions that call \<open>send\<close> and \<open>kick\<close>, each at the point of \<open>eventRecv\<close>,
  \<open>eventConnect\<close> and \<open>eventCloseFun\<close> of \<open>src/tcp_object.h\<close> where it is called: a session is in
  the pool before its connect function runs, and still there when its close function runs.
\<close>

section \<open>Calls from the functions of the user\<close>

datatype 'b user_call = UserSend 'b | UserKick session_id

text \<open>What the function that is called for an event does; it may throw.\<close>

type_synonym 'b user = "string \<Rightarrow> 'b tcp_event \<Rightarrow> 'b user_call list res"

definition user_call ::
    "'b block_vt \<Rightarrow> (session_id \<Rightarrow> bool) \<Rightarrow> 'b net_service \<Rightarrow> 'b user_call \<Rightarrow> 'b action list res" where
  "user_call vt alive sv k =
     rbind (case k of UserSend b \<Rightarrow> service_send vt alive b sv | UserKick s \<Rightarrow> service_kick alive s sv)
       (\<lambda>(_, _, acts). Inr acts)"

fun user_calls ::
    "'b block_vt \<Rightarrow> (session_id \<Rightarrow> bool) \<Rightarrow> 'b net_service \<Rightarrow> 'b user_call list \<Rightarrow> 'b action list res" where
  "user_calls vt alive sv [] = Inr []"
| "user_calls vt alive sv (k # ks) =
     rbind (user_call vt alive sv k) (\<lambda>as.
     rbind (user_calls vt alive sv ks) (\<lambda>bs. Inr (as @ bs)))"

text \<open>One event: \<open>sv\<close> is the service that polls, of which \<open>send\<close> and \<open>kick\<close> use the state and the pool.\<close>

definition event_calls ::
    "'b block_vt \<Rightarrow> (session_id \<Rightarrow> bool) \<Rightarrow> 'b user \<Rightarrow> 'b net_service \<Rightarrow> io_pool \<Rightarrow> string \<Rightarrow> 'b tcp_event \<Rightarrow>
     'b action list res" where
  "event_calls vt alive user sv pool name ev =
     rbind (user name ev) (\<lambda>ks. user_calls vt alive (sv\<lparr>m_ioPool := pool\<rparr>) ks)"

definition run_event_user ::
    "listen_outcome \<Rightarrow> 'b block_vt \<Rightarrow> (session_id \<Rightarrow> bool) \<Rightarrow> 'b user \<Rightarrow> 'b net_service \<Rightarrow>
     'b tcp_obj \<Rightarrow> io_pool \<Rightarrow> 'b tcp_event \<Rightarrow> 'b tcp_step" where
  "run_event_user lo vt alive user sv t pool ev =
     (let name = m_name (t_config t) in
      case ev of
        EvRecv p \<Rightarrow>
          rbind (event_calls vt alive user sv pool name ev) (\<lambda>acts.
          Inr (t, pool, CallFun name p # acts))
      | EvConnect s \<Rightarrow>
          let pool' = addSession s pool; t' = t\<lparr>t_onlines := om_put s () (t_onlines t)\<rparr> in
          rbind (event_calls vt alive user sv pool' name ev) (\<lambda>acts.
          Inr (t', pool', ConnectFun name s # acts))
      | EvClose s \<Rightarrow>
          rbind (event_calls vt alive user sv pool name ev) (\<lambda>acts.
          Inr (t\<lparr>t_onlines := om_erase s (t_onlines t)\<rparr>, delSession s pool, CloseFun name s # acts))
      | EvStart \<Rightarrow>
          rbind (tcp_start lo t pool) (\<lambda>(_, t', pool', acts). Inr (t', pool', acts)))"

fun run_events_user ::
    "listen_outcome \<Rightarrow> 'b block_vt \<Rightarrow> (session_id \<Rightarrow> bool) \<Rightarrow> 'b user \<Rightarrow> 'b net_service \<Rightarrow>
     'b tcp_obj \<Rightarrow> io_pool \<Rightarrow> 'b tcp_event list \<Rightarrow> 'b tcp_step" where
  "run_events_user lo vt alive user sv t pool [] = Inr (t, pool, [])"
| "run_events_user lo vt alive user sv t pool (ev # evs) =
     rbind (run_event_user lo vt alive user sv t pool ev) (\<lambda>(t1, pool1, acts1).
     rbind (run_events_user lo vt alive user sv t1 pool1 evs) (\<lambda>(t2, pool2, acts2).
     Inr (t2, pool2, acts1 @ acts2)))"

definition tcp_poll_user ::
    "listen_outcome \<Rightarrow> 'b block_vt \<Rightarrow> (session_id \<Rightarrow> bool) \<Rightarrow> 'b user \<Rightarrow> 'b net_service \<Rightarrow>
     'b tcp_obj \<Rightarrow> io_pool \<Rightarrow> 'b tcp_step" where
  "tcp_poll_user lo vt alive user sv t pool =
     run_events_user lo vt alive user sv (t\<lparr>m_call := []\<rparr>) pool (m_call t)"

definition service_poll_user ::
    "(string \<Rightarrow> listen_outcome) \<Rightarrow> 'b block_vt \<Rightarrow> (session_id \<Rightarrow> bool) \<Rightarrow> 'b user \<Rightarrow> 'b net_service \<Rightarrow>
     'b service_step" where
  "service_poll_user lo vt alive user sv =
     rbind (each_net (\<lambda>n. tcp_poll_user (lo n) vt alive user sv) (m_nets sv) (m_ioPool sv))
       (\<lambda>(nets, pool, acts). Inr (True, sv\<lparr>m_ioPool := pool, m_nets := nets\<rparr>, acts))"

section \<open>The service does not notice\<close>

text \<open>
  Calls of \<open>send\<close> and \<open>kick\<close> only add tasks to connections: they tell the user nothing, make no
  connection, and leave the service as it would be without them.
\<close>

definition is_call :: "'b action \<Rightarrow> bool" where
  "is_call a \<longleftrightarrow> (\<exists>s b. a = OnConn s (CallSend b)) \<or> (\<exists>s. a = OnConn s (CallClose False))"

lemma is_call_quiet: "list_all is_call acts \<Longrightarrow> (\<forall>vt s. seen vt s acts = []) \<and> new_ids acts = []"
  by (induction acts) (auto simp: is_call_def)

lemma user_calls_quiet: "user_calls vt alive sv ks = Inr acts \<Longrightarrow> list_all is_call acts"
proof (induction ks arbitrary: acts)
  case (Cons k ks)
  then obtain as bs where 1: "user_call vt alive sv k = Inr as" "user_calls vt alive sv ks = Inr bs" "acts = as @ bs"
    by (auto simp: rbind_eq_Inr)
  have "list_all is_call as"
    using 1(1) by (auto simp: user_call_def service_send_def service_kick_def rbind_eq_Inr is_call_def
        split: user_call.splits option.splits if_splits)
  then show ?case using Cons.IH [OF 1(2)] 1(3) by simp
qed simp

lemma event_calls_quiet: "event_calls vt alive user sv pool name ev = Inr acts \<Longrightarrow> list_all is_call acts"
  by (auto simp: event_calls_def rbind_eq_Inr dest: user_calls_quiet)

lemma run_event_user_plain:
  assumes "run_event_user lo vt alive user sv t pool ev = Inr (t', pool', acts)"
  shows "\<exists>acts0. run_event lo t pool ev = Inr (t', pool', acts0) \<and> new_ids acts = new_ids acts0 \<and>
    (\<forall>vt s. seen vt s acts = seen vt s acts0)"
proof (cases ev)
  case EvStart
  then show ?thesis using assms by (auto simp: run_event_user_def run_event_def)
qed (use assms in \<open>auto simp: run_event_user_def run_event_def Let_def rbind_eq_Inr dest!: event_calls_quiet is_call_quiet\<close>)

lemma run_events_user_plain:
  "run_events_user lo vt alive user sv t pool evs = Inr (t', pool', acts) \<Longrightarrow>
   \<exists>acts0. run_events lo t pool evs = Inr (t', pool', acts0) \<and> new_ids acts = new_ids acts0 \<and>
    (\<forall>vt s. seen vt s acts = seen vt s acts0)"
proof (induction evs arbitrary: t pool acts)
  case (Cons ev evs)
  then obtain t1 p1 a1 a2 where 1: "run_event_user lo vt alive user sv t pool ev = Inr (t1, p1, a1)"
      "run_events_user lo vt alive user sv t1 p1 evs = Inr (t', pool', a2)" "acts = a1 @ a2" by (auto simp: rbind_eq_Inr)
  from run_event_user_plain [OF 1(1)] Cons.IH [OF 1(2)] 1(3) show ?case by auto
qed simp

lemma each_net_user_plain:
  "each_net (\<lambda>n. tcp_poll_user (lo n) vt alive user sv) nets pool = Inr (nets', pool', acts) \<Longrightarrow>
   \<exists>acts0. each_net (\<lambda>n. tcp_poll (lo n)) nets pool = Inr (nets', pool', acts0) \<and> new_ids acts = new_ids acts0 \<and>
    (\<forall>vt s. seen vt s acts = seen vt s acts0)"
proof (induction nets arbitrary: pool nets' acts)
  case (Cons x nets)
  obtain n t where x: "x = (n, t)" by (cases x)
  obtain t1 p1 a1 nets2 a2 where 1: "tcp_poll_user (lo n) vt alive user sv t pool = Inr (t1, p1, a1)"
      "each_net (\<lambda>n. tcp_poll_user (lo n) vt alive user sv) nets p1 = Inr (nets2, pool', a2)" "acts = a1 @ a2"
      "nets' = (n, t1) # nets2"
    using Cons.prems by (auto simp: x rbind_eq_Inr)
  from run_events_user_plain [OF 1(1) [unfolded tcp_poll_user_def]] Cons.IH [OF 1(2)] 1(3,4) show ?case
    by (auto simp: x tcp_poll_def)
qed simp

lemma poll_user_plain:
  assumes "service_poll_user lo vt alive user sv = Inr (r, sv', acts)"
  shows "\<exists>acts0. service_poll lo sv = Inr (r, sv', acts0) \<and> new_ids acts = new_ids acts0 \<and>
    (\<forall>vt s. seen vt s acts = seen vt s acts0)"
  using assms each_net_user_plain [of lo vt alive user sv "m_nets sv" "m_ioPool sv"]
  by (fastforce simp: service_poll_user_def service_poll_def rbind_eq_Inr)

lemma poll_user_mints:
  assumes "service_poll_user lo vt alive user sv = Inr (r, sv', acts)"
  shows "mints (m_ioPool sv) acts (m_ioPool sv')"
proof -
  obtain acts0 where 0: "service_poll lo sv = Inr (r, sv', acts0)" "new_ids acts = new_ids acts0"
    using poll_user_plain [OF assms] by blast
  then have "net_manager vt Some lo (\<lambda>_. True) ReqPoll sv = Inr (r, sv', acts0)" by (simp add: net_manager_def)
  from request_mints [OF this] show ?thesis by (simp add: mints_def 0(2))
qed

text \<open>Functions that call nothing: the \<open>poll\<close> of \<open>Net_Service\<close>.\<close>

lemma poll_user_silent: "service_poll_user lo vt alive (\<lambda>_ _. Inr []) sv = service_poll lo sv"
proof -
  have ev: "run_event_user l vt alive (\<lambda>_ _. Inr []) sv t pool ev = run_event l t pool ev" for l t pool ev
    by (cases ev) (simp_all add: run_event_user_def run_event_def event_calls_def Let_def)
  have "run_events_user l vt alive (\<lambda>_ _. Inr []) sv t pool evs = run_events l t pool evs" for l t pool evs
    by (induction evs arbitrary: t pool) (simp_all add: ev)
  then have "tcp_poll_user l vt alive (\<lambda>_ _. Inr []) sv = tcp_poll l" for l
    by (intro ext) (simp add: tcp_poll_user_def tcp_poll_def)
  then show ?thesis by (simp add: service_poll_user_def service_poll_def)
qed

text \<open>
  If the functions do not throw, \<open>poll\<close> ends as without their calls, and the calls are all that
  is added to its actions.
\<close>

definition others :: "'b action list \<Rightarrow> 'b action list" where
  "others acts = filter (\<lambda>a. \<not> is_call a) acts"

lemma others_simps [simp]:
  "others [] = []" "others (acts @ acts') = others acts @ others acts'"
  "others (a # acts) = (if is_call a then others acts else a # others acts)"
  by (simp_all add: others_def)

lemma others_seen: "seen vt s (others acts) = seen vt s acts"
  by (induction acts) (auto simp: is_call_def)

lemma others_calls: "list_all is_call acts \<Longrightarrow> others acts = []"
  by (induction acts) simp_all

fun agrees :: "('c \<times> 'd \<times> 'b action list) res \<Rightarrow> ('c \<times> 'd \<times> 'b action list) res \<Rightarrow> bool" where
  "agrees (Inl e) y \<longleftrightarrow> y = Inl e"
| "agrees (Inr (t, p, as)) y \<longleftrightarrow> (\<exists>bs. y = Inr (t, p, bs) \<and> others bs = others as)"

lemma agrees_refl [simp]: "agrees x x"
  by (cases "(x, x)" rule: agrees.cases) simp_all

lemma agrees_bind:
  assumes "agrees x y" and "\<And>t p as. agrees (f t p) (g t p)"
  shows "agrees (rbind x (\<lambda>(t, p, as). rbind (f t p) (\<lambda>(t2, p2, as2). Inr (h t t2, p2, as @ as2))))
    (rbind y (\<lambda>(t, p, as). rbind (g t p) (\<lambda>(t2, p2, as2). Inr (h t t2, p2, as @ as2))))"
proof (cases "(x, y)" rule: agrees.cases)
  case (1 e y)
  then show ?thesis using assms(1) by simp
next
  case (2 t p as y)
  then obtain bs where y: "y = Inr (t, p, bs)" "others bs = others as" using assms(1) by auto
  show ?thesis
    using assms(2) [of t p] 2 y by (cases "(f t p, g t p)" rule: agrees.cases) auto
qed

lemma user_call_total: "\<exists>as. user_call vt alive sv k = Inr as"
  by (cases k) (auto simp: user_call_def service_send_def service_kick_def split: option.split)

lemma user_calls_total: "\<exists>as. user_calls vt alive sv ks = Inr as"
proof (induction ks)
  case (Cons k ks)
  then show ?case using user_call_total [of vt alive sv k] by auto
qed simp

lemma event_calls_total:
  assumes "\<And>name ev. \<exists>ks. user name ev = Inr ks"
  shows "\<exists>as. event_calls vt alive user sv pool name ev = Inr as \<and> others as = []"
proof -
  obtain ks where k: "user name ev = Inr ks" using assms by blast
  obtain as where as: "user_calls vt alive (sv\<lparr>m_ioPool := pool\<rparr>) ks = Inr as" using user_calls_total by blast
  show ?thesis using k as others_calls [OF user_calls_quiet [OF as]] by (simp add: event_calls_def)
qed

lemma run_event_agrees:
  assumes "\<And>name ev. \<exists>ks. user name ev = Inr ks"
  shows "agrees (run_event lo t pool ev) (run_event_user lo vt alive user sv t pool ev)"
proof -
  have e: "\<exists>as. event_calls vt alive user sv p name ev = Inr as \<and> others as = []" for p name ev
    by (rule event_calls_total [OF assms])
  show ?thesis
  proof (cases ev)
    case (EvRecv b)
    then show ?thesis using e [of pool "m_name (t_config t)" ev]
      by (auto simp: run_event_def run_event_user_def Let_def is_call_def)
  next
    case (EvConnect s)
    then show ?thesis using e [of "addSession s pool" "m_name (t_config t)" ev]
      by (auto simp: run_event_def run_event_user_def Let_def is_call_def)
  next
    case (EvClose s)
    then show ?thesis using e [of pool "m_name (t_config t)" ev]
      by (auto simp: run_event_def run_event_user_def Let_def is_call_def)
  next
    case EvStart
    then show ?thesis by (simp add: run_event_def run_event_user_def)
  qed
qed

lemma run_events_agree:
  assumes "\<And>name ev. \<exists>ks. user name ev = Inr ks"
  shows "agrees (run_events lo t pool evs) (run_events_user lo vt alive user sv t pool evs)"
proof (induction evs arbitrary: t pool)
  case (Cons ev evs)
  show ?case using agrees_bind [OF run_event_agrees [OF assms] Cons.IH, where h = "\<lambda>_ t. t"] by simp
qed simp

lemma each_net_agrees:
  assumes "\<And>name ev. \<exists>ks. user name ev = Inr ks"
  shows "agrees (each_net (\<lambda>n. tcp_poll (lo n)) nets pool) (each_net (\<lambda>n. tcp_poll_user (lo n) vt alive user sv) nets pool)"
proof (induction nets arbitrary: pool)
  case (Cons x nets)
  obtain n t where x: "x = (n, t)" by (cases x)
  have "agrees (tcp_poll (lo n) t pool) (tcp_poll_user (lo n) vt alive user sv t pool)"
    unfolding tcp_poll_def tcp_poll_user_def by (rule run_events_agree [OF assms])
  from agrees_bind [OF this Cons.IH, where h = "\<lambda>t nets. (n, t) # nets"] show ?case by (simp add: x)
qed simp

lemma poll_user_agrees:
  assumes "\<And>name ev. \<exists>ks. user name ev = Inr ks"
  shows "agrees (service_poll lo sv) (service_poll_user lo vt alive user sv)"
proof -
  have A: "agrees (each_net (\<lambda>n. tcp_poll (lo n)) (m_nets sv) (m_ioPool sv))
      (each_net (\<lambda>n. tcp_poll_user (lo n) vt alive user sv) (m_nets sv) (m_ioPool sv))" by (rule each_net_agrees [OF assms])
  show ?thesis
    unfolding service_poll_def service_poll_user_def
    using A by (cases "(each_net (\<lambda>n. tcp_poll (lo n)) (m_nets sv) (m_ioPool sv),
      each_net (\<lambda>n. tcp_poll_user (lo n) vt alive user sv) (m_nets sv) (m_ioPool sv))" rule: agrees.cases) auto
qed

text \<open>
  The close function is called before \<open>delSession\<close>: a message it sends to the session is taken,
  although its connection is down.
\<close>

lemma send_from_close:
  assumes "pool_inv pool" and "s \<in> pool_keys pool" and "isRun sv" and "alive s"
    and "user (m_name (t_config t)) (EvClose s) = Inr [UserSend b]" and "vt_session vt b = s"
  shows "run_event_user lo vt alive user sv t pool (EvClose s) =
    Inr (t\<lparr>t_onlines := om_erase s (t_onlines t)\<rparr>, delSession s pool,
      [CloseFun (m_name (t_config t)) s, OnConn s (CallSend b)])"
  using assms pool_session_ok [OF assms(1)]
  by (simp add: run_event_user_def event_calls_def user_call_def service_send_def isRun_def Let_def)

end
