(* ===== verification/Service_Notes.thy ===== *)
theory Service_Notes
  imports User_Calls
begin

text \<open>
  What the calls of the service tell the user about a session (\<open>src/service.cpp\<close>,
  \<open>src/tcp_object.cpp\<close>): only \<open>poll\<close> tells anything, namely what is in the queues, and the
  sessions of the pool change with what it tells; only \<open>send\<close> gives messages to connections,
  and only to those of the pool.
\<close>

section \<open>Actions\<close>

text \<open>An action that neither calls the user nor gives a message to a connection.\<close>

fun plain :: "'b action \<Rightarrow> bool" where
  "plain (NewConnection s io) = True"
| "plain (OnConn s (CallSend b)) = False"
| "plain (OnConn s k) = True"
| "plain (AcceptorListen p n) = True"
| "plain (AsyncAccept s) = True"
| "plain AcceptorClose = True"
| "plain _ = False"

text \<open>The messages the actions give to the connection of a session.\<close>

fun sent_to :: "session_id \<Rightarrow> 'b action list \<Rightarrow> 'b list" where
  "sent_to s [] = []"
| "sent_to s (OnConn x (CallSend b) # acts) = (if x = s then b # sent_to s acts else sent_to s acts)"
| "sent_to s (_ # acts) = sent_to s acts"

lemma sent_to_append [simp]: "sent_to s (as @ bs) = sent_to s as @ sent_to s bs"
  by (induction s as rule: sent_to.induct) simp_all

lemma sent_to_iff: "sent_to s acts = [] \<longleftrightarrow> (\<forall>b. OnConn s (CallSend b) \<notin> set acts)"
  by (induction s acts rule: sent_to.induct) auto

lemma plain_silent: "list_all plain acts \<Longrightarrow> seen vt s acts = [] \<and> sent_to s acts = []"
proof (induction acts)
  case (Cons a acts)
  have "action_notes vt s a = [] \<and> sent_to s (a # acts) = sent_to s acts"
    using Cons.prems by (cases a rule: plain.cases) simp_all
  then show ?case using Cons by simp
qed simp

lemma event_action_sent: "sent_to s (event_action n ev) = []"
  by (cases ev) simp_all

section \<open>Endpoints\<close>

lemma createConnection_plain: "createConnection p = Inr (s, p', acts) \<Longrightarrow> list_all plain acts"
  by (auto simp: createConnection_def nextSession_def rbind_eq_Inr)

lemma beginAccept_plain: "beginAccept t p = Inr (t', p', acts) \<Longrightarrow> list_all plain acts"
  by (auto simp: beginAccept_def rbind_eq_Inr Let_def split: if_splits dest: createConnection_plain)

lemma acceptSocket_plain: "acceptSocket t p er = Inr (t', p', acts) \<Longrightarrow> list_all plain acts"
  by (auto simp: acceptSocket_def rbind_eq_Inr split: option.splits if_splits dest: beginAccept_plain)

lemma tcp_start_plain:
  assumes "tcp_start lo t p = Inr (r, t', p', acts)"
  shows "list_all plain acts"
proof (cases "m_serviceType (t_config t)")
  case CLIENT_FLAG
  then show ?thesis
    using assms by (auto simp: tcp_start_def client_doStart_def t_config_def Let_def split: option.splits)
next
  case SERVER_FLAG
  then show ?thesis
    using assms by (cases lo) (auto simp: tcp_start_def server_doStart_def t_config_def Let_def rbind_eq_Inr
        dest: beginAccept_plain)
qed

lemma stop_net_plain: "stop_net n t p = Inr (t', p', acts) \<Longrightarrow> list_all plain acts"
  by (auto simp: stop_net_def tcp_stop_def server_doStop_def rbind_eq_Inr Let_def list_all_iff
      split: service_flag.splits if_splits)

lemma run_event_call: "run_event lo t p ev = Inr (t', p', acts) \<Longrightarrow> m_call t' = m_call t"
  by (cases ev) (auto simp: run_event_def rbind_eq_Inr Let_def dest: tcp_start_same)

text \<open>
  The events of one endpoint: the user is told what they say, and the pool's sessions change
  accordingly.
\<close>

definition tells :: "'b block_vt \<Rightarrow> io_pool \<Rightarrow> 'b action list \<Rightarrow> io_pool \<Rightarrow> bool" where
  "tells vt p acts p' \<longleftrightarrow> (pool_inv p \<longrightarrow> pool_inv p' \<and>
     (\<forall>s. s \<in> pool_keys p' \<longleftrightarrow> up_after (s \<in> pool_keys p) (seen vt s acts)))"

lemma tells_append: "tells vt p as q \<Longrightarrow> tells vt q bs r \<Longrightarrow> tells vt p (as @ bs) r"
  by (simp add: tells_def)

lemma tells_plain:
  assumes "list_all plain acts" and "p_onlines p' = p_onlines p" and "m_netIo p' = m_netIo p"
  shows "tells vt p acts p'"
  using pool_keys_same [OF assms(2,3)] plain_silent [OF assms(1)] by (simp add: tells_def)

lemma run_event_tells:
  assumes "run_event lo t p ev = Inr (t', p', acts)"
  shows "tells vt p acts p' \<and> seen vt s acts = event_notes vt s ev \<and> sent_to s acts = []"
proof (cases ev)
  case EvStart
  then obtain r where r: "tcp_start lo t p = Inr (r, t', p', acts)"
    using assms by (auto simp: run_event_def rbind_eq_Inr Let_def)
  note P = tcp_start_plain [OF r] and S = tcp_start_same [OF r]
  show ?thesis using tells_plain [OF P] S plain_silent [OF P] EvStart by simp
next
  case (EvRecv b)
  then show ?thesis using assms by (auto simp: run_event_def tells_def split: if_splits)
next
  case (EvConnect x)
  then show ?thesis using assms by (auto simp: run_event_def tells_def addSession_ok split: if_splits)
next
  case (EvClose x)
  then show ?thesis using assms by (auto simp: run_event_def tells_def delSession_ok split: if_splits)
qed

lemma run_events_tells:
  "run_events lo t p evs = Inr (t', p', acts) \<Longrightarrow>
   tells vt p acts p' \<and> seen vt s acts = queued vt s evs \<and> sent_to s acts = [] \<and> m_call t' = m_call t"
proof (induction evs arbitrary: t p acts)
  case Nil
  then show ?case by (simp add: tells_def)
next
  case (Cons ev evs)
  then obtain t1 p1 a1 a2 where 1: "run_event lo t p ev = Inr (t1, p1, a1)"
      "run_events lo t1 p1 evs = Inr (t', p', a2)" "acts = a1 @ a2" by (auto simp: rbind_eq_Inr)
  show ?case
    using Cons.IH [OF 1(2)] run_event_tells [OF 1(1), of vt s] run_event_call [OF 1(1)] tells_append [of vt p a1 p1 a2 p']
    by (simp add: 1(3))
qed

section \<open>The queues of all endpoints\<close>

definition queue_of :: "'b nets \<Rightarrow> string \<Rightarrow> 'b tcp_event list" where
  "queue_of nets n = (case om_find nets n of None \<Rightarrow> [] | Some t \<Rightarrow> m_call t)"

lemma queue_of_put: "om_inv nets \<Longrightarrow> queue_of (om_put n t nets) m = (if m = n then m_call t else queue_of nets m)"
  by (simp add: queue_of_def om_find_put)

lemma queue_of_same:
  "list_all2 (\<lambda>(n, t) (n', t'). n' = n \<and> m_call t' = m_call t) nets nets' \<Longrightarrow> queue_of nets' m = queue_of nets m"
  by (induction nets nets' rule: list_all2_induct) (auto simp: queue_of_def)

lemma poll_nets:
  assumes "each_net (\<lambda>n. tcp_poll (lo n)) nets p = Inr (nets', p', acts)"
  shows "tells vt p acts p' \<and> seen vt s acts = concat (map (\<lambda>(n, t). queued vt s (m_call t)) nets) \<and>
    sent_to s acts = [] \<and> queue_of nets' m = []"
  using assms
proof (induction nets arbitrary: p nets' acts)
  case Nil
  then show ?case by (simp add: tells_def queue_of_def)
next
  case (Cons x nets)
  obtain n t where x: "x = (n, t)" by (cases x)
  obtain t1 p1 a1 nets2 a2 where 1: "tcp_poll (lo n) t p = Inr (t1, p1, a1)"
      "each_net (\<lambda>n. tcp_poll (lo n)) nets p1 = Inr (nets2, p', a2)" "acts = a1 @ a2" "nets' = (n, t1) # nets2"
    using Cons.prems by (auto simp: x rbind_eq_Inr)
  have "run_events (lo n) (t\<lparr>m_call := []\<rparr>) p (m_call t) = Inr (t1, p1, a1)" using 1(1) by (simp add: tcp_poll_def)
  note R = run_events_tells [OF this, of vt s]
  show ?case using Cons.IH [OF 1(2)] R tells_append [of vt p a1 p1 a2 p']
    by (simp add: 1(3,4) x queue_of_def)
qed

lemma concat_one:
  assumes "distinct (map fst nets)" and "\<forall>(n, t) \<in> set nets. n \<noteq> m \<longrightarrow> f t = []"
  shows "concat (map (\<lambda>(n, t). f t) nets) = (case om_find nets m of None \<Rightarrow> [] | Some t \<Rightarrow> f t)"
  using assms
proof (induction nets)
  case (Cons x nets)
  obtain n t where x: "x = (n, t)" by (cases x)
  have IH: "concat (map (\<lambda>(n, t). f t) nets) = (case om_find nets m of None \<Rightarrow> [] | Some t \<Rightarrow> f t)"
    using Cons by (simp add: x)
  show ?case
  proof (cases "n = m")
    case True
    then have "om_find nets m = None" using Cons.prems(1) by (simp add: x om_find_absent)
    then show ?thesis using IH True by (simp add: x)
  next
    case False
    then show ?thesis using IH Cons.prems(2) by (simp add: x)
  qed
qed simp

section \<open>Calls of the manager\<close>

lemma each_net_plain:
  assumes "\<And>n t p t' p' acts. f n t p = Inr (t', p', acts) \<Longrightarrow> list_all plain acts"
    and "each_net f nets p = Inr (nets', p', acts)"
  shows "list_all plain acts"
  using assms(2)
proof (induction nets arbitrary: p nets' acts)
  case (Cons x nets)
  obtain t1 p1 a1 nets2 a2 where 1: "f (fst x) (snd x) p = Inr (t1, p1, a1)" "each_net f nets p1 = Inr (nets2, p', a2)"
      "acts = a1 @ a2"
    using Cons.prems by (cases x) (auto simp: rbind_eq_Inr)
  show ?case using assms(1) [OF 1(1)] Cons.IH [OF 1(2)] 1(3) by simp
qed simp

lemma start_nets_plain: "start_nets lo nets p = Inr (r, nets', p', acts) \<Longrightarrow> list_all plain acts"
proof (induction nets arbitrary: p r nets' acts)
  case (Cons x nets)
  obtain ok t1 p1 a1 where 1: "tcp_start (lo (fst x)) (snd x) p = Inr (ok, t1, p1, a1)"
    using Cons.prems by (cases x) (auto simp: rbind_eq_Inr)
  show ?case
    using Cons.prems Cons.IH 1 tcp_start_plain [OF 1] by (cases x) (fastforce simp: rbind_eq_Inr split: if_splits)
qed simp

lemma send_clones_sent:
  assumes "send_clones vt msg cs = Inr acts"
  shows "seen vt s acts = [] \<and> (sent_to s acts \<noteq> [] \<longrightarrow> s \<in> set cs)"
  using assms by (induction cs arbitrary: acts) (auto simp: rbind_eq_Inr split: if_splits)

text \<open>
  Events about a session are in the queue of its endpoint only.  A call then takes them off
  that queue exactly when it tells them to the user.
\<close>

definition queues_ok :: "'b block_vt \<Rightarrow> string \<Rightarrow> 'b nets \<Rightarrow> session_id \<Rightarrow> bool" where
  "queues_ok vt n nets s \<longleftrightarrow> (\<forall>m. m \<noteq> n \<longrightarrow> queued vt s (queue_of nets m) = [])"

definition moves :: "'b block_vt \<Rightarrow> 'b net_service \<Rightarrow> 'b action list \<Rightarrow> 'b net_service \<Rightarrow> bool" where
  "moves vt sv acts sv' \<longleftrightarrow> tells vt (m_ioPool sv) acts (m_ioPool sv') \<and>
     (\<forall>s n. queues_ok vt n (m_nets sv) s \<longrightarrow> queues_ok vt n (m_nets sv') s \<and>
        seen vt s acts @ queued vt s (queue_of (m_nets sv') n) = queued vt s (queue_of (m_nets sv) n)) \<and>
     (\<forall>s. sent_to s acts \<noteq> [] \<longrightarrow> s \<in> pool_keys (m_ioPool sv) \<or> Opened \<in> set (seen vt s acts))"

lemma moves_plain:
  assumes "list_all plain acts" and "p_onlines (m_ioPool sv') = p_onlines (m_ioPool sv)"
    and "m_netIo (m_ioPool sv') = m_netIo (m_ioPool sv)"
    and "\<And>m. queue_of (m_nets sv') m = queue_of (m_nets sv) m"
  shows "moves vt sv acts sv'"
  using tells_plain [OF assms(1-3), of vt] plain_silent [OF assms(1)] assms(4) by (simp add: moves_def queues_ok_def)

lemma poll_moves:
  assumes inv: "om_inv (m_nets sv)" and e: "service_poll lo sv = Inr (r, sv', acts)"
  shows "moves vt sv acts sv'"
proof -
  obtain nets p where p: "each_net (\<lambda>n. tcp_poll (lo n)) (m_nets sv) (m_ioPool sv) = Inr (nets, p, acts)"
      "sv' = sv\<lparr>m_ioPool := p, m_nets := nets\<rparr>"
    using e by (auto simp: service_poll_def rbind_eq_Inr)
  note P = poll_nets [OF p(1), of vt]
  have "seen vt s acts = queued vt s (queue_of (m_nets sv) n)" if q: "queues_ok vt n (m_nets sv) s" for s n
  proof -
    have z: "queued vt s (m_call t) = []" if "(m, t) \<in> set (m_nets sv)" "m \<noteq> n" for m t
    proof -
      have "om_find (m_nets sv) m = Some t" using that(1) inv by (simp add: om_find_iff)
      then show ?thesis using q that(2) unfolding queues_ok_def queue_of_def by (metis option.simps(5))
    qed
    have "concat (map (\<lambda>(n, t). queued vt s (m_call t)) (m_nets sv)) =
        (case om_find (m_nets sv) n of None \<Rightarrow> [] | Some t \<Rightarrow> queued vt s (m_call t))"
      by (rule concat_one [OF om_inv_distinct [OF inv]]) (use z in auto)
    then show ?thesis using P by (simp add: queue_of_def split: option.split)
  qed
  then show ?thesis using P by (simp add: moves_def p(2) queues_ok_def)
qed

text \<open>
  A \<open>poll\<close> whose functions send: only to sessions of the pool, or of which it told the user that
  they opened.
\<close>

lemma user_call_sent:
  assumes "pool_inv (m_ioPool sv)" and "user_call vt alive sv k = Inr acts" and "sent_to s acts \<noteq> []"
  shows "s \<in> pool_keys (m_ioPool sv)"
  using assms(2,3) pool_session_ok [OF assms(1)]
  by (auto simp: user_call_def service_send_def service_kick_def rbind_eq_Inr
      split: user_call.splits option.splits if_splits)

lemma user_calls_sent:
  assumes "pool_inv (m_ioPool sv)"
  shows "user_calls vt alive sv ks = Inr acts \<Longrightarrow> sent_to s acts \<noteq> [] \<Longrightarrow> s \<in> pool_keys (m_ioPool sv)"
proof (induction ks arbitrary: acts)
  case (Cons k ks)
  then obtain as bs where 1: "user_call vt alive sv k = Inr as" "user_calls vt alive sv ks = Inr bs" "acts = as @ bs"
    by (auto simp: rbind_eq_Inr)
  then consider "sent_to s as \<noteq> []" | "sent_to s bs \<noteq> []" using Cons.prems(2) by auto
  then show ?case using user_call_sent [OF assms 1(1)] Cons.IH [OF 1(2)] by cases
qed simp

lemma run_event_user_sent:
  assumes "pool_inv pool" and "run_event_user lo vt alive user sv t pool ev = Inr (t', pool', acts)"
    and "sent_to s acts \<noteq> []"
  shows "s \<in> pool_keys pool \<or> Opened \<in> set (seen vt s acts)"
proof -
  have c: "s \<in> pool_keys p" if "event_calls vt alive user sv p name ev = Inr as" "pool_inv p" "sent_to s as \<noteq> []" for p name as
    using that user_calls_sent [of "sv\<lparr>m_ioPool := p\<rparr>"] by (auto simp: event_calls_def rbind_eq_Inr)
  show ?thesis
  proof (cases ev)
    case EvStart
    then obtain r where "tcp_start lo t pool = Inr (r, t', pool', acts)"
      using assms(2) by (auto simp: run_event_user_def rbind_eq_Inr)
    from plain_silent [OF tcp_start_plain [OF this]] assms(3) show ?thesis by auto
  next
    case (EvRecv p)
    then show ?thesis using assms c by (auto simp: run_event_user_def rbind_eq_Inr Let_def)
  next
    case (EvConnect x)
    then obtain as where a: "event_calls vt alive user sv (addSession x pool) (m_name (t_config t)) ev = Inr as"
        "acts = ConnectFun (m_name (t_config t)) x # as"
      using assms(2) by (auto simp: run_event_user_def rbind_eq_Inr Let_def)
    have "sent_to s as \<noteq> []" using assms(3) a(2) by simp
    from c [OF a(1) _ this] have "s = x \<or> s \<in> pool_keys pool" using addSession_ok [OF assms(1), of x] by simp
    then show ?thesis using a(2) by auto
  next
    case (EvClose x)
    then show ?thesis using assms c by (auto simp: run_event_user_def rbind_eq_Inr Let_def)
  qed
qed

text \<open>What is sent in a \<open>poll\<close> is what some function of the user sends.\<close>

definition user_sends :: "'b user \<Rightarrow> 'b \<Rightarrow> bool" where
  "user_sends user b \<longleftrightarrow> (\<exists>name ev ks. user name ev = Inr ks \<and> UserSend b \<in> set ks)"

lemma user_calls_sends:
  "user_calls vt alive sv ks = Inr acts \<Longrightarrow> OnConn s (CallSend b) \<in> set acts \<Longrightarrow> UserSend b \<in> set ks"
proof (induction ks arbitrary: acts)
  case (Cons k ks)
  then obtain as bs where 1: "user_call vt alive sv k = Inr as" "user_calls vt alive sv ks = Inr bs" "acts = as @ bs"
    by (auto simp: rbind_eq_Inr)
  have "k = UserSend b" if "OnConn s (CallSend b) \<in> set as"
    using that 1(1) by (auto simp: user_call_def service_send_def service_kick_def rbind_eq_Inr
        split: user_call.splits option.splits if_splits)
  then show ?case using Cons.IH [OF 1(2)] Cons.prems(2) 1(3) by auto
qed simp

lemma plain_no_send: "list_all plain acts \<Longrightarrow> OnConn s (CallSend b) \<notin> set acts"
  by (induction acts) auto

lemma run_event_user_sends:
  assumes "run_event_user lo vt alive user sv t pool ev = Inr (t', pool', acts)" and "OnConn s (CallSend b) \<in> set acts"
  shows "user_sends user b"
proof -
  have c: "user_sends user b" if e: "event_calls vt alive user sv p name ev = Inr as" "OnConn s (CallSend b) \<in> set as" for p name as
  proof -
    obtain ks where "user name ev = Inr ks" "user_calls vt alive (sv\<lparr>m_ioPool := p\<rparr>) ks = Inr as"
      using e(1) by (auto simp: event_calls_def rbind_eq_Inr)
    then show ?thesis using user_calls_sends [OF _ e(2)] unfolding user_sends_def by blast
  qed
  show ?thesis
  proof (cases ev)
    case EvStart
    then obtain r where "tcp_start lo t pool = Inr (r, t', pool', acts)"
      using assms(1) by (auto simp: run_event_user_def rbind_eq_Inr)
    from plain_no_send [OF tcp_start_plain [OF this]] assms(2) show ?thesis by blast
  qed (use assms c in \<open>auto simp: run_event_user_def rbind_eq_Inr Let_def\<close>)
qed

lemma run_events_user_sends:
  "run_events_user lo vt alive user sv t pool evs = Inr (t', pool', acts) \<Longrightarrow> OnConn s (CallSend b) \<in> set acts \<Longrightarrow>
   user_sends user b"
proof (induction evs arbitrary: t pool acts)
  case (Cons ev evs)
  then obtain t1 p1 a1 a2 where 1: "run_event_user lo vt alive user sv t pool ev = Inr (t1, p1, a1)"
      "run_events_user lo vt alive user sv t1 p1 evs = Inr (t', pool', a2)" "acts = a1 @ a2" by (auto simp: rbind_eq_Inr)
  then show ?case using Cons.IH [OF 1(2)] run_event_user_sends [OF 1(1)] Cons.prems(2) by auto
qed simp

lemma tells_member:
  assumes "tells vt p acts p'" and "pool_inv p" and "s \<in> pool_keys p'"
  shows "s \<in> pool_keys p \<or> Opened \<in> set (seen vt s acts)"
proof (cases "s \<in> pool_keys p")
  case False
  then have "up_after False (seen vt s acts)" using assms by (simp add: tells_def)
  then show ?thesis using up_after_opened by blast
qed simp

lemma tells_same_seen: "tells vt p acts0 p' \<Longrightarrow> (\<And>s. seen vt s acts = seen vt s acts0) \<Longrightarrow> tells vt p acts p'"
  by (simp add: tells_def)

lemma run_events_user_sent:
  "pool_inv pool \<Longrightarrow> run_events_user lo vt alive user sv t pool evs = Inr (t', pool', acts) \<Longrightarrow> sent_to s acts \<noteq> [] \<Longrightarrow>
   s \<in> pool_keys pool \<or> Opened \<in> set (seen vt s acts)"
proof (induction evs arbitrary: t pool acts)
  case (Cons ev evs)
  then obtain t1 p1 a1 a2 where 1: "run_event_user lo vt alive user sv t pool ev = Inr (t1, p1, a1)"
      "run_events_user lo vt alive user sv t1 p1 evs = Inr (t', pool', a2)" "acts = a1 @ a2" by (auto simp: rbind_eq_Inr)
  obtain a0 where a0: "run_event lo t pool ev = Inr (t1, p1, a0)" "\<And>vt s. seen vt s a1 = seen vt s a0"
    using run_event_user_plain [OF 1(1)] by blast
  have T: "tells vt pool a1 p1" using run_event_tells [OF a0(1)] a0(2) tells_same_seen by blast
  then have p1: "pool_inv p1" using Cons.prems(1) by (simp add: tells_def)
  consider "sent_to s a1 \<noteq> []" | "sent_to s a2 \<noteq> []" using Cons.prems(3) 1(3) by auto
  then show ?case
  proof cases
    case 1
    then show ?thesis
      using run_event_user_sent [OF Cons.prems(1) \<open>run_event_user lo vt alive user sv t pool ev = Inr (t1, p1, a1)\<close>]
        \<open>acts = a1 @ a2\<close> by auto
  next
    case 2
    from Cons.IH [OF p1 1(2) this] tells_member [OF T Cons.prems(1)] 1(3) show ?thesis by auto
  qed
qed simp

lemma each_net_user_sent:
  "pool_inv pool \<Longrightarrow> each_net (\<lambda>n. tcp_poll_user (lo n) vt alive user sv) nets pool = Inr (nets', pool', acts) \<Longrightarrow>
   sent_to s acts \<noteq> [] \<Longrightarrow> s \<in> pool_keys pool \<or> Opened \<in> set (seen vt s acts)"
proof (induction nets arbitrary: pool nets' acts)
  case (Cons x nets)
  obtain t1 p1 a1 nets2 a2 where 1: "tcp_poll_user (lo (fst x)) vt alive user sv (snd x) pool = Inr (t1, p1, a1)"
      "each_net (\<lambda>n. tcp_poll_user (lo n) vt alive user sv) nets p1 = Inr (nets2, pool', a2)" "acts = a1 @ a2"
    using Cons.prems(2) by (cases x) (auto simp: rbind_eq_Inr)
  note r = 1(1) [unfolded tcp_poll_user_def]
  obtain a0 where a0: "run_events (lo (fst x)) ((snd x)\<lparr>m_call := []\<rparr>) pool (m_call (snd x)) = Inr (t1, p1, a0)"
      "\<And>vt s. seen vt s a1 = seen vt s a0"
    using run_events_user_plain [OF r] by blast
  have T: "tells vt pool a1 p1" using run_events_tells [OF a0(1)] a0(2) tells_same_seen by blast
  then have p1: "pool_inv p1" using Cons.prems(1) by (simp add: tells_def)
  consider (a) "sent_to s a1 \<noteq> []" | (b) "sent_to s a2 \<noteq> []" using Cons.prems(3) 1(3) by auto
  then show ?case
  proof cases
    case a
    from run_events_user_sent [OF Cons.prems(1) r a] 1(3) show ?thesis by auto
  next
    case b
    from Cons.IH [OF p1 1(2) b] tells_member [OF T Cons.prems(1)] 1(3) show ?thesis by auto
  qed
qed simp

lemma poll_user_moves:
  assumes inv: "service_inv owner sv" and e: "service_poll_user lo vt alive user sv = Inr (r, sv', acts)"
  shows "moves vt sv acts sv'"
proof -
  obtain acts0 where 0: "service_poll lo sv = Inr (r, sv', acts0)" "\<And>vt s. seen vt s acts = seen vt s acts0"
    using poll_user_plain [OF e] by blast
  have I: "om_inv (m_nets sv)" "pool_inv (m_ioPool sv)" using inv by (simp_all add: service_inv_def)
  have M: "moves vt sv acts0 sv'" by (rule poll_moves [OF I(1) 0(1)])
  have "s \<in> pool_keys (m_ioPool sv) \<or> Opened \<in> set (seen vt s acts)" if "sent_to s acts \<noteq> []" for s
  proof -
    obtain nets pool where "each_net (\<lambda>n. tcp_poll_user (lo n) vt alive user sv) (m_nets sv) (m_ioPool sv) = Inr (nets, pool, acts)"
      using e by (auto simp: service_poll_user_def rbind_eq_Inr)
    from each_net_user_sent [OF I(2) this that] show ?thesis .
  qed
  then show ?thesis using M tells_same_seen [of vt _ acts0 _ acts] by (simp add: moves_def 0(2))
qed

lemma send_name_moves:
  assumes inv: "service_inv owner sv" and e: "service_send_name vt n msg sv = Inr (r, sv', acts)"
  shows "moves vt sv acts sv'"
proof -
  have same: "sv' = sv" using e by (auto simp: service_send_name_def rbind_eq_Inr split: if_splits option.splits)
  have "acts = [] \<or> (\<exists>t. om_find (m_nets sv) n = Some t \<and> send_clones vt msg (onlines t) = Inr acts)"
    using e by (auto simp: service_send_name_def rbind_eq_Inr split: if_splits option.splits)
  then consider "acts = []" | t where "om_find (m_nets sv) n = Some t" "send_clones vt msg (onlines t) = Inr acts" by blast
  then show ?thesis
  proof cases
    case 1
    then show ?thesis by (simp add: same moves_def tells_def)
  next
    case 2
    have "net_ok owner (m_ioPool sv) n t" using inv nets_okD [OF _ 2(1)] by (simp add: service_inv_def)
    then have "set (onlines t) \<subseteq> pool_keys (m_ioPool sv)" using tcp_keys_onlines [of t] by (auto simp: net_ok_def)
    then show ?thesis using send_clones_sent [OF 2(2)] by (auto simp: same moves_def tells_def)
  qed
qed

lemma send_moves:
  assumes inv: "service_inv owner sv" and e: "service_send vt alive msg sv = Inr (r, sv', acts)"
  shows "moves vt sv acts sv'"
proof -
  have P: "pool_session alive (m_ioPool sv) s = (if alive s \<and> s \<in> pool_keys (m_ioPool sv) then Some s else None)" for s
    using pool_session_ok inv by (simp add: service_inv_def)
  show ?thesis using e P by (auto simp: service_send_def moves_def tells_def split: if_splits)
qed

lemma request_moves:
  assumes inv: "service_inv owner sv" and e: "net_manager vt resolve lo alive rq sv = Inr (r, sv', acts)"
  shows "moves vt sv acts sv'"
proof (cases rq)
  case ReqStart
  then obtain nets p where s: "start_nets lo (m_nets sv) (m_ioPool sv) = Inr (r, nets, p, acts)"
      "sv' = sv\<lparr>sv_state := STATE_SERVICE_RUN, m_ioPool := p, m_nets := nets\<rparr>"
    using e by (auto simp: net_manager_def service_start_def rbind_eq_Inr Let_def)
  note S = start_nets_same [OF s(1)]
  have "list_all2 (\<lambda>(n, t) (n', t'). n' = n \<and> m_call t' = m_call t) (m_nets sv) nets"
    using S by (auto simp: list_all2_conv_all_nth case_prod_unfold dest: arg_cong [where f = "\<lambda>xs. xs ! _"]) (metis nth_map)
  from queue_of_same [OF this] show ?thesis
    using start_nets_plain [OF s(1)] S by (intro moves_plain) (simp_all add: s(2))
next
  case (ReqAdd p)
  then have a: "service_add resolve p sv = Inr (r, sv', acts)" using e by (simp add: net_manager_def)
  then obtain q where q: "p = Some q" by (cases p) (auto simp: service_add_def)
  show ?thesis
  proof (cases "om_find (m_nets sv) (m_name (np_config q))")
    case (Some t)
    then show ?thesis using a by (simp add: service_add_def q moves_def tells_def)
  next
    case None
    then obtain t pool where c: "tcp_create resolve p (m_ioPool sv) = Inr (Some t, pool, acts)"
        "sv' = sv\<lparr>m_ioPool := pool, m_nets := om_put (m_name (np_config q)) t (m_nets sv)\<rparr>"
      using a by (auto simp: service_add_def q rbind_eq_Inr deref_def split: option.splits)
    have c': "m_call t = [] \<and> list_all plain acts \<and> p_onlines pool = p_onlines (m_ioPool sv) \<and> m_netIo pool = m_netIo (m_ioPool sv)"
      using c(1) by (auto simp: tcp_create_def q tcpClient_def tcpObj_def rbind_eq_Inr
          split: service_flag.splits option.splits dest: createConnection_same createConnection_plain)
    have "queue_of (m_nets sv) (m_name (np_config q)) = []" using None by (simp add: queue_of_def)
    moreover have "om_inv (m_nets sv)" using inv by (simp add: service_inv_def)
    ultimately show ?thesis using c' by (intro moves_plain) (auto simp: c(2) queue_of_put)
  qed
next
  case ReqPoll
  then show ?thesis using inv e by (simp add: net_manager_def service_inv_def poll_moves)
next
  case ReqSetStop
  then obtain nets pool where p: "each_net stop_net (m_nets sv) (m_ioPool sv) = Inr (nets, pool, acts)"
      "sv' = sv\<lparr>sv_state := STATE_SERVICE_STOP, m_ioPool := pool, m_nets := nets\<rparr>"
    using e by (auto simp: net_manager_def setStop_def rbind_eq_Inr Let_def)
  have n: "nets = map (\<lambda>(n, t). (n, t\<lparr>m_stop := True\<rparr>)) (m_nets sv)" "pool = m_ioPool sv"
    using p(1) by (auto simp: each_net_stop split: if_splits)
  have "list_all2 (\<lambda>(n, t) (n', t'). n' = n \<and> m_call t' = m_call t) (m_nets sv) nets"
    by (simp add: n list_all2_conv_all_nth case_prod_unfold)
  from queue_of_same [OF this] show ?thesis
    using each_net_plain [OF stop_net_plain p(1)] n(2) by (intro moves_plain) (simp_all add: p(2))
next
  case (ReqSend msg)
  then show ?thesis using send_moves [OF inv] e by (simp add: net_manager_def)
next
  case (ReqSendName n msg)
  then show ?thesis using send_name_moves [OF inv] e by (simp add: net_manager_def)
qed (use e in \<open>auto simp: net_manager_def service_remove_def service_kick_def moves_def tells_def
      split: if_splits option.splits\<close>)

lemma accept_moves:
  assumes inv: "om_inv (m_nets sv)" and f: "om_find (m_nets sv) n = Some t"
    and a: "acceptSocket t (m_ioPool sv) er = Inr (t', pool, acts)"
  shows "moves vt sv acts (sv\<lparr>m_ioPool := pool, m_nets := om_put n t' (m_nets sv)\<rparr>)"
  using acceptSocket_same [OF a] acceptSocket_plain [OF a] f
  by (intro moves_plain) (auto simp: queue_of_put [OF inv], simp add: queue_of_def)

end
