(* ===== verification/Node.thy ===== *)
theory Node
  imports Service_Notes
begin

text \<open>
  A whole process: the service with its pool and endpoints, all its connections, the bytes
  each of them received, and the log of everything the service did.  A step is a call of the
  manager, a \<open>poll\<close> with any functions of the user that send and kick, a socket the acceptor accepted, or a handler of one connection, which reports to
  the endpoint that made the connection (\<open>src/service.cpp\<close>, \<open>src/tcp_object.cpp\<close>,
  \<open>src/connection.cpp\<close>).
\<close>

section \<open>State and steps\<close>

record 'b node =
  nd_sv :: "'b net_service"
  nd_conns :: "session_id \<Rightarrow> 'b conn_sys option"
  nd_in :: "session_id \<Rightarrow> bytes"      \<comment> \<open>the bytes its reads gave to a connection\<close>
  nd_log :: "'b action list"

text \<open>What the actions of the service do to the connections.\<close>

definition call_sys :: "'b block_vt \<Rightarrow> 'b conn_call \<Rightarrow> 'b conn_sys \<Rightarrow> 'b conn_sys" where
  "call_sys vt k x =
     (let (c, es) = run_call (s_conn x) k in
      absorb es (x\<lparr>s_conn := c,
        s_submitted := s_submitted x @ (case k of CallSend p \<Rightarrow> block_out vt p | _ \<Rightarrow> [])\<rparr>))"

fun do_action ::
    "'b block_vt \<Rightarrow> 'b action \<Rightarrow> (session_id \<Rightarrow> 'b conn_sys option) \<Rightarrow> session_id \<Rightarrow> 'b conn_sys option" where
  "do_action vt (NewConnection s io) m =
     (case newConnection s DEFAULT_SIZE of Inl _ \<Rightarrow> m | Inr c \<Rightarrow> m(s \<mapsto> start_sys c))"
| "do_action vt (OnConn s k) m =
     (case m s of None \<Rightarrow> m | Some x \<Rightarrow> m(s \<mapsto> call_sys vt k x))"
| "do_action vt _ m = m"

fun do_actions ::
    "'b block_vt \<Rightarrow> 'b action list \<Rightarrow> (session_id \<Rightarrow> 'b conn_sys option) \<Rightarrow> session_id \<Rightarrow> 'b conn_sys option" where
  "do_actions vt [] m = m"
| "do_actions vt (a # acts) m = do_actions vt acts (do_action vt a m)"

definition node_call :: "'b block_vt \<Rightarrow> 'b action list \<Rightarrow> 'b net_service \<Rightarrow> 'b node \<Rightarrow> 'b node" where
  "node_call vt acts sv n =
     n\<lparr>nd_sv := sv, nd_conns := do_actions vt acts (nd_conns n), nd_log := nd_log n @ acts\<rparr>"

text \<open>
  A handler of a connection: a posted task; the write in flight, which completes with all its
  bytes or fails after a part of them; a read; a connect that was started, which gives the connection a new
  socket if it succeeds while the connection is down.  The result is the connection before
  the effects, and the bytes it read.
\<close>

inductive conn_io ::
    "bool \<Rightarrow> 'b block_vt \<Rightarrow> 'b conn_sys \<Rightarrow> bytes \<Rightarrow> 'b effect list \<Rightarrow> 'b conn_sys \<Rightarrow> bool"
  for dbg :: bool and vt :: "'b block_vt" where
  Task: "s_queue x = k # q \<Longrightarrow> run_task dbg vt (s_conn x) k = Inr (c, es) \<Longrightarrow>
    conn_io dbg vt x [] es (x\<lparr>s_conn := c, s_queue := q\<rparr>)"
| Written: "s_flight x = Some b \<Longrightarrow> \<not> s_broken x \<Longrightarrow>
    handleWrite dbg vt (s_conn x) False (of_nat (length b)) = Inr (c, es) \<Longrightarrow>
    conn_io dbg vt x [] es (x\<lparr>s_conn := c, s_flight := None, s_wire := s_wire x @ b\<rparr>)"
| Write_failed: "s_flight x = Some b \<Longrightarrow> (s_broken x \<Longrightarrow> k = 0) \<Longrightarrow>
    handleWrite dbg vt (s_conn x) True (of_nat k) = Inr (c, es) \<Longrightarrow>
    conn_io dbg vt x [] es (x\<lparr>s_conn := c, s_flight := None, s_wire := s_wire x @ take k b, s_broken := True\<rparr>)"
| Read: "handleReadSome dbg vt (s_conn x) False data = Some (Inr (c, es)) \<Longrightarrow>
    length data \<le> nb_free (m_bufferRecv (s_conn x)) \<Longrightarrow>
    conn_io dbg vt x (if m_connect (s_conn x) then data else []) es (x\<lparr>s_conn := c\<rparr>)"
| Read_failed: "handleReadSome dbg vt (s_conn x) True data = Some (Inr (c, es)) \<Longrightarrow>
    conn_io dbg vt x [] es (x\<lparr>s_conn := c\<rparr>)"
| Connected: "handleConnect (s_conn x) er = (c, es) \<Longrightarrow> AsyncConnect \<in> set (s_events x) \<Longrightarrow>
    conn_io dbg vt x [] es (x\<lparr>s_conn := c, s_broken := s_broken x \<and> (m_connect (s_conn x) \<or> er)\<rparr>)"

inductive_cases conn_ioE: "conn_io dbg vt x data es x'"

text \<open>
  \<open>owner s\<close> is the endpoint that makes the connection \<open>s\<close> in this run.  The messages the user
  sends have a buffer, and the ids of sessions do not wrap.
\<close>

definition sends_ok :: "'b block_vt \<Rightarrow> 'b action list \<Rightarrow> bool" where
  "sends_ok vt acts \<longleftrightarrow> (\<forall>s b. OnConn s (CallSend b) \<in> set acts \<longrightarrow> sendable vt b)"

definition ids_left :: "'b action list \<Rightarrow> 'b net_service \<Rightarrow> bool" where
  "ids_left acts sv \<longleftrightarrow> unat (m_curSessionId (m_ioPool sv)) + length (new_ids acts) < 2 ^ 64"

inductive node_step ::
    "bool \<Rightarrow> 'b block_vt \<Rightarrow> (string \<Rightarrow> string option) \<Rightarrow> (string \<Rightarrow> listen_outcome) \<Rightarrow> (session_id \<Rightarrow> string) \<Rightarrow>
     'b node \<Rightarrow> 'b node \<Rightarrow> bool"
  for dbg vt resolve lo owner where
  Request: "net_manager vt resolve lo alive rq (nd_sv n) = Inr (r, sv, acts) \<Longrightarrow>
    sends_ok vt acts \<Longrightarrow> ids_left acts (nd_sv n) \<Longrightarrow>
    node_step dbg vt resolve lo owner n (node_call vt acts sv n)"
| Poll: "service_poll_user lo vt alive user (nd_sv n) = Inr (r, sv, acts) \<Longrightarrow>
    sends_ok vt acts \<Longrightarrow> ids_left acts (nd_sv n) \<Longrightarrow>
    node_step dbg vt resolve lo owner n (node_call vt acts sv n)"
| Accept: "om_find (m_nets (nd_sv n)) m = Some t \<Longrightarrow>
    acceptSocket t (m_ioPool (nd_sv n)) er = Inr (t', pool, acts) \<Longrightarrow> ids_left acts (nd_sv n) \<Longrightarrow>
    node_step dbg vt resolve lo owner n
      (node_call vt acts ((nd_sv n)\<lparr>m_ioPool := pool, m_nets := om_put m t' (m_nets (nd_sv n))\<rparr>) n)"
| Handle: "nd_conns n s = Some x \<Longrightarrow> conn_io dbg vt x data es x' \<Longrightarrow>
    om_find (m_nets (nd_sv n)) (owner s) = Some t \<Longrightarrow>
    node_step dbg vt resolve lo owner n
      (n\<lparr>nd_sv := (nd_sv n)\<lparr>m_nets := om_put (owner s) (foldl deliver t es) (m_nets (nd_sv n))\<rparr>,
         nd_conns := (nd_conns n)(s \<mapsto> absorb es x'), nd_in := (nd_in n)(s := nd_in n s @ data)\<rparr>)"

inductive_cases node_stepE: "node_step dbg vt resolve lo owner n n'"

definition new_node :: "'b net_service \<Rightarrow> 'b node" where
  "new_node sv = \<lparr>nd_sv = sv, nd_conns = (\<lambda>_. None), nd_in = (\<lambda>_. []), nd_log = []\<rparr>"

inductive node_reach ::
    "bool \<Rightarrow> 'b block_vt \<Rightarrow> (string \<Rightarrow> string option) \<Rightarrow> (string \<Rightarrow> listen_outcome) \<Rightarrow> (session_id \<Rightarrow> string) \<Rightarrow>
     'b node \<Rightarrow> bool"
  for dbg vt resolve lo owner where
  Start: "netService d k = Inr sv \<Longrightarrow> 0 < k \<Longrightarrow> node_reach dbg vt resolve lo owner (new_node sv)"
| Step: "node_reach dbg vt resolve lo owner n \<Longrightarrow> node_step dbg vt resolve lo owner n n' \<Longrightarrow>
    node_reach dbg vt resolve lo owner n'"

section \<open>What actions and handlers do\<close>

lemma absorb_sel [simp]:
  "s_conn (absorb es x) = s_conn x" "s_submitted (absorb es x) = s_submitted x"
  "s_wire (absorb es x) = s_wire x" "s_broken (absorb es x) = s_broken x"
  by (induction es x rule: absorb.induct) simp_all

lemma absorb_notices [simp]: "notices (s_events (absorb es x)) = notices (s_events x) @ notices es"
  by (induction es x rule: absorb.induct) simp_all

text \<open>The notes of the connection of a session.\<close>

definition conn_notes :: "(session_id \<Rightarrow> 'b conn_sys option) \<Rightarrow> session_id \<Rightarrow> 'b notice list" where
  "conn_notes m s = (case m s of None \<Rightarrow> [] | Some x \<Rightarrow> notices (s_events x))"

lemma call_sys_sel:
  "notices (s_events (call_sys vt k x)) = notices (s_events x)"
  "c_session (s_conn (call_sys vt k x)) = c_session (s_conn x)"
  "m_connect (s_conn (call_sys vt k x)) = m_connect (s_conn x)"
  "m_waitMessage (s_conn (call_sys vt k x)) = m_waitMessage (s_conn x)"
  "m_bufferRecv (s_conn (call_sys vt k x)) = m_bufferRecv (s_conn x)"
proof -
  obtain c es where r: "run_call (s_conn x) k = (c, es)" by fastforce
  note R = run_call_reports [OF r] run_call_life [OF r]
  show "notices (s_events (call_sys vt k x)) = notices (s_events x)"
    "c_session (s_conn (call_sys vt k x)) = c_session (s_conn x)"
    "m_connect (s_conn (call_sys vt k x)) = m_connect (s_conn x)"
    "m_waitMessage (s_conn (call_sys vt k x)) = m_waitMessage (s_conn x)"
    "m_bufferRecv (s_conn (call_sys vt k x)) = m_bufferRecv (s_conn x)"
    using R by (simp_all add: call_sys_def r)
qed

lemma start_sys_notices: "notices (s_events (start_sys c)) = []"
  by (simp add: start_sys_def)

lemma newConnection_default:
  obtains c where "newConnection s DEFAULT_SIZE = Inr c"
  using newConnection_ok [of DEFAULT_SIZE s] by (auto simp: DEFAULT_SIZE_def PTRDIFF_MAX_def)

lemma do_actions_notes:
  assumes "distinct (new_ids acts)" and "\<forall>s \<in> set (new_ids acts). m s = None"
  shows "conn_notes (do_actions vt acts m) s = conn_notes m s"
  using assms
proof (induction acts arbitrary: m)
  case (Cons a acts)
  have "conn_notes (do_action vt a m) s = conn_notes m s"
    using Cons.prems by (cases a)
      (auto simp: conn_notes_def call_sys_sel start_sys_notices split: sum.split option.split)
  moreover have "\<forall>s \<in> set (new_ids acts). do_action vt a m s = None"
    using Cons.prems by (cases a) (auto split: sum.split option.split)
  moreover have "distinct (new_ids acts)" using Cons.prems(1) by (cases a) simp_all
  ultimately show ?case using Cons.IH by simp
qed simp

lemma do_actions_old:
  "s \<notin> set (new_ids acts) \<Longrightarrow> m s = None \<Longrightarrow> do_actions vt acts m s = None"
proof (induction acts arbitrary: m)
  case (Cons a acts)
  have "do_action vt a m s = None" "s \<notin> set (new_ids acts)"
    using Cons.prems by (cases a; auto split: sum.split option.split)+
  then show ?case using Cons.IH by simp
qed simp

lemma do_actions_stay: "m s \<noteq> None \<Longrightarrow> do_actions vt acts m s \<noteq> None"
proof (induction acts arbitrary: m)
  case (Cons a acts)
  have "do_action vt a m s \<noteq> None" using Cons.prems by (cases a) (auto split: sum.split option.split)
  then show ?case using Cons.IH by simp
qed simp

lemma do_actions_all:
  assumes "\<And>s x. m s = Some x \<Longrightarrow> P s x"
    and "\<And>s k x. OnConn s k \<in> set acts \<Longrightarrow> P s x \<Longrightarrow> P s (call_sys vt k x)"
    and "\<And>s c. s \<in> set (new_ids acts) \<Longrightarrow> newConnection s DEFAULT_SIZE = Inr c \<Longrightarrow> P s (start_sys c)"
    and "do_actions vt acts m s = Some x"
  shows "P s x"
  using assms
proof (induction acts arbitrary: m)
  case (Cons a acts)
  have "P s' x'" if "do_action vt a m s' = Some x'" for s' x'
    using that Cons.prems(1-3)
    by (cases a) (auto split: sum.splits option.splits if_splits)
  moreover have "set (new_ids acts) \<subseteq> set (new_ids (a # acts))" by (cases a) auto
  ultimately show ?case
    using Cons.prems(2-4) by (intro Cons.IH [of "do_action vt a m"]) (simp_all add: subset_iff)
qed simp

text \<open>The connections that are made are new.\<close>

lemma mints_new:
  assumes "mints p acts p'" and "unat (m_curSessionId p) + length (new_ids acts) < 2 ^ 64"
  shows "distinct (new_ids acts)"
    and "s \<in> set (new_ids acts) \<Longrightarrow> unat (m_curSessionId p) < unat s \<and> unat s \<le> unat (m_curSessionId p')"
    and "unat (m_curSessionId p) \<le> unat (m_curSessionId p')"
proof -
  let ?c = "m_curSessionId p" and ?n = "length (new_ids acts)"
  have ids: "new_ids acts = map (\<lambda>k. ?c + of_nat (Suc k)) [0..<?n]" "m_curSessionId p' = ?c + of_nat ?n"
    using assms(1) by (simp_all only: mints_def)
  have u: "unat (?c + of_nat k) = unat ?c + k" if "k \<le> ?n" for k
  proof -
    have k: "unat (of_nat k :: session_id) = k" using that assms(2) by (simp add: unat_of_nat take_bit_nat_eq_self)
    then show ?thesis using that assms(2) by (simp add: unat_word_ariths(1))
  qed
  show "unat ?c \<le> unat (m_curSessionId p')" using u [of ?n] by (simp add: ids(2))
  show "unat ?c < unat s \<and> unat s \<le> unat (m_curSessionId p')" if s: "s \<in> set (new_ids acts)"
  proof -
    have "set (new_ids acts) = (\<lambda>k. ?c + of_nat (Suc k)) ` set [0..<?n]"
      by (subst ids(1)) (simp only: set_map)
    then obtain k where k: "k < ?n" "s = ?c + of_nat (Suc k)" using s by (auto simp del: of_nat_Suc)
    show ?thesis using u [of "Suc k"] u [of ?n] k by (simp add: ids(2) del: of_nat_Suc)
  qed
  have "inj_on (\<lambda>k. ?c + of_nat (Suc k)) {0..<?n}"
  proof (rule inj_onI)
    fix i j
    assume k: "i \<in> {0..<?n}" "j \<in> {0..<?n}" and eq: "?c + of_nat (Suc i) = ?c + of_nat (Suc j)"
    have "unat ?c + Suc i = unat ?c + Suc j"
      using u [of "Suc i"] u [of "Suc j"] k by (simp only: eq atLeastLessThan_iff Suc_le_eq)
    then show "i = j" by simp
  qed
  then show "distinct (new_ids acts)" by (subst ids(1)) (simp add: distinct_map del: of_nat_Suc)
qed

section \<open>The invariant of a process\<close>

text \<open>
  A connection reports its own session, in order, and is up when its notes say so.  What the
  user was told about a session and what is still in the queue of its endpoint are together
  the notes of its connection, and the pool holds the sessions the user believes to be open.
\<close>

definition link_ok :: "'b block_vt \<Rightarrow> session_id \<Rightarrow> 'b conn_sys \<Rightarrow> bool" where
  "link_ok vt s x \<longleftrightarrow> c_session (s_conn x) = s \<and> wait_ok vt (s_conn x) \<and>
     run_notes False (notices (s_events x)) = Some (m_connect (s_conn x))"

definition node_inv :: "'b block_vt \<Rightarrow> (session_id \<Rightarrow> string) \<Rightarrow> 'b node \<Rightarrow> bool" where
  "node_inv vt owner n \<longleftrightarrow> service_inv owner (nd_sv n) \<and>
     (\<forall>s x. nd_conns n s = Some x \<longrightarrow>
        link_ok vt s x \<and> unat s \<le> unat (m_curSessionId (m_ioPool (nd_sv n)))) \<and>
     (\<forall>s. queues_ok vt (owner s) (m_nets (nd_sv n)) s \<and>
        seen vt s (nd_log n) @ queued vt s (queue_of (m_nets (nd_sv n)) (owner s)) = conn_notes (nd_conns n) s) \<and>
     (\<forall>s. s \<in> pool_keys (m_ioPool (nd_sv n)) \<longleftrightarrow> up_after False (seen vt s (nd_log n))) \<and>
     (\<forall>s. nd_conns n s = None \<longrightarrow> sent_to s (nd_log n) = [])"

lemma node_invD:
  assumes "node_inv vt owner n"
  shows "service_inv owner (nd_sv n)"
    and "nd_conns n s = Some x \<Longrightarrow> link_ok vt s x"
    and "nd_conns n s = Some x \<Longrightarrow> unat s \<le> unat (m_curSessionId (m_ioPool (nd_sv n)))"
    and "queues_ok vt (owner s) (m_nets (nd_sv n)) s"
    and "seen vt s (nd_log n) @ queued vt s (queue_of (m_nets (nd_sv n)) (owner s)) = conn_notes (nd_conns n) s"
    and "s \<in> pool_keys (m_ioPool (nd_sv n)) \<longleftrightarrow> up_after False (seen vt s (nd_log n))"
    and "nd_conns n s = None \<Longrightarrow> sent_to s (nd_log n) = []"
  using assms unfolding node_inv_def by blast+

lemma node_inv_start:
  assumes "netService d k = Inr sv" and "0 < k"
  shows "node_inv vt owner (new_node sv)"
proof -
  obtain pool where "ioObjectPool d k = Inr pool" "pool_keys pool = {}" using ioObjectPool_ok [OF assms(2)] by blast
  then have "pool_keys (m_ioPool sv) = {}" "m_nets sv = []" using assms(1) by (auto simp: netService_def)
  then show ?thesis
    using service_inv_start [OF assms]
    by (simp add: node_inv_def new_node_def conn_notes_def queues_ok_def queue_of_def)
qed

text \<open>A connection that is sent a message exists and was opened.\<close>

lemma sent_conn:
  assumes inv: "node_inv vt owner n" and mv: "moves vt (nd_sv n) acts sv" and s: "sent_to s acts \<noteq> []"
  shows "\<exists>x. nd_conns n s = Some x \<and> Opened \<in> set (notices (s_events x))"
proof -
  note D = node_invD(4-6) [OF inv, of s]
  have "s \<in> pool_keys (m_ioPool (nd_sv n)) \<or> Opened \<in> set (seen vt s acts)" using mv s by (simp add: moves_def)
  then have "Opened \<in> set (seen vt s (nd_log n)) \<union> set (seen vt s acts)" using D(3) up_after_opened by auto
  moreover have "seen vt s acts @ queued vt s (queue_of (m_nets sv) (owner s)) =
      queued vt s (queue_of (m_nets (nd_sv n)) (owner s))" using mv D(1) by (simp add: moves_def)
  then have "set (seen vt s acts) \<subseteq> set (queued vt s (queue_of (m_nets (nd_sv n)) (owner s)))"
    by (metis set_append sup_ge1)
  ultimately have "Opened \<in> set (conn_notes (nd_conns n) s)" by (auto simp flip: D(2))
  then show ?thesis by (cases "nd_conns n s") (simp_all add: conn_notes_def)
qed

lemma link_ok_call: "link_ok vt s x \<Longrightarrow> link_ok vt s (call_sys vt k x)"
  by (simp add: link_ok_def call_sys_sel wait_ok_def)

lemma link_ok_start: "newConnection s sz = Inr c \<Longrightarrow> link_ok vt s (start_sys c)"
  by (auto simp: newConnection_def rbind_eq_Inr link_ok_def start_sys_def wait_ok_def)

lemma node_inv_call:
  assumes inv: "node_inv vt owner n" and sv: "service_inv owner sv" and mv: "moves vt (nd_sv n) acts sv"
    and ids: "mints (m_ioPool (nd_sv n)) acts (m_ioPool sv)" "ids_left acts (nd_sv n)"
  shows "node_inv vt owner (node_call vt acts sv n)"
proof -
  note D = node_invD [OF inv]
  note M = mints_new [OF ids(1) ids(2) [unfolded ids_left_def]]
  have new: "\<forall>s \<in> set (new_ids acts). nd_conns n s = None"
    using M(2) D(3) by (metis linorder_not_less not_Some_eq)
  let ?m = "do_actions vt acts (nd_conns n)"
  have 1: "link_ok vt s x" if "?m s = Some x" for s x
    by (rule do_actions_all [where P = "link_ok vt", OF D(2) link_ok_call link_ok_start that])
  have 2: "unat s \<le> unat (m_curSessionId (m_ioPool sv))" if "?m s = Some x" for s x
  proof (cases "s \<in> set (new_ids acts)")
    case True
    then show ?thesis using M(2) by simp
  next
    case False
    from that do_actions_old [OF this, of "nd_conns n" vt] obtain y where "nd_conns n s = Some y" by fastforce
    then show ?thesis using D(3) M(3) le_trans by blast
  qed
  have pool: "pool_inv (m_ioPool (nd_sv n))" using D(1) by (simp add: service_inv_def)
  have 3: "queues_ok vt (owner s) (m_nets sv) s \<and>
    seen vt s (nd_log n @ acts) @ queued vt s (queue_of (m_nets sv) (owner s)) = conn_notes ?m s" for s
    using mv D(4,5) [of s] do_actions_notes [OF M(1) new, of vt s] by (simp add: moves_def)
  have 4: "s \<in> pool_keys (m_ioPool sv) \<longleftrightarrow> up_after False (seen vt s (nd_log n @ acts))" for s
    using mv pool D(6) [of s] by (simp add: moves_def tells_def)
  have 5: "sent_to s (nd_log n @ acts) = []" if "?m s = None" for s
  proof -
    have "nd_conns n s = None" using that do_actions_stay by metis
    moreover from this have "sent_to s acts = []" using sent_conn [OF inv mv, of s] by auto
    ultimately show ?thesis using D(7) by simp
  qed
  show ?thesis unfolding node_inv_def node_call_def using sv 1 2 3 4 5 by simp
qed

text \<open>What a handler reports goes to the end of the queue of the endpoint.\<close>

lemma deliver_queue:
  "own_effect vt s e \<Longrightarrow> queued vt x (m_call (deliver t e)) =
     queued vt x (m_call t) @ (if x = s then effect_notes e else [])"
  by (cases e) (auto simp: deliver_def eventRecv_def eventConnect_def eventCloseFun_def eventConnectFailed_def tcp_push_def)

lemma delivers_queue:
  "list_all (own_effect vt s) es \<Longrightarrow> queued vt x (m_call (foldl deliver t es)) =
     queued vt x (m_call t) @ (if x = s then notices es else [])"
proof (induction es arbitrary: t)
  case (Cons e es)
  then show ?case using deliver_queue [of vt s e x t] by simp
qed simp

lemma delivers_ok:
  "list_all (own_effect vt s) es \<Longrightarrow> net_ok owner p (owner s) t \<Longrightarrow> net_ok owner p (owner s) (foldl deliver t es)"
proof (induction es arbitrary: t)
  case (Cons e es)
  have "net_ok owner p (owner s) (deliver t e)"
    using Cons.prems by (intro deliver_ok) auto
  then show ?case using Cons by simp
qed simp

context session_class
begin

lemma conn_io_reports:
  assumes "conn_io dbg vt x data es x'"
  shows "reports vt (s_conn x) (s_conn x') es \<and> s_events x' = s_events x \<and> s_submitted x' = s_submitted x"
  using assms
  by (cases rule: conn_ioE) (auto intro: run_task_reports handleWrite_reports handleReadSome_reports handleConnect_reports)

lemma node_inv_handle:
  assumes inv: "node_inv vt owner n" and x: "nd_conns n s = Some x" and io: "conn_io dbg vt x data es x'"
    and t: "om_find (m_nets (nd_sv n)) (owner s) = Some t"
  shows "node_inv vt owner (n\<lparr>nd_sv := (nd_sv n)\<lparr>m_nets := om_put (owner s) (foldl deliver t es) (m_nets (nd_sv n))\<rparr>,
     nd_conns := (nd_conns n)(s \<mapsto> absorb es x'), nd_in := (nd_in n)(s := nd_in n s @ data)\<rparr>)"
proof -
  note D = node_invD [OF inv]
  have L: "c_session (s_conn x) = s" "wait_ok vt (s_conn x)"
    "run_notes False (notices (s_events x)) = Some (m_connect (s_conn x))"
    using D(2) [OF x] by (simp_all add: link_ok_def)
  have R: "c_session (s_conn x') = s" "wait_ok vt (s_conn x')" "list_all (own_effect vt s) es"
    "run_notes (m_connect (s_conn x)) (notices es) = Some (m_connect (s_conn x'))" "s_events x' = s_events x"
    using conn_io_reports [OF io] L by (auto simp: reports_def)
  let ?t = "foldl deliver t es" and ?sv = "nd_sv n"
  have I: "pool_inv (m_ioPool ?sv)" "om_inv (m_nets ?sv)" "net_ok owner (m_ioPool ?sv) (owner s) t"
    using D(1) nets_okD [OF _ t] by (simp_all add: service_inv_def)
  have "service_inv owner (?sv\<lparr>m_ioPool := m_ioPool ?sv, m_nets := om_put (owner s) ?t (m_nets ?sv)\<rparr>)"
    by (rule service_inv_put [OF D(1) I(1) delivers_ok [OF R(3) I(3)] own_step_refl])
  then have sv: "service_inv owner (?sv\<lparr>m_nets := om_put (owner s) ?t (m_nets ?sv)\<rparr>)" by simp
  have link: "link_ok vt s (absorb es x')" using R L(3) by (simp add: link_ok_def run_notes_append)
  have q: "queued vt r (queue_of (om_put (owner s) ?t (m_nets ?sv)) m) =
      queued vt r (queue_of (m_nets ?sv) m) @ (if m = owner s \<and> r = s then notices es else [])" for r m
  proof (cases "m = owner s")
    case True
    then have "queue_of (om_put (owner s) ?t (m_nets ?sv)) m = m_call ?t" "queue_of (m_nets ?sv) m = m_call t"
      using t by (simp_all add: queue_of_put [OF I(2)] queue_of_def [of "m_nets ?sv"])
    then show ?thesis using delivers_queue [OF R(3), of r t] True by simp
  qed (simp add: queue_of_put [OF I(2)])
  have c: "conn_notes ((nd_conns n)(s \<mapsto> absorb es x')) r =
      conn_notes (nd_conns n) r @ (if r = s then notices es else [])" for r
    using R(5) x by (simp add: conn_notes_def)
  have "seen vt r (nd_log n) @ queued vt r (queue_of (om_put (owner s) ?t (m_nets ?sv)) (owner r)) =
      conn_notes ((nd_conns n)(s \<mapsto> absorb es x')) r" for r
    unfolding c q using D(5) [of r] by (cases "r = s") (simp_all flip: append_assoc)
  moreover have "queues_ok vt (owner r) (om_put (owner s) ?t (m_nets ?sv)) r" for r
    using D(4) [of r] unfolding queues_ok_def q by auto
  moreover have "sent_to r (nd_log n) = []" if "((nd_conns n)(s \<mapsto> absorb es x')) r = None" for r
    using that D(7) [of r] by (simp split: if_splits)
  moreover have "link_ok vt r y \<and> unat r \<le> unat (m_curSessionId (m_ioPool ?sv))"
    if "((nd_conns n)(s \<mapsto> absorb es x')) r = Some y" for r y
    using that link D(2,3) [of r] D(3) [OF x] by (auto split: if_splits)
  ultimately show ?thesis unfolding node_inv_def using sv D(6) by simp
qed

lemma node_inv_step:
  assumes step: "node_step dbg vt resolve lo owner n n'" and inv: "node_inv vt owner n"
  shows "node_inv vt owner n'"
  using step
proof cases
  case (Request alive rq r sv acts)
  note D = node_invD [OF inv]
  show ?thesis unfolding Request(1)
    by (rule node_inv_call [OF inv net_manager_inv [OF D(1) Request(2)] request_moves [OF D(1) Request(2)]
          request_mints [OF Request(2)] Request(4)])
next
  case (Poll alive user r sv acts)
  note I = node_invD(1) [OF inv]
  obtain acts0 where "service_poll lo (nd_sv n) = Inr (r, sv, acts0)"
    using poll_user_plain [OF Poll(2)] by blast
  then have p: "net_manager vt resolve lo alive ReqPoll (nd_sv n) = Inr (r, sv, acts0)" by (simp add: net_manager_def)
  show ?thesis unfolding Poll(1)
    by (rule node_inv_call [OF inv net_manager_inv [OF I p] poll_user_moves [OF I Poll(2)] poll_user_mints [OF Poll(2)] Poll(4)])
next
  case (Accept m t er t' pool acts)
  let ?sv = "nd_sv n"
  have I: "service_inv owner ?sv" "pool_inv (m_ioPool ?sv)" "om_inv (m_nets ?sv)" "net_ok owner (m_ioPool ?sv) m t"
    using node_invD(1) [OF inv] nets_okD [OF _ Accept(2)] by (simp_all add: service_inv_def)
  note S = acceptSocket_same [OF Accept(3)]
  have "pool_inv pool" "own_step owner m (m_ioPool ?sv) pool"
    using S pool_keys_same [of pool "m_ioPool ?sv"] I(2) by (simp_all add: own_step_def)
  then have sv: "service_inv owner (?sv\<lparr>m_ioPool := pool, m_nets := om_put m t' (m_nets ?sv)\<rparr>)"
    using service_inv_put [OF I(1) _ net_ok_same [OF I(4)]] S by blast
  have "mints (m_ioPool ?sv) acts pool" by (rule acceptSocket_mints [OF Accept(3)])
  then show ?thesis unfolding Accept(1)
    using node_inv_call [OF inv sv accept_moves [OF I(3) Accept(2,3)] _ Accept(4)] by simp
next
  case (Handle s x data es x' t)
  show ?thesis unfolding Handle(1) by (rule node_inv_handle [OF inv Handle(2-4)])
qed

lemma node_inv_reach: "node_reach dbg vt resolve lo owner n \<Longrightarrow> node_inv vt owner n"
  by (induction rule: node_reach.induct) (auto intro: node_inv_start node_inv_step)

section \<open>What the user knows about a session\<close>

text \<open>Messages are seen only between the notes that a session opened and that it closed.\<close>

lemma seen_in_order:
  assumes "node_reach dbg vt resolve lo owner n"
  shows "run_notes False (seen vt s (nd_log n)) \<noteq> None"
proof -
  note inv = node_inv_reach [OF assms]
  have "run_notes False (conn_notes (nd_conns n) s) \<noteq> None"
    using node_invD(2) [OF inv, of s] by (auto simp: conn_notes_def link_ok_def split: option.split)
  then show ?thesis using run_notes_prefix by (metis node_invD(5) [OF inv])
qed

text \<open>A message is taken for sending exactly if the user was told that the session is open.\<close>

lemma send_taken:
  assumes "node_reach dbg vt resolve lo owner n"
  shows "service_send vt alive msg (nd_sv n) =
    (let ok = isRun (nd_sv n) \<and> alive (vt_session vt msg) \<and> up_after False (seen vt (vt_session vt msg) (nd_log n)) in
     Inr (ok, nd_sv n, if ok then [OnConn (vt_session vt msg) (CallSend msg)] else []))"
proof -
  note inv = node_inv_reach [OF assms]
  have "pool_inv (m_ioPool (nd_sv n))" using node_invD(1) [OF inv] by (simp add: service_inv_def)
  from pool_session_ok [OF this] show ?thesis
    using node_invD(6) [OF inv] by (auto simp: service_send_def Let_def)
qed

end

end
