(* ===== verification/Node_Reads.thy ===== *)
theory Node_Reads
  imports Node
begin

text \<open>
  What a process reads: the messages of a connection follow from the bytes it read, for default
  messages whatever the bytes are, for Redis messages as long as they are replies.
\<close>

section \<open>Invariants of reading\<close>

text \<open>A handler that is no read of a connection that is up leaves the receiving side alone.\<close>

lemma recv_holds_same:
  assumes "m_bufferRecv c' = m_bufferRecv c" and "m_waitMessage c' = m_waitMessage c"
  shows "recv_holds R c' s = recv_holds R c s"
  unfolding recv_holds_def assms ..

lemma writeMessage_told:
  "writeMessage dbg vt c n = Inr (c', es) \<Longrightarrow>
   told (notices es) = [] \<and> m_bufferRecv c' = m_bufferRecv c \<and> m_waitMessage c' = m_waitMessage c"
  by (auto simp: writeMessage_def rbind_eq_Inr Let_def split: if_splits)

lemma handleWrite_told:
  "handleWrite dbg vt c er n = Inr (c', es) \<Longrightarrow>
   told (notices es) = [] \<and> m_bufferRecv c' = m_bufferRecv c \<and> m_waitMessage c' = m_waitMessage c"
  by (auto simp: handleWrite_def onError_def conn_close_def Let_def split: if_splits dest: writeMessage_told)

lemma run_task_told:
  assumes "run_task dbg vt c k = Inr (c', es)"
  shows "told (notices es) = [] \<and> m_bufferRecv c' = m_bufferRecv c \<and> m_waitMessage c' = m_waitMessage c"
proof (cases k)
  case (RunWrite n)
  then show ?thesis using assms by (simp add: run_task_def writeMessage_told)
qed (use assms in \<open>auto simp: run_task_def handleClose_def conn_close_def handlAccept_def beginRead_def Let_def split: if_splits\<close>)

lemma conn_io_read:
  assumes "conn_io dbg vt x data es x'"
  shows "(data = [] \<and> told (notices es) = [] \<and> m_bufferRecv (s_conn x') = m_bufferRecv (s_conn x) \<and>
      m_waitMessage (s_conn x') = m_waitMessage (s_conn x) \<and> s_events x' = s_events x) \<or>
    (m_connect (s_conn x) \<and> handleReadSome dbg vt (s_conn x) False data = Some (Inr (s_conn x', es)) \<and>
      length data \<le> nb_free (m_bufferRecv (s_conn x)) \<and> s_events x' = s_events x)"
  using assms
proof cases
  case (Task k q c)
  then show ?thesis using run_task_told [OF Task(4)] by simp
next
  case (Written b c)
  then show ?thesis using handleWrite_told [OF Written(5)] by simp
next
  case (Write_failed b k c)
  then show ?thesis using handleWrite_told [OF Write_failed(5)] by simp
next
  case (Read data' c)
  then show ?thesis by (cases "m_connect (s_conn x)") (auto simp: handleReadSome_def)
next
  case (Read_failed data' c)
  then show ?thesis by (auto simp: handleReadSome_def onError_def conn_close_def split: if_splits)
next
  case (Connected er c)
  then show ?thesis by (auto simp: handleConnect_def beginRead_def Let_def split: if_splits)
qed

text \<open>\<open>R\<close> relates a connection to the bytes it read; \<open>reading\<close> is what makes it an invariant.\<close>

definition reading :: "bool \<Rightarrow> 'b block_vt \<Rightarrow> ('b conn_sys \<Rightarrow> bytes \<Rightarrow> bool) \<Rightarrow> bool" where
  "reading dbg vt R \<longleftrightarrow>
     (\<forall>x y inp. R x inp \<longrightarrow> told (notices (s_events y)) = told (notices (s_events x)) \<longrightarrow>
        m_bufferRecv (s_conn y) = m_bufferRecv (s_conn x) \<longrightarrow> m_waitMessage (s_conn y) = m_waitMessage (s_conn x) \<longrightarrow> R y inp) \<and>
     (\<forall>x y data es inp. R x inp \<longrightarrow> m_connect (s_conn x) \<longrightarrow>
        handleReadSome dbg vt (s_conn x) False data = Some (Inr (s_conn y, es)) \<longrightarrow>
        length data \<le> nb_free (m_bufferRecv (s_conn x)) \<longrightarrow>
        told (notices (s_events y)) = told (notices (s_events x)) @ told (notices es) \<longrightarrow> R y (inp @ data)) \<and>
     (\<forall>s c. newConnection s DEFAULT_SIZE = Inr c \<longrightarrow> R (start_sys c) [])"

lemma readingD:
  assumes "reading dbg vt R"
  shows "R x inp \<Longrightarrow> told (notices (s_events y)) = told (notices (s_events x)) \<Longrightarrow>
      m_bufferRecv (s_conn y) = m_bufferRecv (s_conn x) \<Longrightarrow> m_waitMessage (s_conn y) = m_waitMessage (s_conn x) \<Longrightarrow> R y inp"
    and "R x inp \<Longrightarrow> m_connect (s_conn x) \<Longrightarrow> handleReadSome dbg vt (s_conn x) False data = Some (Inr (s_conn y, es)) \<Longrightarrow>
      length data \<le> nb_free (m_bufferRecv (s_conn x)) \<Longrightarrow>
      told (notices (s_events y)) = told (notices (s_events x)) @ told (notices es) \<Longrightarrow> R y (inp @ data)"
    and "newConnection s DEFAULT_SIZE = Inr c \<Longrightarrow> R (start_sys c) []"
  using assms unfolding reading_def by blast+

lemma reading_io:
  assumes R: "reading dbg vt R" and io: "conn_io dbg vt x data es x'" and x: "R x inp"
  shows "R (absorb es x') (inp @ data)"
  using conn_io_read [OF io]
proof (elim disjE conjE)
  assume q: "data = []" "told (notices es) = []" "m_bufferRecv (s_conn x') = m_bufferRecv (s_conn x)"
    "m_waitMessage (s_conn x') = m_waitMessage (s_conn x)" "s_events x' = s_events x"
  show ?thesis unfolding q(1) append_Nil2 by (rule readingD(1) [OF R x]) (simp_all add: q)
next
  assume q: "m_connect (s_conn x)" "handleReadSome dbg vt (s_conn x) False data = Some (Inr (s_conn x', es))"
    "length data \<le> nb_free (m_bufferRecv (s_conn x))" "s_events x' = s_events x"
  show ?thesis by (rule readingD(2) [OF R x q(1) _ q(3), of _ es]) (simp_all add: q)
qed

definition node_rx :: "('b conn_sys \<Rightarrow> bytes \<Rightarrow> bool) \<Rightarrow> 'b node \<Rightarrow> bool" where
  "node_rx R n \<longleftrightarrow> (\<forall>s. nd_conns n s = None \<longrightarrow> nd_in n s = []) \<and>
     (\<forall>s x. nd_conns n s = Some x \<longrightarrow> R x (nd_in n s))"

lemma node_rx_call:
  assumes R: "reading dbg vt R" and inv: "node_inv vt owner n" and rx: "node_rx R n"
    and ids: "mints (m_ioPool (nd_sv n)) acts (m_ioPool sv)" "ids_left acts (nd_sv n)"
  shows "node_rx R (node_call vt acts sv n)"
proof -
  note M = mints_new [OF ids(1) ids(2) [unfolded ids_left_def]]
  have new: "nd_in n s = []" if "s \<in> set (new_ids acts)" for s
  proof -
    have "nd_conns n s = None" using that M(2) node_invD(3) [OF inv] by (metis linorder_not_less not_Some_eq)
    then show ?thesis using rx by (simp add: node_rx_def)
  qed
  have old: "R x (nd_in n s)" if "nd_conns n s = Some x" for s x
    using that rx by (simp add: node_rx_def)
  have call: "R (call_sys vt k x) inp" if "R x inp" for k x inp
    by (rule readingD(1) [OF R that]) (simp_all add: call_sys_sel)
  have "R x (nd_in n s)" if x: "do_actions vt acts (nd_conns n) s = Some x" for s x
    by (rule do_actions_all [where P = "\<lambda>s x. R x (nd_in n s)", OF old call _ x])
      (auto simp: new intro: readingD(3) [OF R])
  moreover have "nd_in n s = []" if "do_actions vt acts (nd_conns n) s = None" for s
  proof -
    have "nd_conns n s = None" using that do_actions_stay by metis
    then show ?thesis using rx by (simp add: node_rx_def)
  qed
  ultimately show ?thesis by (simp add: node_rx_def node_call_def)
qed

lemma node_rx_step:
  assumes R: "reading dbg vt R" and step: "node_step dbg vt resolve lo owner n n'" and inv: "node_inv vt owner n"
    and rx: "node_rx R n"
  shows "node_rx R n'"
  using step
proof cases
  case (Request alive rq r sv acts)
  show ?thesis unfolding Request(1) by (rule node_rx_call [OF R inv rx request_mints [OF Request(2)] Request(4)])
next
  case (Poll alive user r sv acts)
  show ?thesis unfolding Poll(1) by (rule node_rx_call [OF R inv rx poll_user_mints [OF Poll(2)] Poll(4)])
next
  case (Accept m t er t' pool acts)
  have "mints (m_ioPool (nd_sv n)) acts pool" by (rule acceptSocket_mints [OF Accept(3)])
  then show ?thesis unfolding Accept(1) using node_rx_call [OF R inv rx _ Accept(4)] by simp
next
  case (Handle s x data es x' t)
  have "R x (nd_in n s)" using rx Handle(2) by (simp add: node_rx_def)
  from reading_io [OF R Handle(3) this] show ?thesis using rx unfolding Handle(1) by (simp add: node_rx_def)
qed

context session_class
begin

lemma node_rx_reach:
  assumes "node_reach dbg vt resolve lo owner n" and R: "reading dbg vt R"
  shows "node_rx R n"
  using assms(1)
proof (induction rule: node_reach.induct)
  case (Start d k sv)
  then show ?case by (simp add: node_rx_def new_node_def)
next
  case (Step n n')
  then show ?case using node_rx_step [OF R] node_inv_reach by blast
qed

text \<open>The user was told the first of the messages of a connection; all, if no event waits.\<close>

lemma told_so_far:
  assumes reach: "node_reach dbg vt resolve lo owner n" and l: "list_all2 F (told (conn_notes (nd_conns n) s)) ms"
  shows "\<exists>k. list_all2 F (told (seen vt s (nd_log n))) (take k ms) \<and>
    (queue_of (m_nets (nd_sv n)) (owner s) = [] \<longrightarrow> k = length ms)"
proof -
  let ?q = "queue_of (m_nets (nd_sv n)) (owner s)" and ?k = "length (told (seen vt s (nd_log n)))"
  note D = node_invD(5) [OF node_inv_reach [OF reach], of s]
  then have c: "told (conn_notes (nd_conns n) s) = told (seen vt s (nd_log n)) @ told (queued vt s ?q)"
    by (metis told_append)
  have len: "?k + length (told (queued vt s ?q)) = length ms"
    using list_all2_lengthD [OF l] unfolding c by simp
  have "list_all2 F (told (seen vt s (nd_log n))) (take ?k ms)"
    using l unfolding c by (auto simp: list_all2_append1)
  then show ?thesis using len by (intro exI [of _ ?k]) auto
qed

end

text \<open>A connection as it is made.\<close>

lemma fresh_conn:
  fixes c :: "'b connection"
  assumes "newConnection s DEFAULT_SIZE = Inr c"
  shows "nb_inv (m_bufferSend c)" "nb_inv (m_bufferRecv c)" "nb_content (m_bufferRecv c) = []"
    "nb_unread (m_bufferSend c) = []" "m_maxLen (m_bufferSend c) = DEFAULT_SIZE" "m_maxLen (m_bufferRecv c) = DEFAULT_SIZE"
    "\<not> m_lock (m_bufferSend c)" "m_waitMessage c = None" "\<not> m_isSend c" "m_sendList c = []"
proof -
  have "unat DEFAULT_SIZE \<le> PTRDIFF_MAX" by (simp add: DEFAULT_SIZE_def PTRDIFF_MAX_def)
  from newConnection_ok [OF this, of s] obtain c' :: "'b connection" where c': "newConnection s DEFAULT_SIZE = Inr c'"
      "nb_inv (m_bufferSend c')" "nb_inv (m_bufferRecv c')" "nb_content (m_bufferRecv c') = []"
      "nb_unread (m_bufferSend c') = []" "m_maxLen (m_bufferSend c') = DEFAULT_SIZE" "m_maxLen (m_bufferRecv c') = DEFAULT_SIZE"
      "\<not> m_lock (m_bufferSend c')" "m_waitMessage c' = None" "\<not> m_isSend c'" "m_sendList c' = []" by blast
  moreover have "c' = c" using c'(1) assms by simp
  ultimately show "nb_inv (m_bufferSend c)" "nb_inv (m_bufferRecv c)" "nb_content (m_bufferRecv c) = []"
    "nb_unread (m_bufferSend c) = []" "m_maxLen (m_bufferSend c) = DEFAULT_SIZE" "m_maxLen (m_bufferRecv c) = DEFAULT_SIZE"
    "\<not> m_lock (m_bufferSend c)" "m_waitMessage c = None" "\<not> m_isSend c" "m_sendList c = []"
    by simp_all
qed

section \<open>Default messages\<close>

text \<open>They are the frames of the bytes that were read, whatever these are.\<close>

definition rx_ok :: "net_block conn_sys \<Rightarrow> bytes \<Rightarrow> bool" where
  "rx_ok x inp \<longleftrightarrow> list_all2 nblk_done (told (notices (s_events x))) (fst (deframe inp)) \<and>
     recv_holds nblk_repr (s_conn x) (snd (deframe inp))"

lemma deframe_nil [simp]: "deframe [] = ([], [])"
  by (simp add: deframe_not_ready frame_ready_def)

lemma rx_reading: "reading dbg (netBlock_vt False) rx_ok"
  unfolding reading_def
proof (intro conjI allI impI)
  fix x y :: "net_block conn_sys" and inp
  assume "rx_ok x inp" and "told (notices (s_events y)) = told (notices (s_events x))"
    and c: "m_bufferRecv (s_conn y) = m_bufferRecv (s_conn x)" "m_waitMessage (s_conn y) = m_waitMessage (s_conn x)"
  then show "rx_ok y inp" using recv_holds_same [OF c] by (simp add: rx_ok_def)
next
  fix x y :: "net_block conn_sys" and data es inp
  assume rx: "rx_ok x inp" and on: "m_connect (s_conn x)"
    and r: "handleReadSome dbg (netBlock_vt False) (s_conn x) False data = Some (Inr (s_conn y, es))"
    and room: "length data \<le> nb_free (m_bufferRecv (s_conn x))"
    and ev: "told (notices (s_events y)) = told (notices (s_events x)) @ told (notices es)"
  have h: "recv_holds nblk_repr (s_conn x) (snd (deframe inp))" using rx by (simp add: rx_ok_def)
  from handleReadSome_net [OF h on room, of dbg] r obtain bs where
    b: "es = map EventPostRecv bs @ beginRead (s_conn y)"
      "list_all2 nblk_done bs (fst (deframe (snd (deframe inp) @ data)))"
      "recv_holds nblk_repr (s_conn y) (snd (deframe (snd (deframe inp) @ data)))"
    by (auto split: if_splits)
  have "told (notices es) = bs" by (simp add: b(1) notices_posted beginRead_def)
  then show "rx_ok y (inp @ data)"
    using rx b(2,3) ev by (simp add: rx_ok_def deframe_append [of inp data] list_all2_appendI)
next
  fix s and c :: "net_block connection"
  assume c: "newConnection s DEFAULT_SIZE = Inr c"
  show "rx_ok (start_sys c) []"
    using fresh_conn [OF c] fresh_holds [of c nblk_repr] by (simp add: rx_ok_def start_sys_def)
qed

lemma session_told:
  assumes reach: "node_reach dbg (netBlock_vt False) resolve lo owner n"
  shows "\<exists>k. list_all2 nblk_done (told (seen (netBlock_vt False) s (nd_log n))) (take k (fst (deframe (nd_in n s)))) \<and>
    (queue_of (m_nets (nd_sv n)) (owner s) = [] \<longrightarrow> k = length (fst (deframe (nd_in n s))))"
proof -
  note rx = net_session.node_rx_reach [OF reach rx_reading]
  have "list_all2 nblk_done (told (conn_notes (nd_conns n) s)) (fst (deframe (nd_in n s)))"
  proof (cases "nd_conns n s")
    case None
    then have "nd_in n s = []" using rx by (simp add: node_rx_def)
    then show ?thesis using None by (simp add: conn_notes_def)
  next
    case (Some x)
    then have "rx_ok x (nd_in n s)" using rx by (simp add: node_rx_def)
    then show ?thesis using Some by (simp add: conn_notes_def rx_ok_def)
  qed
  then show ?thesis by (rule net_session.told_so_far [OF reach])
qed

section \<open>Redis messages\<close>

text \<open>
  As long as the bytes that were read are the beginning of replies, the messages are these
  replies; the connection holds a proper part of the next one.
\<close>

definition stream_read ::
    "('b \<Rightarrow> bytes \<Rightarrow> bool) \<Rightarrow> ('b \<Rightarrow> 'm \<Rightarrow> bool) \<Rightarrow> ('m \<Rightarrow> bytes) \<Rightarrow> ('m \<Rightarrow> bool) \<Rightarrow> 'b conn_sys \<Rightarrow> bytes \<Rightarrow> bool" where
  "stream_read repr finished enc valid x inp \<longleftrightarrow>
     (\<forall>later ms part. inp @ later = concat (map enc ms) @ part \<longrightarrow> (\<forall>m \<in> set ms. valid m) \<longrightarrow> proper_part enc valid part \<longrightarrow>
        (\<exists>ms1 ms2 part1. ms = ms1 @ ms2 \<and> part1 @ later = concat (map enc ms2) @ part \<and>
           proper_part enc valid part1 \<and> (later = [] \<longrightarrow> ms2 = []) \<and>
           list_all2 finished (told (notices (s_events x))) ms1 \<and> recv_holds repr (s_conn x) part1))"

context stream_class
begin

lemma stream_read_step:
  assumes x: "stream_read repr finished enc valid x inp" and on: "m_connect (s_conn x)"
    and r: "handleReadSome dbg vt (s_conn x) False data = Some (Inr (s_conn y, es))"
    and room: "length data \<le> nb_free (m_bufferRecv (s_conn x))"
    and ev: "told (notices (s_events y)) = told (notices (s_events x)) @ told (notices es)"
  shows "stream_read repr finished enc valid y (inp @ data)"
  unfolding stream_read_def
proof (intro allI impI)
  fix later ms part
  assume eq: "(inp @ data) @ later = concat (map enc ms) @ part" and ms: "\<forall>m \<in> set ms. valid m" and part: "proper_part enc valid part"
  obtain ms1 ms2 p1 where 1: "ms = ms1 @ ms2" "p1 @ data @ later = concat (map enc ms2) @ part"
      "list_all2 finished (told (notices (s_events x))) ms1" "recv_holds repr (s_conn x) p1"
    using x eq ms part unfolding stream_read_def by (metis append_assoc)
  have "(p1 @ data) @ later = concat (map enc ms2) @ part" "\<forall>m \<in> set ms2. valid m" using 1(1,2) ms by simp_all
  from stream_split [OF this(1) part this(2)] obtain ms3 ms4 p3 where
    3: "ms2 = ms3 @ ms4" "p1 @ data = concat (map enc ms3) @ p3" "p3 @ later = concat (map enc ms4) @ part"
      "proper_part enc valid p3" "later = [] \<longrightarrow> ms4 = []" by blast
  have "\<forall>m \<in> set ms3. valid m" using ms 1(1) 3(1) by simp
  from handleReadSome_ok [OF 1(4) on room 3(2) this 3(4), of dbg] r obtain bs where
    b: "es = map EventPostRecv bs @ beginRead (s_conn y)" "list_all2 finished bs ms3" "recv_holds repr (s_conn y) p3" by auto
  have "told (notices es) = bs" by (simp add: b(1) notices_posted beginRead_def)
  then have "list_all2 finished (told (notices (s_events y))) (ms1 @ ms3)" using ev 1(3) b(2) by (simp add: list_all2_appendI)
  then show "\<exists>ms1 ms2 part1. ms = ms1 @ ms2 \<and> part1 @ later = concat (map enc ms2) @ part \<and>
      proper_part enc valid part1 \<and> (later = [] \<longrightarrow> ms2 = []) \<and>
      list_all2 finished (told (notices (s_events y))) ms1 \<and> recv_holds repr (s_conn y) part1"
    using 1(1) 3 b(3) by (intro exI [of _ "ms1 @ ms3"] exI [of _ ms4] exI [of _ p3]) simp
qed

lemma stream_read_start:
  assumes c: "newConnection s DEFAULT_SIZE = Inr c"
  shows "stream_read repr finished enc valid (start_sys c) []"
  unfolding stream_read_def
proof (intro allI impI)
  fix later ms part
  assume eq: "[] @ later = concat (map enc ms) @ part" and ms: "\<forall>m \<in> set ms. valid m" and part: "proper_part enc valid part"
  have "proper_part enc valid []" using part enc_nonempty unfolding proper_part_def by auto
  moreover have "later = [] \<longrightarrow> ms = []" using eq ms enc_nonempty by (cases ms) auto
  ultimately show "\<exists>ms1 ms2 part1. ms = ms1 @ ms2 \<and> part1 @ later = concat (map enc ms2) @ part \<and>
      proper_part enc valid part1 \<and> (later = [] \<longrightarrow> ms2 = []) \<and>
      list_all2 finished (told (notices (s_events (start_sys c)))) ms1 \<and> recv_holds repr (s_conn (start_sys c)) part1"
    using eq fresh_conn [OF c] fresh_holds [of c repr]
    by (intro exI [of _ "[]"] exI [of _ ms] exI [of _ "[]"]) (simp add: start_sys_def)
qed

lemma stream_reading: "reading dbg vt (stream_read repr finished enc valid)"
  unfolding reading_def
proof (intro conjI allI impI)
  fix x y :: "'b conn_sys" and inp
  assume "stream_read repr finished enc valid x inp" and "told (notices (s_events y)) = told (notices (s_events x))"
    and c: "m_bufferRecv (s_conn y) = m_bufferRecv (s_conn x)" "m_waitMessage (s_conn y) = m_waitMessage (s_conn x)"
  then show "stream_read repr finished enc valid y inp" unfolding stream_read_def recv_holds_same [OF c] by simp
next
  fix x y :: "'b conn_sys" and data es inp
  assume "stream_read repr finished enc valid x inp" and "m_connect (s_conn x)"
    and "handleReadSome dbg vt (s_conn x) False data = Some (Inr (s_conn y, es))"
    and "length data \<le> nb_free (m_bufferRecv (s_conn x))"
    and "told (notices (s_events y)) = told (notices (s_events x)) @ told (notices es)"
  then show "stream_read repr finished enc valid y (inp @ data)" by (rule stream_read_step)
next
  fix s and c :: "'b connection"
  assume "newConnection s DEFAULT_SIZE = Inr c"
  then show "stream_read repr finished enc valid (start_sys c) []" by (rule stream_read_start)
qed

end

lemma stream_told:
  assumes rx: "node_rx (stream_read repr finished enc valid) n" and eq: "nd_in n s @ later = concat (map enc ms) @ part"
    and ms: "\<forall>m \<in> set ms. valid m" and part: "proper_part enc valid part" and ne: "\<And>m. valid m \<Longrightarrow> enc m \<noteq> []"
  shows "\<exists>ms1 ms2. ms = ms1 @ ms2 \<and> (later = [] \<longrightarrow> ms2 = []) \<and> list_all2 finished (told (conn_notes (nd_conns n) s)) ms1"
proof (cases "nd_conns n s")
  case None
  then have "nd_in n s = []" using rx by (simp add: node_rx_def)
  then have "later = [] \<longrightarrow> ms = []" using eq ms ne by (cases ms) auto
  then show ?thesis using None by (intro exI [of _ "[]"] exI [of _ ms]) (simp add: conn_notes_def)
next
  case (Some x)
  then have "stream_read repr finished enc valid x (nd_in n s)" using rx by (simp add: node_rx_def)
  then obtain ms1 ms2 where "ms = ms1 @ ms2" "later = [] \<longrightarrow> ms2 = []" "list_all2 finished (told (notices (s_events x))) ms1"
    using eq ms part unfolding stream_read_def by blast
  then show ?thesis using Some by (intro exI [of _ ms1] exI [of _ ms2]) (simp add: conn_notes_def)
qed

context decimal_cast
begin

lemma redis2_told:
  assumes reach: "node_reach dbg (redisBlock2_vt dbg cast) resolve lo owner n"
    and eq: "nd_in n s @ later = concat (map resp_bytes rs) @ part"
    and rs: "\<forall>r \<in> set rs. rb2_valid r" and part: "proper_part resp_bytes rb2_valid part"
  shows "\<exists>k. list_all2 rb2_done (told (seen (redisBlock2_vt dbg cast) s (nd_log n))) (take k rs) \<and>
    (later = [] \<and> queue_of (m_nets (nd_sv n)) (owner s) = [] \<longrightarrow> k = length rs)"
proof -
  from stream_told [OF redis2_session.node_rx_reach [OF reach rb2.stream_reading] eq rs part rb2.enc_nonempty]
  obtain rs1 rs2 where r: "rs = rs1 @ rs2" "later = [] \<longrightarrow> rs2 = []"
    "list_all2 rb2_done (told (conn_notes (nd_conns n) s)) rs1" by blast
  from redis2_session.told_so_far [OF reach r(3)] obtain k where
    k: "list_all2 rb2_done (told (seen (redisBlock2_vt dbg cast) s (nd_log n))) (take k rs1)"
      "queue_of (m_nets (nd_sv n)) (owner s) = [] \<longrightarrow> k = length rs1" by blast
  show ?thesis using k r by (intro exI [of _ "min k (length rs1)"]) (auto simp: min_def)
qed

lemma redis_told:
  assumes reach: "node_reach dbg (redisBlock_vt dbg cast) resolve lo owner n"
    and eq: "nd_in n s @ later = concat (map resp_bytes rs) @ part"
    and rs: "\<forall>r \<in> set rs. rb_valid cast r" and part: "proper_part resp_bytes (rb_valid cast) part"
  shows "\<exists>k. list_all2 (rb_done cast) (told (seen (redisBlock_vt dbg cast) s (nd_log n))) (take k rs) \<and>
    (later = [] \<and> queue_of (m_nets (nd_sv n)) (owner s) = [] \<longrightarrow> k = length rs)"
proof -
  from stream_told [OF redis_session.node_rx_reach [OF reach rb.stream_reading] eq rs part rb.enc_nonempty]
  obtain rs1 rs2 where r: "rs = rs1 @ rs2" "later = [] \<longrightarrow> rs2 = []"
    "list_all2 (rb_done cast) (told (conn_notes (nd_conns n) s)) rs1" by blast
  from redis_session.told_so_far [OF reach r(3)] obtain k where
    k: "list_all2 (rb_done cast) (told (seen (redisBlock_vt dbg cast) s (nd_log n))) (take k rs1)"
      "queue_of (m_nets (nd_sv n)) (owner s) = [] \<longrightarrow> k = length rs1" by blast
  show ?thesis using k r by (intro exI [of _ "min k (length rs1)"]) (auto simp: min_def)
qed

end

end
