(* ===== verification/Node_Stream.thy ===== *)
theory Node_Stream
  imports Node_Reads
begin

text \<open>
  The bytes of a session in a whole process.  The sending side: while a connection was opened
  once, what its socket took is the first part of the messages given to it.  The receiving
  side: the messages of a connection are the frames of the bytes it read.  Put together, the
  messages the user of one process sends to a session are those the user of another process
  is called with.
\<close>

section \<open>Sending\<close>

fun opens :: "'b notice list \<Rightarrow> nat" where
  "opens [] = 0"
| "opens (Opened # ns) = Suc (opens ns)"
| "opens (_ # ns) = opens ns"

lemma opens_append [simp]: "opens (ms @ ns) = opens ms + opens ns"
  by (induction ms rule: opens.induct) simp_all

lemma opens_pos: "Opened \<in> set ns \<Longrightarrow> 0 < opens ns"
  by (induction ns rule: opens.induct) auto

text \<open>A connection that was never opened has nothing to send, and no write is posted.\<close>

definition idle :: "'b conn_sys \<Rightarrow> bool" where
  "idle x \<longleftrightarrow> fresh_conn ((s_conn x)\<lparr>m_connect := True\<rparr>) \<and> \<not> m_connect (s_conn x) \<and>
     s_flight x = None \<and> s_wire x = [] \<and> s_submitted x = [] \<and> \<not> s_broken x \<and>
     (\<forall>k. RunWrite k \<notin> set (s_queue x))"

definition no_accepts :: "'b conn_sys \<Rightarrow> 'b conn_sys" where
  "no_accepts x = x\<lparr>s_queue := filter (\<lambda>k. k \<noteq> RunAccept) (s_queue x)\<rparr>"

definition tx_inv :: "'b block_vt \<Rightarrow> 'b conn_sys \<Rightarrow> bool" where
  "tx_inv vt x \<longleftrightarrow> (opens (notices (s_events x)) = 0 \<longrightarrow> idle x) \<and>
     (opens (notices (s_events x)) = 1 \<longrightarrow> sys_inv vt (no_accepts x))"

lemma no_accepts_updates:
  "no_accepts (x\<lparr>s_events := e\<rparr>) = (no_accepts x)\<lparr>s_events := e\<rparr>"
  "no_accepts (x\<lparr>s_flight := f\<rparr>) = (no_accepts x)\<lparr>s_flight := f\<rparr>"
  "no_accepts (x\<lparr>s_conn := c\<rparr>) = (no_accepts x)\<lparr>s_conn := c\<rparr>"
  "no_accepts (x\<lparr>s_wire := w\<rparr>) = (no_accepts x)\<lparr>s_wire := w\<rparr>"
  "no_accepts (x\<lparr>s_broken := b\<rparr>) = (no_accepts x)\<lparr>s_broken := b\<rparr>"
  by (cases x; simp add: no_accepts_def)+

lemma no_accepts_queue:
  "no_accepts (x\<lparr>s_queue := q\<rparr>) = (no_accepts x)\<lparr>s_queue := filter (\<lambda>k. k \<noteq> RunAccept) q\<rparr>"
  "no_accepts (x\<lparr>s_queue := s_queue x @ [k]\<rparr>) =
     (if k = RunAccept then no_accepts x else (no_accepts x)\<lparr>s_queue := s_queue (no_accepts x) @ [k]\<rparr>)"
  by (cases x; simp add: no_accepts_def)+

lemma no_accepts_sel [simp]:
  "s_events (no_accepts x) = s_events x" "s_flight (no_accepts x) = s_flight x" "s_conn (no_accepts x) = s_conn x"
  "s_wire (no_accepts x) = s_wire x" "s_submitted (no_accepts x) = s_submitted x" "s_broken (no_accepts x) = s_broken x"
  by (simp_all add: no_accepts_def)

lemma no_accepts_absorb:
  "no_accepts (absorb es x) = absorb (filter (\<lambda>e. e \<noteq> IoPost RunAccept) es) (no_accepts x)"
  by (induction es x rule: absorb.induct) (simp_all add: no_accepts_updates no_accepts_queue(2))

lemma no_accepts_quiet: 
  assumes "IoPost RunAccept \<notin> set es"
  shows "no_accepts (absorb es x) = absorb es (no_accepts x)"
proof -
  have "filter (\<lambda>e. e \<noteq> IoPost RunAccept) es = es" using assms by (auto intro: filter_True)
  then show ?thesis by (simp add: no_accepts_absorb)
qed

text \<open>The connection comes up for the first time.\<close>

lemma idle_opens:
  assumes "idle x" and "s_queue y = filter (\<lambda>k. k \<noteq> RunAccept) q" and "set q \<subseteq> set (s_queue x)"
    and "s_conn y = (s_conn x)\<lparr>m_connect := True\<rparr>" and "s_flight y = None" and "s_wire y = []"
    and "s_submitted y = []"
  shows "sys_inv vt y"
  using assms by (auto simp: idle_def sys_inv_def fresh_conn_def send_inv_def conn_out_def)

lemma absorb_opened:
  "no_accepts (absorb (EventConnect s # beginRead c) x) =
     (no_accepts x)\<lparr>s_events := s_events x @ EventConnect s # beginRead c\<rparr>"
  by (simp add: no_accepts_def beginRead_def)

lemma connect_down: "m_connect c = False \<Longrightarrow> c\<lparr>m_connect := False\<rparr> = c"
  by (cases c) simp

text \<open>Handlers of a connection that was never opened.\<close>

lemma idle_handler:
  assumes idle: "idle x" and io: "conn_io dbg vt x data es x'"
  shows "(es = [] \<or> es = [EventConnectFailed] \<or> (\<exists>b. es = [IoPost (RunClose b)]) \<or>
      (\<exists>s. es = [SocketShutdown, SocketClose, EventClose s])) \<and> idle x' \<or>
    (\<exists>s c. es = EventConnect s # beginRead c) \<and> s_conn x' = (s_conn x)\<lparr>m_connect := True\<rparr> \<and>
      set (s_queue x') \<subseteq> set (s_queue x) \<and> s_flight x' = None \<and> s_wire x' = [] \<and> s_submitted x' = []"
  using io
proof cases
  case (Task k q c)
  show ?thesis
  proof (cases k)
    case (RunWrite n)
    then show ?thesis using idle Task(3) by (auto simp: idle_def)
  next
    case (RunClose er)
    then have "handleClose (s_conn x) er = (c, es)" using Task(4) by (simp add: run_task_def)
    then have "c = s_conn x \<and> es = [IoPost (RunClose er)] \<or>
        c = (s_conn x)\<lparr>m_connect := False\<rparr> \<and> es = [SocketShutdown, SocketClose, EventClose (c_session (s_conn x))]"
      by (auto simp: handleClose_def conn_close_def split: if_splits)
    then show ?thesis using idle Task(1-3) connect_down [of "s_conn x"] by (auto simp: idle_def)
  next
    case RunAccept
    then have "handlAccept (s_conn x) = (c, es)" using Task(4) by (simp add: run_task_def)
    then show ?thesis using idle Task(1-3) by (auto simp: idle_def handlAccept_def Let_def)
  qed
next
  case (Connected er c)
  show ?thesis
  proof (cases er)
    case True
    then show ?thesis using idle Connected(1-3) connect_down [of "s_conn x"] by (auto simp: idle_def handleConnect_def)
  next
    case False
    then show ?thesis using idle Connected(1-3) by (auto simp: idle_def handleConnect_def Let_def)
  qed
qed (use idle in \<open>auto simp: idle_def handleReadSome_def\<close>)

text \<open>Its first connect, or the task of its accepted socket, starts the sending side.\<close>

lemma idle_absorb:
  "idle x \<Longrightarrow> es = [] \<or> es = [EventConnectFailed] \<or> (\<exists>b. es = [IoPost (RunClose b)]) \<or>
     (\<exists>s. es = [SocketShutdown, SocketClose, EventClose s]) \<Longrightarrow>
   idle (absorb es x) \<and> opens (notices es) = 0"
  by (auto simp: idle_def)

lemma tx_idle:
  assumes inv: "tx_inv vt x" and z: "opens (notices (s_events x)) = 0" and io: "conn_io dbg vt x data es x'"
    and ev: "s_events x' = s_events x"
  shows "tx_inv vt (absorb es x')"
proof -
  have i: "idle x" using inv z by (simp add: tx_inv_def)
  from idle_handler [OF i io] show ?thesis
  proof
    assume "(es = [] \<or> es = [EventConnectFailed] \<or> (\<exists>b. es = [IoPost (RunClose b)]) \<or>
      (\<exists>s. es = [SocketShutdown, SocketClose, EventClose s])) \<and> idle x'"
    then show ?thesis using idle_absorb [of x' es] z ev by (simp add: tx_inv_def)
  next
    assume a: "(\<exists>s c. es = EventConnect s # beginRead c) \<and> s_conn x' = (s_conn x)\<lparr>m_connect := True\<rparr> \<and>
      set (s_queue x') \<subseteq> set (s_queue x) \<and> s_flight x' = None \<and> s_wire x' = [] \<and> s_submitted x' = []"
    then obtain s c where es: "es = EventConnect s # beginRead c" by blast
    have eq: "no_accepts (absorb es x') = absorb es (no_accepts x')"
      by (rule no_accepts_quiet) (simp add: es beginRead_def)
    have "sys_inv vt (no_accepts (absorb es x'))"
      unfolding eq by (rule idle_opens [OF i, of _ "s_queue x'"]) (use a in \<open>simp_all add: es beginRead_def no_accepts_def\<close>)
    then show ?thesis using z ev by (simp add: tx_inv_def es beginRead_def)
  qed
qed

text \<open>Handlers of a connection that was opened once are steps of the sending side.\<close>

lemma read_posts: "handleReadSome dbg vt c er data = Some (Inr (c', es)) \<Longrightarrow> IoPost RunAccept \<notin> set es"
  using handleReadSome_same by fastforce

lemma writeMessage_posts: "writeMessage dbg vt c n = Inr (c', es) \<Longrightarrow> IoPost RunAccept \<notin> set es"
  by (auto simp: writeMessage_def rbind_eq_Inr Let_def split: if_splits)

lemma handleWrite_posts: "handleWrite dbg vt c er n = Inr (c', es) \<Longrightarrow> IoPost RunAccept \<notin> set es"
  by (auto simp: handleWrite_def onError_def conn_close_def Let_def split: if_splits dest: writeMessage_posts)

lemma handleClose_posts: "handleClose c er = (c', es) \<Longrightarrow> IoPost RunAccept \<notin> set es"
  by (auto simp: handleClose_def conn_close_def split: if_splits)

lemma opened_step:
  assumes io: "conn_io dbg vt x data es x'" and no: "opens (notices es) = 0"
  shows "conn_step dbg vt (no_accepts x) (no_accepts (absorb es x')) \<or>
    (\<exists>ev. no_accepts (absorb es x') = (no_accepts x)\<lparr>s_events := ev\<rparr>)"
  using io
proof cases
  case (Task k q c)
  show ?thesis
  proof (cases k)
    case (RunWrite n)
    then have w: "writeMessage dbg vt (s_conn x) n = Inr (c, es)" using Task(4) by (simp add: run_task_def)
    have "s_queue (no_accepts x) = RunWrite n # filter (\<lambda>k. k \<noteq> RunAccept) q"
      using Task(3) RunWrite by (simp add: no_accepts_def)
    from conn_step.Task_write [OF this, of dbg vt c es] w show ?thesis
      by (simp add: Task(2) no_accepts_quiet [OF writeMessage_posts [OF w]] no_accepts_updates no_accepts_queue(1))
  next
    case (RunClose er)
    then have w: "handleClose (s_conn x) er = (c, es)" using Task(4) by (simp add: run_task_def)
    have "s_queue (no_accepts x) = RunClose er # filter (\<lambda>k. k \<noteq> RunAccept) q"
      using Task(3) RunClose by (simp add: no_accepts_def)
    from conn_step.Task_close [OF this, of c es dbg vt] w show ?thesis
      by (simp add: Task(2) no_accepts_quiet [OF handleClose_posts [OF w]] no_accepts_updates no_accepts_queue(1))
  next
    case RunAccept
    then show ?thesis using Task(4) no by (auto simp: run_task_def handlAccept_def Let_def)
  qed
next
  case (Written b c)
  from conn_step.Write_done [of "no_accepts x" b dbg vt c es] Written show ?thesis
    by (simp add: no_accepts_quiet [OF handleWrite_posts [OF Written(5)]] no_accepts_updates)
next
  case (Write_failed b k c)
  from conn_step.Write_fail [of "no_accepts x" b k dbg vt c es] Write_failed show ?thesis
    by (simp add: no_accepts_quiet [OF handleWrite_posts [OF Write_failed(5)]] no_accepts_updates)
next
  case (Read data c)
  from conn_step.Read_some [of dbg vt "no_accepts x" False data c es] Read show ?thesis
    by (simp add: no_accepts_quiet [OF read_posts [OF Read(3)]] no_accepts_updates)
next
  case (Read_failed data c)
  from conn_step.Read_some [of dbg vt "no_accepts x" True data c es] Read_failed show ?thesis
    by (simp add: no_accepts_quiet [OF read_posts [OF Read_failed(3)]] no_accepts_updates)
next
  case (Connected er c)
  show ?thesis
  proof (cases "m_connect (s_conn x)")
    case True
    then have "c = s_conn x" "es = []" using Connected(3) by (simp_all add: handleConnect_def)
    then have "no_accepts (absorb es x') = no_accepts x" using True by (simp add: Connected(2))
    then show ?thesis by (metis (mono_tags) conn_sys.surjective conn_sys.update_convs(7))
  next
    case False
    then have "er" using Connected(3) no by (auto simp: handleConnect_def Let_def split: if_splits)
    then have "c = s_conn x" "es = [EventConnectFailed]"
      using Connected(3) False connect_down [of "s_conn x"] by (auto simp: handleConnect_def)
    then have "no_accepts (absorb es x') = (no_accepts x)\<lparr>s_events := s_events x @ [EventConnectFailed]\<rparr>"
      using \<open>er\<close> by (simp add: Connected(2) no_accepts_updates)
    then show ?thesis by blast
  qed
qed

lemma sys_inv_events [simp]: "sys_inv vt (x\<lparr>s_events := e\<rparr>) = sys_inv vt x"
  by (simp add: sys_inv_def)

lemma call_tx:
  assumes inv: "tx_inv vt x" and k: "\<And>p. k = CallSend p \<Longrightarrow> sendable vt p \<and> 0 < opens (notices (s_events x))"
  shows "tx_inv vt (call_sys vt k x)"
proof -
  have ev: "notices (s_events (call_sys vt k x)) = notices (s_events x)" by (rule call_sys_sel)
  have "idle (call_sys vt k x)" if z: "opens (notices (s_events x)) = 0"
  proof -
    have "idle x" using inv z by (simp add: tx_inv_def)
    then show ?thesis using k z
      by (cases k) (auto simp: idle_def call_sys_def run_call_def conn_close_def onError_def postAccept_def conn_connect_def)
  qed
  moreover have "sys_inv vt (no_accepts (call_sys vt k x))" if o: "opens (notices (s_events x)) = 1"
  proof -
    have s: "sys_inv vt (no_accepts x)" using inv o by (simp add: tx_inv_def)
    show ?thesis
    proof (cases k)
      case (CallSend p)
      have "conn_send (s_conn (no_accepts x)) p = ((s_conn x)\<lparr>m_sendList := m_sendList (s_conn x) @ [p]\<rparr>, [IoPost (RunWrite 0)])"
        by (simp add: conn_send_def)
      from sys_inv_send [OF s _ this] k [OF CallSend] show ?thesis
        by (simp add: CallSend call_sys_def run_call_def conn_send_def no_accepts_def)
    next
      case (CallClose er)
      have "conn_close (s_conn (no_accepts x)) er = (s_conn x, [IoPost (RunClose er)])" by (simp add: conn_close_def)
      from sys_inv_close [OF s this] show ?thesis
        by (simp add: CallClose call_sys_def run_call_def conn_close_def no_accepts_def)
    next
      case (CallOnError er)
      have "conn_close (s_conn (no_accepts x)) er = (s_conn x, [IoPost (RunClose er)])" by (simp add: conn_close_def)
      from sys_inv_close [OF s this] show ?thesis
        by (simp add: CallOnError call_sys_def run_call_def onError_def conn_close_def no_accepts_def)
    next
      case CallPostAccept
      then show ?thesis using s by (simp add: call_sys_def run_call_def postAccept_def no_accepts_def)
    next
      case (CallConnect e)
      then show ?thesis using s by (simp add: call_sys_def run_call_def conn_connect_def no_accepts_updates)
    qed
  qed
  ultimately show ?thesis unfolding tx_inv_def ev by blast
qed

context session_class
begin

lemma tx_handle:
  assumes inv: "tx_inv vt x" and io: "conn_io dbg vt x data es x'"
  shows "tx_inv vt (absorb es x')"
proof -
  have ev: "s_events x' = s_events x" using conn_io_reports [OF io] by blast
  have n: "opens (notices (s_events (absorb es x'))) = opens (notices (s_events x)) + opens (notices es)"
    by (simp add: ev)
  show ?thesis
  proof (cases "opens (notices (s_events x)) = 0")
    case True
    then show ?thesis using tx_idle [OF inv _ io ev] by blast
  next
    case False
    have "sys_inv vt (no_accepts (absorb es x'))" if "opens (notices (s_events (absorb es x'))) = 1"
    proof -
      have o: "opens (notices (s_events x)) = 1" "opens (notices es) = 0" using that False n by auto
      then have "sys_inv vt (no_accepts x)" using inv by (simp add: tx_inv_def)
      then show ?thesis using opened_step [OF io o(2)] sys_inv_step by auto
    qed
    then show ?thesis using False n by (simp add: tx_inv_def)
  qed
qed

end

section \<open>Sending in a process\<close>

text \<open>What was given to a connection is what the log says was sent to its session.\<close>

definition node_tx :: "'b block_vt \<Rightarrow> 'b node \<Rightarrow> bool" where
  "node_tx vt n \<longleftrightarrow> (\<forall>s x. nd_conns n s = Some x \<longrightarrow>
     tx_inv vt x \<and> s_submitted x = list_out vt (sent_to s (nd_log n)))"

lemma call_sys_submitted:
  "s_submitted (call_sys vt k x) = s_submitted x @ (case k of CallSend p \<Rightarrow> block_out vt p | _ \<Rightarrow> [])"
  by (simp add: call_sys_def split: prod.split)

lemma sent_to_call: "sent_to s (OnConn s k # acts) = (case k of CallSend p \<Rightarrow> [p] | _ \<Rightarrow> []) @ sent_to s acts"
  by (cases k) simp_all

lemma sent_to_other: "a \<noteq> OnConn s k \<Longrightarrow> (\<And>k. a \<noteq> OnConn s k) \<Longrightarrow> sent_to s (a # acts) = sent_to s acts"
  by (cases a rule: plain.cases) auto

lemma do_actions_submitted:
  "m s = Some x \<Longrightarrow> s \<notin> set (new_ids acts) \<Longrightarrow>
   \<exists>y. do_actions vt acts m s = Some y \<and> s_submitted y = s_submitted x @ list_out vt (sent_to s acts)"
proof (induction acts arbitrary: m x)
  case (Cons a acts)
  show ?case
  proof (cases "\<exists>k. a = OnConn s k")
    case True
    then obtain k where a: "a = OnConn s k" by blast
    have "do_action vt a m s = Some (call_sys vt k x)" using Cons.prems(1) by (simp add: a)
    from Cons.IH [where m = "do_action vt a m", OF this] Cons.prems(2) show ?thesis
      unfolding a sent_to_call by (cases k) (auto simp: call_sys_submitted)
  next
    case False
    have "do_action vt a m s = Some x" "s \<notin> set (new_ids acts)"
      using Cons.prems False by (cases a; auto split: sum.split option.split)+
    from Cons.IH [where m = "do_action vt a m", OF this] False show ?thesis by (auto simp: sent_to_other)
  qed
qed simp

lemma start_tx:
  assumes "newConnection s DEFAULT_SIZE = Inr c"
  shows "tx_inv vt (start_sys c) \<and> s_submitted (start_sys c) = []"
proof -
  have sz: "unat DEFAULT_SIZE \<le> PTRDIFF_MAX" "0 < DEFAULT_SIZE" by (simp_all add: DEFAULT_SIZE_def PTRDIFF_MAX_def)
  have "(handlAccept c) = (c\<lparr>m_connect := True\<rparr>, snd (handlAccept c))" by (simp add: handlAccept_def Let_def)
  then have "fresh_conn (c\<lparr>m_connect := True\<rparr>)" using accepted_fresh [OF sz assms] by (metis fst_conv)
  then show ?thesis using new_connection_down [OF assms] by (simp add: tx_inv_def idle_def start_sys_def)
qed

lemma do_actions_new:
  assumes "m s = None" and "sent_to s acts = []" and "do_actions vt acts m s = Some x"
  shows "s_submitted x = []"
proof -
  have "s = s \<longrightarrow> s_submitted x = []"
  proof (rule do_actions_all [where P = "\<lambda>r y. r = s \<longrightarrow> s_submitted y = []", OF _ _ _ assms(3)])
    show "r = s \<longrightarrow> s_submitted y = []" if "m r = Some y" for r y using that assms(1) by auto
    show "r = s \<longrightarrow> s_submitted (call_sys vt k y) = []" if "OnConn r k \<in> set acts" "r = s \<longrightarrow> s_submitted y = []" for r k y
      using that assms(2) by (auto simp: sent_to_iff call_sys_submitted split: conn_call.split)
    show "r = s \<longrightarrow> s_submitted (start_sys c) = []" for r and c :: "'a connection" by (simp add: start_sys_def)
  qed
  then show ?thesis by simp
qed

lemma node_tx_call:
  assumes inv: "node_inv vt owner n" and tx: "node_tx vt n" and mv: "moves vt (nd_sv n) acts sv"
    and ids: "mints (m_ioPool (nd_sv n)) acts (m_ioPool sv)" "ids_left acts (nd_sv n)" and ok: "sends_ok vt acts"
  shows "node_tx vt (node_call vt acts sv n)"
proof -
  note M = mints_new [OF ids(1) ids(2) [unfolded ids_left_def]]
  have new: "nd_conns n s = None" if "s \<in> set (new_ids acts)" for s
    using that M(2) node_invD(3) [OF inv] by (metis linorder_not_less not_Some_eq)
  have sent: "\<exists>x. nd_conns n s = Some x \<and> 0 < opens (notices (s_events x))" if "sent_to s acts \<noteq> []" for s
    using sent_conn [OF inv mv that] opens_pos by blast
  let ?P = "\<lambda>s x. tx_inv vt x \<and> (sent_to s acts \<noteq> [] \<longrightarrow> 0 < opens (notices (s_events x)))"
  have "?P s x" if "do_actions vt acts (nd_conns n) s = Some x" for s x
  proof (rule do_actions_all [where P = ?P, OF _ _ _ that])
    show "?P r y" if "nd_conns n r = Some y" for r y
      using that tx sent [of r] by (auto simp: node_tx_def)
    show "?P r (call_sys vt k y)" if "OnConn r k \<in> set acts" "?P r y" for r k y
      using that ok by (auto simp: call_sys_sel sends_ok_def sent_to_iff intro!: call_tx)
    show "?P r (start_sys c)" if "r \<in> set (new_ids acts)" "newConnection r DEFAULT_SIZE = Inr c" for r c
      using new [OF that(1)] sent [of r] start_tx [OF that(2)] by auto
  qed
  moreover have "s_submitted x = list_out vt (sent_to s (nd_log n @ acts))"
    if x: "do_actions vt acts (nd_conns n) s = Some x" for s x
  proof (cases "nd_conns n s")
    case None
    then have z: "sent_to s acts = []" using sent [of s] by auto
    show ?thesis using do_actions_new [OF None z x] node_invD(7) [OF inv None] z by simp
  next
    case (Some y)
    then have "s \<notin> set (new_ids acts)" using new by auto
    from do_actions_submitted [where m = "nd_conns n" and vt = vt, OF Some this] x Some tx show ?thesis by (auto simp: node_tx_def)
  qed
  ultimately show ?thesis by (simp add: node_tx_def node_call_def)
qed

context session_class
begin

lemma node_tx_step:
  assumes step: "node_step dbg vt resolve lo owner n n'" and inv: "node_inv vt owner n" and tx: "node_tx vt n"
  shows "node_tx vt n'"
  using step
proof cases
  case (Request alive rq r sv acts)
  note D = node_invD [OF inv]
  show ?thesis unfolding Request(1)
    by (rule node_tx_call [OF inv tx request_moves [OF D(1) Request(2)] request_mints [OF Request(2)] Request(4,3)])
next
  case (Poll alive user r sv acts)
  show ?thesis unfolding Poll(1)
    by (rule node_tx_call [OF inv tx poll_user_moves [OF node_invD(1) [OF inv] Poll(2)] poll_user_mints [OF Poll(2)] Poll(4,3)])
next
  case (Accept m t er t' pool acts)
  have I: "om_inv (m_nets (nd_sv n))" using node_invD(1) [OF inv] by (simp add: service_inv_def)
  have "mints (m_ioPool (nd_sv n)) acts pool" by (rule acceptSocket_mints [OF Accept(3)])
  moreover have "sends_ok vt acts" using acceptSocket_plain [OF Accept(3)] by (auto simp: sends_ok_def list_all_iff)
  ultimately show ?thesis unfolding Accept(1)
    using node_tx_call [OF inv tx accept_moves [OF I Accept(2,3)] _ Accept(4)] by simp
next
  case (Handle s x data es x' t)
  have "tx_inv vt x" "s_submitted x = list_out vt (sent_to s (nd_log n))" using tx Handle(2) by (simp_all add: node_tx_def)
  then have "tx_inv vt (absorb es x')" "s_submitted (absorb es x') = list_out vt (sent_to s (nd_log n))"
    using tx_handle [OF _ Handle(3)] conn_io_reports [OF Handle(3)] by simp_all
  then show ?thesis using tx unfolding Handle(1) by (simp add: node_tx_def)
qed

lemma node_tx_reach: "node_reach dbg vt resolve lo owner n \<Longrightarrow> node_tx vt n"
proof (induction rule: node_reach.induct)
  case (Start d k sv)
  then show ?case by (simp add: node_tx_def new_node_def)
next
  case (Step n n')
  then show ?case using node_tx_step node_inv_reach by blast
qed

text \<open>
  A session that was opened at most once: what the socket took is the first part of what the
  user sent, and all of it when nothing is left to do.
\<close>

lemma session_wire:
  assumes reach: "node_reach dbg vt resolve lo owner n" and x: "nd_conns n s = Some x"
    and once: "opens (notices (s_events x)) \<le> 1"
  shows "\<exists>rest. list_out vt (sent_to s (nd_log n)) = s_wire x @ rest \<and>
    (\<not> s_broken x \<and> m_connect (s_conn x) \<and> s_flight x = None \<and> RunWrite 0 \<notin> set (s_queue x) \<longrightarrow> rest = [])"
proof -
  have T: "tx_inv vt x" "s_submitted x = list_out vt (sent_to s (nd_log n))"
    using node_tx_reach [OF reach] x by (simp_all add: node_tx_def)
  show ?thesis
  proof (cases "opens (notices (s_events x)) = 0")
    case True
    then show ?thesis using T by (simp add: tx_inv_def idle_def)
  next
    case False
    then have I: "sys_inv vt (no_accepts x)" using T(1) once by (simp add: tx_inv_def)
    have q: "RunWrite 0 \<in> set (s_queue (no_accepts x)) \<longleftrightarrow> RunWrite 0 \<in> set (s_queue x)" by (simp add: no_accepts_def)
    obtain rest where r: "s_submitted x = s_wire x @ rest" using sys_invD(2) [OF I] by auto
    have "rest = []" if n: "\<not> s_broken x" "m_connect (s_conn x)" "s_flight x = None" "RunWrite 0 \<notin> set (s_queue x)"
    proof -
      have "\<not> m_isSend (s_conn x)" using sys_invD(5) [OF I] n(3) by simp
      then have "conn_out vt (s_conn x) = []" using sys_invD(8) [OF I] n q by (simp add: conn_out_def)
      then show ?thesis using sys_invD(3) [OF I] n r by simp
    qed
    then show ?thesis using r T(2) by auto
  qed
qed

end

section \<open>From the user of one process to the user of another\<close>

lemma deframe_prefix:
  assumes "a @ b = net_stream bodies" and "\<forall>m \<in> set bodies. 12 + length m < 2 ^ 32"
  shows "\<exists>k. fst (deframe a) = take k bodies \<and> (b = [] \<longrightarrow> fst (deframe a) = bodies)"
proof -
  have "deframe (a @ b) = (bodies, [])"
    using deframe_frames [OF assms(2), of "[]"] by (simp add: assms(1) net_stream_def)
  then have "bodies = fst (deframe a) @ fst (deframe (snd (deframe a) @ b))" by (simp add: deframe_append [of a b])
  moreover have "fst (deframe (snd (deframe a))) = []"
  proof -
    have "deframe a = (fst (deframe a) @ fst (deframe (snd (deframe a))), snd (deframe (snd (deframe a))))"
      using deframe_append [of a "[]"] by simp
    then show ?thesis by (metis append_self_conv fst_conv)
  qed
  ultimately show ?thesis by (intro exI [of _ "length (fst (deframe a))"]) (auto simp: append_eq_conv_conj)
qed

lemma sealed_stream:
  "list_all2 nblk_sealed bs bodies \<Longrightarrow> list_out (netBlock_vt d) bs = net_stream bodies"
  by (induction bs bodies rule: list_all2_induct) (simp_all add: net_stream_def sealed_out)

lemma two_nodes:
  assumes A: "node_reach dA (netBlock_vt d) resA loA ownA A" and B: "node_reach dB (netBlock_vt False) resB loB ownB B"
    and x: "nd_conns A s = Some x" "opens (notices (s_events x)) \<le> 1" and net: "s_wire x = nd_in B r @ later"
    and sent: "list_all2 nblk_sealed (sent_to s (nd_log A)) bodies" "\<forall>b \<in> set bodies. 12 + length b < 2 ^ 32"
  shows "\<exists>k. list_all2 nblk_done (told (seen (netBlock_vt False) r (nd_log B))) (take k bodies) \<and>
    (\<not> s_broken x \<and> m_connect (s_conn x) \<and> s_flight x = None \<and> RunWrite 0 \<notin> set (s_queue x) \<and>
       later = [] \<and> queue_of (m_nets (nd_sv B)) (ownB r) = [] \<longrightarrow> k = length bodies)"
proof -
  from net_session.session_wire [OF A x] obtain rest where
    w: "list_out (netBlock_vt d) (sent_to s (nd_log A)) = s_wire x @ rest"
      "\<not> s_broken x \<and> m_connect (s_conn x) \<and> s_flight x = None \<and> RunWrite 0 \<notin> set (s_queue x) \<longrightarrow> rest = []" by blast
  have "nd_in B r @ (later @ rest) = net_stream bodies" using w(1) net sealed_stream [OF sent(1)] by simp
  from deframe_prefix [OF this sent(2)] obtain j where
    j: "fst (deframe (nd_in B r)) = take j bodies" "later @ rest = [] \<longrightarrow> fst (deframe (nd_in B r)) = bodies" by blast
  from session_told [OF B, of r] obtain k where
    k: "list_all2 nblk_done (told (seen (netBlock_vt False) r (nd_log B))) (take k (fst (deframe (nd_in B r))))"
      "queue_of (m_nets (nd_sv B)) (ownB r) = [] \<longrightarrow> k = length (fst (deframe (nd_in B r)))" by blast
  show ?thesis
  proof (cases "later @ rest = [] \<and> queue_of (m_nets (nd_sv B)) (ownB r) = []")
    case True
    then show ?thesis using j(2) k by (intro exI [of _ "length bodies"]) simp
  next
    case False
    then show ?thesis using k(1) w(2) by (intro exI [of _ "min k j"]) (auto simp: j(1))
  qed
qed

end
