(* ===== verification/Accept_Once.thy ===== *)
theory Accept_Once
  imports Node_Stream
begin

text \<open>
  A server accepts one socket for each connection it makes, and tells none to connect
  (\<open>beginAccept\<close> and \<open>acceptSocket\<close> of \<open>src/tcp_object.cpp\<close>): the session of an accepted
  connection is opened at most once.
\<close>

section \<open>What the log says about a session\<close>

abbreviation "accepts s acts \<equiv> count_list acts (OnConn s CallPostAccept)"
abbreviation "waits s acts \<equiv> count_list acts (AsyncAccept s)"
abbreviation "made s acts \<equiv> count_list (new_ids acts) s"

definition dials :: "session_id \<Rightarrow> 'b action list \<Rightarrow> bool" where
  "dials s acts \<longleftrightarrow> (\<exists>e. OnConn s (CallConnect e) \<in> set acts)"

lemma dials_simps [simp]:
  "dials s [] = False" "dials s (as @ bs) \<longleftrightarrow> dials s as \<or> dials s bs"
  "dials s (a # acts) \<longleftrightarrow> (\<exists>e. a = OnConn s (CallConnect e)) \<or> dials s acts"
  by (auto simp: dials_def)

lemma distinct_count: "distinct xs \<Longrightarrow> count_list xs a \<le> 1"
  by (induction xs) auto

text \<open>Closing and sending are no part of this.\<close>

lemma calls_count: "list_all is_call acts \<Longrightarrow> accepts s acts = 0 \<and> waits s acts = 0 \<and> made s acts = 0 \<and> \<not> dials s acts"
  by (induction acts) (auto simp: is_call_def)

section \<open>One endpoint\<close>

text \<open>
  Each accepted connection was waited for once, with a connection made for it; only the
  connection of a client is told to connect.
\<close>

definition ep_step :: "'b tcp_obj \<Rightarrow> 'b action list \<Rightarrow> 'b tcp_obj \<Rightarrow> bool" where
  "ep_step t acts t' \<longleftrightarrow> t_session t' = t_session t \<and>
     (\<forall>s. accepts s acts + of_bool (m_current t' = Some s) \<le> waits s acts + of_bool (m_current t = Some s)) \<and>
     (\<forall>s. waits s acts \<le> made s acts) \<and> (\<forall>s. dials s acts \<longrightarrow> t_session t = Some s)"

lemma ep_step_calls:
  "list_all is_call acts \<Longrightarrow> t_session t' = t_session t \<Longrightarrow> m_current t' = m_current t \<Longrightarrow> ep_step t acts t'"
  by (simp add: ep_step_def calls_count)

lemma ep_step_told:
  assumes "list_all is_call acts" and "t_session t' = t_session t" and "m_current t' = m_current t"
  shows "ep_step t (CallFun n b # acts) t'" "ep_step t (ConnectFun n s # acts) t'" "ep_step t (CloseFun n s # acts) t'"
  using assms by (simp_all add: ep_step_def calls_count)

lemma ep_step_append:
  assumes "ep_step t as t1" and "ep_step t1 bs t2"
  shows "ep_step t (as @ bs) t2"
  unfolding ep_step_def
proof (intro conjI allI impI)
  fix s
  have "accepts s as + of_bool (m_current t1 = Some s) \<le> waits s as + of_bool (m_current t = Some s)"
    "accepts s bs + of_bool (m_current t2 = Some s) \<le> waits s bs + of_bool (m_current t1 = Some s)"
    "waits s as \<le> made s as" "waits s bs \<le> made s bs"
    using assms by (simp_all only: ep_step_def)
  then show "accepts s (as @ bs) + of_bool (m_current t2 = Some s) \<le> waits s (as @ bs) + of_bool (m_current t = Some s)"
    "waits s (as @ bs) \<le> made s (as @ bs)" by simp_all
next
  show "t_session t2 = t_session t" using assms by (simp add: ep_step_def)
next
  fix s
  show "dials s (as @ bs) \<Longrightarrow> t_session t = Some s" using assms by (auto simp: ep_step_def)
qed

lemma ep_step_Cons: "ep_step t acts t' \<Longrightarrow> (\<forall>s. a \<noteq> OnConn s CallPostAccept) \<Longrightarrow> (\<forall>s. a \<noteq> AsyncAccept s) \<Longrightarrow>
    (\<forall>s e. a \<noteq> OnConn s (CallConnect e)) \<Longrightarrow> (\<forall>s n. a \<noteq> NewConnection s n) \<Longrightarrow> ep_step t (a # acts) t'"
  by (cases a) (simp_all add: ep_step_def)

lemma beginAccept_step:
  assumes "beginAccept t p = Inr (t', p', acts)"
  shows "(acts = [] \<and> t' = t \<and> m_stop t) \<or>
    (\<exists>s io. acts = [NewConnection s io, AsyncAccept s] \<and> t' = t\<lparr>m_current := Some s\<rparr>)"
  using assms by (auto simp: beginAccept_def createConnection_def nextSession_def rbind_eq_Inr Let_def split: if_splits prod.splits)

lemma beginAccept_ep:
  assumes "beginAccept t p = Inr (t', p', acts)"
  shows "ep_step t acts t'"
  using beginAccept_step [OF assms] by (auto simp: ep_step_def)

lemma acceptSocket_ep:
  assumes "acceptSocket t p er = Inr (t', p', acts)"
  shows "ep_step t acts t'"
proof (cases "m_current t = None \<or> m_stop t")
  case True
  then have "acts = []" "t' = t" using assms by (auto simp: acceptSocket_def split: option.splits)
  then show ?thesis by (simp add: ep_step_def)
next
  case False
  then obtain c a where c: "m_current t = Some c" "beginAccept t p = Inr (t', p', a)"
      "acts = OnConn c (if er then CallOnError er else CallPostAccept) # a"
    using assms by (auto simp: acceptSocket_def rbind_eq_Inr)
  from beginAccept_step [OF c(2)] False obtain s io where
    "a = [NewConnection s io, AsyncAccept s]" "t' = t\<lparr>m_current := Some s\<rparr>" by auto
  then show ?thesis using c(1,3) by (auto simp: ep_step_def)
qed

lemma tcp_start_ep:
  assumes "tcp_start lo t p = Inr (r, t', p', acts)"
  shows "ep_step t acts t'"
proof (cases "m_serviceType (t_config t)")
  case CLIENT_FLAG
  then show ?thesis using assms
    by (auto simp: tcp_start_def client_doStart_def t_config_def Let_def ep_step_def split: option.splits)
next
  case SERVER_FLAG
  let ?t = "t\<lparr>m_stop := False, m_acceptor := True\<rparr>"
  have "server_doStart lo (t\<lparr>m_stop := False\<rparr>) p = Inr (r, t', p', acts)"
    using assms SERVER_FLAG by (simp add: tcp_start_def t_config_def)
  then obtain io p1 where
    c: "acts = [] \<and> t' = ?t \<or> (\<exists>ep a. beginAccept ?t p1 = Inr (t', p', a) \<and> acts = AcceptorListen ep io # a)"
    by (cases lo) (auto simp: server_doStart_def rbind_eq_Inr Let_def)
  have s: "ep_step ?t acts t' \<Longrightarrow> ep_step t acts t'" by (simp add: ep_step_def)
  from c show ?thesis
  proof
    assume "acts = [] \<and> t' = ?t"
    then show ?thesis by (simp add: ep_step_def)
  next
    assume "\<exists>ep a. beginAccept ?t p1 = Inr (t', p', a) \<and> acts = AcceptorListen ep io # a"
    then show ?thesis using beginAccept_ep ep_step_Cons s by fastforce
  qed
qed

lemma run_event_user_ep:
  assumes "run_event_user lo vt alive user sv t p ev = Inr (t', p', acts)"
  shows "ep_step t acts t'"
proof (cases ev)
  case EvStart
  then show ?thesis using assms tcp_start_ep by (auto simp: run_event_user_def rbind_eq_Inr)
qed (use assms in \<open>auto simp: run_event_user_def Let_def rbind_eq_Inr intro!: ep_step_told dest: event_calls_quiet\<close>)

lemma run_events_user_ep:
  "run_events_user lo vt alive user sv t p evs = Inr (t', p', acts) \<Longrightarrow> ep_step t acts t'"
proof (induction evs arbitrary: t p acts)
  case Nil
  then show ?case by (simp add: ep_step_def)
next
  case (Cons ev evs)
  then obtain t1 p1 a1 a2 where 1: "run_event_user lo vt alive user sv t p ev = Inr (t1, p1, a1)"
      "run_events_user lo vt alive user sv t1 p1 evs = Inr (t', p', a2)" "acts = a1 @ a2" by (auto simp: rbind_eq_Inr)
  show ?case unfolding 1(3) by (rule ep_step_append [OF run_event_user_ep [OF 1(1)] Cons.IH [OF 1(2)]])
qed

lemma tcp_poll_user_ep: "tcp_poll_user lo vt alive user sv t p = Inr (t', p', acts) \<Longrightarrow> ep_step t acts t'"
  using run_events_user_ep [of lo vt alive user sv "t\<lparr>m_call := []\<rparr>"] by (auto simp: tcp_poll_user_def ep_step_def)

lemma stop_net_ep:
  assumes "stop_net n t p = Inr (t', p', acts)"
  shows "ep_step t acts t'"
proof -
  have c: "accepts s (map (\<lambda>s. OnConn s (CallClose False)) xs) = 0" "waits s (map (\<lambda>s. OnConn s (CallClose False)) xs) = 0"
    "\<not> dials s (map (\<lambda>s. OnConn s (CallClose False)) xs)" for s xs by (induction xs) simp_all
  have s: "ep_step t (map (\<lambda>s. OnConn s (CallClose False)) xs @ as) (t\<lparr>m_stop := True\<rparr>)" 
    if "as = [] \<or> (\<exists>x. as = [OnConn x (CallClose False)] \<or> as = [AcceptorClose, OnConn x (CallClose False)])" for xs as
    using that by (auto simp: ep_step_def c)
  from assms show ?thesis using s [of "[]"]
    by (auto simp: stop_net_def tcp_stop_def server_doStop_def rbind_eq_Inr Let_def intro: s split: service_flag.splits if_splits)
qed

section \<open>The service\<close>

definition currents :: "session_id \<Rightarrow> 'b nets \<Rightarrow> nat" where
  "currents s nets = (\<Sum>(n, t) \<leftarrow> nets. of_bool (m_current t = Some s))"

definition clients :: "session_id \<Rightarrow> 'b nets \<Rightarrow> nat" where
  "clients s nets = (\<Sum>(n, t) \<leftarrow> nets. of_bool (t_session t = Some s))"

lemma currents_simps [simp]:
  "currents s [] = 0" "currents s ((n, t) # nets) = of_bool (m_current t = Some s) + currents s nets"
  "clients s [] = 0" "clients s ((n, t) # nets) = of_bool (t_session t = Some s) + clients s nets"
  by (simp_all add: currents_def clients_def)

definition nets_step :: "'b nets \<Rightarrow> 'b action list \<Rightarrow> 'b nets \<Rightarrow> bool" where
  "nets_step nets acts nets' \<longleftrightarrow>
     (\<forall>s. accepts s acts + currents s nets' \<le> waits s acts + currents s nets \<and>
        waits s acts + clients s nets' \<le> made s acts + clients s nets \<and>
        clients s nets \<le> clients s nets' \<and> (dials s acts \<longrightarrow> 0 < clients s nets'))"

lemma nets_stepI:
  assumes "\<And>s. accepts s acts + currents s nets' \<le> waits s acts + currents s nets"
    and "\<And>s. waits s acts + clients s nets' \<le> made s acts + clients s nets"
    and "\<And>s. clients s nets \<le> clients s nets'" and "\<And>s. dials s acts \<Longrightarrow> 0 < clients s nets'"
  shows "nets_step nets acts nets'"
  using assms by (simp add: nets_step_def)

lemma nets_step_refl [simp]: "nets_step nets [] nets"
  by (simp add: nets_step_def)

lemma nets_step_calls: "list_all is_call acts \<Longrightarrow> nets_step nets acts nets"
  by (simp add: nets_step_def calls_count)

lemma nets_step_cons:
  assumes t: "ep_step t as t'" and n: "nets_step nets bs nets'"
  shows "nets_step ((n, t) # nets) (as @ bs) ((n, t') # nets')"
proof (rule nets_stepI)
  fix s
  have T: "accepts s as + of_bool (m_current t' = Some s) \<le> waits s as + of_bool (m_current t = Some s)"
    "waits s as \<le> made s as" "dials s as \<longrightarrow> t_session t = Some s" "t_session t' = t_session t"
    using t unfolding ep_step_def by blast+
  have N: "accepts s bs + currents s nets' \<le> waits s bs + currents s nets"
    "waits s bs + clients s nets' \<le> made s bs + clients s nets" "clients s nets \<le> clients s nets'"
    "dials s bs \<longrightarrow> 0 < clients s nets'"
    using n unfolding nets_step_def by blast+
  show "accepts s (as @ bs) + currents s ((n, t') # nets') \<le> waits s (as @ bs) + currents s ((n, t) # nets)"
    using T(1) N(1) by simp
  show "waits s (as @ bs) + clients s ((n, t') # nets') \<le> made s (as @ bs) + clients s ((n, t) # nets)"
    using T(2,4) N(2) by simp
  show "clients s ((n, t) # nets) \<le> clients s ((n, t') # nets')" using T(4) N(3) by simp
  show "0 < clients s ((n, t') # nets')" if "dials s (as @ bs)" using that T(3,4) N(4) by auto
qed

lemma each_net_step:
  "(\<And>n t p t' p' acts. f n t p = Inr (t', p', acts) \<Longrightarrow> ep_step t acts t') \<Longrightarrow>
   each_net f nets p = Inr (nets', p', acts) \<Longrightarrow> nets_step nets acts nets'"
proof (induction nets arbitrary: p nets' acts)
  case (Cons x nets)
  obtain n t where x: "x = (n, t)" by (cases x)
  obtain t1 p1 a1 nets2 a2 where 1: "f n t p = Inr (t1, p1, a1)" "each_net f nets p1 = Inr (nets2, p', a2)"
      "acts = a1 @ a2" "nets' = (n, t1) # nets2"
    using Cons.prems(2) by (auto simp: x rbind_eq_Inr)
  show ?case unfolding x 1(3,4) by (rule nets_step_cons [OF Cons.prems(1) [OF 1(1)] Cons.IH [OF Cons.prems(1) 1(2)]])
qed simp

lemma start_nets_step: "start_nets lo nets p = Inr (r, nets', p', acts) \<Longrightarrow> nets_step nets acts nets'"
proof (induction nets arbitrary: p r nets' acts)
  case (Cons x nets)
  obtain n t where x: "x = (n, t)" by (cases x)
  obtain ok t1 p1 a1 where 1: "tcp_start (lo n) t p = Inr (ok, t1, p1, a1)"
    using Cons.prems by (auto simp: x rbind_eq_Inr)
  note e = tcp_start_ep [OF 1]
  show ?case
  proof (cases ok)
    case True
    then obtain r2 nets2 a2 where 2: "start_nets lo nets p1 = Inr (r2, nets2, p', a2)" "acts = a1 @ a2" "nets' = (n, t1) # nets2"
      using Cons.prems 1 by (auto simp: x rbind_eq_Inr)
    show ?thesis unfolding x 2(2,3) by (rule nets_step_cons [OF e Cons.IH [OF 2(1)]])
  next
    case False
    then have "acts = a1 @ []" "nets' = (n, t1) # nets" using Cons.prems 1 by (auto simp: x)
    then show ?thesis using nets_step_cons [OF e nets_step_refl] by (simp add: x)
  qed
qed simp

lemma put_counts:
  assumes "om_inv nets" and "om_find nets n = Some t"
  shows "currents s (om_put n t' nets) + of_bool (m_current t = Some s) = currents s nets + of_bool (m_current t' = Some s)"
    and "clients s (om_put n t' nets) + of_bool (t_session t = Some s) = clients s nets + of_bool (t_session t' = Some s)"
  using assms by (induction n t' nets rule: om_put.induct) (fastforce dest: om_find_Some split: if_splits)+

lemma put_step:
  assumes "om_inv nets" and "om_find nets n = Some t" and t: "ep_step t acts t'"
  shows "nets_step nets acts (om_put n t' nets)"
proof (rule nets_stepI)
  fix s
  have T: "accepts s acts + of_bool (m_current t' = Some s) \<le> waits s acts + of_bool (m_current t = Some s)"
    "waits s acts \<le> made s acts" "dials s acts \<longrightarrow> t_session t = Some s" "t_session t' = t_session t"
    using t unfolding ep_step_def by blast+
  note P = put_counts [OF assms(1,2), of s t']
  show "accepts s acts + currents s (om_put n t' nets) \<le> waits s acts + currents s nets" using T(1) P(1) by simp
  show "waits s acts + clients s (om_put n t' nets) \<le> made s acts + clients s nets"
    "clients s nets \<le> clients s (om_put n t' nets)" using T(2,4) P(2) by simp_all
  have "t_session t = Some s \<Longrightarrow> 0 < clients s nets" using om_find_Some [OF assms(2)]
    by (induction nets) auto
  then show "0 < clients s (om_put n t' nets)" if "dials s acts" using that T(3,4) P(2) by simp
qed

lemma add_counts:
  assumes "om_find nets n = None"
  shows "currents s (om_put n t nets) = currents s nets + of_bool (m_current t = Some s)"
    and "clients s (om_put n t nets) = clients s nets + of_bool (t_session t = Some s)"
  using assms by (induction n t nets rule: om_put.induct) (auto split: if_splits)

lemma create_step:
  assumes "tcp_create resolve p pool = Inr (Some t, pool', acts)"
  shows "m_current t = None \<and> (acts = [] \<and> t_session t = None \<or> (\<exists>s io. acts = [NewConnection s io] \<and> t_session t = Some s))"
  using assms by (auto simp: tcp_create_def tcpClient_def tcpObj_def createConnection_def nextSession_def rbind_eq_Inr Let_def
      split: option.splits service_flag.splits)

lemma poll_nets_step:
  "service_poll_user lo vt alive user sv = Inr (r, sv', acts) \<Longrightarrow> nets_step (m_nets sv) acts (m_nets sv')"
  using each_net_step [where f = "\<lambda>n. tcp_poll_user (lo n) vt alive user sv", OF tcp_poll_user_ep]
  by (fastforce simp: service_poll_user_def rbind_eq_Inr)

lemma request_nets_step:
  assumes "net_manager vt resolve lo alive rq sv = Inr (r, sv', acts)"
  shows "nets_step (m_nets sv) acts (m_nets sv')"
proof (cases rq)
  case ReqStart
  then show ?thesis using assms start_nets_step
    by (fastforce simp: net_manager_def service_start_def rbind_eq_Inr Let_def)
next
  case (ReqAdd p)
  show ?thesis
  proof (cases "acts = [] \<and> m_nets sv' = m_nets sv")
    case False
    then obtain n t pool where a: "om_find (m_nets sv) n = None" "tcp_create resolve p (m_ioPool sv) = Inr (Some t, pool, acts)"
        "m_nets sv' = om_put n t (m_nets sv)"
      using assms ReqAdd by (auto simp: net_manager_def service_add_def rbind_eq_Inr deref_def Let_def split: if_splits option.splits)
    show ?thesis unfolding a(3) using create_step [OF a(2)] add_counts [OF a(1), of _ t] by (auto simp: nets_step_def)
  qed simp
next
  case ReqPoll
  then have "service_poll_user lo vt alive (\<lambda>_ _. Inr []) sv = Inr (r, sv', acts)"
    using assms by (simp add: net_manager_def poll_user_silent)
  then show ?thesis by (rule poll_nets_step)
next
  case ReqSetStop
  then show ?thesis using assms each_net_step [OF stop_net_ep]
    by (fastforce simp: net_manager_def setStop_def rbind_eq_Inr Let_def)
next
  case (ReqSend b)
  then show ?thesis using assms
    by (auto simp: net_manager_def service_send_def is_call_def intro: nets_step_calls split: if_splits option.splits)
next
  case (ReqSendName n b)
  have "send_clones vt b cs = Inr as \<Longrightarrow> list_all is_call as" for cs as
    by (induction cs arbitrary: as) (auto simp: rbind_eq_Inr is_call_def)
  then show ?thesis using assms ReqSendName
    by (auto simp: net_manager_def service_send_name_def rbind_eq_Inr intro: nets_step_calls split: if_splits option.splits)
next
  case (ReqKick s)
  then show ?thesis using assms
    by (auto simp: net_manager_def service_kick_def is_call_def intro: nets_step_calls split: option.splits)
qed (use assms in \<open>auto simp: net_manager_def service_remove_def split: if_splits\<close>)

section \<open>The process\<close>

definition accept_inv :: "'b node \<Rightarrow> bool" where
  "accept_inv n \<longleftrightarrow> distinct (new_ids (nd_log n)) \<and>
     (\<forall>s \<in> set (new_ids (nd_log n)). unat s \<le> unat (m_curSessionId (m_ioPool (nd_sv n)))) \<and>
     (\<forall>s. accepts s (nd_log n) + currents s (m_nets (nd_sv n)) \<le> waits s (nd_log n) \<and>
        waits s (nd_log n) + clients s (m_nets (nd_sv n)) \<le> made s (nd_log n) \<and>
        (dials s (nd_log n) \<longrightarrow> 0 < clients s (m_nets (nd_sv n))))"

lemma accept_inv_call:
  assumes inv: "accept_inv n" and st: "nets_step (m_nets (nd_sv n)) acts (m_nets sv)"
    and ids: "mints (m_ioPool (nd_sv n)) acts (m_ioPool sv)" "ids_left acts (nd_sv n)"
  shows "accept_inv (node_call vt acts sv n)"
proof -
  note M = mints_new [OF ids(1) ids(2) [unfolded ids_left_def]]
  have I: "distinct (new_ids (nd_log n))"
    "\<And>s. s \<in> set (new_ids (nd_log n)) \<Longrightarrow> unat s \<le> unat (m_curSessionId (m_ioPool (nd_sv n)))"
    "\<And>s. accepts s (nd_log n) + currents s (m_nets (nd_sv n)) \<le> waits s (nd_log n)"
    "\<And>s. waits s (nd_log n) + clients s (m_nets (nd_sv n)) \<le> made s (nd_log n)"
    "\<And>s. dials s (nd_log n) \<Longrightarrow> 0 < clients s (m_nets (nd_sv n))"
    using inv unfolding accept_inv_def by blast+
  have N: "accepts s acts + currents s (m_nets sv) \<le> waits s acts + currents s (m_nets (nd_sv n))"
    "waits s acts + clients s (m_nets sv) \<le> made s acts + clients s (m_nets (nd_sv n))"
    "clients s (m_nets (nd_sv n)) \<le> clients s (m_nets sv)" "dials s acts \<Longrightarrow> 0 < clients s (m_nets sv)" for s
    using st unfolding nets_step_def by blast+
  have "distinct (new_ids (nd_log n @ acts))" using I(1,2) M(1,2) by fastforce
  moreover have "unat s \<le> unat (m_curSessionId (m_ioPool sv))" if "s \<in> set (new_ids (nd_log n @ acts))" for s
    using that I(2) [of s] M(2) [of s] M(3) by auto
  moreover have "accepts s (nd_log n @ acts) + currents s (m_nets sv) \<le> waits s (nd_log n @ acts)" for s
    using N(1) [of s] I(3) [of s] by simp
  moreover have "waits s (nd_log n @ acts) + clients s (m_nets sv) \<le> made s (nd_log n @ acts)" for s
    using N(2) [of s] I(4) [of s] by simp
  moreover have "0 < clients s (m_nets sv)" if "dials s (nd_log n @ acts)" for s
    using that N(3,4) [of s] I(5) [of s] by auto
  ultimately show ?thesis unfolding accept_inv_def node_call_def by simp
qed

lemma delivers_roles: "m_current (foldl deliver t es) = m_current t \<and> t_session (foldl deliver t es) = t_session t"
proof (induction es arbitrary: t)
  case (Cons e es)
  have "m_current (deliver t e) = m_current t \<and> t_session (deliver t e) = t_session t"
    by (cases e) (simp_all add: deliver_def eventRecv_def eventConnect_def eventCloseFun_def eventConnectFailed_def tcp_push_def)
  then show ?case using Cons.IH by simp
qed simp

text \<open>What a connection was told, against how often it can open.\<close>

definition opens_left :: "session_id \<Rightarrow> 'b action list \<Rightarrow> 'b conn_sys \<Rightarrow> bool" where
  "opens_left s acts x \<longleftrightarrow> (\<not> dials s acts \<longrightarrow> AsyncConnect \<notin> set (s_events x) \<and>
     opens (notices (s_events x)) + count_list (s_queue x) RunAccept \<le> accepts s acts)"

lemma opens_left_call: "opens_left s acts x \<Longrightarrow> opens_left s (acts @ [OnConn s k]) (call_sys vt k x)"
  by (cases k) (auto simp: opens_left_def call_sys_def run_call_def conn_send_def conn_close_def onError_def
      postAccept_def conn_connect_def)

lemma opens_left_more: "opens_left s acts x \<Longrightarrow> opens_left s (acts @ bs) x"
  by (auto simp: opens_left_def)

lemma opens_left_new: "opens_left s acts (start_sys c)"
  by (simp add: opens_left_def start_sys_def)

lemma do_action_left:
  assumes m: "\<And>s x. m s = Some x \<Longrightarrow> opens_left s past x" and x: "do_action vt a m s = Some x"
  shows "opens_left s (past @ [a]) x"
proof (cases "m s = Some x")
  case False
  show ?thesis
  proof (cases a)
    case (NewConnection s' io)
    then obtain c where "x = start_sys c" using x False by (auto split: sum.splits if_splits)
    then show ?thesis using opens_left_new by blast
  next
    case (OnConn s' k)
    then have "s' = s" using x False by (cases "s' = s") (auto split: option.splits)
    moreover from this obtain y where y: "m s = Some y" "x = call_sys vt k y" using x OnConn by (auto split: option.splits)
    ultimately show ?thesis using opens_left_call [OF m [OF y(1)]] OnConn by simp
  qed (use x False in auto)
qed (rule opens_left_more [OF m])

lemma do_actions_left:
  "(\<And>s x. m s = Some x \<Longrightarrow> opens_left s past x) \<Longrightarrow> do_actions vt acts m s = Some x \<Longrightarrow> opens_left s (past @ acts) x"
proof (induction acts arbitrary: m past)
  case (Cons a acts)
  have "opens_left s ((past @ [a]) @ acts) x"
    by (rule Cons.IH [of "do_action vt a m"]) (use do_action_left [OF Cons.prems(1)] Cons.prems(2) in auto)
  then show ?case by simp
qed simp

lemma absorb_counts:
  "AsyncConnect \<in> set (s_events (absorb es x)) \<longleftrightarrow> AsyncConnect \<in> set (s_events x) \<or> AsyncConnect \<in> set es"
  "count_list (s_queue (absorb es x)) RunAccept = count_list (s_queue x) RunAccept + count_list es (IoPost RunAccept)"
  by (induction es x rule: absorb.induct) auto

text \<open>A handler opens the connection for a posted \<open>handlAccept\<close>, or after a connect.\<close>

definition unopened :: "'b effect list \<Rightarrow> bool" where
  "unopened es \<longleftrightarrow> opens (notices es) = 0 \<and> AsyncConnect \<notin> set es \<and> IoPost RunAccept \<notin> set es"

lemma writeMessage_unopened: "writeMessage dbg vt c k = Inr (c', es) \<Longrightarrow> unopened es"
  by (auto simp: writeMessage_def rbind_eq_Inr Let_def unopened_def split: if_splits)

lemma handleWrite_unopened: "handleWrite dbg vt c er k = Inr (c', es) \<Longrightarrow> unopened es"
  by (auto simp: handleWrite_def onError_def conn_close_def Let_def unopened_def split: if_splits dest: writeMessage_unopened)

lemma handleClose_unopened: "handleClose c er = (c', es) \<Longrightarrow> unopened es"
  by (auto simp: handleClose_def conn_close_def unopened_def split: if_splits)

lemma handleReadSome_unopened:
  assumes "handleReadSome dbg vt c er data = Some (Inr (c', es))"
  shows "unopened es"
proof -
  have "unopened es" if "\<forall>e \<in> set es. (\<exists>m. e = EventPostRecv m) \<or> (\<exists>n. e = AsyncReadSome n) \<or> (\<exists>x. e = IoPost (RunClose x))"
    for es :: "'a effect list" using that by (induction es) (auto simp: unopened_def)
  then show ?thesis using handleReadSome_same [OF assms] by blast
qed

lemma opens_left_io:
  assumes io: "conn_io dbg vt x data es x'" and x: "opens_left s acts x"
    and ev: "s_events x' = s_events x"
  shows "opens_left s acts (absorb es x')"
proof -
  have keep: "opens_left s acts (absorb es x')" if "unopened es" "set (s_queue x') \<subseteq> set (s_queue x)" "count_list (s_queue x') RunAccept \<le> count_list (s_queue x) RunAccept"
    using that x ev by (auto simp: opens_left_def unopened_def absorb_counts count_list_0_iff)
  show ?thesis
    using io
  proof cases
    case (Task k q c)
    show ?thesis
    proof (cases k)
      case (RunWrite m)
      then have "unopened es" using Task(4) writeMessage_unopened by (simp add: run_task_def)
      then show ?thesis by (rule keep) (use RunWrite Task(2,3) in auto)
    next
      case (RunClose er)
      then have "unopened es" using Task(4) handleClose_unopened by (simp add: run_task_def)
      then show ?thesis by (rule keep) (use RunClose Task(2,3) in auto)
    next
      case RunAccept
      then have "es = EventConnect (c_session c) # beginRead c" using Task(4) by (auto simp: run_task_def handlAccept_def Let_def)
      then show ?thesis using x Task(2,3) RunAccept by (auto simp: opens_left_def beginRead_def absorb_counts)
    qed
  next
    case (Written b c)
    then show ?thesis using keep handleWrite_unopened [OF Written(5)] by simp
  next
    case (Write_failed b k c)
    then show ?thesis using keep handleWrite_unopened [OF Write_failed(5)] by simp
  next
    case (Read data' c)
    then show ?thesis using keep handleReadSome_unopened [OF Read(3)] by simp
  next
    case (Read_failed data' c)
    then show ?thesis using keep handleReadSome_unopened [OF Read_failed(3)] by simp
  next
    case (Connected er c)
    have "AsyncConnect \<notin> set es" using Connected(3) by (auto simp: handleConnect_def beginRead_def Let_def split: if_splits)
    then show ?thesis using x Connected(2,4) by (auto simp: opens_left_def absorb_counts)
  qed
qed

lemma accept_inv_step:
  assumes step: "node_step dbg vt resolve lo owner n n'" and om: "om_inv (m_nets (nd_sv n))" and inv: "accept_inv n"
  shows "accept_inv n'"
  using step
proof cases
  case (Request alive rq r sv acts)
  show ?thesis unfolding Request(1)
    by (rule accept_inv_call [OF inv request_nets_step [OF Request(2)] request_mints [OF Request(2)] Request(4)])
next
  case (Poll alive user r sv acts)
  show ?thesis unfolding Poll(1)
    by (rule accept_inv_call [OF inv poll_nets_step [OF Poll(2)] poll_user_mints [OF Poll(2)] Poll(4)])
next
  case (Accept m t er t' pool acts)
  have "mints (m_ioPool (nd_sv n)) acts pool" by (rule acceptSocket_mints [OF Accept(3)])
  then show ?thesis unfolding Accept(1)
    using accept_inv_call [OF inv _ _ Accept(4)] put_step [OF om Accept(2) acceptSocket_ep [OF Accept(3)]] by simp
next
  case (Handle s x data es x' t)
  have "ep_step t [] (foldl deliver t es)" using delivers_roles [of t es] by (simp add: ep_step_def)
  from put_step [OF om Handle(4) this] have st: "nets_step (m_nets (nd_sv n)) [] (m_nets (nd_sv n'))" unfolding Handle(1) by simp
  have p: "m_ioPool (nd_sv n') = m_ioPool (nd_sv n)" "nd_log n' = nd_log n" unfolding Handle(1) by simp_all
  have "mints (m_ioPool (nd_sv n)) ([] :: 'a action list) (m_ioPool (nd_sv n'))" by (simp add: p mints_none)
  moreover have "ids_left ([] :: 'a action list) (nd_sv n)"
    using unsigned_less [of "m_curSessionId (m_ioPool (nd_sv n))"] by (simp add: ids_left_def)
  ultimately have "accept_inv (node_call vt [] (nd_sv n') n)" by (rule accept_inv_call [OF inv st])
  then show ?thesis by (simp add: accept_inv_def node_call_def p)
qed

lemma left_step:
  assumes step: "node_step dbg vt resolve lo owner n n'" and ev: "\<And>x data es x'. conn_io dbg vt x data es x' \<Longrightarrow> s_events x' = s_events x"
    and left: "\<And>s x. nd_conns n s = Some x \<Longrightarrow> opens_left s (nd_log n) x" and x: "nd_conns n' s = Some x"
  shows "opens_left s (nd_log n') x"
  using step
proof cases
  case (Handle r y data es x' t)
  show ?thesis
    using x opens_left_io [OF Handle(3) left [OF Handle(2)] ev [OF Handle(3)]] left unfolding Handle(1) by (auto split: if_splits)
qed (use x do_actions_left [OF left] in \<open>simp_all add: node_call_def\<close>)

text \<open>
  What the user knows of a session: the functions were called for the first notes of its
  connection, the rest waits in the queue of the endpoint; messages come between the note that
  the session opened and that it closed; the session is in the pool while it is open; a session that a server accepted was
  opened once at most.
\<close>

definition user_view :: "'b block_vt \<Rightarrow> (session_id \<Rightarrow> string) \<Rightarrow> 'b node \<Rightarrow> session_id \<Rightarrow> bool" where
  "user_view vt owner n s \<longleftrightarrow>
     seen vt s (nd_log n) @ queued vt s (queue_of (m_nets (nd_sv n)) (owner s)) = conn_notes (nd_conns n) s \<and>
     (\<forall>xs b ys. seen vt s (nd_log n) = xs @ Message b # ys \<longrightarrow> (\<exists>us vs. xs = us @ Opened # vs \<and> Closed \<notin> set vs)) \<and>
     (s \<in> pool_keys (m_ioPool (nd_sv n)) \<longleftrightarrow> up_after False (seen vt s (nd_log n))) \<and>
     (OnConn s CallPostAccept \<in> set (nd_log n) \<longrightarrow> opens (seen vt s (nd_log n)) \<le> 1)"

context session_class
begin

text \<open>An accepted session is opened at most once.\<close>

lemma accepted_opens_once:
  assumes reach: "node_reach dbg vt resolve lo owner n" and a: "OnConn s CallPostAccept \<in> set (nd_log n)"
    and x: "nd_conns n s = Some x"
  shows "opens (notices (s_events x)) \<le> 1"
proof -
  have "accept_inv n \<and> (\<forall>s x. nd_conns n s = Some x \<longrightarrow> opens_left s (nd_log n) x)"
    using reach
  proof (induction rule: node_reach.induct)
    case (Start d k sv)
    then show ?case by (auto simp: accept_inv_def new_node_def netService_def rbind_eq_Inr)
  next
    case (Step n n')
    have "om_inv (m_nets (nd_sv n))" using node_invD(1) [OF node_inv_reach [OF Step(1)]] by (simp add: service_inv_def)
    then show ?case using accept_inv_step [OF Step(2)] left_step [OF Step(2)] conn_io_reports Step(3) by blast
  qed
  then have I: "accepts s (nd_log n) \<le> waits s (nd_log n)" "waits s (nd_log n) + clients s (m_nets (nd_sv n)) \<le> made s (nd_log n)"
    "dials s (nd_log n) \<longrightarrow> 0 < clients s (m_nets (nd_sv n))" "distinct (new_ids (nd_log n))" "opens_left s (nd_log n) x"
    using x unfolding accept_inv_def by (blast intro: add_leD1)+
  have "made s (nd_log n) \<le> 1" using I(4) distinct_count [of _ s] by simp
  moreover have "0 < accepts s (nd_log n)" using a count_list_0_iff by (metis gr0I)
  ultimately show ?thesis using I(1-3,5) by (auto simp: opens_left_def)
qed

text \<open>Nothing is lost or reordered on the way to the user, and the pool has the sessions that are open.\<close>

lemma user_view_reach:
  assumes "node_reach dbg vt resolve lo owner n"
  shows "user_view vt owner n s"
proof -
  have "\<exists>us vs. xs = us @ Opened # vs \<and> Closed \<notin> set vs" if "seen vt s (nd_log n) = xs @ Message b # ys" for xs b ys
    using run_notes_between seen_in_order [OF assms, of s] unfolding that .
  moreover have "opens (seen vt s (nd_log n)) \<le> 1" if a: "OnConn s CallPostAccept \<in> set (nd_log n)"
  proof -
    have "opens (conn_notes (nd_conns n) s) \<le> 1"
      using accepted_opens_once [OF assms a] by (cases "nd_conns n s") (simp_all add: conn_notes_def)
    then show ?thesis using node_invD(5) [OF node_inv_reach [OF assms], of s] by (metis add_leD1 opens_append)
  qed
  ultimately show ?thesis
    using node_invD(5,6) [OF node_inv_reach [OF assms], of s] by (simp add: user_view_def)
qed

end

end
