(* ===== verification/Test_Program.thy ===== *)
theory Test_Program
  imports Accept_Once Redis_Command
begin

text \<open>
  The program of \<open>test/test.cpp\<close>: one client of a Redis server, whose functions answer.  The
  connect function sends the command \<open>set player 0\<close>, the message function sends \<open>get player\<close>
  for every reply, so the functions of the user call the manager from inside \<open>poll\<close>.  The
  program runs until a signal, whose handler stops the endpoints; then \<open>stop\<close> polls on.
\<close>

section \<open>The functions of the program\<close>

text \<open>A message for a session, filled with a command and given to \<open>send\<close>.\<close>

definition test_send :: "bool \<Rightarrow> session_id \<Rightarrow> string \<Rightarrow> string list \<Rightarrow> redis_block2 user_call res" where
  "test_send dbg s cmd args =
     (let msg = makeCommand cmd args in
      rbind (redisBlock2 s (of_nat (length msg))) (\<lambda>p.
      rbind (redisBlock2_push dbg p msg (of_nat (length msg))) (\<lambda>(_, p').
      Inr (UserSend p'))))"

text \<open>The lambdas \<open>fc\<close>, \<open>nc\<close> and \<open>ncc\<close>: what they print, and their calls of the manager.\<close>

definition test_fc :: "bool \<Rightarrow> string \<Rightarrow> redis_block2 \<Rightarrow> (string \<times> redis_block2 user_call list) res" where
  "test_fc dbg name p =
     rbind (test_send dbg (m_session p) ''get'' [''player'']) (\<lambda>k.
     Inr (parse_debug (m_parse p), [k]))"

definition test_nc :: "bool \<Rightarrow> string \<Rightarrow> session_id \<Rightarrow> (string \<times> redis_block2 user_call list) res" where
  "test_nc dbg name s =
     rbind (test_send dbg s ''set'' [''player'', ''0'']) (\<lambda>k.
     Inr (''add net:'' @ name @ '' session:'' @ dec_nat (unat s) @ [LF], [k]))"

definition test_ncc :: "string \<Rightarrow> session_id \<Rightarrow> string \<times> redis_block2 user_call list" where
  "test_ncc name s = (''remove net:'' @ name @ '' session:'' @ dec_nat (unat s) @ [LF], [])"

definition test_user :: "bool \<Rightarrow> redis_block2 user" where
  "test_user dbg name ev =
     (case ev of
        EvRecv p \<Rightarrow> rbind (test_fc dbg name p) (\<lambda>(_, ks). Inr ks)
      | EvConnect s \<Rightarrow> rbind (test_nc dbg name s) (\<lambda>(_, ks). Inr ks)
      | EvClose s \<Rightarrow> Inr (snd (test_ncc name s))
      | EvStart \<Rightarrow> Inr [])"

definition test_net :: "redis_block2 net_property" where
  "test_net = \<lparr>np_config = config_client ''c1'' ''127.0.0.1'' 6379 True, np_funBlock = redisBlock2\<rparr>"

text \<open>\<open>main\<close> up to its loop: the manager, \<open>add\<close>, \<open>start\<close>.\<close>

definition test_begin ::
    "bool \<Rightarrow> redis_block2 block_vt \<Rightarrow> (string \<Rightarrow> string option) \<Rightarrow> (string \<Rightarrow> listen_outcome) \<Rightarrow> redis_block2 node res" where
  "test_begin dbg vt resolve lo =
     rbind (netService dbg 3) (\<lambda>sv.
     rbind (service_add resolve (Some test_net) sv) (\<lambda>(_, sv1, acts1).
     rbind (service_start lo sv1) (\<lambda>(_, sv2, acts2).
     Inr (node_call vt acts2 sv2 (node_call vt acts1 sv1 (new_node sv))))))"

text \<open>The signal clears \<open>isRunning\<close> and calls \<open>quitFunction\<close>; the result begins with \<open>isRunning\<close>.\<close>

definition signalHandler :: "'b net_service \<Rightarrow> (bool \<times> 'b net_service \<times> 'b action list) res" where
  "signalHandler sv = rbind (setStop sv) (\<lambda>(sv', acts). Inr (False, sv', acts))"

text \<open>
  The loop, which polls while \<open>isRunning\<close> is set, the signal, a round of the loop of
  \<open>net.stop(5)\<close>, which does nothing unless the service was stopped, and the connection's handlers.
  The client holds its connection, so its \<open>weak_ptr\<close> in the pool is alive.
\<close>

inductive test_step ::
    "bool \<Rightarrow> (string \<Rightarrow> int option) \<Rightarrow> (string \<Rightarrow> listen_outcome) \<Rightarrow> bool \<Rightarrow> redis_block2 node \<Rightarrow>
     bool \<Rightarrow> redis_block2 node \<Rightarrow> bool"
  for dbg cast lo where
  Poll: "service_poll_user lo (redisBlock2_vt dbg cast) (\<lambda>_. True) (test_user dbg) (nd_sv n) = Inr (r, sv, acts) \<Longrightarrow>
    test_step dbg cast lo True n True (node_call (redisBlock2_vt dbg cast) acts sv n)"
| Signal: "signalHandler (nd_sv n) = Inr (running', sv, acts) \<Longrightarrow>
    test_step dbg cast lo running n running' (node_call (redisBlock2_vt dbg cast) acts sv n)"
| Stop: "sv_state (nd_sv n) = STATE_SERVICE_STOP \<Longrightarrow>
    service_poll_user lo (redisBlock2_vt dbg cast) (\<lambda>_. True) (test_user dbg) (nd_sv n) = Inr (r, sv, acts) \<Longrightarrow>
    test_step dbg cast lo False n False (node_call (redisBlock2_vt dbg cast) acts sv n)"
| Handle: "nd_conns n s = Some x \<Longrightarrow>
    conn_io dbg (redisBlock2_vt dbg cast) x data es x' \<Longrightarrow> om_find (m_nets (nd_sv n)) ''c1'' = Some t \<Longrightarrow>
    test_step dbg cast lo running n running
      (n\<lparr>nd_sv := (nd_sv n)\<lparr>m_nets := om_put ''c1'' (foldl deliver t es) (m_nets (nd_sv n))\<rparr>,
         nd_conns := (nd_conns n)(s \<mapsto> absorb es x'), nd_in := (nd_in n)(s := nd_in n s @ data)\<rparr>)"

inductive test_run ::
    "bool \<Rightarrow> (string \<Rightarrow> int option) \<Rightarrow> (string \<Rightarrow> string option) \<Rightarrow> (string \<Rightarrow> listen_outcome) \<Rightarrow>
     bool \<Rightarrow> redis_block2 node \<Rightarrow> bool"
  for dbg cast resolve lo where
  Begin: "test_begin dbg (redisBlock2_vt dbg cast) resolve lo = Inr n \<Longrightarrow> test_run dbg cast resolve lo True n"
| Step: "test_run dbg cast resolve lo running n \<Longrightarrow> test_step dbg cast lo running n running' n' \<Longrightarrow>
    test_run dbg cast resolve lo running' n'"

section \<open>The messages it sends\<close>

definition test_set :: bytes where
  "test_set = makeCommand ''set'' [''player'', ''0'']"

definition test_get :: bytes where
  "test_get = makeCommand ''get'' [''player'']"

lemma test_lengths: "length test_set = 32" "length test_get = 25"
proof -
  have "length (dec_nat n) = 1" if "n < 10" for n using that by (simp add: dec_nat.simps)
  then show "length test_set = 32" "length test_get = 25"
    by (simp_all add: test_set_def test_get_def makeCommand_def REDIS_LBR_def REDIS_PREFIX_MULTI_BULK_REPLY_def
        REDIS_PREFIX_SINGLE_BULK_REPLY_def)
qed

lemma redisBlock2_push_session: "redisBlock2_push dbg b data len = Inr (x, b') \<Longrightarrow> m_session b' = m_session b"
  by (auto simp: redisBlock2_push_def rbind_eq_Inr)

lemma test_send_ok:
  assumes "test_send dbg s cmd args = Inr k"
  shows "\<exists>b. k = UserSend b \<and> m_session b = s"
  using assms by (auto simp: test_send_def Let_def rbind_eq_Inr dest: redisBlock2_session(1) redisBlock2_push_session)

lemma test_send_returns:
  assumes "unat s \<le> PTRDIFF_MAX" and "0 < length (makeCommand cmd args)" and "2 * length (makeCommand cmd args) \<le> PTRDIFF_MAX"
  shows "\<exists>b d. test_send dbg s cmd args = Inr (UserSend b) \<and> m_session b = s \<and> m_data b = Some d \<and> nb_inv d \<and>
    nb_unread d = makeCommand cmd args"
proof -
  let ?n = "length (makeCommand cmd args)"
  have u: "unat (of_nat ?n :: size_t) = ?n" using assms(3) by (intro unat_of_nat_size) simp
  then have "0 < (of_nat ?n :: size_t)" using assms(2) by (simp add: size_cmp)
  from redisBlock2_push_ok [OF this assms(1) u assms(3), of dbg] show ?thesis
    by (fastforce simp: test_send_def)
qed

section \<open>Its runs are runs of a process\<close>

abbreviation "test_vt dbg cast \<equiv> redisBlock2_vt dbg cast"

text \<open>The only endpoint is the client, whose connection has the id 1; no other is made.\<close>

definition test_inv :: "redis_block2 node \<Rightarrow> bool" where
  "test_inv n \<longleftrightarrow> (\<exists>t. m_nets (nd_sv n) = [(''c1'', t)] \<and> t_config t = np_config test_net) \<and>
     m_curSessionId (m_ioPool (nd_sv n)) = 1 \<and> (\<forall>s. s \<noteq> 1 \<longrightarrow> nd_conns n s = None)"

lemma test_client: "m_serviceType (np_config test_net) = CLIENT_FLAG" "m_name (np_config test_net) = ''c1''"
  by (simp_all add: test_net_def config_client_def)

text \<open>Whatever it sends is one of its two commands, in a buffer.\<close>

lemma test_send_buffer:
  assumes "test_send dbg s cmd args = Inr (UserSend b)"
    and "0 < length (makeCommand cmd args)" and "2 * length (makeCommand cmd args) \<le> PTRDIFF_MAX"
  shows "sendable (test_vt dbg' cast) b \<and> block_out (test_vt dbg' cast) b = makeCommand cmd args \<and> m_session b = s"
proof -
  let ?n = "of_nat (length (makeCommand cmd args)) :: size_t"
  have "unat ?n = length (makeCommand cmd args)" using assms(3) by (intro unat_of_nat_size) simp
  then have "0 < ?n" using assms(2) by (simp add: size_cmp)
  moreover obtain p where "redisBlock2 s ?n = Inr p" using assms(1) by (auto simp: test_send_def Let_def rbind_eq_Inr)
  ultimately have "unat s \<le> PTRDIFF_MAX"
    by (auto simp: redisBlock2_def netBlockBase_def netBuffer_def malloc0_def rbind_eq_Inr split: if_splits)
  from test_send_returns [OF this assms(2,3), of dbg] assms(1) show ?thesis
    by (auto simp: sendable_def block_out_def redisBlock2_vt_def)
qed

lemmas test_sends = test_send_buffer [where cmd = "''set''" and args = "[''player'', ''0'']", folded test_set_def]
  test_send_buffer [where cmd = "''get''" and args = "[''player'']", folded test_get_def]

lemma test_user_calls:
  assumes "test_user dbg name ev = Inr ks" and "UserSend b \<in> set ks"
  shows "test_send dbg (m_session b) ''set'' [''player'', ''0''] = Inr (UserSend b) \<or>
    test_send dbg (m_session b) ''get'' [''player''] = Inr (UserSend b)"
proof (cases ev)
  case (EvRecv p)
  then have "test_send dbg (m_session p) ''get'' [''player''] = Inr (UserSend b)"
    using assms by (auto simp: test_user_def test_fc_def rbind_eq_Inr)
  then show ?thesis using test_send_ok by fastforce
next
  case (EvConnect s)
  then have "test_send dbg s ''set'' [''player'', ''0''] = Inr (UserSend b)"
    using assms by (auto simp: test_user_def test_nc_def rbind_eq_Inr)
  then show ?thesis using test_send_ok by fastforce
qed (use assms in \<open>auto simp: test_user_def test_ncc_def\<close>)

lemma test_user_sends:
  assumes "user_sends (test_user dbg) b"
  shows "sendable (test_vt dbg cast) b"
proof -
  obtain name ev ks where "test_user dbg name ev = Inr ks" "UserSend b \<in> set ks" using assms by (auto simp: user_sends_def)
  from test_user_calls [OF this] show ?thesis using test_sends [of dbg "m_session b" b dbg cast]
    by (auto simp: test_lengths PTRDIFF_MAX_def)
qed

section \<open>One event of the client\<close>

lemma client_event:
  assumes "m_serviceType (t_config t) = CLIENT_FLAG" and "run_event lo t p ev = Inr (t', p', acts)"
  shows "new_ids acts = [] \<and> t_config t' = t_config t"
  using assms by (cases ev) (auto simp: run_event_def tcp_start_def client_doStart_def t_config_def rbind_eq_Inr Let_def
      split: option.splits)

lemma client_events:
  "m_serviceType (t_config t) = CLIENT_FLAG \<Longrightarrow> run_events lo t p evs = Inr (t', p', acts) \<Longrightarrow>
   new_ids acts = [] \<and> t_config t' = t_config t"
proof (induction evs arbitrary: t p acts)
  case (Cons ev evs)
  then obtain t1 p1 a1 a2 where 1: "run_event lo t p ev = Inr (t1, p1, a1)" "run_events lo t1 p1 evs = Inr (t', p', a2)"
      "acts = a1 @ a2" by (auto simp: rbind_eq_Inr)
  show ?case using client_event [OF Cons.prems(1) 1(1)] Cons.IH [OF _ 1(2)] Cons.prems(1) 1(3) by simp
qed simp

text \<open>
  The answers of the program to what it is told: the command \<open>set\<close> when its session opened, the
  command \<open>get\<close> for every message.
\<close>

fun test_answer :: "redis_block2 notice \<Rightarrow> bytes list" where
  "test_answer Opened = [test_set]"
| "test_answer (Message b) = [test_get]"
| "test_answer Closed = []"

definition answered :: "redis_block2 notice list \<Rightarrow> redis_block2 list \<Rightarrow> bool" where
  "answered ns bs \<longleftrightarrow> map (\<lambda>b. map_option nb_unread (m_data b)) bs = map Some (concat (map test_answer ns))"

lemma answered_simps [simp]: "answered [] []" "answered ms as \<Longrightarrow> answered ns bs \<Longrightarrow> answered (ms @ ns) (as @ bs)"
  by (simp_all add: answered_def)

lemma test_cmds:
  "test_send dbg s ''set'' [''player'', ''0''] = Inr k \<Longrightarrow>
     \<exists>b. k = UserSend b \<and> m_session b = s \<and> block_out (test_vt dbg' cast) b = test_set"
  "test_send dbg s ''get'' [''player''] = Inr k \<Longrightarrow>
     \<exists>b. k = UserSend b \<and> m_session b = s \<and> block_out (test_vt dbg' cast) b = test_get"
proof -
  assume a: "test_send dbg s ''set'' [''player'', ''0''] = Inr k"
  then obtain b where k: "k = UserSend b" using test_send_ok by blast
  from test_sends(1) [OF a [unfolded k], of dbg' cast] k
  show "\<exists>b. k = UserSend b \<and> m_session b = s \<and> block_out (test_vt dbg' cast) b = test_set"
    by (simp add: test_lengths PTRDIFF_MAX_def)
next
  assume a: "test_send dbg s ''get'' [''player''] = Inr k"
  then obtain b where k: "k = UserSend b" using test_send_ok by blast
  from test_sends(2) [OF a [unfolded k], of dbg' cast] k
  show "\<exists>b. k = UserSend b \<and> m_session b = s \<and> block_out (test_vt dbg' cast) b = test_get"
    by (simp add: test_lengths PTRDIFF_MAX_def)
qed

lemma test_event:
  assumes p: "pool_inv pool" and run: "isRun sv" and one: "event_notes (test_vt dbg cast) 1 ev = ns"
    and ok: "run_notes (1 \<in> pool_keys pool) ns \<noteq> None"
    and r: "run_event_user lo (test_vt dbg cast) (\<lambda>_. True) (test_user dbg) sv t pool ev = Inr (t', pool', acts)"
  shows "answered ns (sent_to 1 acts)"
proof -
  have send: "service_send (test_vt dbg cast) (\<lambda>_. True) b (sv\<lparr>m_ioPool := q\<rparr>) =
      Inr (m_session b \<in> pool_keys q, sv\<lparr>m_ioPool := q\<rparr>,
        if m_session b \<in> pool_keys q then [OnConn (m_session b) (CallSend b)] else [])" if "pool_inv q" for b q
    using run that pool_session_ok [of q] by (simp add: service_send_def isRun_def redisBlock2_vt_def)
  have data: "map_option nb_unread (m_data b) = Some out" if "block_out (test_vt dbg cast) b = out" "out \<noteq> []" for b out
    using that by (auto simp: block_out_def redisBlock2_vt_def split: option.splits)
  have ne: "test_set \<noteq> []" "test_get \<noteq> []" using test_lengths by auto
  note cmds = test_cmds [where dbg = dbg and dbg' = dbg and cast = cast]
  show ?thesis
  proof (cases ev)
    case (EvRecv b0)
    then obtain k as where k: "test_send dbg (m_session b0) ''get'' [''player''] = Inr k"
        "user_calls (test_vt dbg cast) (\<lambda>_. True) (sv\<lparr>m_ioPool := pool\<rparr>) [k] = Inr as"
        "acts = CallFun (m_name (t_config t)) b0 # as"
      using r by (auto simp: run_event_user_def event_calls_def test_user_def test_fc_def rbind_eq_Inr Let_def)
    from cmds(2) [OF k(1)] obtain b where b: "k = UserSend b" "m_session b = m_session b0"
      "block_out (test_vt dbg cast) b = test_get" by blast
    have "ns = (if m_session b0 = 1 then [Message b0] else [])" using one EvRecv by (simp add: redisBlock2_vt_def)
    then show ?thesis
      using ok k(2,3) b send [OF p, of b] data [OF b(3) ne(2)] 
      by (auto simp: user_call_def answered_def split: if_splits)
  next
    case (EvConnect s)
    then obtain k as where k: "test_send dbg s ''set'' [''player'', ''0''] = Inr k"
        "user_calls (test_vt dbg cast) (\<lambda>_. True) (sv\<lparr>m_ioPool := addSession s pool\<rparr>) [k] = Inr as"
        "acts = ConnectFun (m_name (t_config t)) s # as"
      using r by (auto simp: run_event_user_def event_calls_def test_user_def test_nc_def rbind_eq_Inr Let_def)
    from cmds(1) [OF k(1)] obtain b where b: "k = UserSend b" "m_session b = s"
      "block_out (test_vt dbg cast) b = test_set" by blast
    have "pool_inv (addSession s pool)" "s \<in> pool_keys (addSession s pool)" using addSession_ok [OF p, of s] by simp_all
    moreover have "ns = (if s = 1 then [Opened] else [])" using one EvConnect by auto
    ultimately show ?thesis
      using k(2,3) b send [of "addSession s pool" b] data [OF b(3) ne(1)]
      by (auto simp: user_call_def answered_def split: if_splits)
  next
    case (EvClose s)
    then show ?thesis
      using r one by (auto simp: run_event_user_def event_calls_def test_user_def test_ncc_def Let_def answered_def)
  next
    case EvStart
    then obtain x where "tcp_start lo t pool = Inr (x, t', pool', acts)" using r by (auto simp: run_event_user_def rbind_eq_Inr)
    from plain_silent [OF tcp_start_plain [OF this], of "test_vt dbg cast" 1] one EvStart show ?thesis by (auto simp: answered_def)
  qed
qed

lemma test_events:
  "pool_inv pool \<Longrightarrow> isRun sv \<Longrightarrow> run_notes (1 \<in> pool_keys pool) (queued (test_vt dbg cast) 1 evs) \<noteq> None \<Longrightarrow>
   run_events_user lo (test_vt dbg cast) (\<lambda>_. True) (test_user dbg) sv t pool evs = Inr (t', pool', acts) \<Longrightarrow>
   answered (queued (test_vt dbg cast) 1 evs) (sent_to 1 acts)"
proof (induction evs arbitrary: t pool acts)
  case (Cons ev evs)
  let ?vt = "test_vt dbg cast" and ?ns = "event_notes (test_vt dbg cast) 1 ev"
  obtain t1 p1 a1 a2 where 1: "run_event_user lo ?vt (\<lambda>_. True) (test_user dbg) sv t pool ev = Inr (t1, p1, a1)"
      "run_events_user lo ?vt (\<lambda>_. True) (test_user dbg) sv t1 p1 evs = Inr (t', pool', a2)" "acts = a1 @ a2"
    using Cons.prems(4) by (auto simp: rbind_eq_Inr)
  obtain a0 where a0: "run_event lo t pool ev = Inr (t1, p1, a0)" using run_event_user_plain [OF 1(1)] by blast
  have T: "tells ?vt pool a0 p1" "seen ?vt 1 a0 = ?ns" using run_event_tells [OF a0, of ?vt 1] by blast+
  obtain up where up: "run_notes (1 \<in> pool_keys pool) ?ns = Some up" "run_notes up (queued ?vt 1 evs) \<noteq> None"
    using Cons.prems(3) by (auto simp: run_notes_append split: option.splits)
  then have "pool_inv p1" "run_notes (1 \<in> pool_keys p1) (queued ?vt 1 evs) \<noteq> None"
    using T Cons.prems(1) run_notes_up [OF up(1)] by (simp_all add: tells_def)
  from Cons.IH [OF this(1) Cons.prems(2) this(2) 1(2)]
  have "answered (queued ?vt 1 evs) (sent_to 1 a2)" .
  moreover have "answered ?ns (sent_to 1 a1)"
    by (rule test_event [OF Cons.prems(1,2) refl _ 1(1)]) (simp add: up(1))
  ultimately show ?case using 1(3) by simp
qed simp

text \<open>No function of the program throws, as long as it is called about the client's own session.\<close>

lemma test_event_returns:
  assumes c: "m_serviceType (t_config t) = CLIENT_FLAG" and p: "pool_inv pool"
    and own: "\<And>s. s \<noteq> 1 \<Longrightarrow> event_notes (test_vt dbg cast) s ev = []"
  shows "\<exists>t' pool' acts. run_event_user lo (test_vt dbg cast) (\<lambda>_. True) (test_user dbg) sv t pool ev = Inr (t', pool', acts)"
proof -
  have one: "unat (1 :: session_id) \<le> PTRDIFF_MAX" by (simp add: PTRDIFF_MAX_def)
  have send: "\<exists>as. user_calls (test_vt dbg cast) (\<lambda>_. True) (sv\<lparr>m_ioPool := q\<rparr>) [UserSend b] = Inr as" for q b
    by (auto simp: user_call_def service_send_def split: option.split)
  have L: "0 < length test_set" "2 * length test_set \<le> PTRDIFF_MAX" "0 < length test_get" "2 * length test_get \<le> PTRDIFF_MAX"
    by (simp_all add: test_lengths PTRDIFF_MAX_def)
  obtain k1 where k1: "test_send dbg 1 ''set'' [''player'', ''0''] = Inr (UserSend k1)"
    using test_send_returns [OF one L(1,2) [unfolded test_set_def], of dbg] by blast
  obtain k2 where k2: "test_send dbg 1 ''get'' [''player''] = Inr (UserSend k2)"
    using test_send_returns [OF one L(3,4) [unfolded test_get_def], of dbg] by blast
  show ?thesis
  proof (cases ev)
    case (EvRecv b)
    then have "m_session b = 1" using own [of "m_session b"] by (auto simp: redisBlock2_vt_def)
    then show ?thesis using EvRecv k2 send [of pool k2]
      by (auto simp: run_event_user_def event_calls_def test_user_def test_fc_def Let_def simp del: user_calls.simps)
  next
    case (EvConnect s)
    then have "s = 1" using own [of s] by auto
    then show ?thesis using EvConnect k1 send [of "addSession 1 pool" k1]
      by (auto simp: run_event_user_def event_calls_def test_user_def test_nc_def Let_def simp del: user_calls.simps)
  next
    case (EvClose s)
    then show ?thesis by (simp add: run_event_user_def event_calls_def test_user_def test_ncc_def Let_def)
  next
    case EvStart
    then show ?thesis using c by (simp add: run_event_user_def tcp_start_def client_doStart_def t_config_def Let_def)
  qed
qed

lemma test_events_return:
  "m_serviceType (t_config t) = CLIENT_FLAG \<Longrightarrow> pool_inv pool \<Longrightarrow>
   (\<And>s. s \<noteq> 1 \<Longrightarrow> queued (test_vt dbg cast) s evs = []) \<Longrightarrow>
   \<exists>t' pool' acts. run_events_user lo (test_vt dbg cast) (\<lambda>_. True) (test_user dbg) sv t pool evs = Inr (t', pool', acts)"
proof (induction evs arbitrary: t pool)
  case (Cons ev evs)
  have own: "event_notes (test_vt dbg cast) s ev = []" "queued (test_vt dbg cast) s evs = []" if "s \<noteq> 1" for s
    using Cons.prems(3) [OF that] by simp_all
  obtain t1 p1 a1 where 1: "run_event_user lo (test_vt dbg cast) (\<lambda>_. True) (test_user dbg) sv t pool ev = Inr (t1, p1, a1)"
    using test_event_returns [OF Cons.prems(1,2) own(1)] by blast
  obtain a0 where a0: "run_event lo t pool ev = Inr (t1, p1, a0)" using run_event_user_plain [OF 1] by blast
  have "pool_inv p1" using run_event_tells [OF a0, of "test_vt dbg cast"] Cons.prems(2) by (simp add: tells_def)
  moreover have "m_serviceType (t_config t1) = CLIENT_FLAG" using client_event [OF Cons.prems(1) a0] Cons.prems(1) by simp
  ultimately show ?case using Cons.IH [OF _ _ own(2), of t1 p1] 1 by auto
qed simp

section \<open>Every state of the program\<close>

definition test_ok ::
    "bool \<Rightarrow> (string \<Rightarrow> int option) \<Rightarrow> (string \<Rightarrow> string option) \<Rightarrow> (string \<Rightarrow> listen_outcome) \<Rightarrow>
     bool \<Rightarrow> redis_block2 node \<Rightarrow> bool" where
  "test_ok dbg cast resolve lo running n \<longleftrightarrow>
     node_reach dbg (test_vt dbg cast) resolve lo (\<lambda>_. ''c1'') n \<and> test_inv n \<and> (isRun (nd_sv n) \<longleftrightarrow> running) \<and>
     (\<exists>us vs. seen (test_vt dbg cast) 1 (nd_log n) = us @ vs \<and> answered us (sent_to 1 (nd_log n)) \<and> (running \<longrightarrow> vs = []))"

text \<open>Once the service is stopped it takes no message.\<close>

lemma stopped_calls: "\<not> isRun sv \<Longrightarrow> user_calls vt alive sv ks = Inr acts \<Longrightarrow> sent_to s acts = []"
proof (induction ks arbitrary: acts)
  case (Cons k ks)
  then obtain as bs where 1: "user_call vt alive sv k = Inr as" "user_calls vt alive sv ks = Inr bs" "acts = as @ bs"
    by (auto simp: rbind_eq_Inr)
  have "sent_to s as = []" using 1(1) Cons.prems(1)
    by (auto simp: user_call_def service_send_def service_kick_def split: user_call.splits option.splits)
  then show ?case using Cons.IH [OF Cons.prems(1) 1(2)] 1(3) by simp
qed simp

lemma stopped_event_calls:
  "event_calls vt alive user sv pool name ev = Inr acts \<Longrightarrow> \<not> isRun sv \<Longrightarrow> sent_to s acts = []"
  using stopped_calls [of "sv\<lparr>m_ioPool := pool\<rparr>"] by (auto simp: event_calls_def rbind_eq_Inr isRun_def)

lemma stopped_event:
  assumes "\<not> isRun sv" and "run_event_user lo vt alive user sv t pool ev = Inr (t', pool', acts)"
  shows "sent_to s acts = []"
proof (cases ev)
  case EvStart
  then obtain x where "tcp_start lo t pool = Inr (x, t', pool', acts)" using assms(2) by (auto simp: run_event_user_def rbind_eq_Inr)
  from plain_silent [OF tcp_start_plain [OF this], of vt s] show ?thesis by simp
qed (use assms in \<open>auto simp: run_event_user_def Let_def rbind_eq_Inr dest: stopped_event_calls\<close>)

lemma stopped_events:
  "\<not> isRun sv \<Longrightarrow> run_events_user lo vt alive user sv t pool evs = Inr (t', pool', acts) \<Longrightarrow> sent_to s acts = []"
proof (induction evs arbitrary: t pool acts)
  case (Cons ev evs)
  then obtain t1 p1 a1 a2 where 1: "run_event_user lo vt alive user sv t pool ev = Inr (t1, p1, a1)"
      "run_events_user lo vt alive user sv t1 p1 evs = Inr (t', pool', a2)" "acts = a1 @ a2" by (auto simp: rbind_eq_Inr)
  show ?case using stopped_event [OF Cons.prems(1) 1(1)] Cons.IH [OF Cons.prems(1) 1(2)] 1(3) by simp
qed simp

text \<open>A call that makes no connection keeps the shape of the process.\<close>

lemma test_inv_call:
  assumes "test_inv n" and "m_nets sv = [(''c1'', t)]" and "t_config t = np_config test_net"
    and "new_ids acts = []" and "mints (m_ioPool (nd_sv n)) acts (m_ioPool sv)"
  shows "test_inv (node_call vt acts sv n)"
  using assms do_actions_old [of _ acts "nd_conns n" vt] by (auto simp: test_inv_def node_call_def mints_def)

lemma test_poll_shape:
  assumes reach: "node_reach dbg (test_vt dbg cast) resolve lo (\<lambda>_. ''c1'') n" and inv: "test_inv n"
    and p: "service_poll_user lo (test_vt dbg cast) (\<lambda>_. True) (test_user dbg) (nd_sv n) = Inr (r, sv, acts)"
  obtains t t' pool where
    "node_reach dbg (test_vt dbg cast) resolve lo (\<lambda>_. ''c1'') (node_call (test_vt dbg cast) acts sv n)"
    "test_inv (node_call (test_vt dbg cast) acts sv n)" "isRun sv \<longleftrightarrow> isRun (nd_sv n)"
    "m_nets (nd_sv n) = [(''c1'', t)]" "seen (test_vt dbg cast) 1 acts = queued (test_vt dbg cast) 1 (m_call t)"
    "run_events_user (lo ''c1'') (test_vt dbg cast) (\<lambda>_. True) (test_user dbg) (nd_sv n) (t\<lparr>m_call := []\<rparr>)
       (m_ioPool (nd_sv n)) (m_call t) = Inr (t', pool, acts)"
proof -
  let ?vt = "test_vt dbg cast"
  obtain t where t: "m_nets (nd_sv n) = [(''c1'', t)]" "t_config t = np_config test_net"
      "m_curSessionId (m_ioPool (nd_sv n)) = 1" using inv by (auto simp: test_inv_def)
  obtain t' pool where e: "run_events_user (lo ''c1'') ?vt (\<lambda>_. True) (test_user dbg) (nd_sv n) (t\<lparr>m_call := []\<rparr>)
        (m_ioPool (nd_sv n)) (m_call t) = Inr (t', pool, acts)" "sv = (nd_sv n)\<lparr>m_ioPool := pool, m_nets := [(''c1'', t')]\<rparr>"
    using p t(1) by (auto simp: service_poll_user_def tcp_poll_user_def rbind_eq_Inr)
  obtain a0 where a0: "run_events (lo ''c1'') (t\<lparr>m_call := []\<rparr>) (m_ioPool (nd_sv n)) (m_call t) = Inr (t', pool, a0)"
      "new_ids acts = new_ids a0" "\<And>vt s. seen vt s acts = seen vt s a0" using run_events_user_plain [OF e(1)] by blast
  have c: "new_ids acts = []" "t_config t' = np_config test_net"
    using client_events [OF _ a0(1)] t(2) test_client a0(2) by (simp_all add: t_config_def)
  have "sends_ok ?vt acts" using run_events_user_sends [OF e(1)] test_user_sends unfolding sends_ok_def by blast
  moreover have "ids_left acts (nd_sv n)" by (simp add: ids_left_def c t(3))
  ultimately have "node_reach dbg ?vt resolve lo (\<lambda>_. ''c1'') (node_call ?vt acts sv n)"
    using node_reach.Step [OF reach node_step.Poll [OF p]] by blast
  moreover have "test_inv (node_call ?vt acts sv n)"
    by (rule test_inv_call [OF inv _ c(2,1) poll_user_mints [OF p]]) (simp add: e(2))
  moreover have "seen ?vt 1 acts = queued ?vt 1 (m_call t)" using run_events_tells [OF a0(1), of ?vt 1] a0(3) by simp
  ultimately show thesis using that t(1) e by (simp add: isRun_def)
qed

lemma test_poll_step:
  assumes ok: "test_ok dbg cast resolve lo running n"
    and p: "service_poll_user lo (test_vt dbg cast) (\<lambda>_. True) (test_user dbg) (nd_sv n) = Inr (r, sv, acts)"
  shows "test_ok dbg cast resolve lo running (node_call (test_vt dbg cast) acts sv n)"
proof -
  let ?vt = "test_vt dbg cast"
  obtain us vs where n: "node_reach dbg ?vt resolve lo (\<lambda>_. ''c1'') n" "test_inv n" "isRun (nd_sv n) \<longleftrightarrow> running"
      "seen ?vt 1 (nd_log n) = us @ vs" "answered us (sent_to 1 (nd_log n))" "running \<longrightarrow> vs = []"
    using ok by (auto simp: test_ok_def)
  from test_poll_shape [OF n(1,2) p] obtain t t' pool where
    S: "node_reach dbg ?vt resolve lo (\<lambda>_. ''c1'') (node_call ?vt acts sv n)" "test_inv (node_call ?vt acts sv n)"
      "isRun sv \<longleftrightarrow> isRun (nd_sv n)" "seen ?vt 1 acts = queued ?vt 1 (m_call t)"
    and e: "run_events_user (lo ''c1'') ?vt (\<lambda>_. True) (test_user dbg) (nd_sv n) (t\<lparr>m_call := []\<rparr>)
       (m_ioPool (nd_sv n)) (m_call t) = Inr (t', pool, acts)" by blast
  note N = redis2_session.node_inv_reach [OF n(1)]
  have pool: "pool_inv (m_ioPool (nd_sv n))" using node_invD(1) [OF N] by (simp add: service_inv_def)
  have "\<exists>us vs. seen ?vt 1 (nd_log n @ acts) = us @ vs \<and> answered us (sent_to 1 (nd_log n @ acts)) \<and> (running \<longrightarrow> vs = [])"
  proof (cases running)
    case True
    have "run_notes False (seen ?vt 1 (nd_log n) @ seen ?vt 1 acts) \<noteq> None"
      using redis2_session.seen_in_order [OF S(1), of 1] by (simp add: node_call_def)
    then obtain up where up: "run_notes False (seen ?vt 1 (nd_log n)) = Some up" "run_notes up (seen ?vt 1 acts) \<noteq> None"
      by (auto simp: run_notes_append split: option.splits)
    have "run_notes (1 \<in> pool_keys (m_ioPool (nd_sv n))) (queued ?vt 1 (m_call t)) \<noteq> None"
      using up(2) run_notes_up [OF up(1)] node_invD(6) [OF N, of 1] S(4) by simp
    from test_events [OF pool _ this e] n(3) True have "answered (seen ?vt 1 acts) (sent_to 1 acts)" by (simp add: S(4))
    then show ?thesis using n(4-6) True by (intro exI [of _ "us @ seen ?vt 1 acts"] exI [of _ "[]"]) simp
  next
    case False
    then have "sent_to 1 acts = []" using stopped_events [OF _ e] n(3) by simp
    then show ?thesis using n(4,5) False by (intro exI [of _ us] exI [of _ "vs @ seen ?vt 1 acts"]) simp
  qed
  then show ?thesis using S(1-3) n(3) by (simp add: test_ok_def node_call_def)
qed

text \<open>The signal stops the client, which closes its connection.\<close>

lemma test_signal_step:
  assumes ok: "test_ok dbg cast resolve lo running n" and p: "setStop (nd_sv n) = Inr (sv, acts)"
  shows "test_ok dbg cast resolve lo False (node_call (test_vt dbg cast) acts sv n)"
proof -
  let ?vt = "test_vt dbg cast"
  have n: "node_reach dbg ?vt resolve lo (\<lambda>_. ''c1'') n" "test_inv n"
      "\<exists>us vs. seen ?vt 1 (nd_log n) = us @ vs \<and> answered us (sent_to 1 (nd_log n))" using ok by (auto simp: test_ok_def)
  obtain t where t: "m_nets (nd_sv n) = [(''c1'', t)]" "t_config t = np_config test_net"
      "m_curSessionId (m_ioPool (nd_sv n)) = 1" using n(2) by (auto simp: test_inv_def)
  have c: "tcp_stop t = Inr (True, t\<lparr>m_stop := True\<rparr>, map (\<lambda>s. OnConn s (CallClose False)) (onlines t))"
    by (rule tcp_stop_client) (simp add: t(2) test_client)
  have e: "acts = map (\<lambda>s. OnConn s (CallClose False)) (onlines t)" "m_ioPool sv = m_ioPool (nd_sv n)"
      "m_nets sv = [(''c1'', t\<lparr>m_stop := True\<rparr>)]" "\<not> isRun sv"
    using p t(1) c by (auto simp: setStop_def stop_net_def Let_def isRun_def)
  have quiet: "list_all is_call acts" by (simp add: e(1) list_all_iff is_call_def)
  have new: "new_ids acts = []" "seen ?vt 1 acts = []" using is_call_quiet [OF quiet] by blast+
  have "sent_to s (map (\<lambda>s. OnConn s (CallClose False)) xs) = []" for s and xs :: "session_id list"
    by (induction xs) simp_all
  then have closes: "sent_to s acts = []" for s by (simp add: e(1))
  have rq: "net_manager ?vt resolve lo (\<lambda>_. True) ReqSetStop (nd_sv n) = Inr (True, sv, acts)"
    by (simp add: net_manager_def p)
  have "sends_ok ?vt acts" by (auto simp: sends_ok_def e(1))
  moreover have "ids_left acts (nd_sv n)" by (simp add: ids_left_def new t(3))
  ultimately have reach: "node_reach dbg ?vt resolve lo (\<lambda>_. ''c1'') (node_call ?vt acts sv n)"
    using node_reach.Step [OF n(1) node_step.Request [OF rq]] by blast
  have shape: "test_inv (node_call ?vt acts sv n)"
    by (rule test_inv_call [OF n(2) e(3) _ new(1) request_mints [OF rq]]) (simp add: t(2) [unfolded t_config_def] t_config_def)
  show ?thesis using reach shape n(3) e(4) by (simp add: test_ok_def node_call_def new closes)
qed

lemma test_handle_step:
  assumes ok: "test_ok dbg cast resolve lo running n" and x: "nd_conns n s = Some x"
    and io: "conn_io dbg (test_vt dbg cast) x data es x'" and t: "om_find (m_nets (nd_sv n)) ''c1'' = Some t"
  shows "test_ok dbg cast resolve lo running
    (n\<lparr>nd_sv := (nd_sv n)\<lparr>m_nets := om_put ''c1'' (foldl deliver t es) (m_nets (nd_sv n))\<rparr>,
       nd_conns := (nd_conns n)(s \<mapsto> absorb es x'), nd_in := (nd_in n)(s := nd_in n s @ data)\<rparr>)"
proof -
  have n: "node_reach dbg (test_vt dbg cast) resolve lo (\<lambda>_. ''c1'') n" "test_inv n" using ok by (simp_all add: test_ok_def)
  note reach = node_reach.Step [OF n(1) node_step.Handle [OF x io, of "\<lambda>_. ''c1''", OF t]]
  obtain t0 where t0: "m_nets (nd_sv n) = [(''c1'', t0)]" "t_config t0 = np_config test_net" using n(2) by (auto simp: test_inv_def)
  have d: "t_config (deliver u e) = t_config u" for u and e :: "redis_block2 effect"
    by (cases e) (simp_all add: deliver_def eventRecv_def eventConnect_def eventCloseFun_def eventConnectFailed_def
        tcp_push_def t_config_def)
  have "t_config (foldl deliver u es) = t_config u" for u by (induction es arbitrary: u) (simp_all add: d)
  moreover have "s = 1" using n(2) x by (auto simp: test_inv_def)
  ultimately show ?thesis using ok reach t t0 by (auto simp: test_ok_def test_inv_def isRun_def)
qed

text \<open>The beginning: the client is made with the first id and told to connect.\<close>

lemma test_begin_ok:
  assumes b: "test_begin dbg (test_vt dbg cast) resolve lo = Inr n"
  shows "test_ok dbg cast resolve lo True n"
proof -
  let ?vt = "test_vt dbg cast" and ?R = "node_reach dbg (test_vt dbg cast) resolve lo (\<lambda>_. ''c1'')"
  obtain sv r1 sv1 acts1 r2 sv2 acts2 where e: "netService dbg 3 = Inr sv"
      "service_add resolve (Some test_net) sv = Inr (r1, sv1, acts1)" "service_start lo sv1 = Inr (r2, sv2, acts2)"
      "n = node_call ?vt acts2 sv2 (node_call ?vt acts1 sv1 (new_node sv))"
    using b by (auto simp: test_begin_def rbind_eq_Inr)
  obtain pool where "ioObjectPool dbg 3 = Inr pool" "pool_inv pool" "m_curSessionId pool = 0"
    using ioObjectPool_ok [of 3 dbg] by auto
  then have sv: "m_nets sv = []" "pool_inv (m_ioPool sv)" "m_curSessionId (m_ioPool sv) = 0"
    using e(1) by (auto simp: netService_def)
  from createConnection_ok [OF sv(2)] obtain io p1 where p1:
    "createConnection (m_ioPool sv) = (Inr (1, p1, [NewConnection 1 io]) :: (_ \<times> _ \<times> redis_block2 action list) res)"
    "m_curSessionId p1 = 1" using sv(3) by auto
  have c: "m_address (np_config test_net) = ''127.0.0.1''" "m_port (np_config test_net) = 6379"
    by (simp_all add: test_net_def config_client_def)
  obtain a where a: "resolve ''127.0.0.1'' = Some a" 
    using e(2) p1(1) sv(1) by (auto simp: service_add_def tcp_create_def tcpClient_def test_client c rbind_eq_Inr
        split: option.splits)
  let ?e = "\<lparr>ep_address = a, ep_port = ucast (6379 :: uint32)\<rparr> :: endpoint"
  let ?t = "(tcpObj test_net)\<lparr>t_session := Some 1, m_endpoint := ?e\<rparr>"
  have add: "service_add resolve (Some test_net) sv =
      Inr (True, sv\<lparr>m_ioPool := p1, m_nets := [(''c1'', ?t)]\<rparr>, [NewConnection 1 io])"
    using sv(1) p1(1) a by (simp add: service_add_def tcp_create_def tcpClient_def test_client c)
  then have s1: "sv1 = sv\<lparr>m_ioPool := p1, m_nets := [(''c1'', ?t)]\<rparr>" "acts1 = [NewConnection 1 io]" using e(2) by simp_all
  have st: "service_start lo sv1 = Inr (True, sv1\<lparr>sv_state := STATE_SERVICE_RUN, m_ioPool := p1,
      m_nets := [(''c1'', ?t\<lparr>m_stop := False\<rparr>)]\<rparr>, [OnConn 1 (CallConnect ?e)])"
    unfolding s1 by (simp add: service_start_def tcp_start_def client_doStart_def tcpObj_def t_config_def test_client Let_def)
  then have s2: "sv2 = sv1\<lparr>sv_state := STATE_SERVICE_RUN, m_ioPool := p1, m_nets := [(''c1'', ?t\<lparr>m_stop := False\<rparr>)]\<rparr>"
      "acts2 = [OnConn 1 (CallConnect ?e)]" using e(3) by simp_all
  have "?R (new_node sv)" by (rule node_reach.Start [OF e(1)]) simp
  moreover have "net_manager ?vt resolve lo (\<lambda>_. True) (ReqAdd (Some test_net)) (nd_sv (new_node sv)) = Inr (r1, sv1, acts1)"
    using e(2) by (simp add: net_manager_def new_node_def)
  from node_step.Request [OF this, of dbg "\<lambda>_. ''c1''"]
  have "node_step dbg ?vt resolve lo (\<lambda>_. ''c1'') (new_node sv) (node_call ?vt acts1 sv1 (new_node sv))"
    by (simp add: sends_ok_def ids_left_def new_node_def sv(3) s1(2))
  ultimately have r: "?R (node_call ?vt acts1 sv1 (new_node sv))" by (rule node_reach.Step)
  have "net_manager ?vt resolve lo (\<lambda>_. True) ReqStart (nd_sv (node_call ?vt acts1 sv1 (new_node sv))) = Inr (r2, sv2, acts2)"
    using e(3) by (simp add: net_manager_def node_call_def)
  from node_step.Request [OF this, of dbg "\<lambda>_. ''c1''"]
  have "node_step dbg ?vt resolve lo (\<lambda>_. ''c1'') (node_call ?vt acts1 sv1 (new_node sv)) n"
    unfolding e(4) by (simp add: sends_ok_def ids_left_def node_call_def s1 s2 p1(2))
  with r have "?R n" by (rule node_reach.Step)
  moreover have "test_inv n"
    by (auto simp: test_inv_def e(4) node_call_def new_node_def s1 s2 p1(2) tcpObj_def t_config_def newConnection_default
        split: sum.split)
  ultimately show ?thesis by (simp add: test_ok_def e(4) node_call_def new_node_def s1(2) s2 isRun_def)
qed

lemma test_run_ok: "test_run dbg cast resolve lo running n \<Longrightarrow> test_ok dbg cast resolve lo running n"
proof (induction rule: test_run.induct)
  case (Begin n)
  then show ?case by (rule test_begin_ok)
next
  case (Step running n running' n')
  from Step(2) show ?case
  proof cases
    case (Poll r sv acts)
    then show ?thesis using test_poll_step Step(3) by simp
  next
    case (Stop r sv acts)
    then show ?thesis using test_poll_step Step(3) by simp
  next
    case (Signal sv acts)
    then show ?thesis using test_signal_step Step(3) by (auto simp: signalHandler_def rbind_eq_Inr)
  next
    case (Handle s x data es x' t)
    then show ?thesis using test_handle_step [OF Step(3) Handle(3-5)] by simp
  qed
qed

text \<open>Neither loop throws: \<open>poll\<close> returns in every state of the program.\<close>

lemma test_poll_returns:
  assumes "test_run dbg cast resolve lo running n"
  shows "\<exists>sv acts. service_poll_user lo (test_vt dbg cast) (\<lambda>_. True) (test_user dbg) (nd_sv n) = Inr (True, sv, acts)"
proof -
  let ?vt = "test_vt dbg cast"
  have n: "node_reach dbg ?vt resolve lo (\<lambda>_. ''c1'') n" "test_inv n"
    using test_run_ok [OF assms] by (simp_all add: test_ok_def)
  note N = redis2_session.node_inv_reach [OF n(1)]
  obtain t where t: "m_nets (nd_sv n) = [(''c1'', t)]" "t_config t = np_config test_net"
    using n(2) by (auto simp: test_inv_def)
  have own: "queued ?vt s (m_call t) = []" if "s \<noteq> 1" for s
  proof -
    have "nd_conns n s = None" using n(2) that by (simp add: test_inv_def)
    then show ?thesis using node_invD(5) [OF N, of s] t(1) by (simp add: conn_notes_def queue_of_def)
  qed
  have "m_serviceType (t_config (t\<lparr>m_call := []\<rparr>)) = CLIENT_FLAG" using t(2) test_client(1) by (simp add: t_config_def)
  moreover have "pool_inv (m_ioPool (nd_sv n))" using node_invD(1) [OF N] by (simp add: service_inv_def)
  ultimately obtain t' pool acts where
    "run_events_user (lo ''c1'') ?vt (\<lambda>_. True) (test_user dbg) (nd_sv n) (t\<lparr>m_call := []\<rparr>) (m_ioPool (nd_sv n)) (m_call t) =
       Inr (t', pool, acts)"
    using test_events_return [OF _ _ own, where t = "t\<lparr>m_call := []\<rparr>" and pool = "m_ioPool (nd_sv n)" and
      lo = "lo ''c1''" and sv = "nd_sv n"] by blast
  then show ?thesis by (simp add: service_poll_user_def tcp_poll_user_def t(1))
qed

section \<open>What reaches the server\<close>

lemma answered_out:
  assumes "answered ns bs"
  shows "list_out (test_vt dbg cast) bs = concat (concat (map test_answer ns))"
proof -
  have "list_out (test_vt dbg cast) bs = concat outs" if "map (\<lambda>b. map_option nb_unread (m_data b)) bs = map Some outs" for outs
    using that by (induction bs arbitrary: outs)
      (auto simp: block_out_def redisBlock2_vt_def Cons_eq_map_conv split: option.split)
  then show ?thesis using assms by (simp add: answered_def)
qed

text \<open>If it was opened once: one command \<open>set\<close>, then one command \<open>get\<close> for every message.\<close>

lemma answers_open: "opens ns = 0 \<Longrightarrow> concat (map test_answer ns) = replicate (length (told ns)) test_get"
  by (induction ns rule: opens.induct) (auto elim: opens.elims)

lemma answers_once:
  "run_notes False ns \<noteq> None \<Longrightarrow> opens ns \<le> 1 \<Longrightarrow>
   concat (map test_answer ns) = (if opens ns = 0 then [] else test_set # replicate (length (told ns)) test_get)"
proof (induction ns rule: opens.induct)
  case (2 ns)
  then show ?case using answers_open [of ns] by simp
qed simp_all

lemma answered_once:
  assumes "answered us bs" and "run_notes False us \<noteq> None" and "opens us \<le> 1"
  shows "list_out (test_vt dbg cast) bs =
    (if opens us = 0 then [] else test_set @ concat (replicate (length (told us)) test_get))"
  using answered_out [OF assms(1)] answers_once [OF assms(2,3)] by simp

text \<open>What it wrote are the first bytes of its answers; all, while it runs, on an idle connection.\<close>

lemma test_wire:
  assumes run: "test_run dbg cast resolve lo running n" and x: "nd_conns n 1 = Some x" "opens (notices (s_events x)) \<le> 1"
  shows "\<exists>rest. (if opens (seen (test_vt dbg cast) 1 (nd_log n)) = 0 then []
       else test_set @ concat (replicate (length (told (seen (test_vt dbg cast) 1 (nd_log n)))) test_get)) = s_wire x @ rest \<and>
    (running \<and> \<not> s_broken x \<and> m_connect (s_conn x) \<and> s_flight x = None \<and> RunWrite 0 \<notin> set (s_queue x) \<longrightarrow> rest = [])"
proof -
  let ?vt = "test_vt dbg cast" and ?ns = "seen (test_vt dbg cast) 1 (nd_log n)"
  obtain us vs where n: "node_reach dbg ?vt resolve lo (\<lambda>_. ''c1'') n" "?ns = us @ vs" "answered us (sent_to 1 (nd_log n))"
      "running \<longrightarrow> vs = []" using test_run_ok [OF run] by (auto simp: test_ok_def)
  have "?ns @ queued ?vt 1 (queue_of (m_nets (nd_sv n)) ''c1'') = notices (s_events x)"
    using node_invD(5) [OF redis2_session.node_inv_reach [OF n(1)], of 1] x(1) by (simp add: conn_notes_def)
  then have once: "opens us + opens vs \<le> 1" using x(2) n(2) by (metis add_leD1 opens_append)
  have order: "run_notes False (us @ vs) \<noteq> None" using redis2_session.seen_in_order [OF n(1), of 1] n(2) by simp
  then obtain up where up: "run_notes False us = Some up" "run_notes up vs \<noteq> None"
    by (auto simp: run_notes_append split: option.splits)
  from redis2_session.session_wire [OF n(1) x] obtain rest where
    w: "list_out ?vt (sent_to 1 (nd_log n)) = s_wire x @ rest"
      "\<not> s_broken x \<and> m_connect (s_conn x) \<and> s_flight x = None \<and> RunWrite 0 \<notin> set (s_queue x) \<longrightarrow> rest = []" by blast
  have out: "s_wire x @ rest = (if opens us = 0 then [] else test_set @ concat (replicate (length (told us)) test_get))"
    using answered_once [OF n(3), of dbg cast] w(1) once up(1) by simp
  show ?thesis
  proof (cases "opens us = 0")
    case True
    then have "s_wire x = []" "rest = []" using out by simp_all
    moreover have "running \<longrightarrow> opens ?ns = 0" using True n(2,4) by auto
    ultimately show ?thesis
      by (intro exI [of _ "if opens ?ns = 0 then [] else test_set @ concat (replicate (length (told ?ns)) test_get)"]) auto
  next
    case False
    then show ?thesis using out w(2) n(2,4)
      by (intro exI [of _ "rest @ concat (replicate (length (told vs)) test_get)"]) (auto simp: replicate_add)
  qed
qed

end
