(* ===== verification/Node_Example.thy ===== *)
theory Node_Example
  imports Accept_Once
begin

text \<open>
  A process with one client that is connected, and what it does with one message: the sending
  process writes it to its socket, the receiving one reads it and calls the user.
\<close>

definition peer_config :: config where
  "peer_config = config_client ''peer'' ''localhost'' 80 True"

definition peer_resolve :: "string \<Rightarrow> string option" where
  "peer_resolve a = Some ''127.0.0.1''"

abbreviation "peer_step dbg vt \<equiv> node_step dbg vt peer_resolve (\<lambda>_. ListenOk) (\<lambda>_. ''peer'')"
abbreviation "peer_reach dbg vt \<equiv> node_reach dbg vt peer_resolve (\<lambda>_. ListenOk) (\<lambda>_. ''peer'')"

text \<open>The endpoint is there and its connection, which is down, was told to connect.\<close>

definition peer_begun :: "'b block_vt \<Rightarrow> 'b node \<Rightarrow> 'b connection \<Rightarrow> 'b tcp_obj \<Rightarrow> bool" where
  "peer_begun vt n c t \<longleftrightarrow> m_nets (nd_sv n) = [(''peer'', t)] \<and> t_config t = peer_config \<and>
    m_call t = [] \<and> t_onlines t = [] \<and> pool_inv (m_ioPool (nd_sv n)) \<and> isRun (nd_sv n) \<and>
    m_curSessionId (m_ioPool (nd_sv n)) = 1 \<and> newConnection 1 DEFAULT_SIZE = Inr c \<and>
    nd_conns n 1 = Some ((start_sys c)\<lparr>s_events := [AsyncConnect]\<rparr>) \<and> nd_in n 1 = [] \<and>
    sent_to 1 (nd_log n) = [] \<and> (\<forall>s. seen vt s (nd_log n) = []) \<and> t_session t = Some 1"

lemma peer_started:
  fixes vt :: "'b block_vt"
  shows "\<exists>n c t. peer_reach dbg vt n \<and> peer_begun vt n c t"
proof -
  let ?p = "\<lparr>np_config = peer_config, np_funBlock = \<lambda>_ _. Inl NullDeref\<rparr> :: 'b net_property"
  let ?R = "peer_reach dbg vt" and ?lo = "\<lambda>_ :: string. ListenOk"
  obtain sv0 :: "'b net_service" where sv0: "netService False 2 = Inr sv0" "m_nets sv0 = []"
      "pool_inv (m_ioPool sv0)" "m_curSessionId (m_ioPool sv0) = 0"
    using ioObjectPool_ok [of 2 False] by (auto simp: netService_def)
  from createConnection_ok [OF sv0(3)] obtain io p1 where p1:
    "createConnection (m_ioPool sv0) = (Inr (1, p1, [NewConnection 1 io]) :: (_ \<times> _ \<times> 'b action list) res)"
    "pool_inv p1" "m_curSessionId p1 = 1" using sv0(4) by auto
  obtain c :: "'b connection" where c: "newConnection 1 DEFAULT_SIZE = Inr c" by (rule newConnection_default)
  have "?R (new_node sv0)" by (rule node_reach.Start [OF sv0(1)]) simp
  moreover
  let ?e = "\<lparr>ep_address = ''127.0.0.1'', ep_port = ucast (m_port (np_config ?p))\<rparr>"
  let ?t = "(tcpObj ?p)\<lparr>t_session := Some 1, m_endpoint := ?e\<rparr>"
  let ?sv1 = "sv0\<lparr>m_ioPool := p1, m_nets := [(''peer'', ?t)]\<rparr>"
  let ?n1 = "node_call vt [NewConnection 1 io] ?sv1 (new_node sv0)"
  have "net_manager vt peer_resolve ?lo (\<lambda>_. True) (ReqAdd (Some ?p)) (nd_sv (new_node sv0)) =
      Inr (True, ?sv1, [NewConnection 1 io])"
    using sv0(2) p1(1) by (simp add: net_manager_def service_add_def tcp_create_def tcpClient_def peer_config_def
        config_client_def peer_resolve_def new_node_def)
  from node_step.Request [OF this, of dbg "\<lambda>_. ''peer''"]
  have "peer_step dbg vt (new_node sv0) ?n1"
    by (simp add: sends_ok_def ids_left_def new_node_def sv0(4))
  ultimately have r1: "?R ?n1" by (rule node_reach.Step)
  let ?acts = "[OnConn 1 (CallConnect ?e)] :: 'b action list"
  let ?t2 = "?t\<lparr>m_stop := False\<rparr>"
  let ?sv2 = "?sv1\<lparr>sv_state := STATE_SERVICE_RUN, m_ioPool := p1, m_nets := [(''peer'', ?t2)]\<rparr>"
  let ?n2 = "node_call vt ?acts ?sv2 ?n1"
  have "net_manager vt peer_resolve ?lo (\<lambda>_. True) ReqStart (nd_sv ?n1) = Inr (True, ?sv2, ?acts)"
    by (simp add: net_manager_def service_start_def tcp_start_def client_doStart_def tcpObj_def t_config_def
        peer_config_def config_client_def node_call_def Let_def)
  from node_step.Request [OF this, of dbg "\<lambda>_. ''peer''"]
  have "peer_step dbg vt ?n1 ?n2"
    by (simp add: sends_ok_def ids_left_def node_call_def p1(3))
  with r1 have "?R ?n2" by (rule node_reach.Step)
  moreover have "nd_conns ?n2 1 = Some ((start_sys c)\<lparr>s_events := [AsyncConnect]\<rparr>)"
    by (simp add: node_call_def new_node_def c call_sys_def run_call_def conn_connect_def start_sys_def)
  ultimately show ?thesis
    using p1 c by (intro exI [of _ ?n2] exI [of _ c] exI [of _ ?t2])
      (simp add: peer_begun_def node_call_def new_node_def tcpObj_def t_config_def isRun_def)
qed

text \<open>The connect succeeds and the user is told.\<close>

definition peer_ready :: "'b block_vt \<Rightarrow> 'b node \<Rightarrow> 'b conn_sys \<Rightarrow> 'b tcp_obj \<Rightarrow> bool" where
  "peer_ready vt n x t \<longleftrightarrow> nd_conns n 1 = Some x \<and> m_nets (nd_sv n) = [(''peer'', t)] \<and> m_call t = [] \<and>
     t_config t = peer_config \<and> isRun (nd_sv n) \<and> pool_inv (m_ioPool (nd_sv n)) \<and>
     m_curSessionId (m_ioPool (nd_sv n)) = 1 \<and>
     newConnection 1 DEFAULT_SIZE = Inr ((s_conn x)\<lparr>m_connect := False\<rparr>) \<and> m_connect (s_conn x) \<and>
     s_queue x = [] \<and> s_flight x = None \<and> s_wire x = [] \<and> \<not> s_broken x \<and> notices (s_events x) = [Opened] \<and>
     nd_in n 1 = [] \<and> sent_to 1 (nd_log n) = [] \<and> (\<forall>s. seen vt s (nd_log n) = (if s = 1 then [Opened] else [])) \<and> t_session t = Some 1"

lemma peer_online:
  fixes vt :: "'b block_vt"
  shows "\<exists>n x t. peer_reach dbg vt n \<and> peer_ready vt n x t"
proof -
  obtain n t and c :: "'b connection" where r: "peer_reach dbg vt n" and st: "peer_begun vt n c t"
    using peer_started by blast
  have n: "m_nets (nd_sv n) = [(''peer'', t)]"
      "t_config t = peer_config" "m_call t = []" "t_onlines t = []" "pool_inv (m_ioPool (nd_sv n))" "isRun (nd_sv n)"
      "m_curSessionId (m_ioPool (nd_sv n)) = 1" "newConnection 1 DEFAULT_SIZE = Inr c"
      "nd_conns n 1 = Some ((start_sys c)\<lparr>s_events := [AsyncConnect]\<rparr>)" "nd_in n 1 = []"
      "sent_to 1 (nd_log n) = []" "\<forall>s. seen vt s (nd_log n) = []" "t_session t = Some 1"
    using st by (simp_all add: peer_begun_def)
  let ?x = "(start_sys c)\<lparr>s_events := [AsyncConnect]\<rparr>" and ?c = "c\<lparr>m_connect := True\<rparr>"
  have c: "c_session c = 1" "\<not> m_connect c" using n(8) by (auto simp: newConnection_def rbind_eq_Inr)
  let ?es = "EventConnect 1 # beginRead ?c"
  have "handleConnect (s_conn ?x) False = (?c, ?es)" using c by (simp add: handleConnect_def start_sys_def Let_def)
  from conn_io.Connected [OF this, of dbg vt]
  have io: "conn_io dbg vt ?x [] ?es (?x\<lparr>s_conn := ?c, s_broken := False\<rparr>)" by (simp add: start_sys_def)
  let ?x1 = "absorb ?es (?x\<lparr>s_conn := ?c, s_broken := False\<rparr>)" and ?t1 = "foldl deliver t ?es"
  let ?n1 = "n\<lparr>nd_sv := (nd_sv n)\<lparr>m_nets := om_put ''peer'' ?t1 (m_nets (nd_sv n))\<rparr>,
      nd_conns := (nd_conns n)(1 \<mapsto> ?x1), nd_in := (nd_in n)(1 := nd_in n 1 @ [])\<rparr>"
  have "om_find (m_nets (nd_sv n)) ''peer'' = Some t" by (simp add: n(1))
  from node_step.Handle [OF n(9) io this]
  have "peer_step dbg vt n ?n1" .
  with r have r1: "peer_reach dbg vt ?n1" by (rule node_reach.Step)
  have t1: "?t1 = t\<lparr>m_call := [EvConnect 1]\<rparr>" using n(3) by (simp add: deliver_def eventConnect_def tcp_push_def beginRead_def)
  let ?t2 = "t\<lparr>t_onlines := [(1, ())]\<rparr>" and ?p = "addSession 1 (m_ioPool (nd_sv n))"
  let ?sv = "(nd_sv ?n1)\<lparr>m_ioPool := ?p, m_nets := [(''peer'', ?t2)]\<rparr>" and ?acts = "[ConnectFun ''peer'' 1] :: 'b action list"
  have "net_manager vt peer_resolve (\<lambda>_. ListenOk) (\<lambda>_. True) ReqPoll (nd_sv ?n1) = Inr (True, ?sv, ?acts)"
    using n(1-4) unfolding t1
    by (simp add: net_manager_def service_poll_def tcp_poll_def run_event_def t_config_def peer_config_def config_client_def)
  from node_step.Request [OF this, of dbg "\<lambda>_. ''peer''"] n(7)
  have "peer_step dbg vt ?n1 (node_call vt ?acts ?sv ?n1)" by (simp add: sends_ok_def ids_left_def)
  with r1 have "peer_reach dbg vt (node_call vt ?acts ?sv ?n1)" by (rule node_reach.Step)
  moreover have "c\<lparr>m_connect := False\<rparr> = c" using c by (simp add: connect_down)
  then have "peer_ready vt (node_call vt ?acts ?sv ?n1) ?x1 ?t2"
    unfolding peer_ready_def using n addSession_ok [OF n(5), of 1]
    by (simp add: node_call_def start_sys_def beginRead_def t_config_def isRun_def addSession_def)
  ultimately show ?thesis by blast
qed

section \<open>One message\<close>

lemma online_conn:
  fixes x :: "'b conn_sys"
  assumes "peer_ready vt n x t"
  shows "send_inv vt (s_conn x)" "nb_unread (m_bufferSend (s_conn x)) = []" "m_sendList (s_conn x) = []"
    "\<not> m_isSend (s_conn x)" "m_maxLen (m_bufferSend (s_conn x)) = DEFAULT_SIZE"
    "nb_inv (m_bufferRecv (s_conn x))" "nb_content (m_bufferRecv (s_conn x)) = []" "m_waitMessage (s_conn x) = None"
    "m_maxLen (m_bufferRecv (s_conn x)) = DEFAULT_SIZE"
proof -
  have "newConnection 1 DEFAULT_SIZE = Inr ((s_conn x)\<lparr>m_connect := False\<rparr>)" using assms by (simp add: peer_ready_def)
  note F = fresh_conn [OF this, simplified]
  have "0 < DEFAULT_SIZE" by (simp add: DEFAULT_SIZE_def)
  then show "send_inv vt (s_conn x)" "nb_unread (m_bufferSend (s_conn x)) = []" "m_sendList (s_conn x) = []"
    "\<not> m_isSend (s_conn x)" "m_maxLen (m_bufferSend (s_conn x)) = DEFAULT_SIZE"
    "nb_inv (m_bufferRecv (s_conn x))" "nb_content (m_bufferRecv (s_conn x)) = []" "m_waitMessage (s_conn x) = None"
    "m_maxLen (m_bufferRecv (s_conn x)) = DEFAULT_SIZE"
    using F by (simp_all add: send_inv_def)
qed

lemma default_size [simp]: "unat DEFAULT_SIZE = 65535"
  by (simp add: DEFAULT_SIZE_def)

text \<open>A message that fits is written at once.\<close>

context block_class
begin

lemma write_small:
  assumes inv: "send_inv vt c" and on: "m_connect c" "\<not> m_isSend c" and e: "nb_unread (m_bufferSend c) = []"
    and p: "m_sendList c = [p]" and len: "block_out vt p \<noteq> []" "length (block_out vt p) < unat (m_maxLen (m_bufferSend c))"
  shows "\<exists>c'. writeMessage dbg vt c 0 = Inr (c', [AsyncWrite (block_out vt p)]) \<and> send_inv vt c' \<and> m_connect c' \<and>
    m_sendList c' = [] \<and> nb_unread (m_bufferSend c') = block_out vt p"
proof -
  let ?b = "m_bufferSend c"
  have I: "nb_inv ?b" "\<not> m_lock ?b" "0 < m_maxLen ?b" "list_all (sendable vt) [p]"
    using inv p by (simp_all add: send_inv_def)
  have "unat (0 :: size_t) \<le> length (nb_unread ?b)" by simp
  note R = readData_ok [OF I(1) this]
  obtain b2 where b2: "clearReadBuffer dbg (?b\<lparr>m_readPos := m_readPos ?b + 0\<rparr>) = Inr b2" "nb_inv b2"
      "nb_unread b2 = []" "m_readPos b2 = 0" "m_maxLen b2 = m_maxLen ?b" "\<not> m_lock b2"
    using clearReadBuffer_ok [OF R(2), of dbg] R(4) I(2) e by auto
  obtain b3 ps where b3: "sendLoop dbg vt b2 [p] = Inr (b3, ps)" "nb_inv b3" "\<not> m_lock b3"
      "m_maxLen b3 = m_maxLen b2" "m_readPos b3 = m_readPos b2" "list_all (sendable vt) ps"
      "nb_unread b3 @ list_out vt ps = nb_unread b2 @ list_out vt [p]" "ps \<noteq> [] \<longrightarrow> nb_free b3 = 0"
    using sendLoop_ok [OF b2(2,6) I(4), of dbg] by blast
  have w: "unat (m_writePos b3) = length (nb_unread b3)" using b3(2,5) b2(4) by simp
  have "length (nb_unread b3) \<le> length (block_out vt p)"
    using arg_cong [OF b3(7), of length] b2(3) by (simp del: nb_unread_length)
  then have "nb_free b3 \<noteq> 0" using len(2) w b3(4) b2(5) by (simp add: nb_free_def)
  then have ps: "ps = []" using b3(8) by auto
  then have u: "nb_unread b3 = block_out vt p" using b3(7) b2(3) by simp
  then have r: "hasRead b3" using len(1) b3(2) by (simp add: hasRead_iff)
  let ?c = "c\<lparr>m_bufferSend := b3, m_sendList := [], m_totalSend := m_totalSend c + 0, m_isSend := True\<rparr>"
  have "writeMessage dbg vt c 0 = Inr (?c, [AsyncWrite (block_out vt p)])"
    using on r u by (simp add: writeMessage_def R(1) b2(1) b3(1) p ps Let_def del: add_0_right sendLoop.simps)
  then show ?thesis using b3 b2 I u on by (intro exI [of _ ?c]) (simp add: send_inv_def)
qed

lemma written_all:
  assumes inv: "send_inv vt c" and on: "m_connect c" and e: "m_sendList c = []" "length (nb_unread (m_bufferSend c)) \<le> PTRDIFF_MAX"
  shows "\<exists>c'. handleWrite dbg vt c False (of_nat (length (nb_unread (m_bufferSend c)))) = Inr (c', []) \<and> m_connect c'"
proof -
  let ?c = "c\<lparr>m_isSend := False\<rparr>" and ?n = "of_nat (length (nb_unread (m_bufferSend c))) :: size_t"
  have n: "unat ?n = length (nb_unread (m_bufferSend c))" using e(2) by (rule unat_of_nat_size)
  have "send_inv vt ?c" using inv by (simp add: send_inv_def)
  from writeMessage_ok [OF this, of ?n dbg] on n obtain c' where c':
    "writeMessage dbg vt ?c ?n = Inr (c', if m_isSend c' then [AsyncWrite (nb_unread (m_bufferSend c'))] else [])"
    "conn_out vt c' = drop (unat ?n) (conn_out vt ?c)" "m_connect c'" "m_isSend c' \<longleftrightarrow> nb_unread (m_bufferSend c') \<noteq> []"
    by auto
  have "conn_out vt c' = []" unfolding c'(2) n using e(1) by (simp add: conn_out_def del: nb_unread_length)
  then have "\<not> m_isSend c'" using c'(4) by (simp add: conn_out_def)
  then show ?thesis using c'(1,3) on by (intro exI [of _ c']) (simp add: handleWrite_def Let_def)
qed

end

text \<open>The sending process.\<close>

lemma peer_sends:
  assumes b: "nblk_sealed b body" "m_session b = 1" and len: "12 + length body < 65535"
  shows "\<exists>n x. peer_reach dbg (netBlock_vt d) n \<and> nd_conns n 1 = Some x \<and> opens (notices (s_events x)) = 1 \<and>
    s_wire x = frame_of body \<and> \<not> s_broken x \<and> m_connect (s_conn x) \<and> s_flight x = None \<and> s_queue x = [] \<and>
    sent_to 1 (nd_log n) = [b]"
proof -
  let ?vt = "netBlock_vt d" and ?R = "peer_reach dbg (netBlock_vt d)"
  obtain n x t where n: "?R n" and on: "peer_ready ?vt n x t" using peer_online by blast
  note O = online_conn [OF on]
  have D: "nd_conns n 1 = Some x" "m_nets (nd_sv n) = [(''peer'', t)]" "isRun (nd_sv n)" "m_connect (s_conn x)"
      "m_curSessionId (m_ioPool (nd_sv n)) = 1" "s_queue x = []" "s_flight x = None" "s_wire x = []" "\<not> s_broken x"
      "notices (s_events x) = [Opened]" "sent_to 1 (nd_log n) = []" "seen ?vt 1 (nd_log n) = [Opened]"
    using on by (simp_all add: peer_ready_def)
  have out: "block_out ?vt b = frame_of body" by (rule sealed_out [OF b(1)])
  have fl: "length (frame_of body) = 12 + length body" by (simp add: frame_of_def)
  let ?acts = "[OnConn 1 (CallSend b)]"
  let ?n1 = "node_call ?vt ?acts (nd_sv n) n"
  let ?c1 = "(s_conn x)\<lparr>m_sendList := [b]\<rparr>"
  have "vt_session ?vt b = 1" using b(2) by (simp add: netBlock_vt_def)
  then have "net_manager ?vt peer_resolve (\<lambda>_. ListenOk) (\<lambda>_. True) (ReqSend b) (nd_sv n) = Inr (True, nd_sv n, ?acts)"
    using net_session.send_taken [OF n, of "\<lambda>_. True" b] D(3,12) by (simp add: net_manager_def Let_def)
  from node_step.Request [OF this, of dbg "\<lambda>_. ''peer''"] sealed_sendable [OF b(1), of d] D(5)
  have "peer_step dbg ?vt n ?n1" by (simp add: sends_ok_def ids_left_def)
  with n have r1: "?R ?n1" by (rule node_reach.Step)
  obtain x1 where x1: "nd_conns ?n1 1 = Some x1" "s_conn x1 = ?c1" "s_queue x1 = [RunWrite 0]" "s_flight x1 = None"
      "s_wire x1 = []" "\<not> s_broken x1" "notices (s_events x1) = [Opened]"
    using D O(3) by (simp add: node_call_def call_sys_def run_call_def conn_send_def)
  have s1: "send_inv ?vt ?c1" using O(1) sealed_sendable [OF b(1), of d] by (simp add: send_inv_def)
  have "\<exists>c2. writeMessage dbg ?vt ?c1 0 = Inr (c2, [AsyncWrite (block_out ?vt b)]) \<and> send_inv ?vt c2 \<and> m_connect c2 \<and>
      m_sendList c2 = [] \<and> nb_unread (m_bufferSend c2) = block_out ?vt b"
    by (rule net_class.write_small [OF s1]) (use O(2,4,5) D(4) fl len in \<open>auto simp: out simp del: nb_unread_length\<close>)
  then obtain c2 where c2: "writeMessage dbg ?vt ?c1 0 = Inr (c2, [AsyncWrite (frame_of body)])" "send_inv ?vt c2"
      "m_connect c2" "m_sendList c2 = []" "nb_unread (m_bufferSend c2) = frame_of body" unfolding out by blast
  have t1: "om_find (m_nets (nd_sv ?n1)) ''peer'' = Some t" using D(2) by (simp add: node_call_def)
  have "run_task dbg ?vt (s_conn x1) (RunWrite 0) = Inr (c2, [AsyncWrite (frame_of body)])"
    using c2(1) by (simp add: run_task_def x1(2))
  note io = conn_io.Task [OF x1(3) this]
  let ?x2 = "absorb [AsyncWrite (frame_of body)] (x1\<lparr>s_conn := c2, s_queue := []\<rparr>)"
  let ?n2 = "?n1\<lparr>nd_sv := (nd_sv ?n1)\<lparr>m_nets := om_put ''peer'' (foldl deliver t [AsyncWrite (frame_of body)]) (m_nets (nd_sv ?n1))\<rparr>,
      nd_conns := (nd_conns ?n1)(1 \<mapsto> ?x2), nd_in := (nd_in ?n1)(1 := nd_in ?n1 1 @ [])\<rparr>"
  from node_step.Handle [OF x1(1) io t1] have "peer_step dbg ?vt ?n1 ?n2" .
  with r1 have r2: "?R ?n2" by (rule node_reach.Step)
  have x2: "nd_conns ?n2 1 = Some ?x2" by simp
  have t2: "om_find (m_nets (nd_sv ?n2)) ''peer'' = Some t" using D(2) by (simp add: node_call_def deliver_def)
  have "length (nb_unread (m_bufferSend c2)) \<le> PTRDIFF_MAX"
    unfolding c2(5) fl using len by (simp add: PTRDIFF_MAX_def)
  from net_class.written_all [OF c2(2,3,4) this, of dbg] obtain c3 where c3:
    "handleWrite dbg ?vt (s_conn ?x2) False (of_nat (length (frame_of body))) = Inr (c3, [])" "m_connect c3"
    unfolding c2(5) by auto
  have f2: "s_flight ?x2 = Some (frame_of body)" "\<not> s_broken ?x2" using x1(6) by simp_all
  let ?x3 = "absorb [] (?x2\<lparr>s_conn := c3, s_flight := None, s_wire := s_wire ?x2 @ frame_of body\<rparr>)"
  let ?n3 = "?n2\<lparr>nd_sv := (nd_sv ?n2)\<lparr>m_nets := om_put ''peer'' (foldl deliver t []) (m_nets (nd_sv ?n2))\<rparr>,
      nd_conns := (nd_conns ?n2)(1 \<mapsto> ?x3), nd_in := (nd_in ?n2)(1 := nd_in ?n2 1 @ [])\<rparr>"
  from node_step.Handle [OF x2 conn_io.Written [OF f2 c3(1)] t2] have "peer_step dbg ?vt ?n2 ?n3" .
  with r2 have "?R ?n3" by (rule node_reach.Step)
  then show ?thesis using x1 c3(2) D(11)
    by (intro exI [of _ ?n3] exI [of _ ?x3]) (simp add: node_call_def)
qed

text \<open>The receiving process: one read that is one message, and a \<open>poll\<close>.\<close>

lemma peer_reads:
  fixes vt :: "'b block_vt"
  assumes rd: "\<And>c :: 'b connection. m_connect c \<Longrightarrow> recv_holds R c [] \<Longrightarrow> length data \<le> nb_free (m_bufferRecv c) \<Longrightarrow>
      \<exists>c' m. handleReadSome dbg vt c False data = Some (Inr (c', EventPostRecv m # beginRead c'))"
    and len: "length data \<le> 65535"
  shows "\<exists>n. peer_reach dbg vt n \<and> nd_in n 1 = data \<and> queue_of (m_nets (nd_sv n)) ''peer'' = []"
proof -
  let ?R = "peer_reach dbg vt"
  obtain n x t where n: "?R n" and on: "peer_ready vt n x t" using peer_online by blast
  note O = online_conn [OF on]
  have D: "nd_conns n 1 = Some x" "m_nets (nd_sv n) = [(''peer'', t)]" "m_connect (s_conn x)" "m_call t = []"
      "m_curSessionId (m_ioPool (nd_sv n)) = 1" "nd_in n 1 = []"
    using on by (simp_all add: peer_ready_def)
  have h: "recv_holds R (s_conn x) []" "length data \<le> nb_free (m_bufferRecv (s_conn x))"
    using fresh_holds [OF O(6-8), of R] O(9) len by simp_all
  obtain c m where c: "handleReadSome dbg vt (s_conn x) False data = Some (Inr (c, EventPostRecv m # beginRead c))"
    using rd [OF D(3) h] by blast
  let ?es = "EventPostRecv m # beginRead c"
  have io: "conn_io dbg vt x data ?es (x\<lparr>s_conn := c\<rparr>)" using conn_io.Read [OF c h(2)] D(3) by simp
  have t: "om_find (m_nets (nd_sv n)) ''peer'' = Some t" using D(2) by simp
  let ?n1 = "n\<lparr>nd_sv := (nd_sv n)\<lparr>m_nets := om_put ''peer'' (foldl deliver t ?es) (m_nets (nd_sv n))\<rparr>,
      nd_conns := (nd_conns n)(1 \<mapsto> absorb ?es (x\<lparr>s_conn := c\<rparr>)), nd_in := (nd_in n)(1 := nd_in n 1 @ data)\<rparr>"
  from node_step.Handle [OF D(1) io t] have "peer_step dbg vt n ?n1" .
  with n have r1: "?R ?n1" by (rule node_reach.Step)
  have t1: "foldl deliver t ?es = t\<lparr>m_call := [EvRecv m]\<rparr>"
    using D(4) by (simp add: deliver_def eventRecv_def tcp_push_def beginRead_def)
  let ?sv = "(nd_sv ?n1)\<lparr>m_ioPool := m_ioPool (nd_sv n), m_nets := [(''peer'', t\<lparr>m_call := []\<rparr>)]\<rparr>"
  let ?acts = "[CallFun (m_name (t_config t)) m]"
  have "net_manager vt peer_resolve (\<lambda>_. ListenOk) (\<lambda>_. True) ReqPoll (nd_sv ?n1) = Inr (True, ?sv, ?acts)"
    using D(2) unfolding t1 by (simp add: net_manager_def service_poll_def tcp_poll_def run_event_def t_config_def)
  from node_step.Request [OF this, of dbg "\<lambda>_. ''peer''"] D(5)
  have "peer_step dbg vt ?n1 (node_call vt ?acts ?sv ?n1)" by (simp add: sends_ok_def ids_left_def)
  with r1 have "?R (node_call vt ?acts ?sv ?n1)" by (rule node_reach.Step)
  then show ?thesis using D(6) by (intro exI [of _ "node_call vt ?acts ?sv ?n1"]) (simp add: node_call_def queue_of_def)
qed

lemma peer_receives:
  assumes len: "12 + length body < 65535"
  shows "\<exists>n. peer_reach dbg (netBlock_vt False) n \<and> nd_in n 1 = frame_of body \<and> queue_of (m_nets (nd_sv n)) ''peer'' = []"
proof (rule peer_reads)
  show "length (frame_of body) \<le> 65535" using len by (simp add: frame_of_def)
next
  fix c
  assume c: "m_connect c" "recv_holds nblk_repr c []" "length (frame_of body) \<le> nb_free (m_bufferRecv c)"
  have df: "deframe ([] @ frame_of body) = ([body], [])" using deframe_frame [of body "[]"] len by simp
  have "\<not> malformed (snd (deframe ([] @ frame_of body)))" unfolding df by (simp add: malformed_def)
  with handleReadSome_net [OF c(2,1,3), of dbg] obtain c' bs where
    "handleReadSome dbg (netBlock_vt False) c False (frame_of body) = Some (Inr (c', map EventPostRecv bs @ beginRead c'))"
    "list_all2 nblk_done bs [body]" unfolding df by auto
  then show "\<exists>c' m. handleReadSome dbg (netBlock_vt False) c False (frame_of body) = Some (Inr (c', EventPostRecv m # beginRead c'))"
    by (auto simp: list_all2_Cons2)
qed

context decimal_cast
begin

lemma peer_gets_reply:
  assumes r: "rb2_valid r" and len: "length (resp_bytes r) \<le> 65535"
  shows "\<exists>n. peer_reach dbg (redisBlock2_vt dbg cast) n \<and> nd_in n 1 = resp_bytes r \<and> queue_of (m_nets (nd_sv n)) ''peer'' = []"
proof (rule peer_reads [OF _ len])
  fix c
  assume c: "m_connect c" "recv_holds rb2_repr c []" "length (resp_bytes r) \<le> nb_free (m_bufferRecv c)"
  have part: "proper_part resp_bytes rb2_valid []"
    using r rb2.enc_nonempty unfolding proper_part_def by auto
  have "[] @ resp_bytes r = concat (map resp_bytes [r]) @ []" "\<forall>m \<in> set [r]. rb2_valid m" using r by simp_all
  from rb2.handleReadSome_ok [OF c(2,1,3) this part, of dbg dbg] obtain c' bs where
    "handleReadSome dbg (redisBlock2_vt dbg cast) c False (resp_bytes r) = Some (Inr (c', map EventPostRecv bs @ beginRead c'))"
    "list_all2 rb2_done bs [r]" by blast
  then show "\<exists>c' m. handleReadSome dbg (redisBlock2_vt dbg cast) c False (resp_bytes r) = Some (Inr (c', EventPostRecv m # beginRead c'))"
    by (auto simp: list_all2_Cons2)
qed

end

end
