(* ===== verification/Test_Example.thy ===== *)
theory Test_Example
  imports Test_Program Node_Example
begin

text \<open>
  A run of the test program up to the moment when its first command is on the wire: the client
  connects, its connect function is called in \<open>poll\<close> and sends, the connection writes.
\<close>

abbreviation "test_up dbg cast n \<equiv> test_run dbg cast peer_resolve (\<lambda>_. ListenOk) True n"

definition test_started :: "redis_block2 node \<Rightarrow> redis_block2 connection \<Rightarrow> redis_block2 tcp_obj \<Rightarrow> bool" where
  "test_started n c t \<longleftrightarrow> m_nets (nd_sv n) = [(''c1'', t)] \<and> t_config t = np_config test_net \<and>
    m_call t = [] \<and> t_onlines t = [] \<and> pool_inv (m_ioPool (nd_sv n)) \<and> isRun (nd_sv n) \<and>
    newConnection 1 DEFAULT_SIZE = Inr c \<and> nd_conns n 1 = Some ((start_sys c)\<lparr>s_events := [AsyncConnect]\<rparr>) \<and>
    (\<forall>dbg cast. seen (test_vt dbg cast) 1 (nd_log n) = [])"

lemma test_starts: "\<exists>n c t. test_up dbg cast n \<and> test_started n c t"
proof -
  let ?vt = "test_vt dbg cast"
  obtain sv :: "redis_block2 net_service" where sv: "netService dbg 3 = Inr sv" "m_nets sv = []" "pool_inv (m_ioPool sv)"
      "m_curSessionId (m_ioPool sv) = 0"
    using ioObjectPool_ok [of 3 dbg] by (auto simp: netService_def)
  from createConnection_ok [OF sv(3)] obtain io p1 where p1:
    "createConnection (m_ioPool sv) = (Inr (1, p1, [NewConnection 1 io]) :: (_ \<times> _ \<times> redis_block2 action list) res)"
    "pool_inv p1" using sv(4) by auto
  obtain c :: "redis_block2 connection" where c: "newConnection 1 DEFAULT_SIZE = Inr c" by (rule newConnection_default)
  let ?e = "\<lparr>ep_address = ''127.0.0.1'', ep_port = 6379\<rparr> :: endpoint"
  let ?t = "(tcpObj test_net)\<lparr>t_session := Some 1, m_endpoint := ?e\<rparr>"
  let ?sv1 = "sv\<lparr>m_ioPool := p1, m_nets := [(''c1'', ?t)]\<rparr>"
  have "m_port (np_config test_net) = 6379" by (simp add: test_net_def config_client_def)
  then have add: "service_add peer_resolve (Some test_net) sv = Inr (True, ?sv1, [NewConnection 1 io])"
    using sv(2) p1(1) by (simp add: service_add_def tcp_create_def tcpClient_def peer_resolve_def test_client)
  let ?sv2 = "?sv1\<lparr>sv_state := STATE_SERVICE_RUN, m_ioPool := p1, m_nets := [(''c1'', ?t\<lparr>m_stop := False\<rparr>)]\<rparr>"
  have start: "service_start (\<lambda>_. ListenOk) ?sv1 = Inr (True, ?sv2, [OnConn 1 (CallConnect ?e)])"
    by (simp add: service_start_def tcp_start_def client_doStart_def tcpObj_def t_config_def test_client Let_def)
  let ?n = "node_call ?vt [OnConn 1 (CallConnect ?e)] ?sv2 (node_call ?vt [NewConnection 1 io] ?sv1 (new_node sv))"
  have "test_begin dbg ?vt peer_resolve (\<lambda>_. ListenOk) = Inr ?n" by (simp add: test_begin_def sv(1) add start)
  then have "test_up dbg cast ?n" by (rule test_run.Begin)
  moreover have "nd_conns ?n 1 = Some ((start_sys c)\<lparr>s_events := [AsyncConnect]\<rparr>)"
    by (simp add: node_call_def new_node_def c call_sys_def run_call_def conn_connect_def start_sys_def)
  ultimately show ?thesis
    using p1 c by (intro exI [of _ ?n] exI [of _ c] exI [of _ "?t\<lparr>m_stop := False\<rparr>"])
      (simp add: test_started_def node_call_def new_node_def tcpObj_def t_config_def isRun_def)
qed

text \<open>The connect succeeds; \<open>poll\<close> calls the connect function, whose message goes to the connection.\<close>

definition test_online :: "bool \<Rightarrow> (string \<Rightarrow> int option) \<Rightarrow> redis_block2 node \<Rightarrow> redis_block2 conn_sys \<Rightarrow> redis_block2 \<Rightarrow> bool" where
  "test_online dbg cast n x b \<longleftrightarrow> nd_conns n 1 = Some x \<and> om_find (m_nets (nd_sv n)) ''c1'' \<noteq> None \<and>
     send_inv (test_vt dbg cast) (s_conn x) \<and> m_connect (s_conn x) \<and> \<not> m_isSend (s_conn x) \<and>
     nb_unread (m_bufferSend (s_conn x)) = [] \<and> m_maxLen (m_bufferSend (s_conn x)) = DEFAULT_SIZE \<and>
     m_sendList (s_conn x) = [b] \<and> block_out (test_vt dbg cast) b = test_set \<and>
     s_queue x = [RunWrite 0] \<and> s_flight x = None \<and> s_wire x = [] \<and> \<not> s_broken x \<and>
     opens (notices (s_events x)) = 1 \<and> seen (test_vt dbg cast) 1 (nd_log n) = [Opened]"

lemma test_connects:
  assumes run: "test_up dbg cast n" and st: "test_started n c t"
  shows "\<exists>n' x. test_up dbg cast n' \<and> nd_conns n' 1 = Some x \<and> s_conn x = c\<lparr>m_connect := True\<rparr> \<and>
    m_nets (nd_sv n') = [(''c1'', t\<lparr>m_call := [EvConnect 1]\<rparr>)] \<and> m_ioPool (nd_sv n') = m_ioPool (nd_sv n) \<and>
    isRun (nd_sv n') \<and> nd_log n' = nd_log n \<and> s_queue x = [] \<and> s_flight x = None \<and> s_wire x = [] \<and> \<not> s_broken x \<and>
    notices (s_events x) = [Opened]"
proof -
  let ?vt = "test_vt dbg cast"
  have n: "m_nets (nd_sv n) = [(''c1'', t)]" "m_call t = []" "isRun (nd_sv n)" "newConnection 1 DEFAULT_SIZE = Inr c"
      "nd_conns n 1 = Some ((start_sys c)\<lparr>s_events := [AsyncConnect]\<rparr>)"
    using st by (simp_all add: test_started_def)
  let ?x = "(start_sys c)\<lparr>s_events := [AsyncConnect]\<rparr>" and ?c = "c\<lparr>m_connect := True\<rparr>"
  have c: "c_session c = 1" "\<not> m_connect c" using n(4) by (auto simp: newConnection_def rbind_eq_Inr)
  let ?es = "EventConnect 1 # beginRead ?c"
  have "handleConnect (s_conn ?x) False = (?c, ?es)" using c by (simp add: handleConnect_def start_sys_def Let_def)
  from conn_io.Connected [OF this, of dbg ?vt]
  have io: "conn_io dbg ?vt ?x [] ?es (?x\<lparr>s_conn := ?c, s_broken := False\<rparr>)" by (simp add: start_sys_def)
  let ?x1 = "absorb ?es (?x\<lparr>s_conn := ?c, s_broken := False\<rparr>)" and ?t1 = "foldl deliver t ?es"
  let ?n1 = "n\<lparr>nd_sv := (nd_sv n)\<lparr>m_nets := om_put ''c1'' ?t1 (m_nets (nd_sv n))\<rparr>,
      nd_conns := (nd_conns n)(1 \<mapsto> ?x1), nd_in := (nd_in n)(1 := nd_in n 1 @ [])\<rparr>"
  have "om_find (m_nets (nd_sv n)) ''c1'' = Some t" by (simp add: n(1))
  from test_run.Step [OF run test_step.Handle [OF n(5) io this]] have "test_up dbg cast ?n1" .
  moreover have "?t1 = t\<lparr>m_call := [EvConnect 1]\<rparr>" using n(2) by (simp add: deliver_def eventConnect_def tcp_push_def beginRead_def)
  ultimately show ?thesis
    using n(1,3) by (intro exI [of _ ?n1] exI [of _ ?x1]) (simp add: start_sys_def beginRead_def isRun_def)
qed

lemma test_goes_online: "\<exists>n x b. test_up dbg cast n \<and> test_online dbg cast n x b"
proof -
  let ?vt = "test_vt dbg cast"
  obtain n0 c t where n0: "test_up dbg cast n0" "test_started n0 c t" using test_starts by blast
  from test_connects [OF n0] obtain n x where run: "test_up dbg cast n" and n: "nd_conns n 1 = Some x"
      "s_conn x = c\<lparr>m_connect := True\<rparr>" "m_nets (nd_sv n) = [(''c1'', t\<lparr>m_call := [EvConnect 1]\<rparr>)]"
      "m_ioPool (nd_sv n) = m_ioPool (nd_sv n0)" "isRun (nd_sv n)" "nd_log n = nd_log n0" "s_queue x = []"
      "s_flight x = None" "s_wire x = []" "\<not> s_broken x" "notices (s_events x) = [Opened]" by blast
  have s: "t_config t = np_config test_net" "t_onlines t = []" "pool_inv (m_ioPool (nd_sv n))"
      "newConnection 1 DEFAULT_SIZE = Inr c" "seen ?vt 1 (nd_log n) = []"
    using n0(2) n(4,6) by (simp_all add: test_started_def)
  note c = fresh_conn [OF s(4)]
  have sz: "0 < DEFAULT_SIZE" by (simp add: DEFAULT_SIZE_def)
  have one: "unat (1 :: session_id) \<le> PTRDIFF_MAX" "0 < length test_set" "2 * length test_set \<le> PTRDIFF_MAX"
    by (simp_all add: test_lengths PTRDIFF_MAX_def)
  obtain b where b: "test_send dbg 1 ''set'' [''player'', ''0''] = Inr (UserSend b)"
    using test_send_returns [OF one [unfolded test_set_def], of dbg] by blast
  from test_sends(1) [OF b one(2,3), of dbg cast]
  have B: "sendable ?vt b" "block_out ?vt b = test_set" "m_session b = 1" by simp_all
  let ?p = "addSession 1 (m_ioPool (nd_sv n))"
  let ?acts = "[ConnectFun ''c1'' 1, OnConn 1 (CallSend b)]"
  let ?sv = "(nd_sv n)\<lparr>m_ioPool := ?p, m_nets := [(''c1'', t\<lparr>m_call := [], t_onlines := [(1, ())]\<rparr>)]\<rparr>"
  have P: "pool_inv ?p" "1 \<in> pool_keys ?p" using addSession_ok [OF s(3), of 1] by simp_all
  have send: "service_send ?vt (\<lambda>_. True) b ((nd_sv n)\<lparr>m_ioPool := ?p\<rparr>) =
      Inr (True, (nd_sv n)\<lparr>m_ioPool := ?p\<rparr>, [OnConn 1 (CallSend b)])"
    using n(5) pool_session_ok [OF P(1)] P(2) B(3) by (simp add: service_send_def isRun_def redisBlock2_vt_def)
  have "service_poll_user (\<lambda>_. ListenOk) ?vt (\<lambda>_. True) (test_user dbg) (nd_sv n) = Inr (True, ?sv, ?acts)"
    using s(1,2) test_client(2) b send
    by (simp add: service_poll_user_def n(3) tcp_poll_user_def run_event_user_def event_calls_def test_user_def test_nc_def
        user_call_def Let_def t_config_def)
  from test_run.Step [OF run test_step.Poll [OF this]] have "test_up dbg cast (node_call ?vt ?acts ?sv n)" .
  moreover have "send_inv ?vt (c\<lparr>m_connect := True, m_sendList := [b]\<rparr>)"
    using c sz B(1) by (simp add: send_inv_def)
  ultimately show ?thesis
    using n c s B(2) by (intro exI [of _ "node_call ?vt ?acts ?sv n"] exI [of _ "call_sys ?vt (CallSend b) x"] exI [of _ b])
      (simp add: test_online_def node_call_def call_sys_def run_call_def conn_send_def)
qed

lemma test_writes:
  "\<exists>n x. test_up dbg cast n \<and> nd_conns n 1 = Some x \<and> opens (notices (s_events x)) = 1 \<and>
     seen (test_vt dbg cast) 1 (nd_log n) = [Opened] \<and> s_wire x = test_set"
proof -
  let ?vt = "test_vt dbg cast"
  obtain n x b where run: "test_up dbg cast n" and on: "test_online dbg cast n x b" using test_goes_online by blast
  have n: "nd_conns n 1 = Some x" "send_inv ?vt (s_conn x)" "m_connect (s_conn x)" "\<not> m_isSend (s_conn x)"
     "nb_unread (m_bufferSend (s_conn x)) = []" "m_maxLen (m_bufferSend (s_conn x)) = DEFAULT_SIZE"
     "m_sendList (s_conn x) = [b]" "block_out ?vt b = test_set" "s_queue x = [RunWrite 0]" "s_flight x = None"
     "s_wire x = []" "\<not> s_broken x" "opens (notices (s_events x)) = 1" "seen ?vt 1 (nd_log n) = [Opened]"
    using on by (simp_all add: test_online_def)
  obtain t where t: "om_find (m_nets (nd_sv n)) ''c1'' = Some t" using on by (auto simp: test_online_def)
  have "\<exists>c2. writeMessage dbg ?vt (s_conn x) 0 = Inr (c2, [AsyncWrite (block_out ?vt b)]) \<and> send_inv ?vt c2 \<and>
      m_connect c2 \<and> m_sendList c2 = [] \<and> nb_unread (m_bufferSend c2) = block_out ?vt b"
    by (rule redis2_class.write_small [OF n(2-5,7)]) (use n(6,8) test_lengths in auto)
  then obtain c2 where c2: "writeMessage dbg ?vt (s_conn x) 0 = Inr (c2, [AsyncWrite test_set])" "send_inv ?vt c2"
      "m_connect c2" "m_sendList c2 = []" "nb_unread (m_bufferSend c2) = test_set" unfolding n(8) by blast
  have "run_task dbg ?vt (s_conn x) (RunWrite 0) = Inr (c2, [AsyncWrite test_set])" using c2(1) by (simp add: run_task_def)
  note io = conn_io.Task [OF n(9) this]
  let ?x2 = "absorb [AsyncWrite test_set] (x\<lparr>s_conn := c2, s_queue := []\<rparr>)"
  let ?n2 = "n\<lparr>nd_sv := (nd_sv n)\<lparr>m_nets := om_put ''c1'' (foldl deliver t [AsyncWrite test_set]) (m_nets (nd_sv n))\<rparr>,
      nd_conns := (nd_conns n)(1 \<mapsto> ?x2), nd_in := (nd_in n)(1 := nd_in n 1 @ [])\<rparr>"
  from test_run.Step [OF run test_step.Handle [OF n(1) io t]] have r2: "test_up dbg cast ?n2" .
  have "om_inv (m_nets (nd_sv n))"
    using test_run_ok [OF run] by (auto simp: test_ok_def test_inv_def)
  then have t2: "om_find (m_nets (nd_sv ?n2)) ''c1'' = Some (foldl deliver t [AsyncWrite test_set])" by (simp add: om_find_put)
  have "length (nb_unread (m_bufferSend c2)) \<le> PTRDIFF_MAX" unfolding c2(5) by (simp add: test_lengths PTRDIFF_MAX_def)
  from redis2_class.written_all [OF c2(2,3,4) this, of dbg] obtain c3 where
    "handleWrite dbg ?vt (s_conn ?x2) False (of_nat (length test_set)) = Inr (c3, [])" unfolding c2(5) by auto
  from conn_io.Written [OF _ _ this] n(12)
  have io3: "conn_io dbg ?vt ?x2 [] [] (?x2\<lparr>s_conn := c3, s_flight := None, s_wire := s_wire ?x2 @ test_set\<rparr>)" by simp
  let ?x3 = "absorb [] (?x2\<lparr>s_conn := c3, s_flight := None, s_wire := s_wire ?x2 @ test_set\<rparr>)"
  have x2: "nd_conns ?n2 1 = Some ?x2" by simp
  note r3 = test_run.Step [OF r2 test_step.Handle [OF x2 io3 t2]]
  show ?thesis by (rule exI, rule exI [of _ ?x3], rule conjI, rule r3) (use n(11,13,14) in simp)
qed

end
