(* ===== verification/Further_Facts.thy ===== *)
theory Further_Facts
  imports Message_Flow Service_Invariant
begin

text \<open>
  Facts about single operations: the stream of one receiving connection handed over by one
  \<open>poll\<close>, the size argument of the constructors, the events of one endpoint, \<open>remove\<close>, an error of
  the acceptor, and \<open>send\<close> and \<open>kick\<close> in terms of the sessions of endpoints; each with a concrete instance.
\<close>

text \<open>
  The default messages of a stream that arrives in any reads at an accepted connection
  are handed to the user's function of the endpoint by one \<open>poll\<close>, each exactly once, in the
  order of the stream, and with the bodies that were sent; all of them once the stream was
  read, even if it ends inside a further message. The endpoint's sessions do not change.
\<close>

lemma messages_reach_the_user:
  assumes sz: "unat sz \<le> PTRDIFF_MAX" and c: "newConnection s sz = Inr c"
    and part: "proper_part net_enc net_valid part" and ok: "\<forall>b \<in> set bodies. 12 + length b < 2 ^ 32"
    and t: "tcp_inv t" "m_call t = []" and p: "pool_inv pool"
  shows "\<exists>net' c' es t' pool' bs n.
           recvRun False (netBlock_vt False) (fst (handlAccept c)) (net_stream bodies @ part) ks =
             Some (Inr (net', c', es)) \<and>
           tcp_poll lo (foldl deliver t es) pool = Inr (t', pool', map (CallFun (m_name (t_config t))) bs) \<and>
           list_all2 nblk_done bs (take n bodies) \<and> (net' = [] \<longrightarrow> n = length bodies) \<and>
           m_call t' = [] \<and> tcp_keys t' = tcp_keys t \<and> pool_keys pool' = pool_keys pool"
proof -
  obtain net' c' es n where r: "recvRun False (netBlock_vt False) (fst (handlAccept c))
        (net_stream bodies @ part) ks = Some (Inr (net', c', es))"
      "list_all2 nblk_done (posted es) (take n bodies)" "net' = [] \<longrightarrow> n = length bodies"
    using net_stream_run [OF sz c part ok, of ks] by blast
  from poll_delivers [OF r(1) t p, of lo] r show ?thesis by blast
qed

lemma messages_reach_the_user_example:
  "\<exists>c pool net' c' es t' pool' bs n. newConnection 2 64 = Inr c \<and> ioObjectPool False 3 = Inr pool \<and>
     recvRun False (netBlock_vt False) (fst (handlAccept c))
       (net_stream [''one'', ''two''] @ [CHR 0x0F]) [5, 1, 40] = Some (Inr (net', c', es)) \<and>
     tcp_poll ListenOk (foldl deliver (tcpObj (netProperty False (config_client ''c'' ''a'' 80 True) None)) es) pool =
       Inr (t', pool', map (CallFun ''c'') bs) \<and>
     list_all2 nblk_done bs (take n [''one'', ''two'']) \<and> (net' = [] \<longrightarrow> n = length [''one'', ''two''])"
proof -
  let ?t = "tcpObj (netProperty False (config_client ''c'' ''a'' 80 True) None)"
  have sz: "unat (64 :: size_t) \<le> PTRDIFF_MAX" by (simp add: PTRDIFF_MAX_def)
  obtain c :: "net_block connection" where c: "newConnection 2 64 = Inr c"
    using newConnection_ok [OF sz, of 2] by blast
  obtain pool where p: "ioObjectPool False 3 = Inr pool" "pool_inv pool"
    using ioObjectPool_ok [of 3 False] by auto
  have c15: "char_of (15 :: nat) = CHR 0x0F" by (simp add: char_of_eq_iff)
  have part: "proper_part net_enc net_valid [CHR 0x0F]"
    unfolding proper_part_def
    by (intro exI [of _ "as_message ''one''"] exI [of _ "drop 1 (frame_of ''one'')"])
      (simp add: as_message_simps frame_of_def head_bytes_def le32_def c15)
  have t: "tcp_inv ?t" "m_call ?t = []" "m_name (t_config ?t) = ''c''"
    by (simp_all add: tcpObj_def tcp_inv_def t_config_def netProperty_def config_client_def)
  have "\<forall>b \<in> set [''one'', ''two'']. 12 + length b < 2 ^ 32" by simp
  from messages_reach_the_user [OF sz c part this t(1,2) p(2), of "[5, 1, 40]" ListenOk, unfolded t(3)] c p(1)
  show ?thesis by blast
qed

text \<open>
  The size given to a message's constructor is not used, other than to decide whether
  there is a buffer: any two nonzero sizes give the same message, and the buffer's first
  capacity is the session id. A session id that is no possible size of an object ends in
  writing through the null pointer that \<open>malloc\<close> returned.
\<close>

lemma constructor_ignores_the_size:
  assumes "0 < n" and "0 < m"
  shows "redisBlock2 s n = redisBlock2 s m \<and> redisBlock s n = redisBlock s m \<and>
    (n + sizeof head_pod > 0 \<and> m + sizeof head_pod > 0 \<longrightarrow> netBlock dbg s n = netBlock dbg s m) \<and>
    (if unat s \<le> PTRDIFF_MAX
     then \<exists>b d. redisBlock2 s n = Inr b \<and> m_data b = Some d \<and> maxLength d = s
     else redisBlock2 s n = Inl NullDeref)"
proof -
  have e: "netBlockBase s n = netBlockBase s m" using assms by (simp add: netBlockBase_def)
  have h: "netBlockBase s (n + sizeof head_pod) = netBlockBase s (m + sizeof head_pod)"
    if "n + sizeof head_pod > 0" "m + sizeof head_pod > 0" using that by (simp add: netBlockBase_def)
  have r: "redisBlock2 s n = redisBlock2 s m" "redisBlock s n = redisBlock s m"
    unfolding redisBlock2_def redisBlock_def e by (rule refl)+
  have "netBlock dbg s n = netBlock dbg s m"
    if "n + sizeof head_pod > 0" "m + sizeof head_pod > 0"
    unfolding netBlock_def using h [OF that] assms by simp
  moreover have "if unat s \<le> PTRDIFF_MAX then \<exists>b d. redisBlock2 s n = Inr b \<and> m_data b = Some d \<and> maxLength d = s
     else redisBlock2 s n = Inl NullDeref"
    using netBuffer_ok [of s] netBuffer_too_big [of s] assms(1)
    by (auto simp: redisBlock2_def netBlockBase_def block_base.defs redis_block2.defs maxLength_def)
  ultimately show ?thesis using r by blast
qed

lemma constructor_ignores_the_size_example:
  "redisBlock2 5 1 = redisBlock2 5 4096 \<and> netBlock True 5 1 = netBlock True 5 4096"
proof -
  have p: "(0 :: size_t) < 1" "(0 :: size_t) < 4096" by simp_all
  have "(1 :: size_t) + sizeof head_pod > 0 \<and> (4096 :: size_t) + sizeof head_pod > 0" by (simp add: sizeof_def)
  then show ?thesis using constructor_ignores_the_size [OF p, of 5 True] by blast
qed

text \<open>
  \<open>poll\<close> of an endpoint runs the events that were pushed, each once and in their order:
  it calls the user's function of each, empties the queue, and afterwards exactly the
  sessions are online, at the endpoint and in the pool, that the connect and close events
  leave of those before.
\<close>

lemma poll_runs_the_events_in_order:
  assumes "EvStart \<notin> set (m_call t)" and "tcp_inv t" and "pool_inv pool"
  shows "\<exists>t' pool'. tcp_poll lo t pool =
             Inr (t', pool', concat (map (event_action (m_name (t_config t))) (m_call t))) \<and>
           m_call t' = [] \<and> tcp_inv t' \<and> pool_inv pool' \<and>
           set (onlines t') = foldl event_keys (set (onlines t)) (m_call t) \<and>
           pool_keys pool' = foldl event_keys (pool_keys pool) (m_call t)"
  using tcp_poll_ok [OF assms, of lo] assms(2) by (auto simp: tcp_keys_onlines)

lemma poll_runs_the_events_in_order_example:
  "\<exists>t pool t' pool'. m_call t = [EvConnect 3, EvConnect 4, EvClose 3] \<and>
     tcp_poll ListenOk (t :: net_block tcp_obj) pool = Inr (t', pool', [ConnectFun ''c'' 3, ConnectFun ''c'' 4, CloseFun ''c'' 3]) \<and>
     set (onlines t') = {4}"
proof -
  let ?t = "tcpObj (netProperty False (config_client ''c'' ''a'' 80 True) None)\<lparr>m_call := [EvConnect 3, EvConnect 4, EvClose 3]\<rparr>"
  obtain pool where p: "pool_inv pool" using ioObjectPool_ok [of 3 False] by auto
  have t: "EvStart \<notin> set (m_call ?t)" "tcp_inv ?t" "m_name (t_config ?t) = ''c''" "onlines ?t = []"
    "m_call ?t = [EvConnect 3, EvConnect 4, EvClose 3]"
    by (simp_all add: tcpObj_def tcp_inv_def t_config_def netProperty_def config_client_def onlines_def)
  obtain t' pool' where r: "tcp_poll ListenOk ?t pool =
      Inr (t', pool', concat (map (event_action (m_name (t_config ?t))) (m_call ?t)))"
      "set (onlines t') = foldl event_keys (set (onlines ?t)) (m_call ?t)"
    using poll_runs_the_events_in_order [OF t(1,2) p, of ListenOk] by blast
  have "concat (map (event_action (m_name (t_config ?t))) (m_call ?t)) =
      [ConnectFun ''c'' 3, ConnectFun ''c'' 4, CloseFun ''c'' 3]" unfolding t(3,5) by simp
  moreover have "foldl event_keys (set (onlines ?t)) (m_call ?t) = {4}" unfolding t(4,5) by auto
  ultimately show ?thesis using r t(5) by metis
qed

text \<open>
  \<open>remove\<close> never removes: an endpoint that was added is there in every later state of the
  service, whatever is called and happens; \<open>remove\<close> of its name returns \<open>false\<close> and leaves the
  service as it was, and of a name that is not there it uses the iterator behind the last
  element.
\<close>

lemma remove_never_removes:
  assumes "service_reach vt resolve lo alive owner sv" and "om_find (m_nets sv) name = Some t"
    and "(service_step vt resolve lo alive owner)\<^sup>*\<^sup>* sv sv'"
  shows "service_remove name sv' = Inr (False, sv', []) \<and> (\<exists>t'. om_find (m_nets sv') name = Some t') \<and>
    (\<forall>n. om_find (m_nets sv') n = None \<longrightarrow> service_remove n sv' = Inl MemFault)"
proof -
  have "service_reach vt resolve lo alive owner sv'"
    using assms(3,1) by (induction rule: rtranclp_induct) (blast intro: service_reach.Step)+
  then have inv: "om_inv (m_nets sv')" by (auto simp: service_inv_def dest: service_inv_reach)
  have "name \<in> fst ` set (m_nets sv')"
    using service_steps_names [OF assms(3)] om_find_Some [OF assms(2)] by force
  then obtain t' where "om_find (m_nets sv') name = Some t'" using inv by (auto simp flip: om_find_iff)
  then show ?thesis by (simp add: service_remove_def)
qed

lemma remove_never_removes_example:
  "\<exists>sv. service_reach (netBlock_vt False) Some (\<lambda>_. ListenOk) (\<lambda>_. True) (\<lambda>_. ''game'') sv \<and>
     service_remove ''game'' sv = Inr (False, sv, []) \<and> service_remove ''other'' sv = Inl MemFault"
proof -
  let ?p = "netProperty False (config_server ''game'' ''0.0.0.0'' 80 0 10 []) None"
  have "np_config ?p = config_server ''game'' ''0.0.0.0'' 80 0 10 []" by (simp add: netProperty_def)
  from online_example [OF this, of "netBlock_vt False" Some "\<lambda>_. ListenOk" "\<lambda>_. True"] obtain sv t where
    sv: "service_reach (netBlock_vt False) Some (\<lambda>_. ListenOk) (\<lambda>_. True) (\<lambda>_. ''game'') sv"
      "om_find (m_nets sv) ''game'' = Some t" "m_nets sv = [(''game'', t)]" by blast
  have "om_find (m_nets sv) ''other'' = None" unfolding sv(3) by simp
  with remove_never_removes [OF sv(1,2) rtranclp.rtrancl_refl] sv(1) show ?thesis by blast
qed

text \<open>
  An error of the acceptor is reported to the user as the close of a session that was
  never connected: the connection that waited for the socket is closed, with the error, and
  the next \<open>poll\<close> calls the user's close function for it, while a new connection waits.
\<close>

lemma accept_error_is_reported_as_close:
  assumes "m_current t = Some s" and "\<not> m_stop t" and "m_acceptor t" and "m_call t = []" and "tcp_inv t"
    and "pool_inv pool" and "newConnection s sz = Inr c"
  shows "\<exists>t1 pool1 io. acceptSocket t pool True = Inr (t1, pool1, [OnConn s (CallOnError True),
      NewConnection (m_curSessionId pool + 1) io, AsyncAccept (m_curSessionId pool + 1)]) \<and>
    run_call c (CallOnError True) = (c, [IoPost (RunClose True)]) \<and> \<not> m_connect c \<and>
    (\<exists>t2 pool2. tcp_poll lo (foldl deliver t1 (snd (handleClose c True))) pool1 =
      Inr (t2, pool2, [CloseFun (m_name (t_config t)) s]))"
proof -
  from createConnection_ok [OF assms(6)] obtain io pool1 where
    p: "createConnection pool = (Inr (m_curSessionId pool + 1, pool1, [NewConnection (m_curSessionId pool + 1) io])
      :: (_ \<times> _ \<times> 'a action list) res)" by blast
  let ?t1 = "t\<lparr>m_current := Some (m_curSessionId pool + 1)\<rparr>"
  have a: "acceptSocket t pool True = Inr (?t1, pool1, [OnConn s (CallOnError True),
      NewConnection (m_curSessionId pool + 1) io, AsyncAccept (m_curSessionId pool + 1)])"
    using assms(1-3) p by (simp add: acceptSocket_def beginAccept_def)
  have c: "c_session c = s" "\<not> m_connect c"
    using assms(7) by (auto simp: newConnection_def rbind_eq_Inr)
  have "tcp_poll lo (foldl deliver ?t1 (snd (handleClose c True))) pool1 =
      Inr (?t1\<lparr>t_onlines := om_erase s (t_onlines t)\<rparr>, delSession s pool1, [CloseFun (m_name (t_config t)) s])"
    using assms(4) c(1)
    by (simp add: handleClose_def deliver_def eventCloseFun_def tcp_push_def tcp_poll_def run_event_def t_config_def)
  then show ?thesis using a c(2) by (auto simp: run_call_def onError_def conn_close_def)
qed

lemma accept_error_is_reported_as_close_example:
  "\<exists>t t1 pool pool1 acts c t2 pool2. onlines t = [] \<and> newConnection 9 64 = Inr (c :: net_block connection) \<and>
     acceptSocket t pool True = Inr (t1, pool1, OnConn 9 (CallOnError True) # acts) \<and>
     tcp_poll ListenOk (foldl deliver t1 (snd (handleClose c True))) pool1 = Inr (t2, pool2, [CloseFun ''srv'' 9])"
proof -
  let ?t = "tcpObj (netProperty False (config_server ''srv'' ''a'' 80 0 10 []) None)
      \<lparr>m_current := Some 9, m_stop := False, m_acceptor := True\<rparr>"
  have t: "m_current ?t = Some 9" "\<not> m_stop ?t" "m_acceptor ?t" "m_call ?t = []" "tcp_inv ?t"
    "m_name (t_config ?t) = ''srv''" "onlines ?t = []"
    by (simp_all add: tcpObj_def t_config_def netProperty_def config_server_def tcp_inv_def onlines_def)
  obtain pool where p: "pool_inv pool" using ioObjectPool_ok [of 2 False] by auto
  have "unat (64 :: size_t) \<le> PTRDIFF_MAX" by (simp add: PTRDIFF_MAX_def)
  then obtain c :: "net_block connection" where c: "newConnection 9 64 = Inr c" using newConnection_ok by blast
  from accept_error_is_reported_as_close [OF t(1-5) p c, of ListenOk, unfolded t(6)] c t(7) show ?thesis by blast
qed

text \<open>
  In every state the service can reach by calls, events of connections and accepted
  sockets in any order, \<open>send\<close> hands the message to the connection of its session, and \<open>kick\<close>
  closes it, exactly if that session is online at one of the endpoints and the connection
  still exists; \<open>send\<close> in addition needs the service to run, and returns whether it sent.
\<close>

lemma send_reaches_online_sessions:
  assumes "service_reach vt resolve lo alive owner sv"
    and "online = (alive s \<and> (\<exists>n t. om_find (m_nets sv) n = Some t \<and> s \<in> set (onlines t)))"
  shows "(vt_session vt msg = s \<longrightarrow> service_send vt alive msg sv =
      (if isRun sv \<and> online then Inr (True, sv, [OnConn s (CallSend msg)]) else Inr (False, sv, []))) \<and>
    service_kick alive s sv = Inr (True, sv, if online then [OnConn s (CallClose False)] else [])"
  using session_online [OF service_inv_reach [OF assms(1)], of alive s] assms(2)
  by (auto simp: service_send_def service_kick_def)

lemma send_reaches_online_sessions_example:
  "\<exists>sv b. netBlock False 7 0 = Inr b \<and>
     service_reach (netBlock_vt False) Some (\<lambda>_. ListenOk) (\<lambda>_. True) (\<lambda>_. ''game'') sv \<and>
     service_send (netBlock_vt False) (\<lambda>_. True) b sv = Inr (True, sv, [OnConn 7 (CallSend b)]) \<and>
     service_kick (\<lambda>_. True) 8 sv = Inr (True, sv, [])"
proof -
  let ?p = "netProperty False (config_server ''game'' ''0.0.0.0'' 80 0 10 []) None"
  have "np_config ?p = config_server ''game'' ''0.0.0.0'' 80 0 10 []" by (simp add: netProperty_def)
  from online_example [OF this, of "netBlock_vt False" Some "\<lambda>_. ListenOk" "\<lambda>_. True"] obtain sv t where
    sv: "service_reach (netBlock_vt False) Some (\<lambda>_. ListenOk) (\<lambda>_. True) (\<lambda>_. ''game'') sv" "isRun sv"
      "onlines t = [7]" "m_nets sv = [(''game'', t)]" by blast
  obtain b where b: "netBlock False 7 0 = Inr b" "vt_session (netBlock_vt False) b = 7"
    by (simp add: netBlock_zero netBlock_nosize_eq netBlock_vt_def)
  have "True = (True \<and> (\<exists>n t. om_find (m_nets sv) n = Some t \<and> 7 \<in> set (onlines t)))"
    "False = (True \<and> (\<exists>n t. om_find (m_nets sv) n = Some t \<and> 8 \<in> set (onlines t)))"
    using sv(3,4) by auto
  from send_reaches_online_sessions [OF sv(1) this(1)] send_reaches_online_sessions [OF sv(1) this(2)] b sv(1,2)
  show ?thesis by auto
qed

end
