(* ===== verification/Buffer_Queue.thy ===== *)
theory Buffer_Queue
  imports Net_Buffer
begin

text \<open>
  A buffer as a queue of bytes: the abstract specification of \<open>NetBuffer\<close> as its users see
  it, and the refinement of any sequence of appending, reading and compacting to it.
\<close>

section \<open>The operations of a user\<close>

datatype buf_op = Append bytes | Consume nat | Compact

text \<open>
  One operation on the buffer.  Reading returns the bytes at the pointer \<open>readData\<close> gives.
\<close>

definition buf_step :: "bool \<Rightarrow> buf_op \<Rightarrow> net_buffer \<Rightarrow> (bytes \<times> net_buffer) res" where
  "buf_step dbg op b =
     (case op of
        Append x \<Rightarrow> rbind (tailData dbg b x (of_nat (length x))) (\<lambda>(_, b'). Inr ([], b'))
      | Consume n \<Rightarrow>
          rbind (readData dbg b (of_nat n)) (\<lambda>(p, b').
          rbind (deref p) (\<lambda>off. Inr (take n (drop (unat off) (m_buffer b')), b')))
      | Compact \<Rightarrow> rbind (clearReadBuffer dbg b) (\<lambda>b'. Inr ([], b')))"

fun buf_run :: "bool \<Rightarrow> buf_op list \<Rightarrow> net_buffer \<Rightarrow> (bytes \<times> net_buffer) res" where
  "buf_run dbg [] b = Inr ([], b)"
| "buf_run dbg (op # ops) b =
     rbind (buf_step dbg op b) (\<lambda>(out1, b1).
     rbind (buf_run dbg ops b1) (\<lambda>(out2, b2). Inr (out1 @ out2, b2)))"

section \<open>The queue\<close>

fun queue_step :: "buf_op \<Rightarrow> bytes \<Rightarrow> (bytes \<times> bytes) option" where
  "queue_step (Append x) q = Some ([], q @ x)"
| "queue_step (Consume n) q = (if n \<le> length q then Some (take n q, drop n q) else None)"
| "queue_step Compact q = Some ([], q)"

fun queue_run :: "buf_op list \<Rightarrow> bytes \<Rightarrow> (bytes \<times> bytes) option" where
  "queue_run [] q = Some ([], q)"
| "queue_run (op # ops) q =
     (case queue_step op q of
        None \<Rightarrow> None
      | Some (out1, q1) \<Rightarrow> map_option (\<lambda>(out2, q2). (out1 @ out2, q2)) (queue_run ops q1))"

fun appended :: "buf_op list \<Rightarrow> bytes" where
  "appended [] = []"
| "appended (Append x # ops) = x @ appended ops"
| "appended (_ # ops) = appended ops"

text \<open>Nothing is lost: what was read and what is left is what was there and what was appended.\<close>

lemma queue_run_fifo: "queue_run ops q = Some (out, q') \<Longrightarrow> out @ q' = q @ appended ops"
proof (induction ops arbitrary: q out)
  case Nil
  then show ?case by simp
next
  case (Cons op ops)
  then obtain o1 q1 o2 where s: "queue_step op q = Some (o1, q1)" "queue_run ops q1 = Some (o2, q')" "out = o1 @ o2"
    by (auto split: option.splits)
  have "o1 @ q1 = q @ appended [op]" using s(1) by (cases op) (auto split: if_splits)
  moreover have "appended (op # ops) = appended [op] @ appended ops" by (cases op) simp_all
  ultimately show ?case using Cons.IH [OF s(2)] s(3) by simp
qed

section \<open>The refinement\<close>

text \<open>Bytes that an operation writes at most, and the limit that keeps all sizes representable.\<close>

lemma buf_step_ok:
  assumes inv: "nb_inv b" and unl: "\<not> m_lock b"
    and room: "2 * (length (nb_content b) + length (appended [op])) \<le> PTRDIFF_MAX"
    and q: "queue_step op (nb_unread b) = Some (out, q')"
  shows "\<exists>b'. buf_step dbg op b = Inr (out, b') \<and> nb_inv b' \<and> \<not> m_lock b' \<and> nb_unread b' = q' \<and>
           length (nb_content b') \<le> length (nb_content b) + length (appended [op])"
proof (cases op)
  case (Append x)
  show ?thesis
  proof (cases "x = []")
    case True
    then show ?thesis using Append q inv unl tailData_empty [OF inv unl] by (simp add: buf_step_def)
  next
    case False
    have u: "unat (of_nat (length x) :: size_t) = length x"
      using room Append by (intro unat_of_nat_size) simp
    have "nb_room b (unat (of_nat (length x) :: size_t))" using room Append inv by (simp add: nb_room_def u)
    moreover have "0 < unat (of_nat (length x) :: size_t)" unfolding u using False by simp
    moreover have "unat (of_nat (length x) :: size_t) \<le> length x" unfolding u by simp
    ultimately obtain b' where b': "tailData dbg b x (of_nat (length x)) = Inr (True, b')" "nb_inv b'"
        "nb_content b' = nb_content b @ x" "nb_unread b' = nb_unread b @ x" "\<not> m_lock b'"
      using tailData_ok [OF inv unl, of "of_nat (length x)" x dbg] by (auto simp: u)
    have "length (nb_content b') = length (nb_content b) + length x" by (simp only: b'(3) length_append)
    then show ?thesis using Append q b'
      by (simp add: buf_step_def del: nb_content_length)
  qed
next
  case (Consume n)
  then have n: "n \<le> length (nb_unread b)" "out = take n (nb_unread b)" "q' = drop n (nb_unread b)"
    using q by (auto split: if_splits)
  note D = nb_invD [OF inv]
  have "length (nb_unread b) \<le> PTRDIFF_MAX" using inv D by simp
  then have u: "unat (of_nat n :: size_t) = n" using n(1) by (intro unat_of_nat_size) simp
  have "unat (of_nat n :: size_t) \<le> length (nb_unread b)" unfolding u by (rule n(1))
  note R = readData_ok [OF inv this]
  have "take n (drop (unat (m_readPos b)) (m_buffer b)) = take n (nb_unread b)"
    using n(1) D inv by (simp add: nb_unread_def nb_content_def take_drop_take)
  then have "buf_step dbg op b = Inr (out, b\<lparr>m_readPos := m_readPos b + of_nat n\<rparr>)"
    using Consume n(2) R(1) by (simp add: buf_step_def)
  then show ?thesis using R(2-4) unl n(3) u by simp
next
  case Compact
  obtain b' where "clearReadBuffer dbg b = Inr b'" "nb_inv b'" "nb_content b' = nb_unread b"
      "nb_unread b' = nb_unread b" "m_lock b' = m_lock b"
    using clearReadBuffer_ok [OF inv, of dbg] by blast
  moreover have "length (nb_unread b) \<le> length (nb_content b)" by (simp add: nb_unread_def)
  ultimately show ?thesis using Compact q unl
    by (simp add: buf_step_def del: nb_content_length nb_unread_length)
qed

lemma buf_run_ok:
  assumes "nb_inv b" and "\<not> m_lock b"
    and "2 * (length (nb_content b) + length (appended ops)) \<le> PTRDIFF_MAX"
    and "queue_run ops (nb_unread b) = Some (out, q')"
  shows "\<exists>b'. buf_run dbg ops b = Inr (out, b') \<and> nb_inv b' \<and> \<not> m_lock b' \<and> nb_unread b' = q'"
  using assms
proof (induction ops arbitrary: b out)
  case Nil
  then show ?case by simp
next
  case (Cons op ops)
  obtain o1 q1 o2 where s: "queue_step op (nb_unread b) = Some (o1, q1)" "queue_run ops q1 = Some (o2, q')"
      "out = o1 @ o2"
    using Cons.prems(4) by (auto split: option.splits)
  have ap: "length (appended (op # ops)) = length (appended [op]) + length (appended ops)" by (cases op) simp_all
  then have "2 * (length (nb_content b) + length (appended [op])) \<le> PTRDIFF_MAX" using Cons.prems(3) by simp
  from buf_step_ok [OF Cons.prems(1,2) this s(1), of dbg] obtain b1 where
    b1: "buf_step dbg op b = Inr (o1, b1)" "nb_inv b1" "\<not> m_lock b1" "nb_unread b1 = q1"
      "length (nb_content b1) \<le> length (nb_content b) + length (appended [op])" by blast
  have "2 * (length (nb_content b1) + length (appended ops)) \<le> PTRDIFF_MAX"
    using b1(5) Cons.prems(3) ap by simp
  from Cons.IH [OF b1(2,3) this] s(2) b1(4) obtain b2 where
    "buf_run dbg ops b1 = Inr (o2, b2)" "nb_inv b2" "\<not> m_lock b2" "nb_unread b2 = q'" by blast
  then show ?case using b1(1) s(3) by simp
qed

section \<open>A buffer that holds given bytes\<close>

lemma filled_buffer:
  assumes "2 * length x \<le> PTRDIFF_MAX"
  shows "\<exists>bf. nb_inv bf \<and> \<not> m_lock bf \<and> nb_unread bf = x \<and> nb_content bf = x \<and> m_readPos bf = 0"
proof -
  have sz: "unat (8 :: size_t) \<le> PTRDIFF_MAX" by (simp add: PTRDIFF_MAX_def)
  obtain b where b: "netBuffer 8 = Inr b" using netBuffer_ok [OF sz] by blast
  note N = netBuffer_Inr [OF b]
  show ?thesis
  proof (cases "x = []")
    case True
    then show ?thesis using N by blast
  next
    case False
    have u: "unat (of_nat (length x) :: size_t) = length x" using assms by (intro unat_of_nat_size) simp
    have "nb_room b (unat (of_nat (length x) :: size_t))" "0 < unat (of_nat (length x) :: size_t)"
      "unat (of_nat (length x) :: size_t) \<le> length x"
      unfolding u using assms False N by (simp_all add: nb_room_def)
    from tailData_ok [OF N(1,7) this(2,1,3), of False] N show ?thesis by (auto simp: u)
  qed
qed

end
