(* ===== verification/Redis_Limits.thy ===== *)
theory Redis_Limits
  imports Redis_Parser
begin

text \<open>
  Where the reader of \<open>include/redisparser.h\<close> departs from the protocol: a sequence that is
  cut inside a string, an empty sequence, and an error of less than three characters.
\<close>

section \<open>A line that continues what the reader kept\<close>

lemma readLine_continues:
  assumes at: "at_pos buf sz pos (l @ REDIS_LBR @ rest)" and l: "LF \<notin> set l"
    and cl: "clean_line (m_temp ps @ l)" and len: "length (m_temp ps @ l) + 2 \<le> PTRDIFF_MAX"
  shows "\<exists>ps' pos'. readLine ps buf sz pos r = Inr (True, ps', pos', m_temp ps @ l) \<and>
           m_multiCount ps' = m_multiCount ps"
proof -
  note D = at_posD [OF at]
  have ne: "\<not> sz - pos \<le> 0" using at_pos_nonempty [OF at] by (simp add: REDIS_LBR_def)
  have "memchr buf (unat pos) LF (unat (sz - pos)) = Inr (Some (length (l @ [CR])))"
    by (rule memchr_line [where ys = rest])
      (use D(2) l in \<open>simp_all add: D(1) REDIS_LBR_def\<close>)
  then have mc: "memchr buf (unat pos) REDIS_PREFIX_LBR (unat (sz - pos)) = Inr (Some (length l + 1))"
    by (simp add: REDIS_PREFIX_LBR_def)
  have at': "at_pos buf sz pos ((l @ REDIS_LBR) @ rest)" using at by simp
  have n: "unat (of_nat (length (l @ REDIS_LBR)) :: size_t) = length (l @ REDIS_LBR)"
    using D(4) by (intro unat_of_nat_size) simp
  have e: "pos + of_nat (length l + 1) + 1 = pos + of_nat (length (l @ REDIS_LBR))"
    by (simp add: REDIS_LBR_def)
  have rd: "mem_read buf (unat pos) (unat (pos + of_nat (length (l @ REDIS_LBR)) - pos)) = Inr (l @ REDIS_LBR)"
    using mem_read_at [OF at'] n by simp
  have rt: "rtrim (m_temp ps @ l @ REDIS_LBR) REDIS_LBR = Inr (m_temp ps @ l)"
    using rtrim_line [OF cl len] by simp
  show ?thesis
    using ne unfolding readLine_def Let_def mc
    by (simp only: if_False rbind_Inr option.case e rd rt) simp
qed

context decimal_cast
begin

section \<open>A sequence cut inside a string\<close>

text \<open>The reader keeps the part of the string it has, as it does for a single string.\<close>

lemma parse_multi_cut:
  assumes at: "at_pos buf sz pos ((CHR ''*'' # dec_nat n) @ REDIS_LBR @ (CHR ''$'' # dec_nat m) @ REDIS_LBR @ q)"
    and n: "int n \<le> INT_MAX" and m: "int m + 2 \<le> INT_MAX" and q: "q \<noteq> []" "length q < m + 2"
  shows "\<exists>ps k. parse dbg cast new_parse buf sz pos = Inr (False, ps, k) \<and>
           m_type ps = multi_bulk_reply \<and> \<not> m_done ps \<and> m_temp ps = q \<and> m_recvList ps = []"
proof -
  let ?l1 = "CHR ''*'' # dec_nat n" and ?l2 = "CHR ''$'' # dec_nat m"
  have cl: "clean_line ?l1" "clean_line ?l2" by (simp_all add: dec_nat_clean)
  note P = parse_first_line [OF at cl(1)]
  have len: "length ?l1 \<le> PTRDIFF_MAX" using at_posD(4) [OF at] by simp
  have ty: "getReplyType ?l1 = multi_bulk_reply" using len by (simp add: getReplyType_Cons)
  let ?p1 = "pos + of_nat (length (?l1 @ REDIS_LBR))"
  let ?ps = "new_parse\<lparr>m_type := multi_bulk_reply, m_multiCount := of_nat n\<rparr>"
  have pt: "parseType dbg cast new_parse buf sz pos = Inr (True, ?ps, ?p1)"
    using P(2) ty n by (simp add: parseType_def Let_def cast_dec) (simp add: new_parse_def)
  have at1: "at_pos buf sz pos ((?l1 @ REDIS_LBR) @ ?l2 @ REDIS_LBR @ q)" using at by simp
  note at2 = at_pos_move(1) [OF at1]
  have t: "m_temp ?ps = []" by (simp add: new_parse_def)
  note L = readLine_ok [OF at2 cl(2) t, of "[]"]
  let ?p2 = "?p1 + of_nat (length (?l2 @ REDIS_LBR))"
  have at3: "at_pos buf sz ?p2 q"
    using at_pos_move(1) [of buf sz ?p1 "?l2 @ REDIS_LBR" q] at2 by simp
  note N = len_plus_2 [OF m]
  let ?pm = "?ps\<lparr>m_tempMaxLen := of_nat (m + 2)\<rparr>"
  have "length (m_temp ?pm) + length q < unat (of_nat (m + 2) :: size_t)"
    using q(2) N(2) by (simp add: new_parse_def)
  note R = readLen_partial [OF at3 q(1) this, of "[]"]
  have "int m \<le> INT_MAX" using m by simp
  then have "parseMulti cast ?ps buf sz ?p1 = Inr (False, ?pm\<lparr>m_temp := q\<rparr>, ?p2 + of_nat (length q))"
    using L R N(1) by (subst parseMulti.simps) (simp add: Let_def cast_dec new_parse_def)
  then have "parseBule cast ?ps buf sz ?p1 = Inr (False, ?pm\<lparr>m_temp := q\<rparr>, ?p2 + of_nat (length q))"
    by (simp add: parseBule_def)
  then show ?thesis using P(1) pt by (simp add: new_parse_def)
qed

text \<open>But then it takes the rest of the string for the line of the next one.\<close>

lemma parse_multi_resume:
  assumes ps: "m_type ps = multi_bulk_reply" "\<not> m_done ps"
    and at: "at_pos buf sz pos (l @ REDIS_LBR @ rest)" and l: "LF \<notin> set l"
    and cl: "clean_line (m_temp ps @ l)" and len: "length (m_temp ps @ l) + 2 \<le> PTRDIFF_MAX"
    and ne: "m_temp ps @ l \<noteq> []" and bad: "cast (drop 1 (m_temp ps @ l)) = None"
  shows "parse dbg cast ps buf sz pos = Inl BadCast"
proof -
  have "l @ REDIS_LBR @ rest \<noteq> []" by (simp add: REDIS_LBR_def)
  note S = at_pos_size [OF at this]
  obtain ps' pos' where "readLine ps buf sz pos [] = Inr (True, ps', pos', m_temp ps @ l)"
    using readLine_continues [OF at l cl len, of "[]"] by blast
  moreover have "unat (1 :: size_t) \<le> length (m_temp ps @ l)"
    using ne by (cases "m_temp ps @ l") simp_all
  then have "str_substr (m_temp ps @ l) 1 = Inr (drop 1 (m_temp ps @ l))" by simp
  ultimately have "parseMulti cast ps buf sz pos = Inl BadCast"
    using bad by (subst parseMulti.simps) (simp add: Let_def lexical_cast_def del: length_append)
  then show ?thesis using ps S by (simp add: parse_def parseBule_def)
qed

section \<open>An empty sequence\<close>

text \<open>With the count zero no number of strings is enough: each is taken, and the reply is never done.\<close>

lemma parseMulti_never:
  assumes "at_pos buf sz pos (concat (map bulk_bytes bs))" and "list_all bulk_ok bs" and "m_temp ps = []"
    and "m_multiCount ps = 0" and "length (m_recvList ps) + length bs \<le> PTRDIFF_MAX"
  shows "\<exists>n. parseMulti cast ps buf sz pos =
    Inr (False, ps\<lparr>m_tempMaxLen := n, m_recvList := m_recvList ps @ map bulk_value bs\<rparr>,
         pos + of_nat (length (concat (map bulk_bytes bs))))"
  using assms
proof (induction bs arbitrary: ps pos)
  case Nil
  then have "readLine ps buf sz pos [] = Inr (False, ps, pos, [])" using readLine_partial by fastforce
  then show ?case by (intro exI [of _ "m_tempMaxLen ps"]) (subst parseMulti.simps, simp)
next
  case (Cons b bs)
  have at: "at_pos buf sz pos (bulk_bytes b @ concat (map bulk_bytes bs))" using Cons.prems(1) by simp
  have b: "bulk_ok b" using Cons.prems(2) by simp
  have "unat (of_nat (length (m_recvList ps) + 1) :: size_t) = length (m_recvList ps) + 1"
    using Cons.prems(5) by (intro unat_of_nat_size) simp
  then have nz: "m_multiCount ps \<noteq> of_nat (length (m_recvList ps) + 1)"
    unfolding Cons.prems(4) by (metis add_eq_0_iff_both_eq_0 unat_0 zero_neq_one)
  from parseMulti_elem [OF at b Cons.prems(3)] nz obtain n where step: "parseMulti cast ps buf sz pos =
      parseMulti cast (ps\<lparr>m_tempMaxLen := n, m_recvList := m_recvList ps @ [bulk_value b]\<rparr>) buf sz
        (pos + of_nat (length (bulk_bytes b)))" by (auto simp: Let_def)
  show ?case
    using Cons.IH [OF at_pos_move(1) [OF at], of "ps\<lparr>m_tempMaxLen := n, m_recvList := m_recvList ps @ [bulk_value b]\<rparr>"]
      Cons.prems step by (simp add: algebra_simps)
qed

lemma parse_empty_sequence:
  assumes at: "at_pos buf sz pos ((CHR ''*'' # dec_nat 0) @ REDIS_LBR @ concat (map bulk_bytes bs))"
    and bs: "list_all bulk_ok bs" "length bs \<le> PTRDIFF_MAX"
  shows "\<exists>ps k. parse dbg cast new_parse buf sz pos = Inr (False, ps, k) \<and>
           \<not> isDone ps \<and> m_recvList ps = map bulk_value bs"
proof -
  let ?l = "CHR ''*'' # dec_nat 0"
  have cl: "clean_line ?l" by (simp add: dec_nat_clean)
  note P = parse_first_line [OF at cl]
  have len: "length ?l \<le> PTRDIFF_MAX" using at_posD(4) [OF at] by simp
  have ty: "getReplyType ?l = multi_bulk_reply" using len by (simp add: getReplyType_Cons)
  let ?p1 = "pos + of_nat (length (?l @ REDIS_LBR))"
  let ?ps = "new_parse\<lparr>m_type := multi_bulk_reply, m_multiCount := 0\<rparr>"
  have "lexical_cast cast (dec_nat 0) = Inr 0" using cast_dec [of 0] by (simp add: INT_MAX_def)
  then have pt: "parseType dbg cast new_parse buf sz pos = Inr (True, ?ps, ?p1)"
    using P(2) ty by (simp add: parseType_def Let_def) (simp add: new_parse_def)
  have "at_pos buf sz pos ((?l @ REDIS_LBR) @ concat (map bulk_bytes bs))" using at by simp
  note at2 = at_pos_move(1) [OF this]
  obtain n where "parseMulti cast ?ps buf sz ?p1 = Inr (False, ?ps\<lparr>m_tempMaxLen := n,
      m_recvList := map bulk_value bs\<rparr>, ?p1 + of_nat (length (concat (map bulk_bytes bs))))"
    using parseMulti_never [OF at2 bs(1), of ?ps] bs(2) by (auto simp: new_parse_def)
  then show ?thesis using P(1) pt by (simp add: parseBule_def isDone_def new_parse_def)
qed

section \<open>A short error\<close>

lemma parse_short_error:
  assumes at: "at_pos buf sz pos ((CHR ''-'' # l) @ REDIS_LBR @ rest)" and l: "clean_line l" "length l < 3"
  shows "parse dbg cast new_parse buf sz pos = Inl OutOfRange"
proof -
  have cl: "clean_line (CHR ''-'' # l)" using l(1) by (auto simp: clean_line_def)
  note P = parse_first_line [OF at cl]
  have "length (CHR ''-'' # l) \<le> PTRDIFF_MAX" using at_posD(4) [OF at] by simp
  then have ty: "getReplyType (CHR ''-'' # l) = error_reply" by (simp add: getReplyType_Cons)
  have "str_substr (CHR ''-'' # l) 4 = Inl OutOfRange" using l(2) by (simp add: str_substr_def)
  then have "parseType dbg cast new_parse buf sz pos = Inl OutOfRange"
    using P(2) ty by (simp add: parseType_def Let_def)
  then show ?thesis using P(1) by simp
qed

end

end
