(* ===== verification/Teardown.thy ===== *)
theory Teardown
  imports Connection_Life
begin

text \<open>
  The end of the library: the thread of an \<open>IoObject\<close> and how it is joined (\<open>src/io_pool.h\<close>),
  and the destructors of \<open>IoObjectPool\<close>, \<open>NetService\<close> (\<open>src/service.cpp\<close>) and of an endpoint
  (\<open>src/tcp_object.h\<close>, \<open>src/tcp_object.cpp\<close>).

  \<open>run_ends stopped\<close> is whether \<open>m_ios.run()\<close> returns, given whether \<open>m_ios.stop()\<close> was called:
  a parameter, since asio is not part of the code, with its documented law as the hypothesis
  \<open>run_ends True\<close>.  A join of a thread that never ends does not return: \<open>None\<close>.
\<close>

section \<open>Threads\<close>

record io_object =
  io_stopped :: bool
  io_joinable :: bool

text \<open>The objects the pool points to, by their index; \<open>None\<close> when the pointer was reset.\<close>

type_synonym io_heap = "nat \<Rightarrow> io_object option"

definition ioObject :: io_object where
  "ioObject = \<lparr>io_stopped = False, io_joinable = True\<rparr>"

text \<open>\<open>std::thread::join\<close> throws a \<open>std::system_error\<close> if the thread was joined before.\<close>

definition thread_join :: "(bool \<Rightarrow> bool) \<Rightarrow> io_object \<Rightarrow> io_object res option" where
  "thread_join run_ends io =
     (if \<not> io_joinable io then Some (Inl RuntimeError)
      else if run_ends (io_stopped io) then Some (Inr (io\<lparr>io_joinable := False\<rparr>))
      else None)"

definition ioObject_stop :: "(bool \<Rightarrow> bool) \<Rightarrow> io_object \<Rightarrow> io_object res option" where
  "ioObject_stop run_ends io = thread_join run_ends (io\<lparr>io_stopped := True\<rparr>)"

definition ioObject_destroy :: "(bool \<Rightarrow> bool) \<Rightarrow> io_object \<Rightarrow> io_object res option" where
  "ioObject_destroy run_ends io = (if io_joinable io then ioObject_stop run_ends io else Some (Inr io))"

text \<open>The objects the constructor of a pool makes.\<close>

definition pool_objects :: "io_pool \<Rightarrow> io_heap" where
  "pool_objects pool i = (if i \<in> set (m_netIo pool) then Some ioObject else None)"

text \<open>The loop of \<open>IoObjectPool::stop\<close>: each object is stopped, then its pointer reset.\<close>

fun stop_objects :: "(bool \<Rightarrow> bool) \<Rightarrow> nat list \<Rightarrow> io_heap \<Rightarrow> io_heap res option" where
  "stop_objects run_ends [] h = Some (Inr h)"
| "stop_objects run_ends (i # is) h =
     (case h i of
        None \<Rightarrow> Some (Inl NullDeref)
      | Some io \<Rightarrow>
          (case ioObject_stop run_ends io of
             Some (Inr io1) \<Rightarrow>
               (case ioObject_destroy run_ends io1 of
                  Some (Inr _) \<Rightarrow> stop_objects run_ends is (h(i := None))
                | Some (Inl e) \<Rightarrow> Some (Inl e)
                | None \<Rightarrow> None)
           | Some (Inl e) \<Rightarrow> Some (Inl e)
           | None \<Rightarrow> None))"

definition ioObjectPool_destroy :: "(bool \<Rightarrow> bool) \<Rightarrow> io_pool \<Rightarrow> io_heap \<Rightarrow> (io_pool \<times> io_heap) res option" where
  "ioObjectPool_destroy run_ends pool h =
     (case stop_objects run_ends (m_netIo pool) h of
        Some (Inr h') \<Rightarrow> Some (Inr (pool_stop pool, h'))
      | Some (Inl e) \<Rightarrow> Some (Inl e)
      | None \<Rightarrow> None)"

definition netService_destroy ::
    "(bool \<Rightarrow> bool) \<Rightarrow> 'b net_service \<Rightarrow> io_heap \<Rightarrow> ('b net_service \<times> io_heap) res option" where
  "netService_destroy run_ends sv h =
     (let sv1 = sv\<lparr>m_nets := []\<rparr> in
      case ioObjectPool_destroy run_ends (m_ioPool sv1) h of
        Some (Inr (pool, h')) \<Rightarrow> Some (Inr (sv1\<lparr>m_ioPool := pool\<rparr>, h'))
      | Some (Inl e) \<Rightarrow> Some (Inl e)
      | None \<Rightarrow> None)"

section \<open>Every thread is joined once\<close>

text \<open>A join that no \<open>stop\<close> precedes waits for \<open>run\<close>; a second one throws.\<close>

lemma stop_joins:
  assumes "run_ends True" and "io_joinable io"
  shows "ioObject_stop run_ends io = Some (Inr \<lparr>io_stopped = True, io_joinable = False\<rparr>)"
  using assms by (simp add: ioObject_stop_def thread_join_def)

lemma stop_twice: "\<not> io_joinable io \<Longrightarrow> ioObject_stop run_ends io = Some (Inl RuntimeError)"
  by (simp add: ioObject_stop_def thread_join_def)

lemma join_without_stop: "\<not> run_ends False \<Longrightarrow> thread_join run_ends ioObject = None"
  by (simp add: thread_join_def ioObject_def)

text \<open>The objects may be named in any order, but each once.\<close>

lemma stop_objects_ok:
  assumes "run_ends True" and "distinct is" and "\<forall>i \<in> set is. \<exists>io. h i = Some io \<and> io_joinable io"
  shows "stop_objects run_ends is h = Some (Inr (\<lambda>i. if i \<in> set is then None else h i))"
  using assms(2,3)
proof (induction "is" arbitrary: h)
  case (Cons i "is")
  obtain io where io: "h i = Some io" "io_joinable io" using Cons.prems(2) by auto
  have "\<forall>j \<in> set is. \<exists>io. (h(i := None)) j = Some io \<and> io_joinable io" using Cons.prems by auto
  moreover have "distinct is" using Cons.prems(1) by simp
  ultimately have "stop_objects run_ends is (h(i := None)) =
      Some (Inr (\<lambda>j. if j \<in> set is then None else (h(i := None)) j))" by (rule Cons.IH [rotated])
  moreover have "(\<lambda>j. if j \<in> set is then None else (h(i := None)) j) = (\<lambda>j. if j \<in> set (i # is) then None else h j)"
    by auto
  ultimately show ?case using io stop_joins [where run_ends = run_ends, OF assms(1) io(2)] by (simp add: ioObject_destroy_def)
qed simp

text \<open>A service keeps the objects its constructor made.\<close>

lemma run_events_ios: "run_events lo t p evs = Inr (t', p', acts) \<Longrightarrow> m_netIo p' = m_netIo p"
proof (induction evs arbitrary: t p acts)
  case (Cons ev evs)
  obtain t1 p1 a1 a2 where 1: "run_event lo t p ev = Inr (t1, p1, a1)" "run_events lo t1 p1 evs = Inr (t', p', a2)"
    using Cons.prems by (auto simp: rbind_eq_Inr)
  have "m_netIo p1 = m_netIo p"
    using 1(1) by (cases ev) (auto simp: run_event_def rbind_eq_Inr Let_def addSession_def delSession_def
        split: if_splits option.splits dest: tcp_start_same)
  then show ?case using Cons.IH [OF 1(2)] by simp
qed simp

lemma each_net_ios:
  assumes "\<And>n t p t' p' acts. f n t p = Inr (t', p', acts) \<Longrightarrow> m_netIo p' = m_netIo p"
    and "each_net f nets p = Inr (nets', p', acts)"
  shows "m_netIo p' = m_netIo p"
  using assms(2) by (induction nets arbitrary: p nets' acts) (force simp: rbind_eq_Inr dest: assms(1))+

lemma request_ios:
  assumes "net_manager vt resolve lo alive rq sv = Inr (r, sv', acts)"
  shows "m_netIo (m_ioPool sv') = m_netIo (m_ioPool sv)"
proof (cases rq)
  case ReqStart
  then show ?thesis
    using assms by (auto simp: net_manager_def service_start_def rbind_eq_Inr Let_def dest: start_nets_same)
next
  case (ReqAdd p)
  then show ?thesis
    using assms by (auto simp: net_manager_def service_add_def tcp_create_def tcpClient_def rbind_eq_Inr Let_def
        split: if_splits option.splits service_flag.splits dest: createConnection_same)
next
  case ReqPoll
  have "m_netIo p' = m_netIo p" if "tcp_poll (lo n) t p = Inr (t', p', a)" for n t p t' p' a
    using that by (auto simp: tcp_poll_def dest: run_events_ios)
  from each_net_ios [where f = "\<lambda>n. tcp_poll (lo n)", OF this] ReqPoll assms show ?thesis
    by (auto simp: net_manager_def service_poll_def rbind_eq_Inr)
next
  case ReqSetStop
  have "m_netIo p' = m_netIo p" if "stop_net n t p = Inr (t', p', a)" for n t p t' p' and a :: "'a action list"
    using that by (auto simp: stop_net_def rbind_eq_Inr)
  from each_net_ios [where f = stop_net, OF this] ReqSetStop assms show ?thesis
    by (auto simp: net_manager_def setStop_def rbind_eq_Inr Let_def)
qed (use assms in \<open>auto simp: net_manager_def service_remove_def service_send_def service_send_name_def
      service_kick_def rbind_eq_Inr split: if_splits option.splits\<close>)

lemma service_reach_ios:
  "service_reach vt resolve lo alive owner sv \<Longrightarrow> distinct (m_netIo (m_ioPool sv))"
proof (induction rule: service_reach.induct)
  case (Start dbg n sv)
  then show ?case by (auto simp: netService_def ioObjectPool_def rbind_eq_Inr)
next
  case (Step sv sv')
  from Step.hyps(2) have "m_netIo (m_ioPool sv') = m_netIo (m_ioPool sv)"
    by cases (auto dest: request_ios acceptSocket_same)
  then show ?case using Step.IH by simp
qed

lemma netService_destroy_ok:
  assumes "run_ends True" and "distinct (m_netIo (m_ioPool sv))"
  shows "netService_destroy run_ends sv (pool_objects (m_ioPool sv)) =
    Some (Inr (sv\<lparr>m_nets := [], m_ioPool := pool_stop (m_ioPool sv)\<rparr>, \<lambda>_. None))"
proof -
  let ?pool = "m_ioPool sv"
  have "\<forall>i \<in> set (m_netIo ?pool). \<exists>io. pool_objects ?pool i = Some io \<and> io_joinable io"
    by (simp add: pool_objects_def ioObject_def)
  note S = stop_objects_ok [where run_ends = run_ends, OF assms this]
  have "(\<lambda>i. if i \<in> set (m_netIo ?pool) then None else pool_objects ?pool i) = (\<lambda>_. None)"
    by (auto simp: pool_objects_def)
  then show ?thesis using S by (simp add: netService_destroy_def ioObjectPool_destroy_def)
qed

section \<open>Destroyed before it is quiet\<close>

text \<open>
  The destructors of \<open>TcpServer\<close>, \<open>TcpClient\<close> and \<open>TcpObj\<close> drop every pointer of the endpoint;
  the threads of the pool still run then.
\<close>

definition tcp_destroy :: "'b tcp_obj \<Rightarrow> 'b tcp_obj" where
  "tcp_destroy t = t\<lparr>m_acceptor := False, m_current := None, t_session := None, m_call := [], t_onlines := []\<rparr>"

lemma tcp_destroy_drops: "\<not> keeps (tcp_destroy t) s"
  by (simp add: keeps_def tcp_destroy_def onlines_def)

text \<open>
  A service may be destroyed while a session is online.  Its connection then has a pending
  read and nobody who holds it; and if it was being closed, the close is told to an endpoint
  that no longer exists.
\<close>

lemma destroyed_while_online:
  fixes vt :: "'b block_vt"
  shows "\<exists>st. life_reach dbg vt (st :: 'b life) \<and> held st \<and> pending st \<and>
    \<not> held (st\<lparr>lf_obj := tcp_destroy (lf_obj st)\<rparr>) \<and>
    (\<exists>c es. run_task dbg vt (lf_conn st) (RunClose False) = Inr (c, es) \<and> EventClose (c_session c) \<in> set es)"
proof -
  obtain c t pool where r: "life_reach dbg vt (online_life c t pool)" and
    c: "c_session c = 7" "\<not> m_isSend c" "m_sendList c = []" "\<not> hasRead (m_bufferSend c)" and
    t: "t_onlines t = [(7, ())]"
    using accepted_online by blast
  let ?st = "online_life c t pool"
  have "held ?st" using c(1) t by (simp add: held_def keeps_def onlines_def online_life_def)
  moreover have "pending ?st" by (simp add: pending_def online_life_def)
  moreover have "\<not> held (?st\<lparr>lf_obj := tcp_destroy (lf_obj ?st)\<rparr>)"
    using tcp_destroy_drops by (simp add: held_def online_life_def)
  moreover have "run_task dbg vt (lf_conn ?st) (RunClose False) =
      Inr (c\<lparr>m_connect := False\<rparr>, [SocketShutdown, SocketClose, EventClose 7])"
    using c by (simp add: run_task_def handleClose_def online_life_def)
  ultimately show ?thesis using r c(1) by force
qed

section \<open>The manager\<close>

text \<open>
  \<open>NetManager\<close> takes an \<open>unsigned int\<close> for the \<open>size_t\<close> of the service, which it makes and
  destroys; \<open>stop\<close> is the one call of its that does not return at once.
\<close>

definition netManager :: "bool \<Rightarrow> uint32 \<Rightarrow> 'b net_service res" where
  "netManager dbg t = netService dbg (ucast t)"

definition netManager_destroy ::
    "(bool \<Rightarrow> bool) \<Rightarrow> 'b net_service \<Rightarrow> io_heap \<Rightarrow> ('b net_service \<times> io_heap) res option" where
  "netManager_destroy run_ends m_service h = netService_destroy run_ends m_service h"

definition netManager_stop ::
    "(string \<Rightarrow> listen_outcome) \<Rightarrow> (nat \<Rightarrow> real) \<Rightarrow> (nat \<Rightarrow> 'b net_service \<Rightarrow> 'b net_service) \<Rightarrow> uint32 \<Rightarrow>
     'b net_service \<Rightarrow> 'b service_step option" where
  "netManager_stop lo elapsed env time m_service = service_stop lo elapsed env time m_service"

text \<open>A manager has as many threads as it was given, and its destructor returns whatever it was used for.\<close>

lemma netManager_life:
  assumes "0 < t"
  shows "\<exists>sv. netManager dbg t = Inr sv \<and> length (m_netIo (m_ioPool sv)) = unat t \<and>
    service_reach vt resolve lo alive owner sv \<and>
    (\<forall>sv'. service_reach vt resolve lo alive owner sv' \<longrightarrow> run_ends True \<longrightarrow>
       (\<exists>sv'' h. netManager_destroy run_ends sv' (pool_objects (m_ioPool sv')) = Some (Inr (sv'', h)) \<and> (\<forall>i. h i = None)))"
proof -
  have "unat t < 2 ^ LENGTH(32)" by (rule unsigned_less)
  then have "unat t < 2 ^ 64" by simp
  then have u: "unat (ucast t :: size_t) = unat t" by (simp add: unsigned_ucast_eq take_bit_nat_eq_self)
  then have t: "0 < (ucast t :: size_t)" "unat (ucast t :: size_t) = unat t"
    using assms by (simp_all add: word_less_nat_alt)
  obtain pool where p: "ioObjectPool dbg (ucast t) = Inr pool" "m_netIo pool = [0..<unat t]"
    using ioObjectPool_ok [OF t(1), of dbg] t(2) by auto
  let ?sv = "\<lparr>m_ioPool = pool, m_nets = [], sv_state = STATE_SERVICE_INIT\<rparr>"
  have n: "netService dbg (ucast t) = Inr ?sv" by (simp add: netService_def p(1))
  have "\<exists>sv'' h. netManager_destroy run_ends sv' (pool_objects (m_ioPool sv')) = Some (Inr (sv'', h)) \<and> (\<forall>i. h i = None)"
    if "service_reach vt resolve lo alive owner sv'" "run_ends True" for sv' run_ends
    using netService_destroy_ok [where run_ends = run_ends, OF that(2) service_reach_ios [OF that(1)]]
    by (simp add: netManager_destroy_def)
  then show ?thesis using n p(2) service_reach.Start [OF n t(1), of vt resolve lo alive owner] by (auto simp: netManager_def)
qed

end
