(* ===== verification/Send_Threads.thy ===== *)
theory Send_Threads
  imports Connection_Send
begin

text \<open>
  The threads of a connection.  Any number of user threads call \<open>send\<close> and \<open>close\<close>, one thread of
  the pool runs the handlers; \<open>send\<close>, the end of \<open>writeMessage\<close> and the test of \<open>handleClose\<close> hold
  \<open>m_mutex\<close> (\<open>src/connection.cpp\<close>).  Here the statements of these functions are the steps, with a
  program counter per thread, and every run of them is matched by one of whole functions, as
  \<open>Connection_Send\<close> has them.
\<close>

section \<open>The functions cut at the mutex\<close>

text \<open>\<open>writeMessage\<close>: the tests before the lock, and what is done under it.\<close>

definition write_check :: "'b connection \<Rightarrow> bool" where
  "write_check c \<longleftrightarrow> m_connect c \<and> \<not> m_isSend c"

definition write_locked :: "bool \<Rightarrow> 'b block_vt \<Rightarrow> 'b connection \<Rightarrow> size_t \<Rightarrow> 'b handler" where
  "write_locked dbg vt c sz =
     rbind (readData dbg (m_bufferSend c) sz) (\<lambda>(_, b1).
     rbind (clearReadBuffer dbg b1) (\<lambda>b2.
     rbind (sendLoop dbg vt b2 (m_sendList c)) (\<lambda>(b3, ps).
     let c' = c\<lparr>m_bufferSend := b3, m_sendList := ps, m_totalSend := m_totalSend c + sz\<rparr> in
     if hasRead b3
     then Inr (c'\<lparr>m_isSend := True\<rparr>, [AsyncWrite (nb_unread b3)])
     else Inr (c', []))))"

lemma writeMessage_split:
  "writeMessage dbg vt c n = (if write_check c then write_locked dbg vt c n else Inr (c, []))"
  by (simp add: writeMessage_def write_check_def write_locked_def)

text \<open>\<open>handleClose\<close>: the test under the lock, and the end without it.\<close>

definition close_waits :: "'b connection \<Rightarrow> bool" where
  "close_waits c \<longleftrightarrow> m_isSend c \<or> m_sendList c \<noteq> [] \<or> hasRead (m_bufferSend c)"

definition close_now :: "'b connection \<Rightarrow> 'b connection \<times> 'b effect list" where
  "close_now c = (c\<lparr>m_connect := False\<rparr>, [SocketShutdown, SocketClose, EventClose (c_session c)])"

lemma handleClose_split:
  "handleClose c er = (if \<not> er \<and> close_waits c then conn_close c er else close_now c)"
  by (simp add: handleClose_def close_waits_def close_now_def)

section \<open>Threads\<close>

datatype thread = User nat | Io

text \<open>A user thread in \<open>send\<close>: it holds the mutex, has pushed the message, has posted the task.\<close>

datatype 'b user_pc = UIdle | ULocked 'b | UPushed 'b | UPosted

text \<open>
  The thread of the pool: between two handlers; at the entry of \<open>writeMessage\<close>, before and behind
  its lock; before and behind the lock of \<open>handleClose\<close>, and at its end; before an unlock.
\<close>

datatype io_pc =
    IIdle | IWrite size_t | IWriteLock size_t | IWriteIn size_t | IUnlock
  | ICloseLock | ICloseIn | IClosing

record 'b threads =
  th_sys :: "'b conn_sys"
  th_lock :: "thread option"
  th_user :: "nat \<Rightarrow> 'b user_pc"
  th_io :: io_pc

definition push_msg :: "'b \<Rightarrow> 'b conn_sys \<Rightarrow> 'b conn_sys" where
  "push_msg p s = s\<lparr>s_conn := (s_conn s)\<lparr>m_sendList := m_sendList (s_conn s) @ [p]\<rparr>\<rparr>"

definition post_task :: "io_task \<Rightarrow> 'b conn_sys \<Rightarrow> 'b conn_sys" where
  "post_task k s = s\<lparr>s_queue := s_queue s @ [k]\<rparr>"

text \<open>Calls of \<open>send\<close> and \<open>close\<close> by the thread \<open>u\<close>.\<close>

inductive user_step :: "bool \<Rightarrow> 'b block_vt \<Rightarrow> 'b threads \<Rightarrow> 'b threads \<Rightarrow> bool"
  for dbg :: bool and vt :: "'b block_vt" where
  Send_lock: "th_lock f = None \<Longrightarrow> th_user f u = UIdle \<Longrightarrow> sendable vt p \<Longrightarrow>
    user_step dbg vt f (f\<lparr>th_lock := Some (User u), th_user := (th_user f)(u := ULocked p)\<rparr>)"
| Send_push: "th_user f u = ULocked p \<Longrightarrow>
    user_step dbg vt f (f\<lparr>th_sys := push_msg p (th_sys f), th_user := (th_user f)(u := UPushed p)\<rparr>)"
| Send_post: "th_user f u = UPushed p \<Longrightarrow>
    user_step dbg vt f (f\<lparr>th_sys := post_task (RunWrite 0) ((th_sys f)\<lparr>s_submitted := s_submitted (th_sys f) @ block_out vt p\<rparr>),
      th_user := (th_user f)(u := UPosted)\<rparr>)"
| Send_unlock: "th_user f u = UPosted \<Longrightarrow>
    user_step dbg vt f (f\<lparr>th_lock := None, th_user := (th_user f)(u := UIdle)\<rparr>)"
| User_close: "th_user f u = UIdle \<Longrightarrow>
    user_step dbg vt f (f\<lparr>th_sys := post_task (RunClose er) (th_sys f)\<rparr>)"

text \<open>\<open>writeMessage\<close> as a task, and \<open>handleWrite\<close>; the unlock at the end of either function.\<close>

inductive write_step :: "bool \<Rightarrow> 'b block_vt \<Rightarrow> 'b threads \<Rightarrow> 'b threads \<Rightarrow> bool"
  for dbg :: bool and vt :: "'b block_vt" where
  Task_write: "th_io f = IIdle \<Longrightarrow> s_queue (th_sys f) = RunWrite n # q \<Longrightarrow>
    write_step dbg vt f (f\<lparr>th_sys := (th_sys f)\<lparr>s_queue := q\<rparr>, th_io := IWrite n\<rparr>)"
| Write_done: "th_io f = IIdle \<Longrightarrow> s = th_sys f \<Longrightarrow> s_flight s = Some b \<Longrightarrow> \<not> s_broken s \<Longrightarrow>
    write_step dbg vt f (f\<lparr>th_sys := s\<lparr>s_conn := (s_conn s)\<lparr>m_isSend := False\<rparr>, s_flight := None, s_wire := s_wire s @ b\<rparr>,
      th_io := (if m_connect (s_conn s) then IWrite (of_nat (length b)) else IIdle)\<rparr>)"
| Write_fail: "th_io f = IIdle \<Longrightarrow> s = th_sys f \<Longrightarrow> s_flight s = Some b \<Longrightarrow> (s_broken s \<Longrightarrow> k = 0) \<Longrightarrow>
    write_step dbg vt f (f\<lparr>th_sys := post_task (RunClose True) (s\<lparr>s_conn := (s_conn s)\<lparr>m_isSend := False\<rparr>,
      s_flight := None, s_wire := s_wire s @ take k b, s_broken := True\<rparr>)\<rparr>)"
| Write_check: "th_io f = IWrite n \<Longrightarrow>
    write_step dbg vt f (f\<lparr>th_io := (if write_check (s_conn (th_sys f)) then IWriteLock n else IIdle)\<rparr>)"
| Write_lock: "th_io f = IWriteLock n \<Longrightarrow> th_lock f = None \<Longrightarrow>
    write_step dbg vt f (f\<lparr>th_lock := Some Io, th_io := IWriteIn n\<rparr>)"
| Write_in: "th_io f = IWriteIn n \<Longrightarrow> write_locked dbg vt (s_conn (th_sys f)) n = Inr (c, es) \<Longrightarrow>
    write_step dbg vt f (f\<lparr>th_sys := absorb es ((th_sys f)\<lparr>s_conn := c\<rparr>), th_io := IUnlock\<rparr>)"
| Unlock: "th_io f = IUnlock \<Longrightarrow> write_step dbg vt f (f\<lparr>th_lock := None, th_io := IIdle\<rparr>)"

text \<open>\<open>handleClose\<close>, and a completed read.\<close>

inductive close_step :: "bool \<Rightarrow> 'b block_vt \<Rightarrow> 'b threads \<Rightarrow> 'b threads \<Rightarrow> bool"
  for dbg :: bool and vt :: "'b block_vt" where
  Task_close: "th_io f = IIdle \<Longrightarrow> s_queue (th_sys f) = RunClose er # q \<Longrightarrow>
    close_step dbg vt f (f\<lparr>th_sys := (th_sys f)\<lparr>s_queue := q\<rparr>, th_io := (if er then IClosing else ICloseLock)\<rparr>)"
| Close_lock: "th_io f = ICloseLock \<Longrightarrow> th_lock f = None \<Longrightarrow>
    close_step dbg vt f (f\<lparr>th_lock := Some Io, th_io := ICloseIn\<rparr>)"
| Close_wait: "th_io f = ICloseIn \<Longrightarrow> close_waits (s_conn (th_sys f)) \<Longrightarrow>
    close_step dbg vt f (f\<lparr>th_sys := post_task (RunClose False) (th_sys f), th_io := IUnlock\<rparr>)"
| Close_go: "th_io f = ICloseIn \<Longrightarrow> \<not> close_waits (s_conn (th_sys f)) \<Longrightarrow>
    close_step dbg vt f (f\<lparr>th_lock := None, th_io := IClosing\<rparr>)"
| Close_end: "th_io f = IClosing \<Longrightarrow> close_now (s_conn (th_sys f)) = (c, es) \<Longrightarrow>
    close_step dbg vt f (f\<lparr>th_sys := absorb es ((th_sys f)\<lparr>s_conn := c\<rparr>), th_io := IIdle\<rparr>)"
| Read_some: "th_io f = IIdle \<Longrightarrow> handleReadSome dbg vt (s_conn (th_sys f)) er data = Some (Inr (c, es)) \<Longrightarrow>
    close_step dbg vt f (f\<lparr>th_sys := absorb es ((th_sys f)\<lparr>s_conn := c\<rparr>)\<rparr>)"

definition thread_step :: "bool \<Rightarrow> 'b block_vt \<Rightarrow> 'b threads \<Rightarrow> 'b threads \<Rightarrow> bool" where
  "thread_step dbg vt f g \<longleftrightarrow> user_step dbg vt f g \<or> write_step dbg vt f g \<or> close_step dbg vt f g"

definition start_threads :: "'b connection \<Rightarrow> 'b threads" where
  "start_threads c = \<lparr>th_sys = start_sys c, th_lock = None, th_user = (\<lambda>_. UIdle), th_io = IIdle\<rparr>"

inductive thread_reach :: "bool \<Rightarrow> 'b block_vt \<Rightarrow> 'b threads \<Rightarrow> bool"
  for dbg :: bool and vt :: "'b block_vt" where
  Start: "fresh_conn c \<Longrightarrow> thread_reach dbg vt (start_threads c)"
| Step: "thread_reach dbg vt f \<Longrightarrow> thread_step dbg vt f g \<Longrightarrow> thread_reach dbg vt g"

section \<open>Who holds the mutex\<close>

fun io_inside :: "io_pc \<Rightarrow> bool" where
  "io_inside (IWriteIn n) = True"
| "io_inside ICloseIn = True"
| "io_inside IUnlock = True"
| "io_inside _ = False"

definition lock_inv :: "'b block_vt \<Rightarrow> 'b threads \<Rightarrow> bool" where
  "lock_inv vt f \<longleftrightarrow> (\<forall>u. th_user f u \<noteq> UIdle \<longleftrightarrow> th_lock f = Some (User u)) \<and>
     (io_inside (th_io f) \<longleftrightarrow> th_lock f = Some Io) \<and>
     (\<forall>u p. th_user f u = ULocked p \<or> th_user f u = UPushed p \<longrightarrow> sendable vt p) \<and>
     (\<forall>u p. th_user f u = UPushed p \<longrightarrow> (\<exists>ps. m_sendList (s_conn (th_sys f)) = ps @ [p]))"

lemma absorb_Cons: "absorb (e # es) s = absorb es (absorb [e] s)"
  by (cases e) simp_all

lemma absorb_conn: "absorb es (s\<lparr>s_conn := c\<rparr>) = (absorb es s)\<lparr>s_conn := c\<rparr>"
proof (induction es arbitrary: s)
  case (Cons e es)
  have "absorb [e] (s\<lparr>s_conn := c\<rparr>) = (absorb [e] s)\<lparr>s_conn := c\<rparr>" by (cases e; cases s) simp_all
  then show ?case by (subst (1 2) absorb_Cons) (simp only: Cons)
qed simp

lemma absorb_keeps [simp]: "s_conn (absorb es s) = s_conn s"
  by (induction es s rule: absorb.induct) simp_all

section \<open>Reading does not look at the messages to send\<close>

abbreviation with_list :: "'b list \<Rightarrow> 'b connection \<Rightarrow> 'b connection" where
  "with_list l c \<equiv> c\<lparr>m_sendList := l\<rparr>"

lemma with_list_read:
  "(with_list l c)\<lparr>m_bufferRecv := b, m_waitMessage := w\<rparr> = with_list l (c\<lparr>m_bufferRecv := b, m_waitMessage := w\<rparr>)"
  "(with_list l c)\<lparr>m_bufferRecv := b, m_totalRevc := n\<rparr> = with_list l (c\<lparr>m_bufferRecv := b, m_totalRevc := n\<rparr>)"
  by (cases c, simp)+

lemma readMessage_with_list:
  "readMessage vt (with_list l c) = map_sum id (map_prod id (with_list l)) (readMessage vt c)"
proof -
  define w where "w = (case m_waitMessage c of None \<Rightarrow> vt_make vt (c_session c) 0 | Some w \<Rightarrow> Inr w)"
  have sel: "m_waitMessage (with_list l c) = m_waitMessage c" "c_session (with_list l c) = c_session c"
    "m_bufferRecv (with_list l c) = m_bufferRecv c" by simp_all
  show ?thesis
    unfolding readMessage_def sel w_def [symmetric] with_list_read
    by (cases w) (simp_all add: rbind_def split: sum.split prod.split)
qed

lemma readLoop_with_list:
  fixes vt :: "'b block_vt"
  assumes "readLoop vt c es = Some r"
  shows "readLoop vt (with_list l c) es = Some (map_sum id (map_prod (with_list l) id) r)"
proof -
  let ?P = "\<lambda>(vt :: 'b block_vt) c es r. readLoop vt (with_list l c) es = Some (map_sum id (map_prod (with_list l) id) r)"
  show ?thesis
  proof (rule readLoop.raw_induct [where P = ?P, OF _ assms])
    fix loop and vt :: "'b block_vt" and c :: "'b connection" and es r
    assume IH: "\<And>vt c es r. loop vt c es = Some r \<Longrightarrow> ?P vt c es r"
      and eq: "(if \<not> hasWrite (m_bufferRecv c) then Some (Inr (c, es))
        else case readMessage vt c of Inl e \<Rightarrow> Some (Inl e)
           | Inr (p, c') \<Rightarrow> (case p of None \<Rightarrow> Some (Inr (c', es))
                | Some m \<Rightarrow> loop vt c' (es @ [EventPostRecv m]))) = Some r"
    show "?P vt c es r"
      using eq IH by (subst readLoop.simps)
        (auto simp: readMessage_with_list split: if_splits sum.splits option.splits prod.splits)
  qed
qed

lemma handleReadSome_with_list:
  assumes "handleReadSome dbg vt c er data = Some (Inr (c', es))"
  shows "handleReadSome dbg vt (with_list l c) er data = Some (Inr (with_list l c', es))"
proof (cases "\<not> m_connect c \<or> er")
  case True
  then show ?thesis using assms by (auto simp: handleReadSome_def onError_def conn_close_def)
next
  case False
  let ?c = "\<lambda>bf'. c\<lparr>m_bufferRecv := bf', m_totalRevc := m_totalRevc c + of_nat (length data)\<rparr>"
  obtain bf' es1 x where m: "rbind (memcpy (m_buffer (m_bufferRecv c)) (unat (nb_length (m_bufferRecv c))) data 0 (length data))
        (\<lambda>m. writeData dbg ((m_bufferRecv c)\<lparr>m_buffer := m\<rparr>) (of_nat (length data))) = Inr (x, bf')"
    and lp: "readLoop vt (?c bf') [] = Some (Inr (c', es1))" and es: "es = es1 @ beginRead c'"
    using assms False by (auto simp: handleReadSome_def Let_def rbind_eq_Inr split: sum.splits option.splits)
  from readLoop_with_list [OF lp, of l] False m es show ?thesis
    by (simp add: handleReadSome_def Let_def with_list_read beginRead_def)
qed

section \<open>The mutex is held by at most one thread\<close>

lemma lock_invD:
  assumes "lock_inv vt f"
  shows "th_user f u \<noteq> UIdle \<Longrightarrow> th_lock f = Some (User u)" and "io_inside (th_io f) \<longleftrightarrow> th_lock f = Some Io"
    and "th_user f u = ULocked p \<or> th_user f u = UPushed p \<Longrightarrow> sendable vt p"
    and "th_user f u = UPushed p \<Longrightarrow> \<exists>ps. m_sendList (s_conn (th_sys f)) = ps @ [p]"
  using assms unfolding lock_inv_def by blast+

lemma lock_alone:
  assumes "lock_inv vt f" and "th_user f u \<noteq> UIdle" and "v \<noteq> u"
  shows "th_user f v = UIdle"
  using lock_invD(1) [OF assms(1), of u] lock_invD(1) [OF assms(1), of v] assms(2,3) by auto

lemma lock_inv_start: "lock_inv vt (start_threads c)"
  by (simp add: lock_inv_def start_threads_def)

text \<open>A step that is not in a critical section, and keeps the messages to send.\<close>

lemma lock_inv_io:
  assumes "lock_inv vt f" and "th_user g = th_user f" and "th_lock g = th_lock f"
    and "io_inside (th_io g) = io_inside (th_io f)"
    and "m_sendList (s_conn (th_sys g)) = m_sendList (s_conn (th_sys f)) \<or> th_lock f = Some Io"
  shows "lock_inv vt g"
  using assms unfolding lock_inv_def by auto

lemma lock_inv_user:
  assumes step: "user_step dbg vt f g" and inv: "lock_inv vt f"
  shows "lock_inv vt g"
  using step
proof cases
  case (Send_lock u p)
  then show ?thesis using inv by (auto simp: lock_inv_def)
next
  case (Send_push u p)
  then have "th_user f v = UIdle" if "v \<noteq> u" for v using lock_alone [OF inv _ that] by simp
  then show ?thesis using Send_push inv by (auto simp: lock_inv_def push_msg_def)
next
  case (Send_post u p)
  then show ?thesis using inv by (auto simp: lock_inv_def post_task_def)
next
  case (Send_unlock u)
  then have "th_user f v = UIdle" if "v \<noteq> u" for v using lock_alone [OF inv _ that] by simp
  then show ?thesis using Send_unlock inv by (auto simp: lock_inv_def)
qed (auto intro!: lock_inv_io [OF inv] simp: post_task_def)

lemma lock_inv_write:
  assumes step: "write_step dbg vt f g" and inv: "lock_inv vt f"
  shows "lock_inv vt g"
  using step
proof cases
  case (Write_lock n)
  then show ?thesis using inv by (auto simp: lock_inv_def)
next
  case Unlock
  then show ?thesis using inv by (auto simp: lock_inv_def)
next
  case (Write_in n c es)
  then show ?thesis using lock_invD(2) [OF inv] by (intro lock_inv_io [OF inv]) auto
qed (auto intro!: lock_inv_io [OF inv] simp: post_task_def)

lemma lock_inv_close:
  assumes step: "close_step dbg vt f g" and inv: "lock_inv vt f"
  shows "lock_inv vt g"
  using step
proof cases
  case Close_lock
  then show ?thesis using inv by (auto simp: lock_inv_def)
next
  case Close_go
  then show ?thesis using inv by (auto simp: lock_inv_def)
next
  case (Read_some er data c es)
  then show ?thesis using handleReadSome_same [OF Read_some(3)] by (intro lock_inv_io [OF inv]) (auto simp: same_send_def)
qed (auto intro!: lock_inv_io [OF inv] simp: post_task_def close_now_def)

lemma lock_inv_step: "thread_step dbg vt f g \<Longrightarrow> lock_inv vt f \<Longrightarrow> lock_inv vt g"
  unfolding thread_step_def using lock_inv_user lock_inv_write lock_inv_close by blast

lemma lock_inv_reach: "thread_reach dbg vt f \<Longrightarrow> lock_inv vt f"
  by (induction rule: thread_reach.induct) (auto intro: lock_inv_start lock_inv_step)

section \<open>The run of whole functions that a run of threads matches\<close>

text \<open>
  A \<open>send\<close> counts when its task is posted: before that its message is taken off again.  A handler
  counts when its part under the mutex is done, and a close when its test is passed.
\<close>

definition pushed :: "'b threads \<Rightarrow> bool" where
  "pushed f \<longleftrightarrow> (\<exists>u p. th_user f u = UPushed p)"

definition strip :: "'b threads \<Rightarrow> 'b conn_sys" where
  "strip f = (if pushed f
     then (th_sys f)\<lparr>s_conn := with_list (butlast (m_sendList (s_conn (th_sys f)))) (s_conn (th_sys f))\<rparr>
     else th_sys f)"

text \<open>\<open>writeMessage\<close> was entered from the queue of tasks, or from \<open>handleWrite\<close> after a write of \<open>b\<close>.\<close>

definition write_rel :: "size_t \<Rightarrow> 'b conn_sys \<Rightarrow> 'b conn_sys \<Rightarrow> bool" where
  "write_rel n s a \<longleftrightarrow> a = s\<lparr>s_queue := RunWrite n # s_queue s\<rparr> \<or>
     (\<exists>b w. n = of_nat (length b) \<and> s_flight s = None \<and> \<not> s_broken s \<and> write_check (s_conn s) \<and>
        s_wire s = w @ b \<and>
        a = s\<lparr>s_conn := (s_conn s)\<lparr>m_isSend := True\<rparr>, s_flight := Some b, s_wire := w\<rparr>)"

definition closed_sys :: "'b conn_sys \<Rightarrow> 'b conn_sys" where
  "closed_sys s = (let (c, es) = close_now (s_conn s) in absorb es (s\<lparr>s_conn := c\<rparr>))"

fun io_rel :: "io_pc \<Rightarrow> 'b conn_sys \<Rightarrow> 'b conn_sys \<Rightarrow> bool" where
  "io_rel (IWrite n) s a = write_rel n s a"
| "io_rel (IWriteLock n) s a = (write_check (s_conn s) \<and> write_rel n s a)"
| "io_rel (IWriteIn n) s a = (write_check (s_conn s) \<and> write_rel n s a)"
| "io_rel ICloseLock s a = (a = s\<lparr>s_queue := RunClose False # s_queue s\<rparr>)"
| "io_rel ICloseIn s a = (a = s\<lparr>s_queue := RunClose False # s_queue s\<rparr>)"
| "io_rel IClosing s a = (a = closed_sys s)"
| "io_rel _ s a = (a = s)"

definition sent :: "'b block_vt \<Rightarrow> 'b \<Rightarrow> 'b conn_sys \<Rightarrow> 'b conn_sys" where
  "sent vt p s = post_task (RunWrite 0) ((push_msg p s)\<lparr>s_submitted := s_submitted s @ block_out vt p\<rparr>)"

lemmas sys_moves = sent_def push_msg_def post_task_def closed_sys_def close_now_def

text \<open>A posted task, or a message that was sent, changes both sides in the same way.\<close>

lemma io_rel_post: "io_rel k s a \<Longrightarrow> io_rel k (post_task t s) (post_task t a)"
  by (cases k; cases s) (auto simp: post_task_def write_rel_def closed_sys_def close_now_def)

lemma io_rel_sent: "io_rel k s a \<Longrightarrow> io_rel k (sent vt p s) (sent vt p a)"
  by (cases k; cases s) (auto simp: sys_moves write_rel_def write_check_def)

lemma conn_step_sent: "sendable vt p \<Longrightarrow> conn_step dbg vt a (sent vt p a)"
  using conn_step.Send [of vt p a _ _ dbg, OF _ surjective_pairing]
  by (cases a) (simp add: conn_send_def sys_moves)

lemma conn_step_post_close: "conn_step dbg vt a (post_task (RunClose er) a)"
  using conn_step.Close [of a er _ _ dbg vt, OF surjective_pairing]
  by (cases a) (simp add: conn_close_def post_task_def)

lemma pushed_lock: "lock_inv vt f \<Longrightarrow> pushed f \<Longrightarrow> \<exists>u. th_lock f = Some (User u)"
  unfolding pushed_def by (metis lock_invD(1) user_pc.distinct(3))

lemma strip_locked: "lock_inv vt f \<Longrightarrow> th_lock f = Some Io \<Longrightarrow> strip f = th_sys f"
  using pushed_lock [of vt f] by (auto simp: strip_def)

lemma strip_same:
  "th_sys g = th_sys f \<Longrightarrow> pushed g = pushed f \<Longrightarrow> strip g = strip f"
  by (simp add: strip_def)

text \<open>A change of the shared state that leaves the messages alone goes through \<open>strip\<close>.\<close>

lemma strip_map:
  assumes "pushed g = pushed f" and "th_sys g = F (th_sys f)"
    and "\<And>s l. F (s\<lparr>s_conn := with_list l (s_conn s)\<rparr>) = (F s)\<lparr>s_conn := with_list l (s_conn (F s))\<rparr>"
    and "m_sendList (s_conn (F (th_sys f))) = m_sendList (s_conn (th_sys f))"
  shows "strip g = F (strip f)"
  using assms by (simp add: strip_def)

lemma strip_fields [simp]:
  "s_queue (strip f) = s_queue (th_sys f)" "s_flight (strip f) = s_flight (th_sys f)"
  "s_wire (strip f) = s_wire (th_sys f)" "s_broken (strip f) = s_broken (th_sys f)"
  "write_check (s_conn (strip f)) = write_check (s_conn (th_sys f))"
  "m_connect (s_conn (strip f)) = m_connect (s_conn (th_sys f))"
  "m_isSend (s_conn (strip f)) = m_isSend (s_conn (th_sys f))"
  by (simp_all add: strip_def write_check_def)

text \<open>The steps of a user thread.\<close>

lemma user_sim:
  assumes inv: "lock_inv vt f" and rel: "io_rel (th_io f) (strip f) a" and io: "th_io g = th_io f"
  shows "th_user f u = UPushed p \<Longrightarrow> th_user g = (th_user f)(u := UPosted) \<Longrightarrow>
      th_sys g = post_task (RunWrite 0) ((th_sys f)\<lparr>s_submitted := s_submitted (th_sys f) @ block_out vt p\<rparr>) \<Longrightarrow>
      conn_step dbg vt a (sent vt p a) \<and> io_rel (th_io g) (strip g) (sent vt p a)"
    and "th_user g = th_user f \<Longrightarrow> th_sys g = post_task (RunClose er) (th_sys f) \<Longrightarrow>
      conn_step dbg vt a (post_task (RunClose er) a) \<and> io_rel (th_io g) (strip g) (post_task (RunClose er) a)"
proof -
  assume u: "th_user f u = UPushed p" and g: "th_user g = (th_user f)(u := UPosted)"
    "th_sys g = post_task (RunWrite 0) ((th_sys f)\<lparr>s_submitted := s_submitted (th_sys f) @ block_out vt p\<rparr>)"
  obtain ps where ps: "m_sendList (s_conn (th_sys f)) = ps @ [p]" using lock_invD(4) [OF inv u] by blast
  have "\<not> pushed g" using lock_alone [OF inv, of u] u g(1) by (auto simp: pushed_def)
  moreover have "pushed f" using u by (auto simp: pushed_def)
  ultimately have "strip g = sent vt p (strip f)"
    using ps g(2) by (cases "th_sys f") (simp add: strip_def sys_moves)
  then show "conn_step dbg vt a (sent vt p a) \<and> io_rel (th_io g) (strip g) (sent vt p a)"
    using conn_step_sent [of vt p dbg a] lock_invD(3) [OF inv, of u p] u io_rel_sent [OF rel] io by simp
next
  assume g: "th_user g = th_user f" "th_sys g = post_task (RunClose er) (th_sys f)"
  have "strip g = post_task (RunClose er) (strip f)"
    by (rule strip_map) (use g in \<open>auto simp: pushed_def post_task_def\<close>)
  then show "conn_step dbg vt a (post_task (RunClose er) a) \<and> io_rel (th_io g) (strip g) (post_task (RunClose er) a)"
    using conn_step_post_close io_rel_post [OF rel] io by simp
qed

lemma sys_id [simp]: "s\<lparr>s_queue := s_queue s\<rparr> = (s :: 'b conn_sys)" "s\<lparr>s_conn := s_conn s\<rparr> = s"
  by simp_all

text \<open>A handler that was entered from the queue, and its whole effect.\<close>

lemma conn_step_task_write:
  assumes "writeMessage dbg vt (s_conn s) n = Inr (c, es)"
  shows "conn_step dbg vt (s\<lparr>s_queue := RunWrite n # s_queue s\<rparr>) (absorb es (s\<lparr>s_conn := c\<rparr>))"
  using conn_step.Task_write [of "s\<lparr>s_queue := RunWrite n # s_queue s\<rparr>" n "s_queue s" dbg vt c es] assms
  by (cases s) simp

lemma conn_step_task_close:
  assumes "handleClose (s_conn s) er = (c, es)"
  shows "conn_step dbg vt (s\<lparr>s_queue := RunClose er # s_queue s\<rparr>) (absorb es (s\<lparr>s_conn := c\<rparr>))"
  using conn_step.Task_close [of "s\<lparr>s_queue := RunClose er # s_queue s\<rparr>" er "s_queue s" c es dbg vt] assms
  by (cases s) simp

lemma conn_step_closed:
  assumes "er \<or> \<not> close_waits (s_conn s)"
  shows "conn_step dbg vt (s\<lparr>s_queue := RunClose er # s_queue s\<rparr>) (closed_sys s)"
  using conn_step_task_close [of s er _ _ dbg vt, OF surjective_pairing] assms
  by (auto simp: handleClose_split closed_sys_def close_now_def)

lemma write_in_sim:
  assumes rel: "write_rel n s a" and chk: "write_check (s_conn s)"
    and w: "write_locked dbg vt (s_conn s) n = Inr (c, es)"
  shows "conn_step dbg vt a (absorb es (s\<lparr>s_conn := c\<rparr>))"
proof -
  have m: "writeMessage dbg vt (s_conn s) n = Inr (c, es)" using chk w by (simp add: writeMessage_split)
  from rel consider "a = s\<lparr>s_queue := RunWrite n # s_queue s\<rparr>"
    | b w where "n = of_nat (length b)" "s_flight s = None" "\<not> s_broken s" "s_wire s = w @ b"
      "a = s\<lparr>s_conn := (s_conn s)\<lparr>m_isSend := True\<rparr>, s_flight := Some b, s_wire := w\<rparr>"
    unfolding write_rel_def by blast
  then show ?thesis
  proof cases
    case 1
    then show ?thesis using conn_step_task_write [OF m] by simp
  next
    case 2
    have "(s_conn a)\<lparr>m_isSend := False\<rparr> = s_conn s" using chk 2(5) by (cases "s_conn s") (simp add: write_check_def)
    then have h: "handleWrite dbg vt (s_conn a) False (of_nat (length b)) = Inr (c, es)"
      using m chk 2(1) by (simp add: handleWrite_def Let_def write_check_def)
    from conn_step.Write_done [of a b, OF _ _ h] 2 show ?thesis by (cases s) simp
  qed
qed

lemma done_sim:
  assumes f: "s_flight s = Some b" and ok: "\<not> s_broken s" and snd: "m_isSend (s_conn s)"
    and t: "t = s\<lparr>s_conn := (s_conn s)\<lparr>m_isSend := False\<rparr>, s_flight := None, s_wire := s_wire s @ b\<rparr>"
  shows "if m_connect (s_conn s) then write_rel (of_nat (length b)) t s else conn_step dbg vt s t"
proof (cases "m_connect (s_conn s)")
  case True
  have "s = t\<lparr>s_conn := (s_conn t)\<lparr>m_isSend := True\<rparr>, s_flight := Some b, s_wire := s_wire s\<rparr>"
    using f snd by (cases s; cases "s_conn s") (simp add: t)
  then show ?thesis using True ok unfolding write_rel_def by (auto simp: t write_check_def)
next
  case False
  then have "handleWrite dbg vt (s_conn s) False (of_nat (length b)) = Inr ((s_conn s)\<lparr>m_isSend := False\<rparr>, [])"
    by (simp add: handleWrite_def Let_def)
  from conn_step.Write_done [OF f ok this] False show ?thesis by (simp add: t)
qed

lemma fail_sim:
  assumes "s_flight s = Some b" and "s_broken s \<Longrightarrow> k = 0"
  shows "conn_step dbg vt s (post_task (RunClose True) (s\<lparr>s_conn := (s_conn s)\<lparr>m_isSend := False\<rparr>,
      s_flight := None, s_wire := s_wire s @ take k b, s_broken := True\<rparr>))"
proof -
  have "handleWrite dbg vt (s_conn s) True (of_nat k) = Inr ((s_conn s)\<lparr>m_isSend := False\<rparr>, [IoPost (RunClose True)])"
    by (simp add: handleWrite_def onError_def conn_close_def)
  from conn_step.Write_fail [OF assms this] show ?thesis by (simp add: post_task_def)
qed

lemma pushed_same: "th_user g = th_user f \<Longrightarrow> pushed g = pushed f"
  by (simp add: pushed_def)

lemma read_sim:
  assumes h: "handleReadSome dbg vt (s_conn (th_sys f)) er data = Some (Inr (c, es))"
    and g: "th_user g = th_user f" "th_sys g = absorb es ((th_sys f)\<lparr>s_conn := c\<rparr>)"
  shows "conn_step dbg vt (strip f) (strip g)"
proof (cases "pushed f")
  case False
  then have "strip f = th_sys f" "strip g = th_sys g" using pushed_same [OF g(1)] by (simp_all add: strip_def)
  then show ?thesis using conn_step.Read_some [OF h] g(2) by simp
next
  case True
  let ?l = "butlast (m_sendList (s_conn (th_sys f)))"
  have l: "m_sendList c = m_sendList (s_conn (th_sys f))" using handleReadSome_same [OF h] by (simp add: same_send_def)
  have f: "strip f = (th_sys f)\<lparr>s_conn := with_list ?l (s_conn (th_sys f))\<rparr>" using True by (simp add: strip_def)
  have "strip g = (absorb es ((th_sys f)\<lparr>s_conn := c\<rparr>))\<lparr>s_conn := with_list ?l c\<rparr>"
    using True pushed_same [OF g(1)] g(2) l by (simp add: strip_def)
  also have "\<dots> = absorb es ((strip f)\<lparr>s_conn := with_list ?l c\<rparr>)" by (simp add: f absorb_conn)
  finally show ?thesis using conn_step.Read_some [of dbg vt "strip f"] handleReadSome_with_list [OF h, of ?l] f by simp
qed

lemma user_step_sim:
  assumes step: "user_step dbg vt f g" and inv: "lock_inv vt f"
    and rel: "io_rel (th_io f) (strip f) a"
  shows "\<exists>a'. (a' = a \<or> conn_step dbg vt a a') \<and> io_rel (th_io g) (strip g) a'"
  using step
proof cases
  case (Send_lock u p)
  then have "pushed g = pushed f" by (auto simp: pushed_def) (metis user_pc.distinct(3))+
  then show ?thesis using rel strip_same [of g f] Send_lock by auto
next
  case (Send_push u p)
  then have "\<not> pushed f" using lock_alone [OF inv, of u] unfolding pushed_def by (metis user_pc.distinct(1,3,7))
  moreover have "pushed g" using Send_push by (auto simp: pushed_def)
  ultimately have "strip g = strip f" using Send_push by (cases "th_sys f"; cases "s_conn (th_sys f)") (simp add: strip_def push_msg_def)
  then show ?thesis using rel Send_push by auto
next
  case (Send_post u p)
  then show ?thesis using user_sim(1) [OF inv rel, of g u p] by auto
next
  case (Send_unlock u)
  then have "pushed g = pushed f" by (auto simp: pushed_def) (metis user_pc.distinct(11))+
  then show ?thesis using rel strip_same [of g f] Send_unlock by auto
next
  case (User_close u er)
  then show ?thesis using user_sim(2) [OF inv rel, of g er] by auto
qed

lemma write_step_sim:
  assumes step: "write_step dbg vt f g" and inv: "lock_inv vt f"
    and rel: "io_rel (th_io f) (strip f) a" and fl: "s_flight a \<noteq> None \<longleftrightarrow> m_isSend (s_conn a)"
  shows "\<exists>a'. (a' = a \<or> conn_step dbg vt a a') \<and> io_rel (th_io g) (strip g) a'"
  using step
proof cases
  case (Task_write n q)
  have "strip g = (strip f)\<lparr>s_queue := q\<rparr>"
    by (rule strip_map) (use Task_write in \<open>auto simp: pushed_def\<close>)
  moreover have "strip f = (strip f)\<lparr>s_queue := RunWrite n # q\<rparr>" using Task_write(3) by (cases "strip f") (metis conn_sys.simps strip_fields(1))
  ultimately show ?thesis using rel Task_write by (auto simp: write_rel_def)
next
  case (Write_done s b)
  let ?F = "\<lambda>s. s\<lparr>s_conn := (s_conn s)\<lparr>m_isSend := False\<rparr>, s_flight := None, s_wire := s_wire s @ b\<rparr>"
  have "strip g = ?F (strip f)" by (rule strip_map) (use Write_done in \<open>auto simp: pushed_def\<close>)
  from done_sim [of "strip f" b, OF _ _ _ this] rel fl Write_done show ?thesis by (auto split: if_splits)
next
  case (Write_fail s b k)
  let ?F = "\<lambda>s. post_task (RunClose True) (s\<lparr>s_conn := (s_conn s)\<lparr>m_isSend := False\<rparr>,
      s_flight := None, s_wire := s_wire s @ take k b, s_broken := True\<rparr>)"
  have "strip g = ?F (strip f)" by (rule strip_map) (use Write_fail in \<open>auto simp: pushed_def post_task_def\<close>)
  then show ?thesis using fail_sim [of "strip f" b k] rel Write_fail by auto
next
  case (Write_check n)
  have st: "strip g = strip f" using strip_same [of g f] Write_check by (simp add: pushed_def)
  show ?thesis
  proof (cases "write_check (s_conn (th_sys f))")
    case True
    then show ?thesis using rel Write_check st by auto
  next
    case False
    then have "writeMessage dbg vt (s_conn (strip f)) n = Inr (s_conn (strip f), [])" by (simp add: writeMessage_split)
    from conn_step_task_write [OF this] rel Write_check st False show ?thesis by (auto simp: write_rel_def)
  qed
next
  case (Write_lock n)
  then show ?thesis using rel strip_same [of g f] by (auto simp: pushed_def)
next
  case (Write_in n c es)
  then have io: "th_lock f = Some Io" using lock_invD(2) [OF inv] by simp
  note st = strip_locked [OF inv io]
  have "strip g = th_sys g"
    using Write_in strip_locked [of vt g] lock_inv_write [OF step inv] io by simp
  then show ?thesis using write_in_sim [of n "th_sys f" a _ _ c es] rel Write_in st by auto
next
  case Unlock
  then show ?thesis using rel strip_same [of g f] by (auto simp: pushed_def)
qed

lemma close_step_sim:
  assumes step: "close_step dbg vt f g" and inv: "lock_inv vt f"
    and rel: "io_rel (th_io f) (strip f) a"
  shows "\<exists>a'. (a' = a \<or> conn_step dbg vt a a') \<and> io_rel (th_io g) (strip g) a'"
  using step
proof cases
  case (Task_close er q)
  have sg: "strip g = (strip f)\<lparr>s_queue := q\<rparr>"
    by (rule strip_map) (use Task_close in \<open>auto simp: pushed_def\<close>)
  have "strip f = (strip f)\<lparr>s_queue := RunClose er # q\<rparr>" using Task_close(3) by (cases "strip f") (metis conn_sys.simps strip_fields(1))
  then have a: "a = (strip g)\<lparr>s_queue := RunClose er # s_queue (strip g)\<rparr>" using rel sg Task_close by simp
  then show ?thesis using conn_step_closed [of er "strip g"] Task_close by (cases er) auto
next
  case Close_lock
  then show ?thesis using rel strip_same [of g f] by (auto simp: pushed_def)
next
  case Close_wait
  then have io: "th_lock f = Some Io" using lock_invD(2) [OF inv] by simp
  note st = strip_locked [OF inv io]
  have sg: "strip g = th_sys g"
    using Close_wait strip_locked [of vt g] lock_inv_close [OF step inv] io by simp
  have "handleClose (s_conn (th_sys f)) False = (s_conn (th_sys f), [IoPost (RunClose False)])"
    using Close_wait by (simp add: handleClose_split conn_close_def)
  from conn_step_task_close [OF this] rel st sg Close_wait show ?thesis by (auto simp: post_task_def)
next
  case Close_go
  then have io: "th_lock f = Some Io" using lock_invD(2) [OF inv] by simp
  have sg: "strip g = strip f" using Close_go strip_same [of g f] by (simp add: pushed_def)
  then show ?thesis
    using strip_locked [OF inv io] rel Close_go conn_step_closed [of False "strip f"] by auto
next
  case (Close_end c es)
  have "strip g = closed_sys (strip f)"
    by (rule strip_map) (use Close_end in \<open>auto simp: pushed_def closed_sys_def close_now_def\<close>)
  then show ?thesis using rel Close_end by auto
next
  case (Read_some er data c es)
  then show ?thesis using rel read_sim [OF Read_some(3), of g] by auto
qed

lemma thread_sim:
  assumes "thread_step dbg vt f g" and "lock_inv vt f" and "io_rel (th_io f) (strip f) a"
    and "s_flight a \<noteq> None \<longleftrightarrow> m_isSend (s_conn a)"
  shows "\<exists>a'. (a' = a \<or> conn_step dbg vt a a') \<and> io_rel (th_io g) (strip g) a'"
  using assms user_step_sim write_step_sim close_step_sim unfolding thread_step_def by metis

section \<open>Every run of threads\<close>

context block_class
begin

lemma thread_reach_sim:
  assumes "thread_reach dbg vt f"
  shows "\<exists>a. conn_reach dbg vt a \<and> io_rel (th_io f) (strip f) a"
  using assms
proof (induction rule: thread_reach.induct)
  case (Start c)
  have "strip (start_threads c) = start_sys c" by (simp add: strip_def pushed_def start_threads_def)
  then show ?case using conn_reach.Start [OF Start] by (auto simp: start_threads_def)
next
  case (Step f g)
  then obtain a where a: "conn_reach dbg vt a" "io_rel (th_io f) (strip f) a" by blast
  have "s_flight a \<noteq> None \<longleftrightarrow> m_isSend (s_conn a)" using sys_inv_reach [OF a(1)] by (simp add: sys_inv_def)
  from thread_sim [OF Step.hyps(2) lock_inv_reach [OF Step.hyps(1)] a(2) this] obtain a' where
    "a' = a \<or> conn_step dbg vt a a'" "io_rel (th_io g) (strip g) a'" by blast
  then show ?case using a(1) conn_reach.Step by blast
qed

text \<open>When no thread is inside a function, its state is one that whole functions reach.\<close>

lemma quiet_threads:
  assumes "thread_reach dbg vt f" and "th_lock f = None" and "th_io f = IIdle"
  shows "conn_reach dbg vt (th_sys f)"
proof -
  have "\<not> pushed f" using pushed_lock [OF lock_inv_reach [OF assms(1)]] assms(2) by auto
  then have "strip f = th_sys f" by (simp add: strip_def)
  then show ?thesis using thread_reach_sim [OF assms(1)] assms(3) by auto
qed

text \<open>At every moment the bytes on the wire are a prefix of those of the messages sent.\<close>

lemma thread_wire:
  assumes "thread_reach dbg vt f"
  shows "\<exists>rest. s_submitted (th_sys f) = s_wire (th_sys f) @ rest"
proof -
  obtain a where a: "conn_reach dbg vt a" "io_rel (th_io f) (strip f) a" using thread_reach_sim [OF assms] by blast
  note I = sys_inv_reach [OF a(1)]
  have sub: "s_submitted (strip f) = s_submitted (th_sys f)" by (simp add: strip_def)
  have "s_submitted a = s_submitted (strip f) \<and> (s_wire (strip f) = s_wire a \<or>
      (\<exists>b. s_flight a = Some b \<and> \<not> s_broken a \<and> s_wire (strip f) = s_wire a @ b))"
    using a(2) by (cases "th_io f") (auto simp: write_rel_def closed_sys_def close_now_def)
  then show ?thesis
  proof (elim conjE disjE exE)
    assume "s_submitted a = s_submitted (strip f)" "s_wire (strip f) = s_wire a"
    then show ?thesis using sys_invD(2) [OF I] sub by simp
  next
    fix b
    assume b: "s_submitted a = s_submitted (strip f)" "s_flight a = Some b" "\<not> s_broken a" "s_wire (strip f) = s_wire a @ b"
    then have "s_submitted a = s_wire a @ b @ list_out vt (m_sendList (s_conn a))"
      using sys_invD(3,4) [OF I] by (simp add: conn_out_def)
    then show ?thesis using b sub by simp
  qed
qed

end

section \<open>The holder of the mutex gives it back\<close>

text \<open>
  A step of one thread moves the program counter of this thread.  No deadlock: whoever holds the
  mutex is never blocked, and with at most three steps of its own has released it.
\<close>

fun moves_on :: "thread \<Rightarrow> 'b threads \<Rightarrow> 'b threads \<Rightarrow> bool" where
  "moves_on (User u) f g \<longleftrightarrow> th_user g u \<noteq> th_user f u"
| "moves_on Io f g \<longleftrightarrow> th_io g \<noteq> th_io f"

definition step_of :: "bool \<Rightarrow> 'b block_vt \<Rightarrow> thread \<Rightarrow> 'b threads \<Rightarrow> 'b threads \<Rightarrow> bool" where
  "step_of dbg vt t f g \<longleftrightarrow> thread_step dbg vt f g \<and> moves_on t f g"

fun releases :: "nat \<Rightarrow> bool \<Rightarrow> 'b block_vt \<Rightarrow> thread \<Rightarrow> 'b threads \<Rightarrow> bool" where
  "releases 0 dbg vt t f \<longleftrightarrow> th_lock f = None"
| "releases (Suc k) dbg vt t f \<longleftrightarrow>
     th_lock f = None \<or> th_lock f = Some t \<and> (\<exists>g. step_of dbg vt t f g \<and> releases k dbg vt t g)"

text \<open>A thread that waits for the mutex has no step: this is not true of every thread.\<close>

lemma waiting_blocks:
  assumes "th_io f = ICloseLock" and "th_lock f \<noteq> None"
  shows "\<not> step_of dbg vt Io f g"
proof
  assume "step_of dbg vt Io f g"
  then have m: "th_io g \<noteq> th_io f" and "user_step dbg vt f g \<or> write_step dbg vt f g \<or> close_step dbg vt f g"
    by (simp_all add: step_of_def thread_step_def)
  then show False
    by (elim disjE) (use assms in \<open>auto elim: user_step.cases write_step.cases close_step.cases\<close>)
qed

lemma releases_free: "th_lock f = None \<Longrightarrow> releases k dbg vt t f"
  by (cases k) simp_all

lemma releases_step:
  "th_lock f = Some t \<Longrightarrow> thread_step dbg vt f g \<Longrightarrow> moves_on t f g \<Longrightarrow> releases k dbg vt t g \<Longrightarrow>
   releases (Suc k) dbg vt t f"
  by (auto simp: step_of_def)

lemma user_unlocks:
  assumes "th_lock f = Some (User u)" and "th_user f u = UPosted"
  shows "releases (Suc k) dbg vt (User u) f"
  by (rule releases_step [OF assms(1)], unfold thread_step_def, rule disjI1, rule user_step.Send_unlock [OF assms(2)])
    (simp_all add: assms releases_free)

lemma user_posts:
  assumes "th_lock f = Some (User u)" and "th_user f u = UPushed p"
  shows "releases (Suc (Suc k)) dbg vt (User u) f"
  by (rule releases_step [OF assms(1)], unfold thread_step_def, rule disjI1, rule user_step.Send_post [OF assms(2)])
    (simp_all add: assms user_unlocks del: releases.simps)

lemma user_pushes:
  assumes "th_lock f = Some (User u)" and "th_user f u = ULocked p"
  shows "releases (Suc (Suc (Suc k))) dbg vt (User u) f"
  by (rule releases_step [OF assms(1)], unfold thread_step_def, rule disjI1, rule user_step.Send_push [OF assms(2)])
    (simp_all add: assms user_posts del: releases.simps)

lemma user_releases:
  assumes "lock_inv vt f" and "th_lock f = Some (User u)"
  shows "releases 3 dbg vt (User u) f"
proof -
  have "th_user f u \<noteq> UIdle" using assms by (simp add: lock_inv_def)
  then show ?thesis
    using user_pushes [of f u _ 0 dbg vt] user_posts [of f u _ 1 dbg vt] user_unlocks [of f u 2 dbg vt] assms(2)
    by (cases "th_user f u") (simp_all add: numeral_3_eq_3 numeral_2_eq_2 del: releases.simps)
qed

lemma io_unlocks:
  assumes "th_lock f = Some Io" and "th_io f = IUnlock"
  shows "releases (Suc k) dbg vt Io f"
  by (rule releases_step [OF assms(1)], unfold thread_step_def, rule disjI2, rule disjI1, rule write_step.Unlock [OF assms(2)])
    (simp_all add: assms releases_free)

lemma io_tests:
  assumes "th_lock f = Some Io" and "th_io f = ICloseIn"
  shows "releases (Suc (Suc k)) dbg vt Io f"
proof (cases "close_waits (s_conn (th_sys f))")
  case True
  show ?thesis
    by (rule releases_step [OF assms(1)], unfold thread_step_def, intro disjI2, rule close_step.Close_wait [OF assms(2) True])
      (simp_all add: assms io_unlocks del: releases.simps)
next
  case False
  show ?thesis
    by (rule releases_step [OF assms(1)], unfold thread_step_def, intro disjI2, rule close_step.Close_go [OF assms(2) False])
      (simp_all add: assms releases_free del: releases.simps)
qed

context block_class
begin

lemma io_writes:
  assumes "thread_reach dbg vt f" and "th_lock f = Some Io" and "th_io f = IWriteIn n"
  shows "releases (Suc (Suc k)) dbg vt Io f"
proof -
  note inv = lock_inv_reach [OF assms(1)]
  obtain a where a: "conn_reach dbg vt a" "io_rel (th_io f) (strip f) a" using thread_reach_sim [OF assms(1)] by blast
  let ?c = "s_conn (th_sys f)"
  have r: "write_check ?c" "write_rel n (th_sys f) a" using a(2) strip_locked [OF inv assms(2)] assms(3) by auto
  note D = sys_invD [OF sys_inv_reach [OF a(1)]]
  have le: "unat (of_nat k :: size_t) \<le> k" for k by (simp add: unat_of_nat take_bit_nat_eq_self_iff take_bit_nat_less_eq_self)
  have "send_inv vt ?c \<and> unat n \<le> length (nb_unread (m_bufferSend ?c))"
    using r(2) D(1,4) D(6) [of n] unfolding write_rel_def
    by (auto simp: send_inv_def simp del: nb_unread_length intro: le)
  then obtain c' es where "writeMessage dbg vt ?c n = Inr (c', es)"
    using writeMessage_ok [of ?c n dbg] r(1) unfolding write_check_def by blast
  then have w: "write_locked dbg vt ?c n = Inr (c', es)" using r(1) by (simp add: writeMessage_split)
  show ?thesis
    by (rule releases_step [OF assms(2)], unfold thread_step_def, rule disjI2, rule disjI1, rule write_step.Write_in [OF assms(3) w])
      (simp_all add: assms io_unlocks del: releases.simps)
qed

lemma holder_releases:
  assumes "thread_reach dbg vt f" and "th_lock f = Some t"
  shows "releases 3 dbg vt t f"
proof (cases t)
  case (User u)
  then show ?thesis using user_releases [OF lock_inv_reach [OF assms(1)]] assms(2) by blast
next
  case Io
  then have "io_inside (th_io f)" using lock_invD(2) [OF lock_inv_reach [OF assms(1)]] assms(2) by simp
  then consider n where "th_io f = IWriteIn n" | "th_io f = ICloseIn" | "th_io f = IUnlock" by (cases "th_io f") auto
  then show ?thesis
    using io_writes [OF assms(1), of _ 1] io_tests [of f 1 dbg vt] io_unlocks [of f 2 dbg vt] assms(2) Io
    by cases (simp_all add: numeral_3_eq_3 numeral_2_eq_2 del: releases.simps)
qed

end

end
