(* ===== verification/Connection_Limits.thy ===== *)
theory Connection_Limits
  imports Message_Flow
begin

text \<open>
  What a connection does after its socket is gone: a close that waits for messages which can no
  longer be sent, and a client that connects again with what was left in its buffers.
\<close>

section \<open>A close that never ends\<close>

text \<open>The connection is down with messages to send, and a close without an error is posted.\<close>

definition close_spins :: "'b conn_sys \<Rightarrow> bool" where
  "close_spins s \<longleftrightarrow> \<not> m_connect (s_conn s) \<and> m_sendList (s_conn s) \<noteq> [] \<and> RunClose False \<in> set (s_queue s)"

lemma handleClose_spins:
  "close_spins s \<Longrightarrow> handleClose (s_conn s) False = (s_conn s, [IoPost (RunClose False)])"
  by (simp add: close_spins_def handleClose_def conn_close_def)

section \<open>A client that connects again\<close>

text \<open>
  A write fails, its handler posts a close, the close runs, and the client connects again: the
  connection is as before the write, with all the bytes this write had taken.
\<close>

abbreviation connected_again :: "'b connection \<Rightarrow> 'b connection" where
  "connected_again c \<equiv> c\<lparr>m_isSend := False, m_connect := True\<rparr>"

lemma fails_and_connects:
  "handleWrite dbg vt c True k = Inr (c\<lparr>m_isSend := False\<rparr>, [IoPost (RunClose True)])"
  "handleConnect (fst (handleClose (c\<lparr>m_isSend := False\<rparr>) True)) False =
     (connected_again c, EventConnect (c_session c) # beginRead (connected_again c))"
  by (simp_all add: handleWrite_def onError_def conn_close_def handleClose_def handleConnect_def Let_def)

lemma connected_again_holds: "recv_holds repr c s \<Longrightarrow> recv_holds repr (connected_again c) s"
  by (simp add: recv_holds_def split: option.splits)

context block_class
begin

lemma old_bytes_first:
  assumes inv: "send_inv vt c" and p: "sendable vt p" and old: "conn_out vt c \<noteq> []"
  shows "\<exists>c2 c3 w rest. conn_send (connected_again c) p = (c2, [IoPost (RunWrite 0)]) \<and>
    writeMessage dbg vt c2 0 = Inr (c3, [AsyncWrite w]) \<and> w \<noteq> [] \<and> w @ rest = conn_out vt c @ block_out vt p"
proof -
  let ?c = "(connected_again c)\<lparr>m_sendList := m_sendList c @ [p]\<rparr>"
  have "send_inv vt ?c" using inv p by (simp add: send_inv_def)
  from writeMessage_ok [OF this, of 0 dbg] obtain c3 where
    c3: "writeMessage dbg vt ?c 0 = Inr (c3, if m_isSend c3 then [AsyncWrite (nb_unread (m_bufferSend c3))] else [])"
      "conn_out vt c3 = conn_out vt ?c" "m_isSend c3 \<longleftrightarrow> nb_unread (m_bufferSend c3) \<noteq> []" "\<not> m_isSend c3 \<longrightarrow> m_sendList c3 = []"
    by auto
  have o: "conn_out vt ?c = conn_out vt c @ block_out vt p" by (simp add: conn_out_def)
  have s: "m_isSend c3"
  proof (rule ccontr)
    assume "\<not> m_isSend c3"
    then have "conn_out vt c3 = []" using c3(3,4) by (simp add: conn_out_def)
    then show False using c3(2) o old by simp
  qed
  have "nb_unread (m_bufferSend c3) @ list_out vt (m_sendList c3) = conn_out vt c @ block_out vt p"
    using c3(2) o by (simp add: conn_out_def)
  moreover have "conn_send (connected_again c) p = (?c, [IoPost (RunWrite 0)])" by (simp add: conn_send_def)
  ultimately show ?thesis using c3(1,3) s by auto
qed

end

text \<open>One byte of an old frame in front of a new one: the length is read one byte too early.\<close>

lemma misframed:
  assumes "length body < 244"
  shows "deframe (x # frame_of body) = ([], x # frame_of body)" "\<not> malformed (x # frame_of body)"
proof -
  let ?n = "12 + length body"
  have n: "unat (of_nat ?n :: uint32) = ?n" using assms by (intro unat_of_nat32) simp
  have l: "le32 (of_nat ?n) = [char_of ?n, char_of (0 :: nat), char_of (0 :: nat), char_of (0 :: nat)]"
    unfolding le32_def n using assms by simp
  define k :: nat where "k = of_char x"
  have k: "k < 256" unfolding k_def by (rule nat_of_char_less_256)
  have "take 4 (take 12 (x # frame_of body)) = [x, char_of ?n, char_of (0 :: nat), char_of (0 :: nat)]"
    by (simp only: frame_of_def head_bytes_def head.simps l) simp
  then have "frame_total (x # frame_of body) = unat (of_nat (k + 256 * ?n) :: uint32)"
    using assms by (simp add: frame_total_def head_value_def k_def)
  also have "k + 256 * ?n < 65536" using assms k by simp
  then have "k + 256 * ?n < 2 ^ 32" by (rule less_trans) simp
  then have "unat (of_nat (k + 256 * ?n) :: uint32) = k + 256 * ?n" by (rule unat_of_nat32)
  finally have t: "frame_total (x # frame_of body) = k + 256 * ?n" .
  then have "\<not> frame_ready (x # frame_of body)" using assms by (simp add: frame_ready_def frame_of_def)
  then show "deframe (x # frame_of body) = ([], x # frame_of body)" by (rule deframe_not_ready)
  show "\<not> malformed (x # frame_of body)" using t by (simp add: malformed_def)
qed

text \<open>A connection that has read one byte of a frame, with a message in its queue.\<close>

lemma half_read_with_message:
  "\<exists>c b. recv_holds nblk_repr c ''x'' \<and> 12 + length ''hello'' \<le> nb_free (m_bufferRecv c) \<and>
     send_inv (netBlock_vt False) c \<and> nb_unread (m_bufferSend c) = [] \<and> m_sendList c = [b] \<and> nblk_sealed b ''old''"
proof -
  have sz: "unat (64 :: size_t) \<le> PTRDIFF_MAX" "(0 :: size_t) < 64" "unat (1 :: session_id) \<le> PTRDIFF_MAX"
    by (simp_all add: PTRDIFF_MAX_def)
  obtain c0 :: "net_block connection" where c0: "newConnection 2 64 = Inr c0" using newConnection_ok [OF sz(1), of 2] by blast
  obtain b where b: "nblk_sealed b ''old''"
    using made_message [OF sz(3), of "''old''" False] by (auto simp: PTRDIFF_MAX_def)
  note A = accepted_ready [OF sz(1) c0]
  let ?c = "fst (handlAccept c0)"
  note H = fresh_holds [OF A(2-4), of nblk_repr]
  have "length ''x'' \<le> nb_free (m_bufferRecv ?c)" using H A(5) by simp
  note R = handleReadSome_net [OF H [THEN conjunct1] A(1) this, of False]
  have d: "deframe ([] @ ''x'') = ([], ''x'')" by (simp add: deframe_not_ready frame_ready_def)
  have "\<not> malformed ''x''" by (simp add: malformed_def)
  then obtain c1 where c1: "recv_holds nblk_repr c1 ''x''" "recv_left ?c c1" "same_send ?c c1" using R unfolding d by auto
  have "nb_inv (m_bufferRecv c1)" "m_readPos (m_bufferRecv c1) = 0" using c1(1) by (simp_all add: recv_holds_def)
  then have "unat (m_writePos (m_bufferRecv c1)) < 12" "m_maxLen (m_bufferRecv c1) = 64"
    using c1(2) A(5) by (simp_all add: recv_left_def)
  then have "12 + length ''hello'' \<le> nb_free (m_bufferRecv c1)" by (simp add: nb_free_def)
  moreover have "fresh_conn ?c" using sz(1,2) c0 by (rule accepted_fresh)
  then have "send_inv (netBlock_vt False) (c1\<lparr>m_sendList := [b]\<rparr>)" "nb_unread (m_bufferSend c1) = []"
    using c1(3) sealed_sendable [OF b, of False] by (simp_all add: fresh_conn_def same_send_def send_inv_def)
  moreover have "recv_holds nblk_repr (c1\<lparr>m_sendList := [b]\<rparr>) ''x''" using c1(1) by (simp add: recv_holds_def split: option.splits)
  ultimately show ?thesis using b by (intro exI [of _ "c1\<lparr>m_sendList := [b]\<rparr>"] exI [of _ b]) simp
qed

section \<open>Two errors\<close>

text \<open>Each failed operation posts a close, neither close looks whether there was one: the user is told twice.\<close>

lemma two_errors_close_twice:
  assumes "m_connect c" and "m_call t = []"
  shows "\<exists>c1 c2. handleReadSome dbg vt c True data = Some (Inr (c, [IoPost (RunClose True)])) \<and>
    handleWrite dbg vt c True n = Inr (c1, [IoPost (RunClose True)]) \<and>
    handleClose c1 True = (c2, snd (handleClose c1 True)) \<and> \<not> m_connect c2 \<and>
    (\<exists>t' pool'. tcp_poll lo (foldl deliver t (snd (handleClose c1 True) @ snd (handleClose c2 True))) pool =
      Inr (t', pool', [CloseFun (m_name (t_config t)) (c_session c), CloseFun (m_name (t_config t)) (c_session c)]))"
  using assms
  by (simp add: handleReadSome_def handleWrite_def onError_def conn_close_def handleClose_def Let_def
      deliver_def eventCloseFun_def tcp_push_def tcp_poll_def run_event_def t_config_def)

end
