(* ===== verification/Node_Limits.thy ===== *)
theory Node_Limits
  imports Node_Example Connection_Limits
begin

text \<open>
  Whole processes at the end of a connection: what is written when nothing is left to do, the
  close that never ends, and a client that is started again.  The connection goes through
  \<open>handleConnect\<close> and \<open>handlAccept\<close> here, so it may be opened several times.
\<close>

section \<open>One connection in a run of the process\<close>

text \<open>A connection exists for ever, and its state changes by calls and by its handlers only.\<close>

lemma do_actions_closed:
  assumes "m s = Some x" and "P x" and "s \<notin> set (new_ids acts)" and "\<And>k y. P y \<Longrightarrow> P (call_sys vt k y)"
  shows "\<exists>y. do_actions vt acts m s = Some y \<and> P y"
  using assms(1-3)
proof (induction acts arbitrary: m x)
  case (Cons a acts)
  have "\<exists>y. do_action vt a m s = Some y \<and> P y"
    using Cons.prems assms(4) by (cases a) (auto split: sum.split option.split)
  moreover have "s \<notin> set (new_ids acts)" using Cons.prems(3) by (cases a) auto
  ultimately show ?case using Cons.IH [of "do_action vt a m"] by auto
qed simp

lemma node_call_closed:
  assumes inv: "node_inv vt owner n" and ids: "mints (m_ioPool (nd_sv n)) acts (m_ioPool sv)" "ids_left acts (nd_sv n)"
    and x: "nd_conns n s = Some x" "P x" and call: "\<And>k y. P y \<Longrightarrow> P (call_sys vt k y)"
  shows "\<exists>y. nd_conns (node_call vt acts sv n) s = Some y \<and> P y"
proof -
  have "s \<notin> set (new_ids acts)"
    using mints_new(2) [OF ids(1) ids(2) [unfolded ids_left_def], of s] node_invD(3) [OF inv x(1)] by auto
  then have "\<exists>y. do_actions vt acts (nd_conns n) s = Some y \<and> P y"
    by (rule do_actions_closed [where P = P and m = "nd_conns n" and s = s and vt = vt, OF x]) (fact call)
  then show ?thesis by (simp add: node_call_def)
qed

context session_class
begin

lemma node_step_closed:
  assumes reach: "node_reach dbg vt resolve lo owner n" and step: "node_step dbg vt resolve lo owner n n'"
    and x: "nd_conns n s = Some x" "P x" and call: "\<And>k y. P y \<Longrightarrow> P (call_sys vt k y)"
    and io: "\<And>y data es y'. P y \<Longrightarrow> conn_io dbg vt y data es y' \<Longrightarrow> P (absorb es y')"
  shows "\<exists>y. nd_conns n' s = Some y \<and> P y"
proof -
  note inv = node_inv_reach [OF reach]
  show ?thesis
    using step
  proof cases
    case (Request alive rq r sv acts)
    show ?thesis unfolding Request(1)
      by (rule node_call_closed [where P = P, OF inv request_mints [OF Request(2)] Request(4) x call])
  next
    case (Poll alive user r sv acts)
    show ?thesis unfolding Poll(1)
      by (rule node_call_closed [where P = P, OF inv poll_user_mints [OF Poll(2)] Poll(4) x call])
  next
    case (Accept m t er t' pool acts)
    have "mints (m_ioPool (nd_sv n)) acts pool" by (rule acceptSocket_mints [OF Accept(3)])
    then show ?thesis unfolding Accept(1) using node_call_closed [where P = P, OF inv _ Accept(4) x call] by simp
  next
    case (Handle r y data es y' t)
    show ?thesis unfolding Handle(1) using x io [OF _ Handle(3)] Handle(2) by auto
  qed
qed

lemma node_steps_closed:
  assumes "(node_step dbg vt resolve lo owner)\<^sup>*\<^sup>* n n'" and reach: "node_reach dbg vt resolve lo owner n"
    and x: "nd_conns n s = Some x" "P x" and call: "\<And>k y. P y \<Longrightarrow> P (call_sys vt k y)"
    and io: "\<And>y data es y'. P y \<Longrightarrow> conn_io dbg vt y data es y' \<Longrightarrow> P (absorb es y')"
  shows "node_reach dbg vt resolve lo owner n' \<and> (\<exists>y. nd_conns n' s = Some y \<and> P y)"
  using assms(1)
proof (induction rule: rtranclp_induct)
  case base
  then show ?case using reach x by blast
next
  case (step n1 n2)
  then obtain y where y: "node_reach dbg vt resolve lo owner n1" "nd_conns n1 s = Some y" "P y" by blast
  have "\<exists>y. nd_conns n2 s = Some y \<and> P y"
    by (rule node_step_closed [where P = P, OF y(1) step.hyps(2) y(2,3)]) (fact call, fact io)
  then show ?case using node_reach.Step [OF y(1) step.hyps(2)] by blast
qed

end

section \<open>The close that never ends\<close>

lemma close_spins_call: "close_spins y \<Longrightarrow> close_spins (call_sys vt k y)"
  by (cases k) (auto simp: close_spins_def call_sys_def run_call_def conn_send_def conn_close_def onError_def
      postAccept_def conn_connect_def)

text \<open>Only a connect that succeeds, or the task of an accepted socket, ends it.\<close>

lemma close_spins_io:
  assumes sp: "close_spins y" and io: "conn_io dbg vt y data es y'"
  shows "close_spins (absorb es y') \<or> 0 < opens (notices es)"
  using io
proof cases
  case (Task k q c)
  show ?thesis
  proof (cases k)
    case (RunWrite m)
    then show ?thesis using sp Task by (auto simp: close_spins_def run_task_def writeMessage_def)
  next
    case (RunClose er)
    then have h: "handleClose (s_conn y) er = (c, es)" using Task(4) by (simp add: run_task_def)
    show ?thesis using sp h Task(2,3) RunClose
      by (cases er) (auto simp: close_spins_def handleClose_def conn_close_def)
  next
    case RunAccept
    then show ?thesis using Task(4) by (auto simp: run_task_def handlAccept_def Let_def)
  qed
next
  case (Written b c)
  then show ?thesis using sp by (auto simp: close_spins_def handleWrite_def Let_def)
next
  case (Write_failed b k c)
  then show ?thesis using sp by (auto simp: close_spins_def handleWrite_def onError_def conn_close_def Let_def)
next
  case (Read data' c)
  then show ?thesis using sp by (auto simp: close_spins_def handleReadSome_def)
next
  case (Read_failed data' c)
  then show ?thesis using sp by (auto simp: close_spins_def handleReadSome_def)
next
  case (Connected er c)
  then show ?thesis using sp by (cases er) (auto simp: close_spins_def handleConnect_def Let_def)
qed

lemma conn_io_events: "conn_io dbg vt y data es y' \<Longrightarrow> s_events y' = s_events y"
  by (auto elim: conn_ioE)

text \<open>
  Until it is opened once more: the number \<open>k\<close> counts how often a connection was opened.
\<close>

definition spins_since :: "nat \<Rightarrow> 'b conn_sys \<Rightarrow> bool" where
  "spins_since k y \<longleftrightarrow> k \<le> opens (notices (s_events y)) \<and> (opens (notices (s_events y)) = k \<longrightarrow> close_spins y)"

lemma spins_since_call: "spins_since k y \<Longrightarrow> spins_since k (call_sys vt j y)"
  using close_spins_call by (auto simp: spins_since_def call_sys_sel)

lemma spins_since_io:
  assumes "spins_since k y" and "conn_io dbg vt y data es y'"
  shows "spins_since k (absorb es y')"
  using assms(1) close_spins_io [OF _ assms(2)] conn_io_events [OF assms(2)] by (auto simp: spins_since_def)

context session_class
begin

lemma spins_opened:
  assumes "node_reach dbg vt resolve lo owner n" and "nd_conns n s = Some x" and "close_spins x"
  shows "0 < opens (notices (s_events x))"
proof (rule ccontr)
  assume "\<not> ?thesis"
  then have "idle x" using node_tx_reach [OF assms(1)] assms(2) by (simp add: node_tx_def tx_inv_def)
  then show False using assms(3) by (simp add: idle_def close_spins_def fresh_conn_def)
qed

lemma spins_on:
  assumes reach: "node_reach dbg vt resolve lo owner n" and x: "nd_conns n s = Some x" and sp: "close_spins x"
    and run: "(node_step dbg vt resolve lo owner)\<^sup>*\<^sup>* n n'"
  shows "\<exists>y. nd_conns n' s = Some y \<and>
    (OnConn s CallPostAccept \<in> set (nd_log n') \<or> opens (notices (s_events y)) = opens (notices (s_events x)) \<longrightarrow> close_spins y)"
proof -
  let ?k = "opens (notices (s_events x))"
  have "spins_since ?k x" using sp by (simp add: spins_since_def)
  have "node_reach dbg vt resolve lo owner n' \<and> (\<exists>y. nd_conns n' s = Some y \<and> spins_since ?k y)"
    by (rule node_steps_closed [where P = "spins_since ?k", OF run reach x \<open>spins_since ?k x\<close>])
      (erule spins_since_call, erule spins_since_io)
  then obtain y where
    y: "node_reach dbg vt resolve lo owner n'" "nd_conns n' s = Some y" "spins_since ?k y" by blast
  have "close_spins y" if "OnConn s CallPostAccept \<in> set (nd_log n')"
    using accepted_opens_once [OF y(1) that y(2)] spins_opened [OF reach x sp] y(3) by (simp add: spins_since_def)
  then show ?thesis using y(2,3) by (auto simp: spins_since_def)
qed

end

section \<open>Nothing is left behind\<close>

text \<open>A connection that is up on a working socket, without a write in flight or a task to start one.\<close>

definition at_rest :: "'b conn_sys \<Rightarrow> bool" where
  "at_rest x \<longleftrightarrow> \<not> s_broken x \<and> m_connect (s_conn x) \<and> s_flight x = None \<and> RunWrite 0 \<notin> set (s_queue x)"

context session_class
begin

lemma all_written:
  "node_reach dbg vt resolve lo owner n \<and> nd_conns n s = Some x \<and> at_rest x \<and>
     (opens (notices (s_events x)) \<le> 1 \<or> OnConn s CallPostAccept \<in> set (nd_log n)) \<longrightarrow>
   s_wire x = list_out vt (sent_to s (nd_log n))"
proof (intro impI, elim conjE)
  assume a: "node_reach dbg vt resolve lo owner n" "nd_conns n s = Some x" "at_rest x"
    "opens (notices (s_events x)) \<le> 1 \<or> OnConn s CallPostAccept \<in> set (nd_log n)"
  have "opens (notices (s_events x)) \<le> 1" using a(4) accepted_opens_once [OF a(1) _ a(2)] by blast
  from session_wire [OF a(1,2) this] show "s_wire x = list_out vt (sent_to s (nd_log n))"
    using a(3) by (auto simp: at_rest_def)
qed

end

end
