(* ===== verification/Limit_Examples.thy ===== *)
theory Limit_Examples
  imports Node_Limits
begin

text \<open>
  Runs of whole processes at the end of a connection: an open session that goes down with a
  message to send, the close that then spins, a client that is started again with this message
  in its queue, and a server that accepted its connection.
\<close>

section \<open>An open session that goes down with a message to send\<close>

text \<open>The only endpoint of a process, and the session of a connection of it that is open and idle.\<close>

definition open_idle :: "'b block_vt \<Rightarrow> string \<Rightarrow> session_id \<Rightarrow> 'b node \<Rightarrow> 'b conn_sys \<Rightarrow> 'b tcp_obj \<Rightarrow> bool" where
  "open_idle vt name s n x t \<longleftrightarrow> nd_conns n s = Some x \<and> m_nets (nd_sv n) = [(name, t)] \<and> isRun (nd_sv n) \<and>
     m_connect (s_conn x) \<and> m_sendList (s_conn x) = [] \<and> s_queue x = [] \<and> s_flight x = None \<and> s_wire x = [] \<and>
     \<not> s_broken x \<and> opens (notices (s_events x)) = 1 \<and> sent_to s (nd_log n) = [] \<and> up_after False (seen vt s (nd_log n))"

text \<open>A handler and a call in a process with one endpoint.\<close>

lemma handled:
  assumes "nd_conns n s = Some x" and "conn_io dbg vt x data es x'" and "m_nets (nd_sv n) = [(name, t)]"
  shows "\<exists>n'. node_step dbg vt resolve lo (\<lambda>_. name) n n' \<and> nd_conns n' s = Some (absorb es x') \<and>
    m_nets (nd_sv n') = [(name, foldl deliver t es)] \<and> nd_log n' = nd_log n \<and>
    m_ioPool (nd_sv n') = m_ioPool (nd_sv n) \<and> isRun (nd_sv n') = isRun (nd_sv n)"
proof -
  have "om_find (m_nets (nd_sv n)) name = Some t" by (simp add: assms(3))
  from node_step.Handle [where owner = "\<lambda>_. name" and resolve = resolve and lo = lo, OF assms(1,2) this]
  show ?thesis
    by (intro exI, intro conjI, assumption) (simp_all add: assms(3) isRun_def)
qed

lemma requested:
  assumes "net_manager vt resolve lo alive rq (nd_sv n) = Inr (r, sv, [OnConn s k])"
    and "\<And>p. k = CallSend p \<Longrightarrow> sendable vt p" and "nd_conns n s = Some x"
  shows "\<exists>n'. node_step dbg vt resolve lo (\<lambda>_. name) n n' \<and> nd_conns n' s = Some (call_sys vt k x) \<and> nd_sv n' = sv \<and>
    nd_log n' = nd_log n @ [OnConn s k]"
proof -
  have ok: "sends_ok vt [OnConn s k]" "ids_left ([OnConn s k] :: 'a action list) (nd_sv n)"
    using assms(2) unsigned_less [of "m_curSessionId (m_ioPool (nd_sv n))"] by (auto simp: sends_ok_def ids_left_def)
  from node_step.Request [where owner = "\<lambda>_. name" and dbg = dbg, OF assms(1) ok] show ?thesis
    by (intro exI, intro conjI, assumption) (simp_all add: node_call_def assms(3))
qed

context session_class
begin

text \<open>A read fails, a message is sent before the close of the error runs, the close runs.\<close>

lemma goes_down:
  assumes reach: "node_reach dbg vt resolve lo (\<lambda>_. name) n" and on: "open_idle vt name s n x t"
    and p: "sendable vt p" "vt_session vt p = s"
  shows "\<exists>n' x'. node_reach dbg vt resolve lo (\<lambda>_. name) n' \<and> nd_conns n' s = Some x' \<and>
    s_conn x' = (s_conn x)\<lparr>m_sendList := [p], m_connect := False\<rparr> \<and> s_queue x' = [RunWrite 0] \<and> s_flight x' = None \<and>
    s_wire x' = [] \<and> \<not> s_broken x' \<and> opens (notices (s_events x')) = 1 \<and>
    (\<exists>t'. m_nets (nd_sv n') = [(name, t')] \<and> t_config t' = t_config t \<and> t_session t' = t_session t) \<and>
    nd_log n' = nd_log n @ [OnConn s (CallSend p)]"
proof -
  have D: "nd_conns n s = Some x" "m_nets (nd_sv n) = [(name, t)]" "isRun (nd_sv n)" "m_connect (s_conn x)"
      "m_sendList (s_conn x) = []" "s_queue x = []" "s_flight x = None" "s_wire x = []" "\<not> s_broken x"
      "opens (notices (s_events x)) = 1" "up_after False (seen vt s (nd_log n))"
    using on by (simp_all add: open_idle_def)
  have "handleReadSome dbg vt (s_conn x) True [] = Some (Inr (s_conn x, [IoPost (RunClose True)]))"
    using D(4) by (simp add: handleReadSome_def onError_def conn_close_def)
  from handled [OF D(1) conn_io.Read_failed [OF this] D(2), of resolve lo] obtain n1 where
    n1: "node_step dbg vt resolve lo (\<lambda>_. name) n n1" "nd_conns n1 s = Some (x\<lparr>s_queue := [RunClose True]\<rparr>)"
      "m_nets (nd_sv n1) = [(name, t)]" "nd_log n1 = nd_log n" "isRun (nd_sv n1)"
    using D(3,6) by (auto simp: deliver_def)
  have r1: "node_reach dbg vt resolve lo (\<lambda>_. name) n1" using reach n1(1) by (rule node_reach.Step)
  have "net_manager vt resolve lo (\<lambda>_. True) (ReqSend p) (nd_sv n1) = Inr (True, nd_sv n1, [OnConn s (CallSend p)])"
    using send_taken [OF r1, of "\<lambda>_. True" p] n1(4,5) D(11) p(2) by (simp add: net_manager_def Let_def)
  from requested [OF this _ n1(2), of dbg name] p(1) obtain n2 where
    n2: "node_step dbg vt resolve lo (\<lambda>_. name) n1 n2" "nd_conns n2 s = Some (call_sys vt (CallSend p) (x\<lparr>s_queue := [RunClose True]\<rparr>))"
      "nd_sv n2 = nd_sv n1" "nd_log n2 = nd_log n @ [OnConn s (CallSend p)]" using n1(4) by auto
  have r2: "node_reach dbg vt resolve lo (\<lambda>_. name) n2" using r1 n2(1) by (rule node_reach.Step)
  let ?x2 = "call_sys vt (CallSend p) (x\<lparr>s_queue := [RunClose True]\<rparr>)" and ?c = "(s_conn x)\<lparr>m_sendList := [p], m_connect := False\<rparr>"
  let ?es = "[SocketShutdown, SocketClose, EventClose (c_session (s_conn x))] :: 'b effect list"
  have x2: "s_conn ?x2 = (s_conn x)\<lparr>m_sendList := [p]\<rparr>" "s_queue ?x2 = RunClose True # [RunWrite 0]" "s_flight ?x2 = None"
      "s_wire ?x2 = []" "\<not> s_broken ?x2" "opens (notices (s_events ?x2)) = 1"
    using D by (simp_all add: call_sys_def run_call_def conn_send_def)
  have "run_task dbg vt (s_conn ?x2) (RunClose True) = Inr (?c, ?es)"
    by (simp add: run_task_def x2(1) handleClose_def)
  from handled [OF n2(2) conn_io.Task [OF x2(2) this], of name t resolve lo] n1(3) n2(3) obtain n3 where
    n3: "node_step dbg vt resolve lo (\<lambda>_. name) n2 n3" "nd_conns n3 s = Some (absorb ?es (?x2\<lparr>s_conn := ?c, s_queue := [RunWrite 0]\<rparr>))"
      "m_nets (nd_sv n3) = [(name, foldl deliver t ?es)]" "nd_log n3 = nd_log n2" by auto
  have "node_reach dbg vt resolve lo (\<lambda>_. name) n3" using r2 n3(1) by (rule node_reach.Step)
  moreover have "t_config (foldl deliver t ?es) = t_config t \<and> t_session (foldl deliver t ?es) = t_session t"
    using delivers_roles [of t ?es] by (simp add: deliver_def eventCloseFun_def tcp_push_def t_config_def)
  ultimately show ?thesis
    using n3 n2(4) x2
    by (intro exI [of _ n3] exI [of _ "absorb ?es (?x2\<lparr>s_conn := ?c, s_queue := [RunWrite 0]\<rparr>)"]) simp
qed

text \<open>Then the session is kicked: its close spins.\<close>

lemma comes_to_spin:
  assumes reach: "node_reach dbg vt resolve lo (\<lambda>_. name) n" and on: "open_idle vt name s n x t"
    and p: "sendable vt p" "vt_session vt p = s"
  shows "\<exists>n' x'. node_reach dbg vt resolve lo (\<lambda>_. name) n' \<and> nd_conns n' s = Some x' \<and> close_spins x' \<and>
    nd_log n' = nd_log n @ [OnConn s (CallSend p), OnConn s (CallClose False)]"
proof -
  obtain n1 x1 where n1: "node_reach dbg vt resolve lo (\<lambda>_. name) n1" "nd_conns n1 s = Some x1"
      "s_conn x1 = (s_conn x)\<lparr>m_sendList := [p], m_connect := False\<rparr>" "nd_log n1 = nd_log n @ [OnConn s (CallSend p)]"
    using goes_down [OF assms] by blast
  note inv = node_inv_reach [OF n1(1)]
  have "up_after False (seen vt s (nd_log n1))" using on n1(4) by (simp add: open_idle_def)
  then have "s \<in> pool_keys (m_ioPool (nd_sv n1))" using node_invD(6) [OF inv] by blast
  moreover have "pool_inv (m_ioPool (nd_sv n1))" using node_invD(1) [OF inv] by (simp add: service_inv_def)
  ultimately have "net_manager vt resolve lo (\<lambda>_. True) (ReqKick s) (nd_sv n1) = Inr (True, nd_sv n1, [OnConn s (CallClose False)])"
    by (simp add: net_manager_def service_kick_def pool_session_ok)
  from requested [OF this _ n1(2), of dbg name] obtain n2 where
    n2: "node_step dbg vt resolve lo (\<lambda>_. name) n1 n2" "nd_conns n2 s = Some (call_sys vt (CallClose False) x1)"
      "nd_log n2 = nd_log n1 @ [OnConn s (CallClose False)]" by auto
  have "node_reach dbg vt resolve lo (\<lambda>_. name) n2" using n1(1) n2(1) by (rule node_reach.Step)
  moreover have "close_spins (call_sys vt (CallClose False) x1)"
    using n1(3) by (simp add: close_spins_def call_sys_def run_call_def conn_close_def)
  ultimately show ?thesis using n2(2,3) n1(4) by auto
qed

end

section \<open>A client that is started again\<close>

lemma peer_open_idle:
  assumes "peer_ready vt n x t"
  shows "open_idle vt ''peer'' 1 n x t"
  using assms online_conn(3) [OF assms] by (simp add: peer_ready_def open_idle_def)

text \<open>
  The connection is up again, its socket works, and the message that was sent before the close
  is still in its queue, with no task that would write it.
\<close>

context session_class
begin

lemma forgotten:
  assumes reach: "peer_reach dbg vt n" and on: "peer_ready vt n x t" and p: "sendable vt p" "vt_session vt p = 1"
  shows "\<exists>n' x'. peer_reach dbg vt n' \<and> nd_conns n' 1 = Some x' \<and> opens (notices (s_events x')) = 2 \<and>
    at_rest x' \<and> s_queue x' = [] \<and> s_wire x' = [] \<and> sent_to 1 (nd_log n') = [p]"
proof -
  obtain n1 x1 t1 where n1: "peer_reach dbg vt n1" "nd_conns n1 1 = Some x1"
      "s_conn x1 = (s_conn x)\<lparr>m_sendList := [p], m_connect := False\<rparr>" "s_queue x1 = RunWrite 0 # []" "s_flight x1 = None"
      "s_wire x1 = []" "\<not> s_broken x1" "opens (notices (s_events x1)) = 1" "m_nets (nd_sv n1) = [(''peer'', t1)]"
      "t_config t1 = t_config t" "t_session t1 = t_session t" "nd_log n1 = nd_log n @ [OnConn 1 (CallSend p)]"
    using goes_down [OF reach peer_open_idle [OF on] p] by auto
  have "run_task dbg vt (s_conn x1) (RunWrite 0) = Inr (s_conn x1, [])"
    by (simp add: run_task_def writeMessage_def n1(3))
  from handled [OF n1(2) conn_io.Task [OF n1(4) this] n1(9), of peer_resolve "\<lambda>_. ListenOk"] obtain n2 where
    n2: "peer_step dbg vt n1 n2" "nd_conns n2 1 = Some (x1\<lparr>s_queue := []\<rparr>)" "m_nets (nd_sv n2) = [(''peer'', t1)]"
      "nd_log n2 = nd_log n1" by auto
  have r2: "peer_reach dbg vt n2" using n1(1) n2(1) by (rule node_reach.Step)
  have "t_config t1 = peer_config" "t_session t1 = Some 1" using n1(10,11) on by (simp_all add: peer_ready_def)
  then obtain sv t2 where st: "net_manager vt peer_resolve (\<lambda>_. ListenOk) (\<lambda>_. True) ReqStart (nd_sv n2) =
      Inr (True, sv, [OnConn 1 (CallConnect (m_endpoint t1))])" "m_nets sv = [(''peer'', t2)]"
    using n2(3) by (simp add: net_manager_def service_start_def tcp_start_def client_doStart_def t_config_def
        peer_config_def config_client_def Let_def)
  from requested [OF st(1) _ n2(2), of dbg "''peer''"] obtain n3 where
    n3: "peer_step dbg vt n2 n3" "nd_conns n3 1 = Some (call_sys vt (CallConnect (m_endpoint t1)) (x1\<lparr>s_queue := []\<rparr>))"
      "nd_sv n3 = sv" "nd_log n3 = nd_log n1 @ [OnConn 1 (CallConnect (m_endpoint t1))]" using n2(4) by auto
  have r3: "peer_reach dbg vt n3" using r2 n3(1) by (rule node_reach.Step)
  let ?x3 = "call_sys vt (CallConnect (m_endpoint t1)) (x1\<lparr>s_queue := []\<rparr>)" and ?c = "(s_conn x1)\<lparr>m_connect := True\<rparr>"
  let ?es = "EventConnect (c_session ?c) # beginRead ?c"
  have hc: "handleConnect (s_conn ?x3) False = (?c, ?es)" "AsyncConnect \<in> set (s_events ?x3)"
    using n1(3) by (simp_all add: call_sys_def run_call_def conn_connect_def handleConnect_def Let_def)
  have m3: "m_nets (nd_sv n3) = [(''peer'', t2)]" using n3(3) st(2) by simp
  from handled [OF n3(2) conn_io.Connected [OF hc] m3, where resolve = peer_resolve and lo = "\<lambda>_. ListenOk" and dbg = dbg] obtain n4 where
    n4: "peer_step dbg vt n3 n4" "nd_conns n4 1 = Some (absorb ?es (?x3\<lparr>s_conn := ?c, s_broken := False\<rparr>))"
      "nd_log n4 = nd_log n3" using n1(3,7) by (auto simp: call_sys_def run_call_def conn_connect_def)
  have "peer_reach dbg vt n4" using r3 n4(1) by (rule node_reach.Step)
  moreover have "sent_to 1 (nd_log n) = []" using on by (simp add: peer_ready_def)
  ultimately show ?thesis
    using n4(2,3) n3(4) n1(5,6,8,12)
    by (intro exI [of _ n4] exI [of _ "absorb ?es (?x3\<lparr>s_conn := ?c, s_broken := False\<rparr>)"])
      (simp add: call_sys_def run_call_def conn_connect_def beginRead_def at_rest_def)
qed

end

section \<open>A server that accepted a connection\<close>

abbreviation "game_step dbg vt \<equiv> node_step dbg vt Some (\<lambda>_. ListenOk) (\<lambda>_. ''game'')"
abbreviation "game_reach dbg vt \<equiv> node_reach dbg vt Some (\<lambda>_. ListenOk) (\<lambda>_. ''game'')"

definition game_config :: config where
  "game_config = config_server ''game'' ''0.0.0.0'' 80 0 10 []"

text \<open>The server waits for a socket, with the connection of session 1 made for it.\<close>

definition game_waits :: "'b node \<Rightarrow> 'b connection \<Rightarrow> 'b tcp_obj \<Rightarrow> bool" where
  "game_waits n c t \<longleftrightarrow> m_nets (nd_sv n) = [(''game'', t)] \<and> t_config t = game_config \<and> m_call t = [] \<and>
     t_onlines t = [] \<and> m_current t = Some 1 \<and> m_acceptor t \<and> \<not> m_stop t \<and> pool_inv (m_ioPool (nd_sv n)) \<and>
     m_curSessionId (m_ioPool (nd_sv n)) = 1 \<and> isRun (nd_sv n) \<and> newConnection 1 DEFAULT_SIZE = Inr c \<and>
     nd_conns n 1 = Some (start_sys c) \<and> (\<exists>e io j. nd_log n = [AcceptorListen e io, NewConnection 1 j, AsyncAccept 1])"

lemma game_listens:
  fixes vt :: "'b block_vt"
  shows "\<exists>n c t. game_reach dbg vt n \<and> game_waits n c t"
proof -
  let ?p = "\<lparr>np_config = game_config, np_funBlock = \<lambda>_ _. Inl NullDeref\<rparr> :: 'b net_property"
  let ?lo = "\<lambda>_ :: string. ListenOk"
  obtain sv0 :: "'b net_service" where sv0: "netService False 2 = Inr sv0" "m_nets sv0 = []"
      "pool_inv (m_ioPool sv0)" "m_curSessionId (m_ioPool sv0) = 0"
    using ioObjectPool_ok [of 2 False] by (auto simp: netService_def)
  obtain io1 p1 where p1: "getIoService (m_ioPool sv0) = Inr (io1, p1)" "pool_inv p1" "m_curSessionId p1 = 0"
    using getIoService_ok [of "m_ioPool sv0"] sv0(3,4) by (auto simp: pool_inv_def pool_keys_def)
  obtain io2 p2 where p2:
    "createConnection p1 = (Inr (1, p2, [NewConnection 1 io2]) :: (_ \<times> _ \<times> 'b action list) res)"
    "pool_inv p2" "m_curSessionId p2 = 1" using createConnection_ok [OF p1(2)] p1(3) by auto
  obtain c :: "'b connection" where c: "newConnection 1 DEFAULT_SIZE = Inr c" by (rule newConnection_default)
  have r0: "game_reach dbg vt (new_node sv0)" by (rule node_reach.Start [OF sv0(1)]) simp
  let ?t = "tcpObj ?p" and ?sv1 = "sv0\<lparr>m_nets := [(''game'', tcpObj ?p)]\<rparr>"
  let ?n1 = "node_call vt [] ?sv1 (new_node sv0)"
  have "net_manager vt Some ?lo (\<lambda>_. True) (ReqAdd (Some ?p)) (nd_sv (new_node sv0)) = Inr (True, ?sv1, [])"
    using sv0(2) by (simp add: net_manager_def service_add_def tcp_create_def game_config_def config_server_def new_node_def)
  from node_step.Request [OF this, of dbg "\<lambda>_. ''game''"] have "game_step dbg vt (new_node sv0) ?n1"
    by (simp add: sends_ok_def ids_left_def new_node_def sv0(4))
  with r0 have r1: "game_reach dbg vt ?n1" by (rule node_reach.Step)
  let ?t2 = "?t\<lparr>m_stop := False, m_acceptor := True, m_current := Some 1\<rparr>"
  let ?acts = "[AcceptorListen (ucast (m_port game_config)) io1, NewConnection 1 io2, AsyncAccept 1] :: 'b action list"
  let ?sv2 = "?sv1\<lparr>sv_state := STATE_SERVICE_RUN, m_ioPool := p2, m_nets := [(''game'', ?t2)]\<rparr>"
  have "net_manager vt Some ?lo (\<lambda>_. True) ReqStart (nd_sv ?n1) = Inr (True, ?sv2, ?acts)"
    using p1(1) p2(1) by (simp add: net_manager_def service_start_def tcp_start_def server_doStart_def beginAccept_def
        tcpObj_def t_config_def game_config_def config_server_def node_call_def Let_def)
  from node_step.Request [OF this, of dbg "\<lambda>_. ''game''"] have "game_step dbg vt ?n1 (node_call vt ?acts ?sv2 ?n1)"
    by (simp add: sends_ok_def ids_left_def node_call_def sv0(4))
  with r1 have "game_reach dbg vt (node_call vt ?acts ?sv2 ?n1)" by (rule node_reach.Step)
  then show ?thesis using p2 c
    by (intro exI [of _ "node_call vt ?acts ?sv2 ?n1"] exI [of _ c] exI [of _ ?t2])
      (simp add: game_waits_def node_call_def new_node_def tcpObj_def t_config_def isRun_def)
qed

text \<open>A socket is accepted, the connection reports it, and the user is told.\<close>

lemma game_accepts:
  fixes vt :: "'b block_vt"
  shows "\<exists>n x t. game_reach dbg vt n \<and> open_idle vt ''game'' 1 n x t \<and> OnConn 1 CallPostAccept \<in> set (nd_log n)"
proof -
  let ?lo = "\<lambda>_ :: string. ListenOk"
  obtain n t and c :: "'b connection" where n: "game_reach dbg vt n" and w: "game_waits n c t"
    using game_listens by blast
  have D: "m_nets (nd_sv n) = [(''game'', t)]" "t_config t = game_config" "m_call t = []" "t_onlines t = []"
      "m_current t = Some 1" "m_acceptor t" "\<not> m_stop t" "pool_inv (m_ioPool (nd_sv n))"
      "m_curSessionId (m_ioPool (nd_sv n)) = 1" "isRun (nd_sv n)" "newConnection 1 DEFAULT_SIZE = Inr c"
      "nd_conns n 1 = Some (start_sys c)"
    using w by (simp_all add: game_waits_def)
  obtain e io j where lg: "nd_log n = [AcceptorListen e io, NewConnection 1 j, AsyncAccept 1]"
    using w by (auto simp: game_waits_def)
  from createConnection_ok [OF D(8)] obtain k p1 where p1:
    "createConnection (m_ioPool (nd_sv n)) = (Inr (2, p1, [NewConnection 2 k]) :: (_ \<times> _ \<times> 'b action list) res)"
    "pool_inv p1" "m_curSessionId p1 = 2" using D(9) by auto
  let ?t1 = "t\<lparr>m_current := Some 2\<rparr>" and ?acts = "[OnConn 1 CallPostAccept, NewConnection 2 k, AsyncAccept 2] :: 'b action list"
  let ?sv1 = "(nd_sv n)\<lparr>m_ioPool := p1, m_nets := om_put ''game'' ?t1 (m_nets (nd_sv n))\<rparr>"
  have a: "acceptSocket t (m_ioPool (nd_sv n)) False = Inr (?t1, p1, ?acts)"
    using D(5-7) p1(1) by (simp add: acceptSocket_def beginAccept_def)
  have m: "om_find (m_nets (nd_sv n)) ''game'' = Some t" by (simp add: D(1))
  from node_step.Accept [OF m a, of dbg vt Some ?lo "\<lambda>_. ''game''"]
  have "game_step dbg vt n (node_call vt ?acts ?sv1 n)" using D(9) by (simp add: ids_left_def)
  with n have r1: "game_reach dbg vt (node_call vt ?acts ?sv1 n)" by (rule node_reach.Step)
  let ?n1 = "node_call vt ?acts ?sv1 n"
  let ?x1 = "(start_sys c)\<lparr>s_queue := [RunAccept]\<rparr>" and ?c = "c\<lparr>m_connect := True\<rparr>"
  let ?es = "EventConnect (c_session ?c) # beginRead ?c"
  obtain c2 :: "'b connection" where "newConnection 2 DEFAULT_SIZE = Inr c2" by (rule newConnection_default)
  then have x1: "nd_conns ?n1 1 = Some ?x1" "s_queue ?x1 = RunAccept # []" "m_nets (nd_sv ?n1) = [(''game'', ?t1)]"
    using D(1,12) by (simp_all add: node_call_def call_sys_def run_call_def postAccept_def start_sys_def)
  have "run_task dbg vt (s_conn ?x1) RunAccept = Inr (?c, ?es)"
    by (simp add: run_task_def handlAccept_def start_sys_def Let_def)
  from handled [OF x1(1) conn_io.Task [OF x1(2) this] x1(3), where resolve = Some and lo = ?lo] obtain n2 where
    n2: "game_step dbg vt ?n1 n2" "nd_conns n2 1 = Some (absorb ?es (?x1\<lparr>s_conn := ?c, s_queue := []\<rparr>))"
      "m_nets (nd_sv n2) = [(''game'', foldl deliver ?t1 ?es)]" "nd_log n2 = nd_log ?n1"
      "m_ioPool (nd_sv n2) = p1" "isRun (nd_sv n2)" using D(10) by (auto simp: node_call_def isRun_def)
  have r2: "game_reach dbg vt n2" using r1 n2(1) by (rule node_reach.Step)
  have s: "c_session c = 1" "m_sendList c = []" using D(11) by (auto simp: newConnection_def rbind_eq_Inr)
  have t2: "foldl deliver ?t1 ?es = ?t1\<lparr>m_call := [EvConnect 1]\<rparr>"
    using D(3) s(1) by (simp add: deliver_def eventConnect_def tcp_push_def beginRead_def)
  let ?sv3 = "(nd_sv n2)\<lparr>m_ioPool := addSession 1 p1, m_nets := [(''game'', ?t1\<lparr>t_onlines := [(1, ())]\<rparr>)]\<rparr>"
  let ?as = "[ConnectFun ''game'' 1] :: 'b action list"
  have "net_manager vt Some ?lo (\<lambda>_. True) ReqPoll (nd_sv n2) = Inr (True, ?sv3, ?as)"
    using D(2-4) n2(3,5) unfolding t2
    by (simp add: net_manager_def service_poll_def tcp_poll_def run_event_def t_config_def game_config_def config_server_def)
  from node_step.Request [OF this, of dbg "\<lambda>_. ''game''"] n2(5) p1(3)
  have "game_step dbg vt n2 (node_call vt ?as ?sv3 n2)" by (simp add: sends_ok_def ids_left_def)
  with r2 have "game_reach dbg vt (node_call vt ?as ?sv3 n2)" by (rule node_reach.Step)
  moreover have "open_idle vt ''game'' 1 (node_call vt ?as ?sv3 n2) (absorb ?es (?x1\<lparr>s_conn := ?c, s_queue := []\<rparr>)) (?t1\<lparr>t_onlines := [(1, ())]\<rparr>)"
    using n2(2,4,6) s lg by (simp add: open_idle_def node_call_def start_sys_def beginRead_def isRun_def)
  moreover have "OnConn 1 CallPostAccept \<in> set (nd_log (node_call vt ?as ?sv3 n2))" using n2(4) by (simp add: node_call_def)
  ultimately show ?thesis by blast
qed

end
