(* ===== verification/Buffer_Types.thy ===== *)
theory Buffer_Types
  imports Buffer_Queue
begin

text \<open>
  Type safety of \<open>NetBuffer\<close>: whatever members are called on a buffer, in any order, locked or
  not, it stays well formed, and nothing outside a block is accessed; at worst an assertion
  fails.  Only sizes that overflow are excluded.
\<close>

section \<open>Calls of members\<close>

text \<open>The members that change the buffer; \<open>Fill\<close> is \<open>readBuffer\<close> of another one with it as the target.\<close>

datatype nb_member =
    CallLock | CallClear | CallReset
  | CallWriteData size_t | CallReadData size_t
  | CallTailData bytes | CallHeadData bytes | CallSetHead bytes
  | CallTailBuffer net_buffer | CallHeadBuffer net_buffer
  | CallDrain net_buffer | CallFill net_buffer | CallMoveFrom net_buffer

definition nb_call :: "bool \<Rightarrow> nb_member \<Rightarrow> net_buffer \<Rightarrow> net_buffer res" where
  "nb_call dbg k b =
     (case k of
        CallLock \<Rightarrow> Inr (snd (nb_lock b))
      | CallClear \<Rightarrow> clearReadBuffer dbg b
      | CallReset \<Rightarrow> nb_reset dbg b
      | CallWriteData n \<Rightarrow> rbind (writeData dbg b n) (\<lambda>(_, b'). Inr b')
      | CallReadData n \<Rightarrow> rbind (readData dbg b n) (\<lambda>(_, b'). Inr b')
      | CallTailData x \<Rightarrow> rbind (tailData dbg b x (of_nat (length x))) (\<lambda>(_, b'). Inr b')
      | CallHeadData x \<Rightarrow> rbind (headData dbg b x (of_nat (length x))) (\<lambda>(_, b'). Inr b')
      | CallSetHead x \<Rightarrow> rbind (setHead dbg b x (of_nat (length x))) (\<lambda>(_, b'). Inr b')
      | CallTailBuffer c \<Rightarrow> rbind (tailNetBuffer dbg False b c) (\<lambda>(_, b'). Inr b')
      | CallHeadBuffer c \<Rightarrow> rbind (headNetBuffer dbg False b c) (\<lambda>(_, b'). Inr b')
      | CallDrain c \<Rightarrow> rbind (readBuffer dbg False b c) (\<lambda>(_, b', _). Inr b')
      | CallFill c \<Rightarrow> rbind (readBuffer dbg False c b) (\<lambda>(_, _, b'). Inr b')
      | CallMoveFrom c \<Rightarrow> Inr (fst (move_assign b c)))"

fun nb_calls :: "bool \<Rightarrow> nb_member list \<Rightarrow> net_buffer \<Rightarrow> net_buffer res" where
  "nb_calls dbg [] b = Inr b"
| "nb_calls dbg (k # ks) b = rbind (nb_call dbg k b) (nb_calls dbg ks)"

text \<open>The buffers given to the calls, and the bytes a call adds at most.\<close>

fun others_ok :: "nb_member \<Rightarrow> bool" where
  "others_ok (CallTailBuffer c) = nb_inv c"
| "others_ok (CallHeadBuffer c) = nb_inv c"
| "others_ok (CallDrain c) = nb_inv c"
| "others_ok (CallFill c) = nb_inv c"
| "others_ok (CallMoveFrom c) = nb_inv c"
| "others_ok _ = True"

fun growth :: "nb_member \<Rightarrow> nat" where
  "growth (CallWriteData n) = unat n"
| "growth (CallTailData x) = length x"
| "growth (CallHeadData x) = length x"
| "growth (CallSetHead x) = length x"
| "growth (CallTailBuffer c) = length (nb_content c)"
| "growth (CallHeadBuffer c) = length (nb_content c)"
| "growth (CallFill c) = length (nb_unread c)"
| "growth (CallMoveFrom c) = length (nb_content c)"
| "growth _ = 0"

section \<open>Every call keeps the invariant\<close>

text \<open>A result that is a well formed buffer of a limited length, or an assertion.\<close>

definition nb_fine :: "bool \<Rightarrow> nat \<Rightarrow> net_buffer res \<Rightarrow> bool" where
  "nb_fine dbg n r \<longleftrightarrow> (case r of Inl e \<Rightarrow> dbg \<and> e = Assertion | Inr b \<Rightarrow> nb_inv b \<and> unat (m_writePos b) \<le> n)"

lemma nb_fine_simps [simp]:
  "nb_fine dbg n (Inl e) \<longleftrightarrow> dbg \<and> e = Assertion" "nb_fine dbg n (Inr b) \<longleftrightarrow> nb_inv b \<and> unat (m_writePos b) \<le> n"
  by (simp_all add: nb_fine_def)

lemma nb_fine_unchanged:
  "nb_inv b \<Longrightarrow> unat (m_writePos b) \<le> n \<Longrightarrow> nb_fine dbg n (if dbg then Inl Assertion else Inr b)"
  by simp

lemma nb_fine_content: "nb_inv b \<Longrightarrow> length (nb_content b) \<le> n \<Longrightarrow> nb_fine dbg n (Inr b)"
  by simp

lemma writeData_fine:
  assumes inv: "nb_inv b" and n: "unat (m_writePos b) + unat n < 2 ^ 64"
  shows "nb_fine dbg (unat (m_writePos b) + unat n) (nb_call dbg (CallWriteData n) b)"
proof (cases "unat n \<le> nb_free b")
  case True
  note W = writeData_ok [OF inv True]
  have "nb_inv (b\<lparr>m_writePos := m_writePos b + n\<rparr>)"
    using nb_invD [OF inv] True by (intro nb_invI) (simp_all add: W(2) nb_free_def)
  then show ?thesis using W by (simp add: nb_call_def)
next
  case False
  have "unat (m_writePos b + n) = unat (m_writePos b) + unat n" using n by (subst unat_plus_if') simp
  then have "m_writePos b + n > m_maxLen b" using False nb_invD(3) [OF inv] by (simp add: size_cmp nb_free_def)
  then show ?thesis using inv by (simp add: nb_call_def writeData_def MYASSERT_def)
qed

lemma readData_fine:
  assumes inv: "nb_inv b"
  shows "nb_fine dbg (unat (m_writePos b)) (nb_call dbg (CallReadData n) b)"
proof (cases "unat n \<le> length (nb_unread b)")
  case True
  then show ?thesis using readData_ok [OF inv True] inv by (simp add: nb_call_def)
next
  case False
  then have "\<not> canRead b n" using inv by (simp add: canRead_iff)
  then show ?thesis using inv by (simp add: nb_call_def readData_def MYASSERT_def)
qed

lemma unat_length: "length x \<le> PTRDIFF_MAX \<Longrightarrow> unat (of_nat (length x) :: size_t) = length x"
  by (rule unat_of_nat_size)

lemma tailData_fine:
  assumes inv: "nb_inv b" and room: "nb_room b (unat len)" and src: "unat len \<le> length base"
  shows "nb_fine dbg (unat (m_writePos b) + unat len) (rbind (tailData dbg b base len) (\<lambda>(_, b'). Inr b'))"
proof (cases "m_lock b")
  case True
  then show ?thesis using tailData_locked inv by simp
next
  case False
  show ?thesis
  proof (cases "len = 0")
    case True
    then show ?thesis using tailData_empty [OF inv False] inv by simp
  next
    case len: False
    then have "0 < unat len" by (simp add: unat_gt_0)
    from tailData_ok [OF inv False this room src, of dbg] obtain b' where
      b': "tailData dbg b base len = Inr (True, b')" "nb_inv b'" "nb_content b' = nb_content b @ take (unat len) base"
      by blast
    have "unat (m_writePos b') = unat (m_writePos b) + unat len"
      using arg_cong [OF b'(3), of length] b'(2) inv src by simp
    then show ?thesis using b' inv by simp
  qed
qed

lemma headData_locked: "m_lock b \<Longrightarrow> headData dbg b base len = (if dbg then Inl Assertion else Inr (False, b))"
  by (simp add: headData_def resize_def nb_head_def MYASSERT_def)

lemma headData_fine:
  assumes inv: "nb_inv b" and room: "nb_room b (unat len)" and src: "unat len \<le> length base"
  shows "nb_fine dbg (unat (m_writePos b) + unat len) (rbind (headData dbg b base len) (\<lambda>(_, b'). Inr b'))"
proof (cases "m_lock b")
  case True
  then show ?thesis using headData_locked inv by simp
next
  case False
  show ?thesis
  proof (cases "len = 0")
    case True
    then have "nb_room b (unat len)" using room by simp
    then obtain b' where "resize dbg b (m_writePos b + len) = Inr (True, b')" "nb_inv b'" "m_writePos b' = m_writePos b" "\<not> m_lock b'"
      using resize_for_ok [OF inv False] by blast
    then show ?thesis using True by (simp add: headData_def nb_head_def)
  next
    case len: False
    then have "0 < unat len" by (simp add: unat_gt_0)
    from headData_ok [OF inv False this room src, of dbg] obtain b' where
      b': "headData dbg b base len = Inr (True, b')" "nb_inv b'" "nb_content b' = take (unat len) base @ nb_content b"
      by blast
    have "unat (m_writePos b') = unat (m_writePos b) + unat len"
      using arg_cong [OF b'(3), of length] b'(2) inv src by simp
    then show ?thesis using b' inv by simp
  qed
qed

lemma setHead_fine:
  assumes inv: "nb_inv b" and src: "unat len \<le> length base"
  shows "nb_fine dbg (unat (m_writePos b)) (rbind (setHead dbg b base len) (\<lambda>(_, b'). Inr b'))"
proof (cases "m_lock b \<or> \<not> len \<le> m_writePos b")
  case True
  then show ?thesis using inv by (auto simp: setHead_def MYASSERT_def)
next
  case False
  then have "unat len \<le> length (nb_content b)" using inv by (simp add: size_cmp)
  then show ?thesis using setHead_ok [OF inv _ _ src, of dbg] False by auto
qed

text \<open>\<open>readBuffer\<close> into a locked buffer takes the bytes, and does not store them.\<close>

lemma readBuffer_locked:
  assumes inv: "nb_inv b" "nb_inv buffer" and l: "m_lock buffer" and n: "0 < nb_moved b buffer"
  shows "\<exists>b'. readBuffer dbg False b buffer = (if dbg then Inl Assertion else Inr (False, b', buffer)) \<and>
    nb_inv b' \<and> nb_content b' = nb_content b \<and> nb_unread b' = drop (nb_moved b buffer) (nb_unread b)"
proof -
  let ?len = "min (m_writePos b - m_readPos b) (maxLength buffer - m_writePos buffer)"
  have u: "unat ?len \<le> length (nb_unread b)" using nb_moved_word [OF inv] by (simp add: nb_moved_def del: nb_unread_length)
  have "\<not> isFull buffer" using n by (simp add: nb_moved_def nb_free_def isFull_def size_cmp)
  moreover have "hasWrite b" using n inv(1) nb_invD(2) [OF inv(1)] by (auto simp: nb_moved_def hasWrite_def nb_length_def size_cmp)
  ultimately have "readBuffer dbg False b buffer =
      (if dbg then Inl Assertion else Inr (False, b\<lparr>m_readPos := m_readPos b + ?len\<rparr>, buffer))"
    using readData_ok(1) [OF inv(1) u, of dbg] nb_tail_locked [OF l] by (simp add: readBuffer_def Let_def)
  then show ?thesis using readData_ok(2-4) [OF inv(1) u] nb_moved_word [OF inv] by metis
qed

lemma readBuffer_none:
  assumes inv: "nb_inv b" "nb_inv buffer" and l: "m_lock buffer" and n: "nb_moved b buffer = 0"
  shows "readBuffer dbg False b buffer = Inr (False, b, buffer) \<or>
    readBuffer dbg False b buffer = (if dbg then Inl Assertion else Inr (False, b, buffer))"
proof (cases "isFull buffer \<or> \<not> hasWrite b")
  case True
  then show ?thesis by (auto simp: readBuffer_def)
next
  case False
  let ?len = "min (m_writePos b - m_readPos b) (maxLength buffer - m_writePos buffer)"
  have z: "?len = 0" using nb_moved_word [OF inv] n by (simp add: unat_eq_0)
  have "readData dbg b 0 = Inr (Some (m_readPos b), b)" using readData_ok(1) [OF inv(1), of 0] by simp
  then show ?thesis using False nb_tail_locked [OF l] by (simp add: readBuffer_def Let_def z)
qed

lemma readBuffer_fine:
  assumes inv: "nb_inv b" "nb_inv buffer"
  shows "nb_fine dbg (unat (m_writePos b)) (rbind (readBuffer dbg False b buffer) (\<lambda>(_, b', _). Inr b'))"
    and "nb_fine dbg (unat (m_writePos buffer) + length (nb_unread b)) (rbind (readBuffer dbg False b buffer) (\<lambda>(_, _, c). Inr c))"
proof -
  let ?r = "readBuffer dbg False b buffer"
  have "nb_fine dbg (unat (m_writePos b)) (rbind ?r (\<lambda>(_, b', _). Inr b')) \<and>
    nb_fine dbg (unat (m_writePos buffer) + length (nb_unread b)) (rbind ?r (\<lambda>(_, _, c). Inr c))"
  proof (cases "m_lock buffer")
    case False
    obtain b' c where r: "?r = Inr (0 < nb_moved b buffer, b', c)" "nb_inv b'" "nb_inv c" "nb_content b' = nb_content b"
        "nb_content c = nb_content buffer @ take (nb_moved b buffer) (nb_unread b)"
      using readBuffer_ok [OF inv False, of dbg] by blast
    have "unat (m_writePos c) \<le> unat (m_writePos buffer) + length (nb_unread b)"
      using arg_cong [OF r(5), of length] r(3) inv(2) by (simp del: nb_unread_length)
    moreover have "unat (m_writePos b') = unat (m_writePos b)"
      using arg_cong [OF r(4), of length] r(2) inv(1) by simp
    ultimately show ?thesis using r(1-3) by (simp del: nb_unread_length)
  next
    case True
    show ?thesis
    proof (cases "nb_moved b buffer = 0")
      case True
      then show ?thesis using readBuffer_none [OF inv \<open>m_lock buffer\<close>, of dbg] inv by (cases dbg) auto
    next
      case False
      then obtain b' where r: "?r = (if dbg then Inl Assertion else Inr (False, b', buffer))" "nb_inv b'" "nb_content b' = nb_content b"
        using readBuffer_locked [OF inv True, of dbg] by auto
      have "unat (m_writePos b') = unat (m_writePos b)"
        using arg_cong [OF r(3), of length] r(2) inv(1) by simp
      then show ?thesis using r(1,2) inv by simp
    qed
  qed
  then show "nb_fine dbg (unat (m_writePos b)) (rbind ?r (\<lambda>(_, b', _). Inr b'))"
    and "nb_fine dbg (unat (m_writePos buffer) + length (nb_unread b)) (rbind ?r (\<lambda>(_, _, c). Inr c))" by blast+
qed

section \<open>Any calls\<close>

lemma nb_call_fine:
  assumes inv: "nb_inv b" and k: "others_ok k" and room: "2 * (unat (m_writePos b) + growth k) \<le> PTRDIFF_MAX"
  shows "nb_fine dbg (unat (m_writePos b) + growth k) (nb_call dbg k b)"
proof (cases k)
  case CallLock
  then show ?thesis using inv by (simp add: nb_call_def nb_lock_def nb_inv_def)
next
  case CallClear
  obtain b' where b': "clearReadBuffer dbg b = Inr b'" "nb_inv b'" "nb_content b' = nb_unread b"
    using clearReadBuffer_ok [OF inv] by blast
  have "unat (m_writePos b') \<le> unat (m_writePos b)"
    using arg_cong [OF b'(3), of length] b'(2) inv by simp
  then show ?thesis using CallClear b'(1,2) by (simp add: nb_call_def)
next
  case CallReset
  show ?thesis
  proof (cases "m_lock b")
    case True
    then show ?thesis using CallReset inv by (simp add: nb_call_def nb_reset_def MYASSERT_def)
  next
    case False
    obtain b' where b': "nb_reset dbg b = Inr b'" "nb_inv b'" "nb_content b' = []" using nb_reset_ok [OF inv False] by blast
    then have "unat (m_writePos b') = 0" using nb_content_length [OF b'(2)] by simp
    then show ?thesis using CallReset b' by (simp add: nb_call_def)
  qed
next
  case (CallWriteData n)
  have "PTRDIFF_MAX < 2 ^ 64" by (simp add: PTRDIFF_MAX_def)
  then show ?thesis using writeData_fine [OF inv, of n dbg] room CallWriteData by simp
next
  case (CallReadData n)
  then show ?thesis using readData_fine [OF inv] by simp
next
  case (CallTailData x)
  then have "unat (of_nat (length x) :: size_t) = length x" using room by (intro unat_length) simp
  then show ?thesis using tailData_fine [OF inv, of "of_nat (length x)" x dbg] room CallTailData by (simp add: nb_call_def nb_room_def)
next
  case (CallHeadData x)
  then have "unat (of_nat (length x) :: size_t) = length x" using room by (intro unat_length) simp
  then show ?thesis using headData_fine [OF inv, of "of_nat (length x)" x dbg] room CallHeadData by (simp add: nb_call_def nb_room_def)
next
  case (CallSetHead x)
  then have u: "unat (of_nat (length x) :: size_t) = length x" using room by (intro unat_length) simp
  have "nb_fine dbg (unat (m_writePos b)) (nb_call dbg k b)"
    using setHead_fine [OF inv, of "of_nat (length x)" x dbg] CallSetHead u by (simp add: nb_call_def)
  then show ?thesis by (cases "nb_call dbg k b") auto
next
  case (CallTailBuffer c)
  then have c: "nb_inv c" using k by simp
  then show ?thesis using tailData_fine [OF inv, of "nb_length c" "m_buffer c" dbg] room CallTailBuffer nb_invD [OF c]
    by (simp add: nb_call_def tailNetBuffer_def nb_room_def nb_length_def)
next
  case (CallHeadBuffer c)
  then have c: "nb_inv c" using k by simp
  then show ?thesis using headData_fine [OF inv, of "nb_length c" "m_buffer c" dbg] room CallHeadBuffer nb_invD [OF c]
    by (simp add: nb_call_def headNetBuffer_def nb_room_def nb_length_def)
next
  case (CallDrain c)
  then show ?thesis using readBuffer_fine(1) [OF inv, of c dbg] k by (simp add: nb_call_def)
next
  case (CallFill c)
  then show ?thesis using readBuffer_fine(2) [OF _ inv, of c dbg] k by (simp add: nb_call_def del: nb_unread_length)
next
  case (CallMoveFrom c)
  then show ?thesis using k by (simp add: nb_call_def move_assign_def nb_inv_def)
qed

lemma nb_calls_fine:
  assumes "nb_inv b" and "list_all others_ok ks" and "2 * (unat (m_writePos b) + sum_list (map growth ks)) \<le> PTRDIFF_MAX"
  shows "nb_fine dbg (unat (m_writePos b) + sum_list (map growth ks)) (nb_calls dbg ks b)"
  using assms
proof (induction ks arbitrary: b)
  case (Cons k ks)
  have "nb_fine dbg (unat (m_writePos b) + growth k) (nb_call dbg k b)"
    using Cons.prems by (intro nb_call_fine) simp_all
  then consider e where "nb_call dbg k b = Inl e" "dbg \<and> e = Assertion"
    | b1 where "nb_call dbg k b = Inr b1" "nb_inv b1" "unat (m_writePos b1) \<le> unat (m_writePos b) + growth k"
    by (cases "nb_call dbg k b") auto
  then show ?case
  proof cases
    case 2
    have "nb_fine dbg (unat (m_writePos b1) + sum_list (map growth ks)) (nb_calls dbg ks b1)"
      using Cons.IH [OF 2(2)] Cons.prems 2(3) by simp
    then show ?thesis using 2 by (cases "nb_calls dbg ks b1") auto
  qed simp
qed simp

text \<open>A size that overflows moves the write position back.\<close>

lemma writeData_wraps:
  assumes "nb_inv b" and "0 < unat (m_writePos b)"
  shows "writeData dbg b (- 1) = Inr (Some (m_writePos b), b\<lparr>m_writePos := m_writePos b - 1\<rparr>)"
proof -
  have "unat (m_writePos b - 1) = unat (m_writePos b) - 1" using assms(2) by (simp add: unat_minus_size size_cmp)
  then have "\<not> m_writePos b - 1 > m_maxLen b" using nb_invD(3) [OF assms(1)] by (simp add: size_cmp)
  then show ?thesis by (simp add: writeData_def)
qed

text \<open>
  \<open>tailData\<close> appends: exactly the given bytes come behind the content and behind the
  unread bytes, nothing before them changes, and the capacity is the old one if they fit and
  twice the new length if not. Without bytes it returns \<open>false\<close> and changes nothing; on a
  locked buffer it asserts, or returns \<open>false\<close> and changes nothing in a release build.
\<close>

lemma append_grows:
  assumes "nb_inv b" and "2 * (length (nb_content b) + unat len) \<le> PTRDIFF_MAX" and "unat len \<le> length base"
  shows "if m_lock b then tailData dbg b base len = (if dbg then Inl Assertion else Inr (False, b))
    else if len = 0 then tailData dbg b base len = Inr (False, b)
    else \<exists>b'. tailData dbg b base len = Inr (True, b') \<and> nb_inv b' \<and> \<not> m_lock b' \<and>
      nb_content b' = nb_content b @ take (unat len) base \<and>
      nb_unread b' = nb_unread b @ take (unat len) base \<and>
      maxLength b' = (if unat (nb_length b) + unat len \<le> unat (maxLength b) then maxLength b
                      else (nb_length b + len) * 2)"
proof (cases "m_lock b \<or> len = 0")
  case True
  then show ?thesis using tailData_locked tailData_empty [OF assms(1)] by auto
next
  case False
  then have u: "\<not> m_lock b" "0 < unat len" by (simp_all add: unat_gt_0)
  have room: "nb_room b (unat len)" using assms(1,2) by (simp add: nb_room_def)
  have "unat (m_writePos b + len) = unat (m_writePos b) + unat len"
    using assms(1,2) by (intro unat_plus_size) simp
  then have "m_writePos b + len > m_maxLen b \<longleftrightarrow> \<not> unat (m_writePos b) + unat len \<le> unat (m_maxLen b)"
    by (simp add: size_cmp not_le)
  then show ?thesis
    using tailData_ok [OF assms(1) u room assms(3), of dbg] False
    by (auto simp: nb_cap_after_def maxLength_def nb_length_def)
qed

text \<open>
  \<open>readBuffer\<close> moves bytes: as many as are unread and fit are taken from the front of
  the one buffer to the end of the other, and both together hold what they held; it returns
  whether it moved any, does not grow the target, and on one and the same buffer does nothing.
\<close>

lemma read_buffer_moves:
  assumes "nb_inv b" and "nb_inv buffer" and "\<not> m_lock buffer"
  shows "readBuffer dbg True b buffer = Inr (False, b, buffer) \<and>
    (\<exists>n b' buffer'. readBuffer dbg False b buffer = Inr (0 < n, b', buffer') \<and>
       n = min (length (nb_unread b)) (nb_free buffer) \<and> nb_inv b' \<and> nb_inv buffer' \<and>
       nb_unread b' = drop n (nb_unread b) \<and> nb_content buffer' = nb_content buffer @ take n (nb_unread b) \<and>
       nb_unread buffer' @ nb_unread b' = nb_unread buffer @ nb_unread b \<and>
       maxLength buffer' = maxLength buffer)"
proof -
  have "readBuffer dbg True b buffer = Inr (False, b, buffer)" by (simp add: readBuffer_def)
  then show ?thesis
    using readBuffer_ok [OF assms, of dbg] by (auto simp: nb_moved_def maxLength_def)
qed

end
