(* ===== verification/Buffer_Heap.thy ===== *)
theory Buffer_Heap
  imports Net_Buffer
begin

text \<open>
  The memory behind \<open>NetBuffer\<close>.  \<open>Net_Buffer\<close> keeps the bytes of a buffer in its record; here
  \<open>m_buffer\<close> is an address, blocks are allocated and freed, and the objects are in a store, so
  that two arguments may be one object.  Whatever is done with buffers, no block is used after
  its \<open>free\<close>, freed twice or lost, and the results are those of \<open>Net_Buffer\<close>.
\<close>

section \<open>Memory\<close>

type_synonym addr = nat

record heap_buffer =
  hb_buffer :: "addr option"
  hb_maxLen :: size_t
  hb_writePos :: size_t
  hb_readPos :: size_t
  hb_lock :: bool

record buffer_heap =
  hp_blocks :: "addr \<rightharpoonup> bytes"
  hp_next :: addr
  hp_objs :: "nat \<rightharpoonup> heap_buffer"

text \<open>The bytes of a block; a freed one must not be read. A null pointer is a block of no bytes.\<close>

definition hp_load :: "buffer_heap \<Rightarrow> addr option \<Rightarrow> bytes res" where
  "hp_load s p =
     (case p of None \<Rightarrow> Inr []
      | Some a \<Rightarrow> (case hp_blocks s a of None \<Rightarrow> Inl MemFault | Some m \<Rightarrow> Inr m))"

definition hp_store :: "addr option \<Rightarrow> bytes \<Rightarrow> buffer_heap \<Rightarrow> buffer_heap" where
  "hp_store p m s = (case p of None \<Rightarrow> s | Some a \<Rightarrow> s\<lparr>hp_blocks := (hp_blocks s)(a \<mapsto> m)\<rparr>)"

definition hp_malloc0 :: "size_t \<Rightarrow> buffer_heap \<Rightarrow> (addr \<times> buffer_heap) res" where
  "hp_malloc0 len s =
     rbind (malloc0 len) (\<lambda>m.
     Inr (hp_next s, s\<lparr>hp_blocks := (hp_blocks s)(hp_next s \<mapsto> m), hp_next := hp_next s + 1\<rparr>))"

definition hp_free :: "addr option \<Rightarrow> buffer_heap \<Rightarrow> buffer_heap res" where
  "hp_free p s =
     (case p of None \<Rightarrow> Inr s
      | Some a \<Rightarrow> if hp_blocks s a = None then Inl MemFault
                  else Inr (s\<lparr>hp_blocks := (hp_blocks s)(a := None)\<rparr>))"

definition hp_obj :: "buffer_heap \<Rightarrow> nat \<Rightarrow> heap_buffer" where
  "hp_obj s i = the (hp_objs s i)"

definition hp_set :: "nat \<Rightarrow> heap_buffer \<Rightarrow> buffer_heap \<Rightarrow> buffer_heap" where
  "hp_set i b s = s\<lparr>hp_objs := (hp_objs s)(i \<mapsto> b)\<rparr>"

text \<open>What a \<open>const char*\<close> argument points to: bytes elsewhere, or a place in a block.\<close>

datatype source = Bytes bytes | Place "addr option" nat

definition src_bytes :: "buffer_heap \<Rightarrow> source \<Rightarrow> bytes res" where
  "src_bytes s src =
     (case src of Bytes x \<Rightarrow> Inr x | Place p off \<Rightarrow> rbind (hp_load s p) (\<lambda>m. Inr (drop off m)))"

section \<open>The members, over addresses\<close>

definition hp_new :: "nat \<Rightarrow> size_t \<Rightarrow> buffer_heap \<Rightarrow> buffer_heap res" where
  "hp_new i len s =
     rbind (hp_malloc0 len s) (\<lambda>(a, s').
     Inr (hp_set i \<lparr>hb_buffer = Some a, hb_maxLen = len, hb_writePos = 0, hb_readPos = 0, hb_lock = False\<rparr> s'))"

text \<open>The destructor; the object is gone when it returns.\<close>

definition hp_destroy :: "nat \<Rightarrow> buffer_heap \<Rightarrow> buffer_heap res" where
  "hp_destroy i s =
     rbind (hp_free (hb_buffer (hp_obj s i)) s) (\<lambda>s1.
     Inr (s1\<lparr>hp_objs := (hp_objs s1)(i := None)\<rparr>))"

definition hp_move :: "nat \<Rightarrow> nat \<Rightarrow> buffer_heap \<Rightarrow> buffer_heap res" where
  "hp_move this buffer s =
     rbind (hp_free (hb_buffer (hp_obj s this)) s) (\<lambda>s1.
     let b = hp_obj s1 buffer;
         s2 = hp_set this \<lparr>hb_buffer = hb_buffer b, hb_maxLen = hb_maxLen b, hb_writePos = hb_writePos b,
                hb_readPos = hb_readPos b, hb_lock = hb_lock b\<rparr> s1 in
     Inr (hp_set buffer ((hp_obj s2 buffer)\<lparr>hb_buffer := None, hb_writePos := 0, hb_readPos := 0,
            hb_maxLen := 0, hb_lock := False\<rparr>) s2))"

definition hp_readData :: "bool \<Rightarrow> nat \<Rightarrow> size_t \<Rightarrow> buffer_heap \<Rightarrow> (source option \<times> buffer_heap) res" where
  "hp_readData dbg i len s =
     (let b = hp_obj s i; ok = len \<le> hb_writePos b - hb_readPos b in
      rbind (MYASSERT dbg ok) (\<lambda>_.
      if \<not> ok then Inr (None, s)
      else Inr (Some (Place (hb_buffer b) (unat (hb_readPos b))), hp_set i (b\<lparr>hb_readPos := hb_readPos b + len\<rparr>) s)))"

definition hp_clear :: "bool \<Rightarrow> nat \<Rightarrow> buffer_heap \<Rightarrow> buffer_heap res" where
  "hp_clear dbg i s =
     (let b = hp_obj s i in
      rbind (MYASSERT dbg (hb_readPos b \<le> hb_writePos b)) (\<lambda>_.
      rbind (hp_load s (hb_buffer b)) (\<lambda>m0.
      rbind (memmove m0 0 (unat (hb_readPos b)) (unat (hb_writePos b - hb_readPos b))) (\<lambda>m.
      Inr (hp_set i (b\<lparr>hb_writePos := hb_writePos b - hb_readPos b, hb_readPos := 0\<rparr>) (hp_store (hb_buffer b) m s))))))"

definition hp_resize :: "bool \<Rightarrow> nat \<Rightarrow> size_t \<Rightarrow> buffer_heap \<Rightarrow> (bool \<times> buffer_heap) res" where
  "hp_resize dbg i len s =
     (let b = hp_obj s i in
      if hb_lock b then rbind (MYASSERT dbg False) (\<lambda>_. Inr (False, s))
      else if len > hb_maxLen b
      then rbind (hp_malloc0 (len * 2) s) (\<lambda>(newBuffer, s1).
           rbind (hp_load s1 (Some newBuffer)) (\<lambda>m0.
           rbind (hp_load s1 (hb_buffer b)) (\<lambda>old.
           rbind (memcpy m0 0 old 0 (unat (hb_writePos b))) (\<lambda>m.
           rbind (hp_free (hb_buffer b) (hp_store (Some newBuffer) m s1)) (\<lambda>s2.
           Inr (True, hp_set i (b\<lparr>hb_buffer := Some newBuffer, hb_maxLen := len * 2\<rparr>) s2))))))
      else Inr (True, s))"

definition hp_tail :: "bool \<Rightarrow> nat \<Rightarrow> source \<Rightarrow> size_t \<Rightarrow> buffer_heap \<Rightarrow> (bool \<times> buffer_heap) res" where
  "hp_tail dbg i base len s =
     (let b = hp_obj s i in
      if hb_lock b then rbind (MYASSERT dbg False) (\<lambda>_. Inr (False, s))
      else if len \<le> 0 then Inr (False, s)
      else rbind (MYASSERT dbg (len + hb_writePos b \<le> hb_maxLen b)) (\<lambda>_.
           rbind (hp_load s (hb_buffer b)) (\<lambda>m0.
           rbind (src_bytes s base) (\<lambda>x.
           rbind (memcpy m0 (unat (hb_writePos b)) x 0 (unat len)) (\<lambda>m.
           Inr (True, hp_set i (b\<lparr>hb_writePos := hb_writePos b + len\<rparr>) (hp_store (hb_buffer b) m s)))))))"

definition hp_tailData :: "bool \<Rightarrow> nat \<Rightarrow> source \<Rightarrow> size_t \<Rightarrow> buffer_heap \<Rightarrow> (bool \<times> buffer_heap) res" where
  "hp_tailData dbg i base len s =
     rbind (hp_resize dbg i (hb_writePos (hp_obj s i) + len) s) (\<lambda>(_, s'). hp_tail dbg i base len s')"

definition hp_tailNetBuffer :: "bool \<Rightarrow> nat \<Rightarrow> nat \<Rightarrow> buffer_heap \<Rightarrow> (bool \<times> buffer_heap) res" where
  "hp_tailNetBuffer dbg i j s =
     (if i = j then Inr (False, s)
      else hp_tailData dbg i (Place (hb_buffer (hp_obj s j)) 0) (hb_writePos (hp_obj s j)) s)"

definition hp_readBuffer :: "bool \<Rightarrow> nat \<Rightarrow> nat \<Rightarrow> buffer_heap \<Rightarrow> (bool \<times> buffer_heap) res" where
  "hp_readBuffer dbg i j s =
     (let b = hp_obj s i; buffer = hp_obj s j in
      if i = j then Inr (False, s)
      else if hb_writePos buffer \<ge> hb_maxLen buffer then Inr (False, s)
      else if \<not> hb_writePos b > 0 then Inr (False, s)
      else let len = min (hb_writePos b - hb_readPos b) (hb_maxLen buffer - hb_writePos buffer) in
        rbind (hp_readData dbg i len s) (\<lambda>(p, s').
        case p of None \<Rightarrow> Inr (False, s') | Some src \<Rightarrow> hp_tail dbg j src len s'))"

section \<open>Programs over buffers\<close>

datatype buffer_cmd =
    New nat size_t | Delete nat | Move nat nat | Clear nat | Read nat size_t
  | Tail nat bytes | TailBuffer nat nat | ReadBuffer nat nat

text \<open>The objects a command uses.\<close>

fun cmd_objs :: "buffer_cmd \<Rightarrow> nat list" where
  "cmd_objs (New i n) = []"
| "cmd_objs (Delete i) = [i]"
| "cmd_objs (Move i j) = [i, j]"
| "cmd_objs (Clear i) = [i]"
| "cmd_objs (Read i n) = [i]"
| "cmd_objs (Tail i x) = [i]"
| "cmd_objs (TailBuffer i j) = [i, j]"
| "cmd_objs (ReadBuffer i j) = [i, j]"

definition cmd_legal :: "(nat \<rightharpoonup> 'a) \<Rightarrow> buffer_cmd \<Rightarrow> bool" where
  "cmd_legal objs c \<longleftrightarrow> list_all (\<lambda>i. objs i \<noteq> None) (cmd_objs c) \<and> (case c of New i n \<Rightarrow> objs i = None | _ \<Rightarrow> True)"

fun hp_cmd :: "bool \<Rightarrow> buffer_cmd \<Rightarrow> buffer_heap \<Rightarrow> buffer_heap res" where
  "hp_cmd dbg (New i n) s = hp_new i n s"
| "hp_cmd dbg (Delete i) s = hp_destroy i s"
| "hp_cmd dbg (Move i j) s = hp_move i j s"
| "hp_cmd dbg (Clear i) s = hp_clear dbg i s"
| "hp_cmd dbg (Read i n) s = rbind (hp_readData dbg i n s) (\<lambda>(_, s'). Inr s')"
| "hp_cmd dbg (Tail i x) s = rbind (hp_tailData dbg i (Bytes x) (of_nat (length x)) s) (\<lambda>(_, s'). Inr s')"
| "hp_cmd dbg (TailBuffer i j) s = rbind (hp_tailNetBuffer dbg i j s) (\<lambda>(_, s'). Inr s')"
| "hp_cmd dbg (ReadBuffer i j) s = rbind (hp_readBuffer dbg i j s) (\<lambda>(_, s'). Inr s')"

text \<open>The same with the buffers of \<open>Net_Buffer\<close>. A buffer that is moved to itself is left empty.\<close>

type_synonym buffers = "nat \<rightharpoonup> net_buffer"

fun nb_cmd :: "bool \<Rightarrow> buffer_cmd \<Rightarrow> buffers \<Rightarrow> buffers res" where
  "nb_cmd dbg (New i n) v = rbind (netBuffer n) (\<lambda>b. Inr (v(i \<mapsto> b)))"
| "nb_cmd dbg (Delete i) v = Inr (v(i := None))"
| "nb_cmd dbg (Move i j) v = (case move_assign (the (v i)) (the (v j)) of (b, c) \<Rightarrow> Inr (v(i \<mapsto> b, j \<mapsto> c)))"
| "nb_cmd dbg (Clear i) v = rbind (clearReadBuffer dbg (the (v i))) (\<lambda>b. Inr (v(i \<mapsto> b)))"
| "nb_cmd dbg (Read i n) v = rbind (readData dbg (the (v i)) n) (\<lambda>(_, b). Inr (v(i \<mapsto> b)))"
| "nb_cmd dbg (Tail i x) v = rbind (tailData dbg (the (v i)) x (of_nat (length x))) (\<lambda>(_, b). Inr (v(i \<mapsto> b)))"
| "nb_cmd dbg (TailBuffer i j) v =
     rbind (tailNetBuffer dbg (i = j) (the (v i)) (the (v j))) (\<lambda>(_, b). Inr (v(i \<mapsto> b)))"
| "nb_cmd dbg (ReadBuffer i j) v =
     rbind (readBuffer dbg (i = j) (the (v i)) (the (v j))) (\<lambda>(_, b, c). Inr (v(i \<mapsto> b, j \<mapsto> c)))"

text \<open>A program stops at a command that uses an object which does not exist.\<close>

fun hp_run :: "bool \<Rightarrow> buffer_cmd list \<Rightarrow> buffer_heap \<Rightarrow> buffer_heap res option" where
  "hp_run dbg [] s = Some (Inr s)"
| "hp_run dbg (c # cs) s =
     (if cmd_legal (hp_objs s) c
      then (case hp_cmd dbg c s of Inl e \<Rightarrow> Some (Inl e) | Inr s' \<Rightarrow> hp_run dbg cs s')
      else None)"

fun nb_run :: "bool \<Rightarrow> buffer_cmd list \<Rightarrow> buffers \<Rightarrow> buffers res option" where
  "nb_run dbg [] v = Some (Inr v)"
| "nb_run dbg (c # cs) v =
     (if cmd_legal v c
      then (case nb_cmd dbg c v of Inl e \<Rightarrow> Some (Inl e) | Inr v' \<Rightarrow> nb_run dbg cs v')
      else None)"

section \<open>Who owns a block\<close>

definition hp_view :: "buffer_heap \<Rightarrow> heap_buffer \<Rightarrow> net_buffer" where
  "hp_view s b =
     \<lparr>m_buffer = (case hp_load s (hb_buffer b) of Inl _ \<Rightarrow> [] | Inr m \<Rightarrow> m), m_maxLen = hb_maxLen b,
      m_writePos = hb_writePos b, m_readPos = hb_readPos b, m_lock = hb_lock b\<rparr>"

definition hp_views :: "buffer_heap \<Rightarrow> buffers" where
  "hp_views s i = map_option (hp_view s) (hp_objs s i)"

text \<open>The object \<open>i\<close> has the block \<open>a\<close>.\<close>

definition owns :: "buffer_heap \<Rightarrow> nat \<Rightarrow> addr \<Rightarrow> bool" where
  "owns s i a \<longleftrightarrow> (\<exists>b. hp_objs s i = Some b \<and> hb_buffer b = Some a)"

definition hp_inv :: "buffer_heap \<Rightarrow> bool" where
  "hp_inv s \<longleftrightarrow> (\<forall>i a. owns s i a \<longrightarrow> hp_blocks s a \<noteq> None) \<and>
     (\<forall>i j a. owns s i a \<and> owns s j a \<longrightarrow> i = j) \<and>
     (\<forall>a. hp_blocks s a \<noteq> None \<longrightarrow> (\<exists>i. owns s i a) \<and> a < hp_next s)"

lemma hp_load_owned:
  assumes "hp_inv s" and "hp_objs s i = Some b"
  shows "hp_load s (hb_buffer b) = Inr (m_buffer (hp_view s b))"
proof (cases "hb_buffer b")
  case (Some a)
  then have "owns s i a" using assms(2) by (simp add: owns_def)
  then have "hp_blocks s a \<noteq> None" using assms(1) unfolding hp_inv_def by blast
  then show ?thesis by (auto simp: hp_view_def hp_load_def Some)
qed (simp add: hp_view_def hp_load_def)

lemma hp_view_fields [simp]:
  "m_maxLen (hp_view s b) = hb_maxLen b" "m_writePos (hp_view s b) = hb_writePos b"
  "m_readPos (hp_view s b) = hb_readPos b" "m_lock (hp_view s b) = hb_lock b"
  by (simp_all add: hp_view_def)

lemma hp_view_update:
  "(hp_view s b)\<lparr>m_buffer := m, m_writePos := w\<rparr> =
     \<lparr>m_buffer = m, m_maxLen = hb_maxLen b, m_writePos = w, m_readPos = hb_readPos b, m_lock = hb_lock b\<rparr>"
  "(hp_view s b)\<lparr>m_buffer := m, m_maxLen := l\<rparr> =
     \<lparr>m_buffer = m, m_maxLen = l, m_writePos = hb_writePos b, m_readPos = hb_readPos b, m_lock = hb_lock b\<rparr>"
  "(hp_view s b)\<lparr>m_buffer := m, m_writePos := w, m_readPos := r\<rparr> =
     \<lparr>m_buffer = m, m_maxLen = hb_maxLen b, m_writePos = w, m_readPos = r, m_lock = hb_lock b\<rparr>"
  "(hp_view s b)\<lparr>m_readPos := r\<rparr> = \<lparr>m_buffer = m_buffer (hp_view s b), m_maxLen = hb_maxLen b,
     m_writePos = hb_writePos b, m_readPos = r, m_lock = hb_lock b\<rparr>"
  by (simp_all add: hp_view_def)

lemma hp_view_objs [simp]: "hp_view (s\<lparr>hp_objs := v\<rparr>) b = hp_view s b"
  by (simp add: hp_view_def hp_load_def cong: option.case_cong)

lemma hp_views_Some: "hp_objs s i = Some b \<Longrightarrow> hp_views s i = Some (hp_view s b)"
  by (simp add: hp_views_def)

text \<open>Two buffers that point to different blocks, or to none.\<close>

lemma hp_load_other:
  assumes "hp_inv s" and "hp_objs s i = Some b" and "hp_objs s j = Some c" and "i \<noteq> j"
  shows "hb_buffer c = None \<or> hb_buffer c \<noteq> hb_buffer b"
proof (rule ccontr)
  assume "\<not> ?thesis"
  then obtain a where "hb_buffer c = Some a" "hb_buffer b = Some a" by (cases "hb_buffer c") auto
  then have "owns s i a" "owns s j a" using assms(2,3) by (simp_all add: owns_def)
  then show False using assms(1,4) unfolding hp_inv_def by blast
qed

text \<open>The views after a change of one object that left the blocks of the others alone.\<close>

lemma hp_views_change:
  assumes "hp_objs t = (hp_objs s)(i := x)"
    and "\<And>j c. hp_objs s j = Some c \<Longrightarrow> j \<noteq> i \<Longrightarrow> hp_load t (hb_buffer c) = hp_load s (hb_buffer c)"
  shows "hp_views t = (hp_views s)(i := map_option (hp_view t) x)"
proof
  fix j
  show "hp_views t j = ((hp_views s)(i := map_option (hp_view t) x)) j"
    using assms(2) [of j] by (cases "hp_objs s j") (simp_all add: hp_views_def assms(1) hp_view_def)
qed

text \<open>A member that writes its own block and its other fields.\<close>

lemma hp_in_place:
  fixes m :: bytes
  assumes inv: "hp_inv s" and i: "hp_objs s i = Some b" and p: "hb_buffer b' = hb_buffer b"
    and m: "hb_buffer b = None \<Longrightarrow> m = []"
  defines "s' \<equiv> hp_set i b' (hp_store (hb_buffer b) m s)"
  shows "hp_inv s'" and "hp_views s' = (hp_views s)(i \<mapsto> \<lparr>m_buffer = m, m_maxLen = hb_maxLen b',
      m_writePos = hb_writePos b', m_readPos = hb_readPos b', m_lock = hb_lock b'\<rparr>)"
proof -
  have objs: "hp_objs s' = (hp_objs s)(i \<mapsto> b')" by (simp add: s'_def hp_set_def hp_store_def split: option.splits)
  have own: "owns s' = owns s" using i p by (auto simp: fun_eq_iff owns_def objs)
  have dom: "hp_blocks s' a \<noteq> None \<longleftrightarrow> hp_blocks s a \<noteq> None" for a
  proof (cases "hb_buffer b")
    case (Some a')
    then have "owns s i a'" using i by (simp add: owns_def)
    then have "hp_blocks s a' \<noteq> None" using inv unfolding hp_inv_def by blast
    then show ?thesis by (auto simp: s'_def hp_set_def hp_store_def Some)
  qed (simp add: s'_def hp_set_def hp_store_def)
  have next': "hp_next s' = hp_next s" by (simp add: s'_def hp_set_def hp_store_def split: option.splits)
  show "hp_inv s'" using inv unfolding hp_inv_def own dom next' .
  show "hp_views s' = (hp_views s)(i \<mapsto> \<lparr>m_buffer = m, m_maxLen = hb_maxLen b',
      m_writePos = hb_writePos b', m_readPos = hb_readPos b', m_lock = hb_lock b'\<rparr>)"
  proof -
    have "hp_load s' (hb_buffer c) = hp_load s (hb_buffer c)" if "hp_objs s j = Some c" "j \<noteq> i" for j c
      using hp_load_other [OF inv i that(1)] that(2)
      by (auto simp: s'_def hp_set_def hp_store_def hp_load_def split: option.splits)
    from hp_views_change [OF objs this] show ?thesis using p m
      by (simp add: hp_view_def s'_def hp_set_def hp_store_def hp_load_def split: option.splits)
  qed
qed

text \<open>Fields only: the block is stored back.\<close>

lemma hp_store_back: "hp_inv s \<Longrightarrow> hp_objs s i = Some b \<Longrightarrow> hp_store (hb_buffer b) (m_buffer (hp_view s b)) s = s"
  using hp_load_owned [of s i b]
  by (auto simp: hp_store_def hp_load_def fun_upd_idem split: option.splits)

lemma hp_in_fields:
  assumes inv: "hp_inv s" and i: "hp_objs s i = Some b" and p: "hb_buffer b' = hb_buffer b"
  shows "hp_inv (hp_set i b' s)" and "hp_views (hp_set i b' s) = (hp_views s)(i \<mapsto> \<lparr>m_buffer = m_buffer (hp_view s b),
      m_maxLen = hb_maxLen b', m_writePos = hb_writePos b', m_readPos = hb_readPos b', m_lock = hb_lock b'\<rparr>)"
proof -
  have "hb_buffer b = None \<Longrightarrow> m_buffer (hp_view s b) = []" by (simp add: hp_view_def hp_load_def)
  note P = hp_in_place [OF inv i p this, unfolded hp_store_back [OF inv i]]
  from P show "hp_inv (hp_set i b' s)" by simp
  from P show "hp_views (hp_set i b' s) = (hp_views s)(i \<mapsto> \<lparr>m_buffer = m_buffer (hp_view s b),
      m_maxLen = hb_maxLen b', m_writePos = hb_writePos b', m_readPos = hb_readPos b', m_lock = hb_lock b'\<rparr>)" by simp
qed

text \<open>A new block for an object, with what it had freed.\<close>

lemma hp_new_block:
  fixes m :: bytes
  assumes inv: "hp_inv s" and p: "p = (case hp_objs s i of None \<Rightarrow> None | Some b \<Rightarrow> hb_buffer b)"
    and b': "hb_buffer b' = Some (hp_next s)"
  defines "s1 \<equiv> s\<lparr>hp_blocks := (hp_blocks s)(hp_next s \<mapsto> m), hp_next := hp_next s + 1\<rparr>"
  shows "\<exists>s2. hp_free p s1 = Inr s2 \<and> hp_inv (hp_set i b' s2) \<and>
    hp_views (hp_set i b' s2) = (hp_views s)(i \<mapsto> \<lparr>m_buffer = m, m_maxLen = hb_maxLen b',
      m_writePos = hb_writePos b', m_readPos = hb_readPos b', m_lock = hb_lock b'\<rparr>)"
proof -
  let ?a = "hp_next s"
  have fresh: "hp_blocks s ?a = None" using inv unfolding hp_inv_def by blast
  have pown: "p = Some x \<Longrightarrow> owns s i x" for x by (simp add: p owns_def split: option.splits)
  have alloc: "owns s j x \<Longrightarrow> hp_blocks s x \<noteq> None" for j x using inv unfolding hp_inv_def by blast
  have uniq: "owns s j x \<Longrightarrow> owns s k x \<Longrightarrow> j = k" for j k x using inv unfolding hp_inv_def by blast
  define s2 where "s2 = s\<lparr>hp_blocks := (\<lambda>x. if x = ?a then Some m else if p = Some x then None else hp_blocks s x), hp_next := ?a + 1\<rparr>"
  have pa: "p \<noteq> Some ?a" using pown alloc fresh by blast
  have free: "hp_free p s1 = Inr s2"
  proof (cases p)
    case None
    then show ?thesis by (auto simp: hp_free_def s1_def s2_def fun_eq_iff)
  next
    case (Some x)
    then have "hp_blocks s x \<noteq> None" "x \<noteq> ?a" using alloc pown pa by auto
    then show ?thesis using Some by (auto simp: hp_free_def s1_def s2_def fun_eq_iff)
  qed
  let ?t = "hp_set i b' s2"
  have f: "hp_objs ?t = (hp_objs s)(i \<mapsto> b')" "hp_next ?t = ?a + 1"
      "hp_blocks ?t = (\<lambda>x. if x = ?a then Some m else if p = Some x then None else hp_blocks s x)"
    by (simp_all add: hp_set_def s2_def)
  have own: "owns ?t j x \<longleftrightarrow> (if j = i then x = ?a else owns s j x)" for j x
    by (auto simp: owns_def f(1) b')
  have keep: "x \<noteq> ?a \<and> p \<noteq> Some x" if "owns s j x" "j \<noteq> i" for j x
    using alloc [OF that(1)] fresh uniq [OF that(1)] pown that(2) by blast
  have "hp_inv ?t" unfolding hp_inv_def
  proof (intro conjI allI impI)
    fix j x assume "owns ?t j x"
    then show "hp_blocks ?t x \<noteq> None" using alloc keep by (auto simp: own f(3) split: if_splits)
  next
    fix j k x assume "owns ?t j x \<and> owns ?t k x"
    then show "j = k" using uniq [of j x k] keep [of j x] keep [of k x] by (auto simp: own split: if_splits)
  next
    fix x assume b: "hp_blocks ?t x \<noteq> None"
    then have "x = ?a \<or> hp_blocks s x \<noteq> None" by (auto simp: f(3) split: if_splits)
    then show "x < hp_next ?t" using inv unfolding hp_inv_def f(2) by auto
    show "\<exists>j. owns ?t j x"
    proof (cases "x = ?a")
      case False
      then have x: "hp_blocks s x \<noteq> None" "p \<noteq> Some x" using b by (auto simp: f(3) split: if_splits)
      then obtain j where j: "owns s j x" using inv unfolding hp_inv_def by blast
      then have "j \<noteq> i" using x(2) by (auto simp: p owns_def)
      then show ?thesis using j own by auto
    qed (auto simp: own)
  qed
  moreover have "hp_views ?t = (hp_views s)(i \<mapsto> \<lparr>m_buffer = m, m_maxLen = hb_maxLen b',
      m_writePos = hb_writePos b', m_readPos = hb_readPos b', m_lock = hb_lock b'\<rparr>)" (is "_ = ?v")
  proof -
    have "hp_load ?t (hb_buffer c) = hp_load s (hb_buffer c)" if "hp_objs s j = Some c" "j \<noteq> i" for j c
    proof (cases "hb_buffer c")
      case (Some x)
      then have "owns s j x" using that(1) by (simp add: owns_def)
      from keep [OF this that(2)] Some show ?thesis by (simp add: hp_load_def f(3))
    qed (simp add: hp_load_def)
    from hp_views_change [OF f(1) this] show ?thesis by (simp add: hp_view_def hp_load_def f(3) b')
  qed
  ultimately show ?thesis using free by blast
qed

section \<open>Every member does what the model without addresses does\<close>

text \<open>The outcome of a call on \<open>i\<close> that changes only this object.\<close>

definition same_call :: "nat \<Rightarrow> buffer_heap \<Rightarrow> (bool \<times> buffer_heap) res \<Rightarrow> (bool \<times> net_buffer) res \<Rightarrow> bool" where
  "same_call i s h n \<longleftrightarrow>
     (case n of Inl e \<Rightarrow> h = Inl e
      | Inr (r, b) \<Rightarrow> \<exists>s'. h = Inr (r, s') \<and> hp_inv s' \<and> hp_views s' = (hp_views s)(i \<mapsto> b) \<and>
        (\<forall>j. j \<noteq> i \<longrightarrow> hp_objs s' j = hp_objs s j))"

lemma same_callI:
  "hp_inv s' \<Longrightarrow> hp_views s' = (hp_views s)(i \<mapsto> b) \<Longrightarrow> (\<And>j. j \<noteq> i \<Longrightarrow> hp_objs s' j = hp_objs s j) \<Longrightarrow>
   same_call i s (Inr (r, s')) (Inr (r, b))"
  by (simp add: same_call_def)

lemma same_callE:
  assumes "same_call i s h n"
  obtains (Fault) e where "n = Inl e" "h = Inl e"
    | (Done) r b s' c where "n = Inr (r, b)" "h = Inr (r, s')" "hp_inv s'" "hp_views s' = (hp_views s)(i \<mapsto> b)"
        "\<And>j. j \<noteq> i \<Longrightarrow> hp_objs s' j = hp_objs s j" "hp_objs s' i = Some c" "hp_view s' c = b"
proof (cases n)
  case (Inl e)
  then show ?thesis using assms Fault by (simp add: same_call_def)
next
  case (Inr rb)
  obtain r b where rb: "rb = (r, b)" by (cases rb)
  with assms Inr obtain s' where s': "h = Inr (r, s')" "hp_inv s'" "hp_views s' = (hp_views s)(i \<mapsto> b)"
      "\<forall>j. j \<noteq> i \<longrightarrow> hp_objs s' j = hp_objs s j" by (auto simp: same_call_def)
  have "hp_views s' i = Some b" by (simp add: s'(3))
  then obtain c where "hp_objs s' i = Some c" "hp_view s' c = b" by (auto simp: hp_views_def)
  with s' Inr rb show ?thesis using Done by auto
qed

lemma same_call_Inl [simp]: "same_call i s (Inl e) (Inl e)"
  by (simp add: same_call_def)

lemma same_call_stays:
  "hp_inv s \<Longrightarrow> hp_objs s i = Some b \<Longrightarrow> same_call i s (Inr (r, s)) (Inr (r, hp_view s b))"
  by (rule same_callI) (auto simp: hp_views_def fun_eq_iff)

lemma hp_set_objs [simp]: "hp_objs (hp_set i b s) = (hp_objs s)(i \<mapsto> b)"
  by (simp add: hp_set_def)

lemma hp_store_objs [simp]: "hp_objs (hp_store p m s) = hp_objs s"
  by (simp add: hp_store_def split: option.splits)

lemma hp_free_objs: "hp_free p s = Inr s' \<Longrightarrow> hp_objs s' = hp_objs s"
  by (auto simp: hp_free_def split: option.splits if_splits)

lemma hp_tail_same:
  assumes inv: "hp_inv s" and i: "hp_objs s i = Some b" and x: "src_bytes s src = Inr x"
  shows "same_call i s (hp_tail dbg i src len s) (nb_tail dbg (hp_view s b) x len)"
proof -
  have o: "hp_obj s i = b" using i by (simp add: hp_obj_def)
  consider "hb_lock b \<or> len = 0" | "\<not> hb_lock b" "len \<noteq> 0" by blast
  then show ?thesis
  proof cases
    case 1
    then show ?thesis using same_call_stays [OF inv i, of False]
      by (cases dbg) (auto simp: hp_tail_def nb_tail_def o Let_def)
  next
    case 2
    let ?m0 = "m_buffer (hp_view s b)" and ?b' = "b\<lparr>hb_writePos := hb_writePos b + len\<rparr>"
    have nil: "hb_buffer b = None \<Longrightarrow> ?m0 = []" by (simp add: hp_view_def hp_load_def)
    show ?thesis
    proof (cases "memcpy ?m0 (unat (hb_writePos b)) x 0 (unat len)")
      case (Inl e)
      then show ?thesis using 2 by (cases "MYASSERT dbg (len + hb_writePos b \<le> hb_maxLen b)")
        (simp_all add: hp_tail_def nb_tail_def o Let_def hp_load_owned [OF inv i] x)
    next
      case (Inr m)
      have "hb_buffer b = None \<Longrightarrow> m = []" using nil memcpy_length [OF Inr] by simp
      note P = hp_in_place [OF inv i _ this, of ?b']
      show ?thesis using 2 P Inr by (cases "MYASSERT dbg (len + hb_writePos b \<le> hb_maxLen b)")
        (simp_all add: hp_tail_def nb_tail_def o Let_def hp_load_owned [OF inv i] x same_callI hp_view_update)
    qed
  qed
qed

lemma hp_resize_same:
  assumes inv: "hp_inv s" and i: "hp_objs s i = Some b"
  shows "same_call i s (hp_resize dbg i len s) (resize dbg (hp_view s b) len)"
proof -
  have o: "hp_obj s i = b" using i by (simp add: hp_obj_def)
  consider "hb_lock b \<or> \<not> len > hb_maxLen b" | "\<not> hb_lock b" "len > hb_maxLen b" by blast
  then show ?thesis
  proof cases
    case 1
    then show ?thesis using same_call_stays [OF inv i]
      by (cases dbg) (auto simp: hp_resize_def resize_def o Let_def)
  next
    case 2
    let ?m0 = "m_buffer (hp_view s b)" and ?a = "hp_next s"
    let ?b' = "b\<lparr>hb_buffer := Some ?a, hb_maxLen := len * 2\<rparr>"
    have fresh: "hb_buffer b \<noteq> Some ?a"
      using inv i unfolding hp_inv_def owns_def by blast
    show ?thesis
    proof (cases "malloc0 (len * 2)")
      case (Inl e)
      then show ?thesis using 2 by (simp add: hp_resize_def resize_def hp_malloc0_def o Let_def)
    next
      case (Inr m1)
      let ?s1 = "s\<lparr>hp_blocks := (hp_blocks s)(?a \<mapsto> m1), hp_next := ?a + 1\<rparr>"
      have old: "hp_load ?s1 (hb_buffer b) = Inr ?m0"
        using hp_load_owned [OF inv i] fresh by (auto simp: hp_load_def split: option.splits)
      have new: "hp_load ?s1 (Some ?a) = Inr m1" by (simp add: hp_load_def)
      show ?thesis
      proof (cases "memcpy m1 0 ?m0 0 (unat (hb_writePos b))")
        case (Inl e)
        then show ?thesis using 2 Inr old new by (simp add: hp_resize_def resize_def hp_malloc0_def o Let_def)
      next
        case M: (Inr m)
        have st: "hp_store (Some ?a) m ?s1 = s\<lparr>hp_blocks := (hp_blocks s)(?a \<mapsto> m), hp_next := ?a + 1\<rparr>"
          by (simp add: hp_store_def)
        obtain s2 where s2: "hp_free (hb_buffer b) (hp_store (Some ?a) m ?s1) = Inr s2" "hp_inv (hp_set i ?b' s2)"
            "hp_views (hp_set i ?b' s2) = (hp_views s)(i \<mapsto> \<lparr>m_buffer = m, m_maxLen = hb_maxLen ?b',
              m_writePos = hb_writePos ?b', m_readPos = hb_readPos ?b', m_lock = hb_lock ?b'\<rparr>)"
          using hp_new_block [OF inv _ _, of "hb_buffer b" i ?b' m] i unfolding st by auto
        have "hp_objs s2 = hp_objs s" using hp_free_objs [OF s2(1)] by simp
        then show ?thesis using 2 Inr M old new s2
          by (simp add: hp_resize_def resize_def hp_malloc0_def o Let_def same_callI hp_view_update)
      qed
    qed
  qed
qed

text \<open>The state of the other objects.\<close>

definition others_kept :: "nat \<Rightarrow> buffer_heap \<Rightarrow> buffer_heap \<Rightarrow> bool" where
  "others_kept i s s' \<longleftrightarrow> (\<forall>j. j \<noteq> i \<longrightarrow> hp_objs s' j = hp_objs s j \<and> hp_views s' j = hp_views s j)"

lemma hp_tailData_same:
  assumes inv: "hp_inv s" and i: "hp_objs s i = Some b"
    and x: "\<And>s'. hp_inv s' \<Longrightarrow> others_kept i s s' \<Longrightarrow> src_bytes s' src = Inr x"
  shows "same_call i s (hp_tailData dbg i src len s) (tailData dbg (hp_view s b) x len)"
  using hp_resize_same [OF inv i, of dbg "hb_writePos b + len"]
proof (cases rule: same_callE)
  case (Fault e)
  then show ?thesis using i by (simp add: hp_tailData_def tailData_def hp_obj_def)
next
  case (Done r b1 s1 c)
  have "src_bytes s1 src = Inr x" using Done(3-5) by (intro x) (simp_all add: others_kept_def)
  from hp_tail_same [OF Done(3,6) this, of dbg len] show ?thesis
  proof (cases rule: same_callE)
    case Fault
    then show ?thesis using i Done by (simp add: hp_tailData_def tailData_def hp_obj_def)
  next
    case (Done r' b2 s2)
    then show ?thesis using i \<open>hp_resize _ _ _ _ = _\<close> \<open>resize _ _ _ = _\<close> \<open>hp_views s1 = _\<close>
        \<open>\<And>j. j \<noteq> i \<Longrightarrow> hp_objs s1 j = hp_objs s j\<close> \<open>hp_view s1 c = b1\<close>
      by (simp add: hp_tailData_def tailData_def hp_obj_def same_callI)
  qed
qed

lemma hp_tailNetBuffer_same:
  assumes inv: "hp_inv s" and i: "hp_objs s i = Some b" and j: "hp_objs s j = Some c"
  shows "same_call i s (hp_tailNetBuffer dbg i j s) (tailNetBuffer dbg (i = j) (hp_view s b) (hp_view s c))"
proof (cases "i = j")
  case True
  then show ?thesis using same_call_stays [OF inv i] by (simp add: hp_tailNetBuffer_def tailNetBuffer_def)
next
  case False
  have src: "src_bytes s' (Place (hb_buffer c) 0) = Inr (m_buffer (hp_view s c))"
    if s': "hp_inv s'" "others_kept i s s'" for s'
  proof -
    have o: "hp_objs s' j = Some c" "hp_views s' j = hp_views s j" using s'(2) False j by (simp_all add: others_kept_def)
    then have "hp_view s' c = hp_view s c" using j by (simp add: hp_views_def)
    then show ?thesis using hp_load_owned [OF s'(1) o(1)] by (simp add: src_bytes_def)
  qed
  have "same_call i s (hp_tailData dbg i (Place (hb_buffer c) 0) (hb_writePos c) s)
      (tailData dbg (hp_view s b) (m_buffer (hp_view s c)) (hb_writePos c))"
    by (rule hp_tailData_same [OF inv i]) (rule src)
  then show ?thesis using False j by (simp add: hp_tailNetBuffer_def tailNetBuffer_def hp_obj_def nb_length_def)
qed

lemma hp_clear_same:
  assumes inv: "hp_inv s" and i: "hp_objs s i = Some b"
  shows "same_call i s (rbind (hp_clear dbg i s) (\<lambda>s'. Inr (True, s')))
    (rbind (clearReadBuffer dbg (hp_view s b)) (\<lambda>b'. Inr (True, b')))"
proof -
  have o: "hp_obj s i = b" using i by (simp add: hp_obj_def)
  let ?m0 = "m_buffer (hp_view s b)" and ?b' = "b\<lparr>hb_writePos := hb_writePos b - hb_readPos b, hb_readPos := 0\<rparr>"
  have nil: "hb_buffer b = None \<Longrightarrow> ?m0 = []" by (simp add: hp_view_def hp_load_def)
  show ?thesis
  proof (cases "memmove ?m0 0 (unat (hb_readPos b)) (unat (hb_writePos b - hb_readPos b))")
    case (Inl e)
    then show ?thesis by (cases "MYASSERT dbg (hb_readPos b \<le> hb_writePos b)")
      (simp_all add: hp_clear_def clearReadBuffer_def o Let_def hp_load_owned [OF inv i])
  next
    case (Inr m)
    have "hb_buffer b = None \<Longrightarrow> m = []" using nil memcpy_length [OF Inr [unfolded memmove_def]] by simp
    note P = hp_in_place [OF inv i _ this, of ?b']
    show ?thesis using P Inr by (cases "MYASSERT dbg (hb_readPos b \<le> hb_writePos b)")
      (simp_all add: hp_clear_def clearReadBuffer_def o Let_def hp_load_owned [OF inv i] same_callI hp_view_update)
  qed
qed

lemma hp_readData_same:
  assumes inv: "hp_inv s" and i: "hp_objs s i = Some b"
  shows "case readData dbg (hp_view s b) n of Inl e \<Rightarrow> hp_readData dbg i n s = Inl e
    | Inr (p, b') \<Rightarrow> hp_inv (hp_set i (b\<lparr>hb_readPos := m_readPos b'\<rparr>) s) \<and>
        hp_readData dbg i n s = Inr (map_option (\<lambda>k. Place (hb_buffer b) (unat k)) p, hp_set i (b\<lparr>hb_readPos := m_readPos b'\<rparr>) s) \<and>
        hp_views (hp_set i (b\<lparr>hb_readPos := m_readPos b'\<rparr>) s) = (hp_views s)(i \<mapsto> b')"
proof -
  have o: "hp_obj s i = b" using i by (simp add: hp_obj_def)
  have stay: "hp_set i b s = s" using i by (simp add: hp_set_def fun_upd_idem)
  let ?ok = "n \<le> hb_writePos b - hb_readPos b"
  note P = hp_in_fields [OF inv i, of "b\<lparr>hb_readPos := hb_readPos b + n\<rparr>"]
  show ?thesis
  proof (cases ?ok)
    case True
    then show ?thesis using P
      by (simp add: readData_def hp_readData_def o Let_def canRead_def needReadLength_def hp_view_update)
  next
    case False
    then show ?thesis using same_call_stays [OF inv i] inv i
      by (cases dbg) (simp_all add: readData_def hp_readData_def o Let_def canRead_def needReadLength_def stay same_call_def)
  qed
qed

lemma hp_readBuffer_same:
  assumes inv: "hp_inv s" and i: "hp_objs s i = Some b" and j: "hp_objs s j = Some c"
  shows "case readBuffer dbg (i = j) (hp_view s b) (hp_view s c) of Inl e \<Rightarrow> hp_readBuffer dbg i j s = Inl e
    | Inr (r, b', c') \<Rightarrow> \<exists>s'. hp_readBuffer dbg i j s = Inr (r, s') \<and> hp_inv s' \<and>
        hp_views s' = (hp_views s)(i \<mapsto> b', j \<mapsto> c')"
proof -
  let ?b = "hp_view s b" and ?c = "hp_view s c"
  have o: "hp_obj s i = b" "hp_obj s j = c" using i j by (simp_all add: hp_obj_def)
  have v: "hp_views s i = Some ?b" "hp_views s j = Some ?c" using i j by (simp_all add: hp_views_def)
  then have stay: "(hp_views s)(i \<mapsto> ?b, j \<mapsto> ?c) = hp_views s" by (auto simp: fun_eq_iff)
  show ?thesis
  proof (cases "i = j \<or> isFull ?c \<or> \<not> hasWrite ?b")
    case True
    then show ?thesis using inv stay o
      by (auto simp: readBuffer_def hp_readBuffer_def Let_def isFull_def hasWrite_def nb_length_def)
  next
    case False
    define len where "len = min (hb_writePos b - hb_readPos b) (hb_maxLen c - hb_writePos c)"
    have L: "hp_readBuffer dbg i j s = rbind (hp_readData dbg i len s) (\<lambda>(p, s').
          case p of None \<Rightarrow> Inr (False, s') | Some src \<Rightarrow> hp_tail dbg j src len s')"
      "readBuffer dbg (i = j) ?b ?c = rbind (readData dbg ?b len) (\<lambda>(p, b'). case p of None \<Rightarrow> Inr (False, b', ?c)
          | Some off \<Rightarrow> rbind (nb_tail dbg ?c (drop (unat off) (m_buffer b')) len) (\<lambda>(result, c'). Inr (result, b', c')))"
      unfolding len_def using False
      by (simp_all add: readBuffer_def hp_readBuffer_def o Let_def isFull_def hasWrite_def nb_length_def maxLength_def)
    show ?thesis
    proof (cases "readData dbg ?b len")
      case (Inl e)
      then show ?thesis using hp_readData_same [OF inv i, of dbg len] by (simp add: L)
    next
      case R: (Inr pb)
      obtain p b' where pb: "pb = (p, b')" by (cases pb)
      define s1 where "s1 = hp_set i (b\<lparr>hb_readPos := m_readPos b'\<rparr>) s"
      have s1: "hp_inv s1" "hp_views s1 = (hp_views s)(i \<mapsto> b')"
          "hp_readData dbg i len s = Inr (map_option (\<lambda>k. Place (hb_buffer b) (unat k)) p, s1)"
        using hp_readData_same [OF inv i, of dbg len] unfolding R pb by (simp_all add: s1_def)
      have o1: "hp_objs s1 i = Some (b\<lparr>hb_readPos := m_readPos b'\<rparr>)" "hp_objs s1 j = Some c"
        using False j by (simp_all add: s1_def)
      have v1: "hp_view s1 (b\<lparr>hb_readPos := m_readPos b'\<rparr>) = b'" "hp_view s1 c = ?c"
        using fun_cong [OF s1(2), of i] fun_cong [OF s1(2), of j] o1 False j by (simp_all add: hp_views_def)
      show ?thesis
      proof (cases p)
        case None
        then show ?thesis unfolding L using R pb s1 v(2) False by (auto simp: fun_eq_iff)
      next
        case (Some off)
        have src: "src_bytes s1 (Place (hb_buffer b) (unat off)) = Inr (drop (unat off) (m_buffer b'))"
          using hp_load_owned [OF s1(1) o1(1)] v1(1) by (simp add: src_bytes_def)
        from hp_tail_same [OF s1(1) o1(2) src, of dbg len, unfolded v1(2)] show ?thesis
          by (cases rule: same_callE) (unfold L, use R pb s1 Some in simp_all)
      qed
    qed
  qed
qed

text \<open>The end of an object, and a block that goes from one object to another.\<close>

lemma hp_release:
  assumes inv: "hp_inv s" and i: "hp_objs s i = Some b" and n: "\<And>c. x = Some c \<Longrightarrow> hb_buffer c = None"
  shows "\<exists>s1. hp_free (hb_buffer b) s = Inr s1 \<and> hp_objs s1 = hp_objs s \<and>
    hp_inv (s1\<lparr>hp_objs := (hp_objs s)(i := x)\<rparr>) \<and>
    hp_views (s1\<lparr>hp_objs := (hp_objs s)(i := x)\<rparr>) = (hp_views s)(i := map_option (hp_view s) x)"
proof -
  let ?p = "hb_buffer b"
  have alloc: "owns s j a \<Longrightarrow> hp_blocks s a \<noteq> None" for j a using inv unfolding hp_inv_def by blast
  have uniq: "owns s j a \<Longrightarrow> owns s k a \<Longrightarrow> j = k" for j k a using inv unfolding hp_inv_def by blast
  have pown: "owns s i a \<longleftrightarrow> ?p = Some a" for a using i by (simp add: owns_def)
  define s1 where "s1 = s\<lparr>hp_blocks := (\<lambda>a. if ?p = Some a then None else hp_blocks s a)\<rparr>"
  have free: "hp_free ?p s = Inr s1"
  proof (cases ?p)
    case (Some a)
    then have "hp_blocks s a \<noteq> None" using alloc pown by blast
    then show ?thesis using Some by (auto simp: hp_free_def s1_def fun_eq_iff)
  qed (simp add: hp_free_def s1_def)
  let ?t = "s1\<lparr>hp_objs := (hp_objs s)(i := x)\<rparr>"
  have own: "owns ?t j a \<longleftrightarrow> j \<noteq> i \<and> owns s j a" for j a
    using n by (cases x) (auto simp: owns_def)
  have keep: "?p \<noteq> Some a" if "owns s j a" "j \<noteq> i" for j a
    using uniq [OF that(1), of i] that(2) pown by blast
  have "hp_inv ?t" unfolding hp_inv_def
  proof (intro conjI allI impI)
    fix j a assume "owns ?t j a"
    then have "j \<noteq> i" "owns s j a" unfolding own by simp_all
    then show "hp_blocks ?t a \<noteq> None" using alloc [of j a] keep [of j a] by (simp add: s1_def)
  next
    fix j k a assume "owns ?t j a \<and> owns ?t k a"
    then show "j = k" using uniq [of j a k] unfolding own by simp
  next
    fix a assume "hp_blocks ?t a \<noteq> None"
    then have a: "?p \<noteq> Some a" "hp_blocks s a \<noteq> None" by (auto simp: s1_def split: if_splits)
    then show "a < hp_next ?t" using inv unfolding hp_inv_def by (auto simp: s1_def)
    obtain j where "owns s j a" using a(2) inv unfolding hp_inv_def by blast
    then show "\<exists>j. owns ?t j a" using a(1) pown own by blast
  qed
  moreover have "hp_views ?t = (hp_views s)(i := map_option (hp_view s) x)"
  proof -
    have "hp_load ?t (hb_buffer c) = hp_load s (hb_buffer c)" if "hp_objs s j = Some c" "j \<noteq> i" for j c
    proof (cases "hb_buffer c")
      case (Some a)
      then have "owns s j a" using that(1) by (simp add: owns_def)
      from keep [OF this that(2)] Some show ?thesis by (simp add: hp_load_def s1_def)
    qed (simp add: hp_load_def)
    moreover have "hp_view ?t c = hp_view s c" if "x = Some c" for c
      using n [OF that] by (simp add: hp_view_def hp_load_def)
    ultimately show ?thesis using hp_views_change [of ?t s i x] by (cases x) simp_all
  qed
  ultimately show ?thesis using free by (intro exI [of _ s1]) (simp add: s1_def)
qed

lemma hp_hand_over:
  assumes inv: "hp_inv s" and i: "hp_objs s i = Some b" "hb_buffer b = None" and j: "hp_objs s j = Some c" and ij: "i \<noteq> j"
    and d: "hb_buffer d = None"
  shows "hp_inv (s\<lparr>hp_objs := (hp_objs s)(i \<mapsto> c, j \<mapsto> d)\<rparr>)"
    and "hp_views (s\<lparr>hp_objs := (hp_objs s)(i \<mapsto> c, j \<mapsto> d)\<rparr>) = (hp_views s)(i \<mapsto> hp_view s c, j \<mapsto> hp_view s d)"
proof -
  let ?t = "s\<lparr>hp_objs := (hp_objs s)(i \<mapsto> c, j \<mapsto> d)\<rparr>"
  have own: "owns ?t k a \<longleftrightarrow> (if k = i then owns s j a else k \<noteq> j \<and> owns s k a)" for k a
    using ij d j by (auto simp: owns_def)
  have iown: "\<not> owns s i a" for a using i by (simp add: owns_def)
  have uniq: "owns s k a \<Longrightarrow> owns s l a \<Longrightarrow> k = l" for k l a using inv unfolding hp_inv_def by blast
  show "hp_inv ?t" unfolding hp_inv_def
  proof (intro conjI allI impI)
    fix k a assume "owns ?t k a"
    then show "hp_blocks ?t a \<noteq> None" using inv unfolding hp_inv_def by (auto simp: own split: if_splits)
  next
    fix k l a assume "owns ?t k a \<and> owns ?t l a"
    then show "k = l" using uniq [of k a l] uniq [of j a l] uniq [of j a k] by (auto simp: own split: if_splits)
  next
    fix a assume a: "hp_blocks ?t a \<noteq> None"
    then show "a < hp_next ?t" using inv unfolding hp_inv_def by auto
    obtain k where "owns s k a" using a inv unfolding hp_inv_def by auto
    then show "\<exists>k. owns ?t k a" using iown [of a] own [of i a] own [of k a] by (cases "k = j") (metis, metis)
  qed
  show "hp_views ?t = (hp_views s)(i \<mapsto> hp_view s c, j \<mapsto> hp_view s d)"
    by (auto simp: fun_eq_iff hp_views_def map_option_case split: option.splits)
qed

section \<open>Programs\<close>

text \<open>The outcome of a command.\<close>

definition same_cmd :: "buffer_heap res \<Rightarrow> buffers res \<Rightarrow> bool" where
  "same_cmd h n \<longleftrightarrow> (case n of Inl e \<Rightarrow> h = Inl e | Inr v \<Rightarrow> \<exists>s'. h = Inr s' \<and> hp_inv s' \<and> hp_views s' = v)"

lemma rbind_return [simp]: "rbind r Inr = r"
  by (cases r) simp_all

lemma same_call_cmd:
  "same_call i s h n \<Longrightarrow> same_cmd (rbind h (\<lambda>(_, s'). Inr s')) (rbind n (\<lambda>(_, b). Inr ((hp_views s)(i \<mapsto> b))))"
  by (erule same_callE) (simp_all add: same_cmd_def)

lemma hp_new_same:
  assumes inv: "hp_inv s" and i: "hp_objs s i = None"
  shows "same_cmd (hp_new i n s) (rbind (netBuffer n) (\<lambda>b. Inr ((hp_views s)(i \<mapsto> b))))"
proof (cases "malloc0 n")
  case (Inr m)
  let ?b = "\<lparr>hb_buffer = Some (hp_next s), hb_maxLen = n, hb_writePos = 0, hb_readPos = 0, hb_lock = False\<rparr>"
  from hp_new_block [OF inv, of None i ?b m] Inr i show ?thesis
    by (auto simp: same_cmd_def hp_new_def hp_malloc0_def netBuffer_def hp_free_def)
qed (simp add: same_cmd_def hp_new_def hp_malloc0_def netBuffer_def)

lemma hp_move_same:
  assumes inv: "hp_inv s" and i: "hp_objs s i = Some b" and j: "hp_objs s j = Some c'"
  shows "same_cmd (hp_move i j s)
    (case move_assign (hp_view s b) (hp_view s c') of (x, y) \<Rightarrow> Inr ((hp_views s)(i \<mapsto> x, j \<mapsto> y)))"
proof -
  have b: "hp_objs s i = Some b" "hp_obj s i = b" using i by (simp_all add: hp_obj_def)
  have c': "hp_objs s j = Some c'" "hp_obj s j = c'" using j by (simp_all add: hp_obj_def)
  let ?e = "\<lparr>hb_buffer = None, hb_maxLen = 0, hb_writePos = 0, hb_readPos = 0, hb_lock = False\<rparr>"
  have e: "hp_view t ?e = \<lparr>m_buffer = [], m_maxLen = 0, m_writePos = 0, m_readPos = 0, m_lock = False\<rparr>" for t
    by (simp add: hp_view_def hp_load_def)
  from hp_release [OF inv b(1), of "Some ?e"] obtain s1 where s1: "hp_free (hb_buffer b) s = Inr s1" "hp_objs s1 = hp_objs s"
      "hp_inv (s1\<lparr>hp_objs := (hp_objs s)(i \<mapsto> ?e)\<rparr>)" "hp_views (s1\<lparr>hp_objs := (hp_objs s)(i \<mapsto> ?e)\<rparr>) = (hp_views s)(i \<mapsto> hp_view s ?e)"
    by auto
  show ?thesis
  proof (cases "i = j")
    case True
    then have "hp_move i j s = Inr (s1\<lparr>hp_objs := (hp_objs s)(i \<mapsto> ?e)\<rparr>)"
      using s1(1,2) b(2) by (simp add: hp_move_def Let_def hp_set_def hp_obj_def)
    then show ?thesis using True s1(3,4) e by (simp add: same_cmd_def move_assign_def hp_view_def)
  next
    case False
    let ?s2 = "s1\<lparr>hp_objs := (hp_objs s)(i \<mapsto> ?e)\<rparr>"
    have o: "hp_objs ?s2 i = Some ?e" "hp_objs ?s2 j = Some c'" using False c' by simp_all
    note H = hp_hand_over [OF s1(3) o(1) _ o(2) False, of ?e]
    have v: "hp_view ?s2 c' = hp_view s c'" using fun_cong [OF s1(4), of j] o False c' by (simp add: hp_views_def)
    have m: "hp_move i j s = Inr (?s2\<lparr>hp_objs := (hp_objs ?s2)(i \<mapsto> c', j \<mapsto> ?e)\<rparr>)"
      using s1(1,2) b(2) c' False by (cases c') (simp add: hp_move_def Let_def hp_set_def hp_obj_def)
    show ?thesis using m H s1(4) v e b c' by (simp add: same_cmd_def move_assign_def hp_view_def)
  qed
qed

lemma hp_cmd_same:
  assumes inv: "hp_inv s" and legal: "cmd_legal (hp_objs s) c"
  shows "same_cmd (hp_cmd dbg c s) (nb_cmd dbg c (hp_views s))"
proof -
  have get: "\<exists>b. hp_objs s i = Some b \<and> hp_views s i = Some (hp_view s b) \<and> hp_obj s i = b" if "i \<in> set (cmd_objs c)" for i
  proof -
    from that legal have "hp_objs s i \<noteq> None" unfolding cmd_legal_def list_all_iff by blast
    then show ?thesis by (auto simp: hp_views_def hp_obj_def)
  qed
  show ?thesis
  proof (cases c)
    case (New i n)
    then show ?thesis using hp_new_same [OF inv] legal by (simp add: cmd_legal_def)
  next
    case (Delete i)
    with get obtain b where b: "hp_objs s i = Some b" "hp_obj s i = b" by auto
    from hp_release [OF inv b(1), of None] obtain s1 where "hp_free (hb_buffer b) s = Inr s1" "hp_objs s1 = hp_objs s"
        "hp_inv (s1\<lparr>hp_objs := (hp_objs s)(i := None)\<rparr>)" "hp_views (s1\<lparr>hp_objs := (hp_objs s)(i := None)\<rparr>) = (hp_views s)(i := None)"
      by auto
    then show ?thesis using Delete b by (simp add: same_cmd_def hp_destroy_def)
  next
    case (Move i j)
    with get obtain b c' where b: "hp_objs s i = Some b" "hp_views s i = Some (hp_view s b)"
      and c': "hp_objs s j = Some c'" "hp_views s j = Some (hp_view s c')" by auto
    from hp_move_same [OF inv b(1) c'(1)] Move b(2) c'(2) show ?thesis by simp
  next
    case (Clear i)
    with get obtain b where b: "hp_objs s i = Some b" "hp_views s i = Some (hp_view s b)" by auto
    from same_call_cmd [OF hp_clear_same [OF inv b(1), of dbg]] Clear b(2) show ?thesis
      by (simp add: rbind_assoc)
  next
    case (Read i n)
    with get obtain b where b: "hp_objs s i = Some b" "hp_views s i = Some (hp_view s b)" by auto
    from hp_readData_same [OF inv b(1), of dbg n] Read b(2) show ?thesis
      by (auto simp: same_cmd_def split: sum.splits)
  next
    case (Tail i x)
    with get obtain b where b: "hp_objs s i = Some b" "hp_views s i = Some (hp_view s b)" by auto
    have "same_call i s (hp_tailData dbg i (Bytes x) (of_nat (length x)) s) (tailData dbg (hp_view s b) x (of_nat (length x)))"
      by (rule hp_tailData_same [OF inv b(1)]) (simp add: src_bytes_def)
    from same_call_cmd [OF this] Tail b(2) show ?thesis by simp
  next
    case (TailBuffer i j)
    with get obtain b c' where b: "hp_objs s i = Some b" "hp_views s i = Some (hp_view s b)"
      and c': "hp_objs s j = Some c'" "hp_views s j = Some (hp_view s c')" by auto
    from same_call_cmd [OF hp_tailNetBuffer_same [OF inv b(1) c'(1), of dbg]] TailBuffer b(2) c'(2) show ?thesis by simp
  next
    case (ReadBuffer i j)
    with get obtain b c' where b: "hp_objs s i = Some b" "hp_views s i = Some (hp_view s b)"
      and c': "hp_objs s j = Some c'" "hp_views s j = Some (hp_view s c')" by auto
    from hp_readBuffer_same [OF inv b(1) c'(1), of dbg] ReadBuffer b(2) c'(2) show ?thesis
      by (auto simp: same_cmd_def split: sum.splits)
  qed
qed

lemma cmd_legal_views: "cmd_legal (hp_views s) c = cmd_legal (hp_objs s) c"
  by (simp add: cmd_legal_def hp_views_def split: buffer_cmd.splits)

text \<open>Programs stop, fault and end alike; the blocks are those of the objects at any time.\<close>

lemma hp_run_same:
  assumes "hp_inv s"
  shows "rel_option same_cmd (hp_run dbg cs s) (nb_run dbg cs (hp_views s))"
  using assms
proof (induction cs arbitrary: s)
  case Nil
  then show ?case by (simp add: same_cmd_def)
next
  case (Cons c cs)
  show ?case
  proof (cases "cmd_legal (hp_objs s) c")
    case True
    from hp_cmd_same [OF Cons.prems True, of dbg] Cons.IH True show ?thesis
      by (cases "nb_cmd dbg c (hp_views s)") (auto simp: same_cmd_def cmd_legal_views)
  qed (simp add: cmd_legal_views)
qed

definition no_heap :: buffer_heap where
  "no_heap = \<lparr>hp_blocks = Map.empty, hp_next = 0, hp_objs = Map.empty\<rparr>"

lemma no_heap_inv: "hp_inv no_heap" "hp_views no_heap = Map.empty"
  by (simp_all add: no_heap_def hp_inv_def owns_def hp_views_def fun_eq_iff)

lemma hp_inv_owners:
  assumes "hp_inv s"
  shows "hp_blocks s a \<noteq> None \<longleftrightarrow> (\<exists>i. owns s i a)" and "owns s i a \<Longrightarrow> owns s j a \<Longrightarrow> i = j"
  using assms unfolding hp_inv_def by blast+

section \<open>A pointer into the buffer itself\<close>

text \<open>\<open>tailData\<close> of bytes of the same buffer, when it has to grow: \<open>resize\<close> frees them first.\<close>

lemma tail_of_itself:
  assumes inv: "hp_inv s" and i: "hp_objs s i = Some b" and l: "\<not> hb_lock b" and p: "hb_buffer b = Some a"
    and nb: "nb_inv (hp_view s b)" and room: "nb_room (hp_view s b) (unat len)" and grow: "nb_free (hp_view s b) < unat len"
  shows "hp_tailData dbg i (Place (hb_buffer b) k) len s = Inl MemFault"
proof -
  have o: "hp_obj s i = b" using i by (simp add: hp_obj_def)
  have old: "hb_buffer b \<noteq> Some (hp_next s)" using inv i unfolding hp_inv_def owns_def by blast
  from hp_resize_same [OF inv i, of dbg "hb_writePos b + len"] resize_for_ok [OF nb _ room, of dbg] l
  obtain b1 s1 c where s1: "hp_resize dbg i (hb_writePos b + len) s = Inr (True, s1)" "hp_inv s1" "hp_objs s1 i = Some c"
      "hp_view s1 c = b1" "\<And>j. j \<noteq> i \<Longrightarrow> hp_objs s1 j = hp_objs s j" and b1: "nb_inv b1" "\<not> m_lock b1" "unat len \<le> nb_free b1"
    by (auto elim!: same_callE)
  have u: "unat (hb_writePos b + len) = unat (hb_writePos b) + unat len"
    using room by (intro unat_plus_size) (simp add: nb_room_def)
  then have g: "hb_maxLen b < hb_writePos b + len" using grow by (simp add: size_cmp nb_free_def)
  with s1(1) l i have "hb_buffer (hp_obj s1 i) = Some (hp_next s)"
    by (auto simp: hp_resize_def hp_obj_def Let_def rbind_eq_Inr hp_malloc0_def)
  then have "hb_buffer c = Some (hp_next s)" using s1(3) by (simp add: hp_obj_def)
  then have "\<not> owns s1 i a" using s1(3) p old by (simp add: owns_def)
  moreover have "\<not> owns s1 j a" if "j \<noteq> i" for j
    using inv i p that s1(5) [OF that] unfolding hp_inv_def owns_def by metis
  ultimately have gone: "hp_blocks s1 a = None" using s1(2) unfolding hp_inv_def by metis
  have n: "len \<noteq> 0" using grow by auto
  have w: "unat (len + hb_writePos c) = unat len + unat (hb_writePos c)"
    using b1 s1(4) nb_invD(3,4) [OF b1(1)] by (intro unat_plus_size) (auto simp: nb_free_def)
  then have "len + hb_writePos c \<le> hb_maxLen c"
    using b1(3) s1(4) nb_invD(3) [OF b1(1)] by (auto simp: size_cmp nb_free_def)
  moreover have "\<not> hb_lock c" using b1(2) s1(4) by auto
  moreover have "hp_obj s1 i = c" using s1(3) by (simp add: hp_obj_def)
  ultimately have "hp_tail dbg i (Place (Some a) k) len s1 = Inl MemFault"
    using n gone hp_load_owned [OF s1(2,3)] by (simp add: hp_tail_def Let_def src_bytes_def hp_load_def)
  then show ?thesis using s1(1) by (simp add: hp_tailData_def o p)
qed

end
