(* ===== verification/Pool_Race.thy ===== *)
theory Pool_Race
  imports Io_Pool
begin

text \<open>
  \<open>getIoService\<close> of \<open>src/io_pool.h\<close> has no mutex, but it is called by the threads that accept
  sockets as well as by the user's.  Here its reads and writes of \<open>m_curIndex\<close> are single steps.
  A thread that is alone computes what \<open>Io_Pool\<close> says; two that overlap can use an index behind
  the last service.
\<close>

section \<open>The steps of a call\<close>

datatype gi_pc =
    GiTest              \<comment> \<open>before \<open>m_curIndex >= m_netIo.size()\<close>\<close>
  | GiReset             \<comment> \<open>before \<open>m_curIndex = 0\<close>\<close>
  | GiLoad              \<comment> \<open>before \<open>m_curIndex++\<close> reads\<close>
  | GiStore size_t      \<comment> \<open>before it writes\<close>
  | GiIndex size_t      \<comment> \<open>before \<open>m_netIo[i]\<close>\<close>
  | GiRet "nat res"

fun gi_step :: "io_pool \<Rightarrow> gi_pc \<Rightarrow> io_pool \<times> gi_pc" where
  "gi_step pool GiTest =
     (pool, if m_curIndex pool \<ge> of_nat (length (m_netIo pool)) then GiReset else GiLoad)"
| "gi_step pool GiReset = (pool\<lparr>m_curIndex := 0\<rparr>, GiLoad)"
| "gi_step pool GiLoad = (pool, GiStore (m_curIndex pool))"
| "gi_step pool (GiStore i) = (pool\<lparr>m_curIndex := i + 1\<rparr>, GiIndex i)"
| "gi_step pool (GiIndex i) =
     (pool, GiRet (if unat i < length (m_netIo pool) then Inr (m_netIo pool ! unat i) else Inl MemFault))"
| "gi_step pool (GiRet r) = (pool, GiRet r)"

text \<open>Threads that take turns as a schedule says.\<close>

fun gi_run :: "nat list \<Rightarrow> io_pool \<Rightarrow> (nat \<Rightarrow> gi_pc) \<Rightarrow> io_pool \<times> (nat \<Rightarrow> gi_pc)" where
  "gi_run [] pool pc = (pool, pc)"
| "gi_run (t # ts) pool pc = (let (pool', k) = gi_step pool (pc t) in gi_run ts pool' (pc(t := k)))"

lemma gi_run_append: "gi_run (as @ bs) pool pc = (let (p, c) = gi_run as pool pc in gi_run bs p c)"
  by (induction as arbitrary: pool pc) (simp_all add: Let_def case_prod_unfold)

section \<open>One call after the other\<close>

text \<open>Five steps of one thread are a call, whatever state the others wait in.\<close>

lemma gi_alone:
  assumes "pc t = GiTest" and "getIoService pool = Inr (io, pool')"
  shows "gi_run [t, t, t, t, t] pool pc = (pool', pc(t := GiRet (Inr io)))"
  using assms by (auto simp: getIoService_def Let_def split: if_splits)

text \<open>Where \<open>n\<close> calls leave the counter.\<close>

lemma io_calls_next:
  assumes "m_netIo pool \<noteq> []" and "length (m_netIo pool) < 2 ^ 64" and "io_calls n pool = Inr (ios, pool')"
  shows "m_netIo pool' = m_netIo pool \<and> io_next pool' = (io_next pool + n) mod length (m_netIo pool)"
  using assms
proof (induction n arbitrary: pool ios)
  case 0
  then show ?case by (auto simp: io_next_def)
next
  case (Suc n)
  obtain p1 where p1: "getIoService pool = Inr (m_netIo pool ! io_next pool, p1)" "m_netIo p1 = m_netIo pool"
      "io_next p1 = Suc (io_next pool) mod length (m_netIo pool)"
    using getIoService_ok [OF Suc.prems(1,2)] by blast
  obtain ios1 where "io_calls n p1 = Inr (ios1, pool')" using Suc.prems(3) p1(1) by (auto simp: rbind_eq_Inr)
  from Suc.IH [OF _ _ this] Suc.prems(1,2) p1(2,3) show ?case by (simp add: mod_add_left_eq)
qed

section \<open>Two calls that overlap\<close>

text \<open>
  Both threads pass the test while one service is left; the first takes it, and the second
  reads the counter behind it.
\<close>

definition race :: "nat list" where
  "race = [0, 1, 0, 0, 0, 1, 1, 1]"

lemma race_leaves_the_pool:
  assumes n: "length (m_netIo pool) = Suc k" "Suc k < 2 ^ 64" and c: "unat (m_curIndex pool) = k"
  shows "snd (gi_run race pool (\<lambda>_. GiTest)) 1 = GiRet (Inl MemFault)"
    and "snd (gi_run race pool (\<lambda>_. GiTest)) 0 = GiRet (Inr (m_netIo pool ! k))"
proof -
  have u: "unat (of_nat (Suc k) :: size_t) = Suc k" using n(2) by (simp add: unat_of_nat take_bit_nat_eq_self del: of_nat_Suc)
  have ci: "m_curIndex pool = of_nat k" using c by (metis of_nat_unat ucast_id)
  have lt: "\<not> m_curIndex pool \<ge> of_nat (length (m_netIo pool))" using c by (simp add: size_cmp u n(1) del: of_nat_Suc)
  have s: "of_nat k + (1 :: size_t) = of_nat (Suc k)" by simp
  have uk: "unat (of_nat k :: size_t) = k" using c by (simp add: ci)
  show "snd (gi_run race pool (\<lambda>_. GiTest)) 1 = GiRet (Inl MemFault)"
    and "snd (gi_run race pool (\<lambda>_. GiTest)) 0 = GiRet (Inr (m_netIo pool ! k))"
    using lt by (simp_all add: race_def ci uk u s n(1) del: of_nat_Suc)
qed

text \<open>Any pool comes to that point after as many calls as it has services, less one.\<close>

lemma pool_races:
  assumes "ioObjectPool dbg sz = Inr pool" and "0 < sz"
  shows "\<exists>ios pool'. io_calls (unat sz - 1) pool = Inr (ios, pool') \<and>
    snd (gi_run race pool' (\<lambda>_. GiTest)) 1 = GiRet (Inl MemFault)"
proof -
  have p: "m_netIo pool = [0..<unat sz]" "m_curIndex pool = 0" using ioObjectPool_ok [OF assms(2), of dbg] assms(1) by auto
  have z: "0 < unat sz" using assms(2) by (simp add: unat_gt_0)
  have l: "m_netIo pool \<noteq> []" "length (m_netIo pool) < 2 ^ 64" using z unat_size_bound [of sz] by (simp_all add: p)
  obtain ios pool' where c: "io_calls (unat sz - 1) pool = Inr (ios, pool')" using io_calls_ok [OF l] by blast
  have N: "m_netIo pool' = m_netIo pool" "io_next pool' = unat sz - 1"
    using io_calls_next [OF l c] z p by (simp_all add: io_next_def [of pool])
  have "\<exists>p. p = pool' \<and> unat (m_curIndex p) = unat sz - 1"
  proof (cases "unat sz = 1")
    case True
    then show ?thesis using c p by simp
  next
    case False
    then show ?thesis using N(2) z by (simp add: io_next_def split: if_splits)
  qed
  moreover have "length (m_netIo pool') = Suc (unat sz - 1)" using z by (simp add: N(1) p)
  ultimately show ?thesis using race_leaves_the_pool(1) [of pool' "unat sz - 1"] unat_size_bound [of sz] z c by auto
qed

end
