(* ===== verification/Poll_Threads.thy ===== *)
theory Poll_Threads
  imports Tcp_Object
begin

text \<open>
  The queue of an endpoint and its threads (\<open>src/tcp_object.h\<close>).  Connections on any number of
  threads call \<open>push\<close>, the user calls \<open>poll\<close>; both use \<open>m_mutex\<close>, but the events run without it.
  The statements are steps here, and what they do is what whole calls do, one after the other.
\<close>

section \<open>The statements of push and poll\<close>

text \<open>A thread that pushes: it holds the mutex, it has pushed.\<close>

datatype 'b push_pc = QIdle | QLocked "'b tcp_event" | QPushed

text \<open>
  The user: it holds the mutex, has copied the queue, has cleared it, and runs the events of its
  copy; with the events still to run.
\<close>

datatype 'b poll_pc = PIdle | PLocked | PCopied "'b tcp_event list" | PCleared "'b tcp_event list" | PRun "'b tcp_event list"

datatype poll_thread = Pusher nat | Poller

record 'b polling =
  pt_obj :: "'b tcp_obj"
  pt_pool :: io_pool
  pt_lock :: "poll_thread option"
  pt_push :: "nat \<Rightarrow> 'b push_pc"
  pt_poll :: "'b poll_pc"
  pt_acts :: "'b action list"
  pt_pushed :: "'b tcp_event list"
  pt_ran :: "'b tcp_event list"

inductive push_step :: "'b polling \<Rightarrow> 'b polling \<Rightarrow> bool" where
  Push_lock: "pt_lock f = None \<Longrightarrow> pt_push f u = QIdle \<Longrightarrow>
    push_step f (f\<lparr>pt_lock := Some (Pusher u), pt_push := (pt_push f)(u := QLocked ev)\<rparr>)"
| Push_back: "pt_push f u = QLocked ev \<Longrightarrow>
    push_step f (f\<lparr>pt_obj := tcp_push ev (pt_obj f), pt_push := (pt_push f)(u := QPushed), pt_pushed := pt_pushed f @ [ev]\<rparr>)"
| Push_unlock: "pt_push f u = QPushed \<Longrightarrow>
    push_step f (f\<lparr>pt_lock := None, pt_push := (pt_push f)(u := QIdle)\<rparr>)"

inductive poll_step :: "listen_outcome \<Rightarrow> 'b polling \<Rightarrow> 'b polling \<Rightarrow> bool" for lo where
  Poll_lock: "pt_poll f = PIdle \<Longrightarrow> pt_lock f = None \<Longrightarrow>
    poll_step lo f (f\<lparr>pt_lock := Some Poller, pt_poll := PLocked\<rparr>)"
| Poll_copy: "pt_poll f = PLocked \<Longrightarrow> poll_step lo f (f\<lparr>pt_poll := PCopied (m_call (pt_obj f))\<rparr>)"
| Poll_clear: "pt_poll f = PCopied evs \<Longrightarrow>
    poll_step lo f (f\<lparr>pt_obj := (pt_obj f)\<lparr>m_call := []\<rparr>, pt_poll := PCleared evs\<rparr>)"
| Poll_unlock: "pt_poll f = PCleared evs \<Longrightarrow> poll_step lo f (f\<lparr>pt_lock := None, pt_poll := PRun evs\<rparr>)"
| Poll_event: "pt_poll f = PRun (ev # evs) \<Longrightarrow>
    run_event lo (pt_obj f) (pt_pool f) ev = Inr (t, pool, acts) \<Longrightarrow>
    poll_step lo f (f\<lparr>pt_obj := t, pt_pool := pool, pt_poll := PRun evs, pt_acts := pt_acts f @ acts, pt_ran := pt_ran f @ [ev]\<rparr>)"
| Poll_return: "pt_poll f = PRun [] \<Longrightarrow> poll_step lo f (f\<lparr>pt_poll := PIdle\<rparr>)"

definition start_polling :: "'b tcp_obj \<Rightarrow> io_pool \<Rightarrow> 'b polling" where
  "start_polling t pool = \<lparr>pt_obj = t, pt_pool = pool, pt_lock = None, pt_push = (\<lambda>_. QIdle), pt_poll = PIdle,
     pt_acts = [], pt_pushed = m_call t, pt_ran = []\<rparr>"

inductive polling_reach :: "listen_outcome \<Rightarrow> 'b tcp_obj \<Rightarrow> io_pool \<Rightarrow> 'b polling \<Rightarrow> bool" for lo t pool where
  Start: "polling_reach lo t pool (start_polling t pool)"
| Push: "polling_reach lo t pool f \<Longrightarrow> push_step f g \<Longrightarrow> polling_reach lo t pool g"
| Poll: "polling_reach lo t pool f \<Longrightarrow> poll_step lo f g \<Longrightarrow> polling_reach lo t pool g"

text \<open>Whole calls, with the actions they do.\<close>

inductive calls_reach :: "listen_outcome \<Rightarrow> 'b tcp_obj \<Rightarrow> io_pool \<Rightarrow> 'b tcp_obj \<Rightarrow> io_pool \<Rightarrow> 'b action list \<Rightarrow> bool"
  for lo t pool where
  Start: "calls_reach lo t pool t pool []"
| Push: "calls_reach lo t pool t1 p1 as \<Longrightarrow> calls_reach lo t pool (tcp_push ev t1) p1 as"
| Poll: "calls_reach lo t pool t1 p1 as \<Longrightarrow> tcp_poll lo t1 p1 = Inr (t2, p2, bs) \<Longrightarrow>
    calls_reach lo t pool t2 p2 (as @ bs)"

section \<open>Who holds the mutex\<close>

fun poll_inside :: "'b poll_pc \<Rightarrow> bool" where
  "poll_inside PLocked = True"
| "poll_inside (PCopied _) = True"
| "poll_inside (PCleared _) = True"
| "poll_inside _ = False"

definition poll_lock_inv :: "'b polling \<Rightarrow> bool" where
  "poll_lock_inv f =
     (case pt_lock f of
        None \<Rightarrow> (\<forall>u. pt_push f u = QIdle) \<and> \<not> poll_inside (pt_poll f)
      | Some Poller \<Rightarrow> (\<forall>u. pt_push f u = QIdle) \<and> poll_inside (pt_poll f)
      | Some (Pusher u) \<Rightarrow> pt_push f u \<noteq> QIdle \<and> (\<forall>v. v \<noteq> u \<longrightarrow> pt_push f v = QIdle) \<and> \<not> poll_inside (pt_poll f))"

lemma poll_lock_pusher:
  assumes "poll_lock_inv f" and "pt_push f u \<noteq> QIdle"
  shows "pt_lock f = Some (Pusher u)"
  using assms by (auto simp: poll_lock_inv_def split: option.splits poll_thread.splits) metis

lemma poll_lock_poller:
  assumes "poll_lock_inv f" and "poll_inside (pt_poll f)"
  shows "pt_lock f = Some Poller"
  using assms by (auto simp: poll_lock_inv_def split: option.splits poll_thread.splits)

lemma poll_lock_excludes:
  assumes "poll_lock_inv f" and "pt_push f u \<noteq> QIdle"
  shows "\<not> poll_inside (pt_poll f)" and "v \<noteq> u \<Longrightarrow> pt_push f v = QIdle"
  using assms(1) poll_lock_pusher [OF assms] by (auto simp: poll_lock_inv_def)

lemma poll_lock_reach: "polling_reach lo t pool f \<Longrightarrow> poll_lock_inv f"
proof (induction rule: polling_reach.induct)
  case Start
  then show ?case by (simp add: start_polling_def poll_lock_inv_def)
next
  case (Push f g)
  note L = poll_lock_pusher [OF Push(3)]
  from Push(2) show ?case
  proof cases
    case (Push_back u ev)
    then show ?thesis using L [of u] Push(3) by (simp add: poll_lock_inv_def)
  next
    case (Push_unlock u)
    then show ?thesis using L [of u] Push(3) by (simp add: poll_lock_inv_def)
  qed (use Push(3) in \<open>simp add: poll_lock_inv_def\<close>)
next
  case (Poll f g)
  note L = poll_lock_poller [OF Poll(3)]
  from Poll(2) show ?case
  proof cases
    case Poll_lock
    then show ?thesis using Poll(3) by (simp add: poll_lock_inv_def)
  next
    case (Poll_unlock evs)
    then show ?thesis using L Poll(3) by (simp add: poll_lock_inv_def)
  qed (use Poll(3) in \<open>simp_all add: poll_lock_inv_def split: option.splits poll_thread.splits\<close>)
qed

section \<open>The queue does not matter to the events\<close>

definition with_call :: "'b tcp_event list \<Rightarrow> 'b tcp_step \<Rightarrow> 'b tcp_step" where
  "with_call q r = (case r of Inl e \<Rightarrow> Inl e | Inr (t, pool, acts) \<Rightarrow> Inr (t\<lparr>m_call := q\<rparr>, pool, acts))"

lemma with_call_simps [simp]:
  "with_call q (Inl e) = Inl e"
  "with_call q (Inr (t, pool, acts)) = Inr (t\<lparr>m_call := q\<rparr>, pool, acts)"
  by (simp_all add: with_call_def)

lemma beginAccept_queue: "beginAccept (t\<lparr>m_call := q\<rparr>) pool = with_call q (beginAccept t pool)"
proof (cases "m_stop t")
  case False
  show ?thesis
  proof (cases "createConnection pool :: (session_id \<times> io_pool \<times> 'a action list) res")
    case (Inr r)
    then show ?thesis using False by (cases r; cases t) (simp add: beginAccept_def Let_def)
  qed (simp add: False beginAccept_def)
qed (simp add: beginAccept_def)

lemma tcp_start_queue:
  "tcp_start lo (t\<lparr>m_call := q\<rparr>) pool =
     (case tcp_start lo t pool of Inl e \<Rightarrow> Inl e | Inr (r, t', pool', acts) \<Rightarrow> Inr (r, t'\<lparr>m_call := q\<rparr>, pool', acts))"
proof (cases "m_serviceType (t_config t)")
  case SERVER_FLAG
  show ?thesis
  proof (cases "getIoService pool")
    case (Inr r)
    obtain io p1 where r: "r = (io, p1)" by (cases r)
    have q: "t\<lparr>m_call := q, m_stop := False, m_acceptor := True\<rparr> = t\<lparr>m_stop := False, m_acceptor := True\<rparr>\<lparr>m_call := q\<rparr>"
      by simp
    show ?thesis
      using SERVER_FLAG Inr r
        beginAccept_queue [where t = "t\<lparr>m_stop := False, m_acceptor := True\<rparr>" and q = q and pool = p1, folded q]
      by (cases lo; cases "beginAccept (t\<lparr>m_stop := False, m_acceptor := True\<rparr>) p1")
        (auto simp: tcp_start_def server_doStart_def Let_def t_config_def)
  qed (use SERVER_FLAG in \<open>simp add: tcp_start_def server_doStart_def Let_def t_config_def\<close>)
qed (simp add: tcp_start_def client_doStart_def Let_def t_config_def split: option.split)

lemma run_event_queue: "run_event lo (t\<lparr>m_call := q\<rparr>) pool ev = with_call q (run_event lo t pool ev)"
proof (cases ev)
  case EvStart
  then show ?thesis
    by (cases "tcp_start lo t pool") (auto simp: run_event_def tcp_start_queue)
qed (simp_all add: run_event_def t_config_def)

lemma run_event_keeps_queue:
  assumes "run_event lo t pool ev = Inr (t', pool', acts)"
  shows "m_call t' = m_call t"
  using run_event_queue [where q = "m_call t" and t = t and lo = lo and pool = pool and ev = ev] assms by (cases t') simp

lemma run_events_append:
  "run_events lo t pool (as @ bs) =
     rbind (run_events lo t pool as) (\<lambda>(t1, pool1, acts1).
     rbind (run_events lo t1 pool1 bs) (\<lambda>(t2, pool2, acts2). Inr (t2, pool2, acts1 @ acts2)))"
proof (induction as arbitrary: t pool)
  case Nil
  then show ?case by (cases "run_events lo t pool bs") auto
next
  case (Cons a as)
  show ?case
  proof (cases "run_event lo t pool a")
    case (Inr r)
    obtain t1 p1 a1 where r: "r = (t1, p1, a1)" by (cases r)
    show ?thesis
    proof (cases "run_events lo t1 p1 as")
      case (Inr r')
      obtain t2 p2 a2 where r': "r' = (t2, p2, a2)" by (cases r')
      show ?thesis using Inr \<open>run_event _ _ _ _ = _\<close> r r' Cons.IH [of t1 p1]
        by (cases "run_events lo t2 p2 bs") auto
    qed (use Inr r Cons.IH [of t1 p1] in simp)
  qed simp
qed

section \<open>The events run once, in order\<close>

fun poll_rest :: "'b poll_pc \<Rightarrow> 'b tcp_event list" where
  "poll_rest (PCleared evs) = evs"
| "poll_rest (PRun evs) = evs"
| "poll_rest _ = []"

definition poll_order :: "'b polling \<Rightarrow> bool" where
  "poll_order f \<longleftrightarrow> pt_pushed f = pt_ran f @ poll_rest (pt_poll f) @ m_call (pt_obj f) \<and>
     (\<forall>evs. pt_poll f = PCopied evs \<longrightarrow> evs = m_call (pt_obj f))"

lemma poll_order_reach: "polling_reach lo t pool f \<Longrightarrow> poll_order f"
proof (induction rule: polling_reach.induct)
  case Start
  then show ?case by (simp add: start_polling_def poll_order_def)
next
  case (Push f g)
  note L = poll_lock_reach [OF Push(1)]
  from Push(2) show ?case
  proof cases
    case (Push_back u ev)
    then have "\<not> poll_inside (pt_poll f)" using poll_lock_excludes(1) [OF L, of u] by simp
    then show ?thesis using Push_back Push(3) by (auto simp: poll_order_def tcp_push_def)
  qed (use Push(3) in \<open>simp_all add: poll_order_def\<close>)
next
  case (Poll f g)
  from Poll(2) show ?case
  proof cases
    case (Poll_event ev evs t pool acts)
    then show ?thesis using Poll(3) run_event_keeps_queue [OF Poll_event(3)] by (simp add: poll_order_def)
  qed (use Poll(3) in \<open>simp_all add: poll_order_def\<close>)
qed

section \<open>Every quiet state is one of whole calls\<close>

definition poll_running :: "listen_outcome \<Rightarrow> 'b tcp_obj \<Rightarrow> io_pool \<Rightarrow> 'b polling \<Rightarrow> 'b tcp_event list \<Rightarrow> bool" where
  "poll_running lo t pool f evs \<longleftrightarrow> (\<exists>t0 p0 a0 ran t1 a1 ps.
     calls_reach lo t pool t0 p0 a0 \<and> m_call t0 = ran @ evs \<and>
     run_events lo (t0\<lparr>m_call := []\<rparr>) p0 ran = Inr (t1, pt_pool f, a1) \<and>
     m_call t1 = [] \<and> pt_obj f = t1\<lparr>m_call := ps\<rparr> \<and> pt_acts f = a0 @ a1)"

fun poll_rel :: "listen_outcome \<Rightarrow> 'b tcp_obj \<Rightarrow> io_pool \<Rightarrow> 'b polling \<Rightarrow> 'b poll_pc \<Rightarrow> bool" where
  "poll_rel lo t pool f (PCleared evs) \<longleftrightarrow> poll_running lo t pool f evs"
| "poll_rel lo t pool f (PRun evs) \<longleftrightarrow> poll_running lo t pool f evs"
| "poll_rel lo t pool f _ \<longleftrightarrow> calls_reach lo t pool (pt_obj f) (pt_pool f) (pt_acts f)"

lemma calls_reach_pushes:
  assumes "calls_reach lo t pool t1 p1 as" and "m_call t1 = []"
  shows "calls_reach lo t pool (t1\<lparr>m_call := ps\<rparr>) p1 as"
proof (induction ps rule: rev_induct)
  case Nil
  then show ?case using assms by (cases t1) simp
next
  case (snoc ev ps)
  from calls_reach.Push [OF snoc, of ev] show ?case by (simp add: tcp_push_def)
qed

lemma poll_running_ends:
  assumes "poll_running lo t pool f []"
  shows "calls_reach lo t pool (pt_obj f) (pt_pool f) (pt_acts f)"
proof -
  from assms obtain t0 p0 a0 t1 a1 ps where r: "calls_reach lo t pool t0 p0 a0"
      "run_events lo (t0\<lparr>m_call := []\<rparr>) p0 (m_call t0) = Inr (t1, pt_pool f, a1)" "m_call t1 = []"
      "pt_obj f = t1\<lparr>m_call := ps\<rparr>" "pt_acts f = a0 @ a1" by (auto simp: poll_running_def)
  from calls_reach.Poll [OF r(1)] r(2,3) show ?thesis
    unfolding r(4,5) by (intro calls_reach_pushes) (simp_all add: tcp_poll_def)
qed

lemma poll_running_event:
  assumes "poll_running lo t pool f (ev # evs)" and "run_event lo (pt_obj f) (pt_pool f) ev = Inr (t', p', as)"
    and "pt_obj g = t'" "pt_pool g = p'" "pt_acts g = pt_acts f @ as"
  shows "poll_running lo t pool g evs"
proof -
  from assms(1) obtain t0 p0 a0 ran t1 a1 ps where r: "calls_reach lo t pool t0 p0 a0" "m_call t0 = ran @ ev # evs"
      "run_events lo (t0\<lparr>m_call := []\<rparr>) p0 ran = Inr (t1, pt_pool f, a1)" "m_call t1 = []"
      "pt_obj f = t1\<lparr>m_call := ps\<rparr>" "pt_acts f = a0 @ a1" by (auto simp: poll_running_def)
  from assms(2) obtain t2 where e: "run_event lo t1 (pt_pool f) ev = Inr (t2, p', as)" "t' = t2\<lparr>m_call := ps\<rparr>"
    unfolding r(5) run_event_queue by (cases "run_event lo t1 (pt_pool f) ev") auto
  have "run_events lo (t0\<lparr>m_call := []\<rparr>) p0 (ran @ [ev]) = Inr (t2, p', a1 @ as)"
    using r(3) e(1) by (simp add: run_events_append)
  moreover have "m_call t2 = []" using run_event_keeps_queue [OF e(1)] r(4) by simp
  ultimately show ?thesis unfolding poll_running_def
    using r(1,2,6) e(2) assms(3-5) by (intro exI [of _ t0] exI [of _ p0] exI [of _ a0] exI [of _ "ran @ [ev]"] exI [of _ t2]
      exI [of _ "a1 @ as"] exI [of _ ps]) simp
qed

lemma poll_running_push:
  assumes "poll_running lo t pool f evs"
    and "pt_obj g = tcp_push ev (pt_obj f)" "pt_pool g = pt_pool f" "pt_acts g = pt_acts f"
  shows "poll_running lo t pool g evs"
proof -
  have "tcp_push ev (t1\<lparr>m_call := ps\<rparr>) = t1\<lparr>m_call := ps @ [ev]\<rparr>" for t1 :: "'a tcp_obj" and ps
    by (simp add: tcp_push_def)
  then show ?thesis using assms unfolding poll_running_def by metis
qed

lemma poll_running_cong:
  "pt_obj g = pt_obj f \<Longrightarrow> pt_pool g = pt_pool f \<Longrightarrow> pt_acts g = pt_acts f \<Longrightarrow> poll_running lo t pool f evs \<Longrightarrow>
   poll_running lo t pool g evs"
  by (simp add: poll_running_def)

lemma poll_rel_cong:
  "pt_obj g = pt_obj f \<Longrightarrow> pt_pool g = pt_pool f \<Longrightarrow> pt_acts g = pt_acts f \<Longrightarrow> poll_rel lo t pool f k \<Longrightarrow> poll_rel lo t pool g k"
  by (cases k) (simp_all add: poll_running_def)

lemma poll_rel_reach: "polling_reach lo t pool f \<Longrightarrow> poll_rel lo t pool f (pt_poll f)"
proof (induction rule: polling_reach.induct)
  case Start
  then show ?case by (simp add: start_polling_def calls_reach.Start)
next
  case (Push f g)
  note L = poll_lock_reach [OF Push(1)]
  from Push(2) show ?case
  proof cases
    case (Push_back u ev)
    then have "\<not> poll_inside (pt_poll f)" using poll_lock_excludes(1) [OF L, of u] by simp
    then consider "pt_poll f = PIdle" | evs where "pt_poll f = PRun evs" by (cases "pt_poll f") auto
    then show ?thesis
    proof cases
      case 1
      then show ?thesis using Push_back Push(3) by (simp add: calls_reach.Push)
    next
      case 2
      from poll_running_push [of lo t pool f evs g ev] show ?thesis using Push_back Push(3) 2 by simp
    qed
  qed (use Push(3) in \<open>auto intro: poll_rel_cong [rotated -1]\<close>)
next
  case (Poll f g)
  note O = poll_order_reach [OF Poll(1)]
  from Poll(2) show ?case
  proof cases
    case (Poll_clear evs)
    then have "evs = m_call (pt_obj f)" using O by (simp add: poll_order_def)
    then show ?thesis using Poll_clear Poll(3) unfolding poll_running_def
      by (auto intro!: exI [of _ "pt_obj f"] exI [of _ "pt_pool f"] exI [of _ "pt_acts f"] simp: poll_running_def)
  next
    case (Poll_event ev evs t' p' as)
    then show ?thesis using Poll(3) poll_running_event [OF _ Poll_event(3)] by simp
  next
    case Poll_return
    then show ?thesis using Poll(3) poll_running_ends [of lo t pool f] by simp
  next
    case (Poll_unlock evs)
    then show ?thesis using Poll(3) by (auto intro: poll_running_cong [rotated -1])
  qed (use Poll(3) in simp_all)
qed

lemma quiet_polling:
  assumes "polling_reach lo t pool f" and "\<not> poll_inside (pt_poll f)" and "\<nexists>ev evs. pt_poll f = PRun (ev # evs)"
  shows "calls_reach lo t pool (pt_obj f) (pt_pool f) (pt_acts f)"
proof (cases "pt_poll f")
  case (PRun evs)
  then have "evs = []" using assms(3) by (cases evs) auto
  then show ?thesis using poll_rel_reach [OF assms(1)] PRun poll_running_ends by simp
qed (use poll_rel_reach [OF assms(1)] assms(2) in simp_all)

text \<open>The holder of the mutex has a next statement; it cannot fail.\<close>

lemma poll_holder_goes_on:
  assumes "poll_lock_inv f" and "pt_lock f \<noteq> None"
  shows "\<exists>g. push_step f g \<or> poll_step lo f g"
proof (cases "the (pt_lock f)")
  case (Pusher u)
  then have "pt_push f u \<noteq> QIdle" using assms by (auto simp: poll_lock_inv_def)
  then show ?thesis by (cases "pt_push f u") (auto intro: push_step.intros)
next
  case Poller
  then have "poll_inside (pt_poll f)" using assms by (auto simp: poll_lock_inv_def)
  then show ?thesis by (cases "pt_poll f") (auto intro: poll_step.intros)
qed

end
