(* ===== verification/Connection_Property.thy ===== *)
theory Connection_Property
  imports Tcp_Object
begin

text \<open>
  What an endpoint gives its connections: the \<open>ConnectionProperty\<close> of \<open>src/net_type.h\<close> with the
  service and five functions, filled by \<open>createPropertyBase\<close> and \<open>createProperty\<close>
  (\<open>src/tcp_object.h\<close>, \<open>src/tcp_object.cpp\<close>), and the address a client connects to.
  \<open>deliver\<close> and \<open>createConnection\<close> of \<open>Tcp_Object\<close> are what these functions do, and the function
  that a server leaves empty is never called.
\<close>

section \<open>Properties\<close>

text \<open>The functions change the endpoint they are bound to; \<open>None\<close> is an empty \<open>std::function\<close>.\<close>

record 'b connection_property =
  pro_ioService :: nat
  pro_eventPostRecv :: "('b \<Rightarrow> 'b tcp_obj \<Rightarrow> 'b tcp_obj) option"
  pro_eventConnectFun :: "(session_id \<Rightarrow> 'b tcp_obj \<Rightarrow> 'b tcp_obj) option"
  pro_eventCloseFun :: "(session_id \<Rightarrow> 'b tcp_obj \<Rightarrow> 'b tcp_obj) option"
  pro_eventConnectFailedFun :: "('b tcp_obj \<Rightarrow> 'b tcp_obj) option"
  pro_blockMakerFun :: "(session_id \<Rightarrow> size_t \<Rightarrow> 'b res) option"

definition connectionProperty :: "nat \<Rightarrow> 'b connection_property" where
  "connectionProperty io = \<lparr>pro_ioService = io, pro_eventPostRecv = None, pro_eventConnectFun = None,
     pro_eventCloseFun = None, pro_eventConnectFailedFun = None, pro_blockMakerFun = None\<rparr>"

definition makeBlockFun :: "'b net_property \<Rightarrow> session_id \<Rightarrow> size_t \<Rightarrow> 'b res" where
  "makeBlockFun p = np_funBlock p"

definition createPropertyBase :: "'b tcp_obj \<Rightarrow> 'b connection_property \<Rightarrow> 'b connection_property" where
  "createPropertyBase t pro =
     pro\<lparr>pro_blockMakerFun := Some (makeBlockFun (m_netProperty t)), pro_eventPostRecv := Some eventRecv,
         pro_eventConnectFun := Some eventConnect, pro_eventCloseFun := Some eventCloseFun\<rparr>"

definition server_createProperty :: "'b tcp_obj \<Rightarrow> io_pool \<Rightarrow> ('b connection_property \<times> io_pool) res" where
  "server_createProperty t pool =
     rbind (getIoService pool) (\<lambda>(io, pool').
     Inr (createPropertyBase t (connectionProperty io), pool'))"

definition client_createProperty :: "'b tcp_obj \<Rightarrow> io_pool \<Rightarrow> ('b connection_property \<times> io_pool) res" where
  "client_createProperty t pool =
     rbind (getIoService pool) (\<lambda>(io, pool').
     Inr ((createPropertyBase t (connectionProperty io))\<lparr>pro_eventConnectFailedFun := Some (\<lambda>this.
            if m_autoReconnect (t_config this) then tcp_push EvStart this else this)\<rparr>, pool'))"

definition createProperty :: "'b tcp_obj \<Rightarrow> io_pool \<Rightarrow> ('b connection_property \<times> io_pool) res" where
  "createProperty t pool =
     (case m_serviceType (t_config t) of
        SERVER_FLAG \<Rightarrow> server_createProperty t pool
      | CLIENT_FLAG \<Rightarrow> client_createProperty t pool)"

text \<open>A connection calls a function of its property; \<open>None\<close> if it is empty, which throws.\<close>

definition call_property :: "'b connection_property \<Rightarrow> 'b effect \<Rightarrow> 'b tcp_obj \<Rightarrow> 'b tcp_obj option" where
  "call_property pro e t =
     (case e of
        EventPostRecv p \<Rightarrow> map_option (\<lambda>f. f p t) (pro_eventPostRecv pro)
      | EventConnect s \<Rightarrow> map_option (\<lambda>f. f s t) (pro_eventConnectFun pro)
      | EventClose s \<Rightarrow> map_option (\<lambda>f. f s t) (pro_eventCloseFun pro)
      | EventConnectFailed \<Rightarrow> map_option (\<lambda>f. f t) (pro_eventConnectFailedFun pro)
      | _ \<Rightarrow> Some t)"

lemma client_property_delivers:
  assumes "client_createProperty t pool = Inr (pro, pool')"
  shows "call_property pro e t' = Some (deliver t' e)"
  using assms by (auto simp: client_createProperty_def rbind_eq_Inr createPropertyBase_def connectionProperty_def
      call_property_def deliver_def eventConnectFailed_def split: effect.split)

lemma server_property_delivers:
  assumes "server_createProperty t pool = Inr (pro, pool')" and "e \<noteq> EventConnectFailed"
  shows "call_property pro e t' = Some (deliver t' e)"
  using assms by (auto simp: server_createProperty_def rbind_eq_Inr createPropertyBase_def connectionProperty_def
      call_property_def deliver_def split: effect.split)

lemma server_property_empty:
  "server_createProperty t pool = Inr (pro, pool') \<Longrightarrow> call_property pro EventConnectFailed t' = None"
  by (auto simp: server_createProperty_def rbind_eq_Inr createPropertyBase_def connectionProperty_def call_property_def)

text \<open>The service of the new connection is that of its property, its messages are made by the user's function.\<close>

lemma createConnection_property:
  "createConnection pool = rbind (createProperty t pool) (\<lambda>(pro, pool1).
     let (s, pool2) = nextSession pool1 in Inr (s, pool2, [NewConnection s (pro_ioService pro)]))"
  by (cases "getIoService pool"; cases "m_serviceType (t_config t)")
    (auto simp: createConnection_def createProperty_def server_createProperty_def client_createProperty_def
      createPropertyBase_def connectionProperty_def)

lemma createProperty_maker:
  "createProperty t pool = Inr (pro, pool') \<Longrightarrow> pro_blockMakerFun pro = Some (np_funBlock (m_netProperty t))"
  by (auto simp: createProperty_def server_createProperty_def client_createProperty_def createPropertyBase_def
      connectionProperty_def makeBlockFun_def rbind_eq_Inr split: service_flag.splits)

section \<open>The empty function of a server\<close>

text \<open>Only the completion of a connect reports that a connect failed.\<close>

lemma readLoop_no_failed:
  fixes c :: "'b connection" and vt :: "'b block_vt"
  assumes ret: "readLoop vt c acts = Some (Inr (c', es))" and start: "EventConnectFailed \<notin> set acts"
  shows "EventConnectFailed \<notin> set es"
proof -
  let ?P = "\<lambda>(vt :: 'b block_vt) (c :: 'b connection) (acts :: 'b effect list) (r :: 'b handler).
    EventConnectFailed \<notin> set acts \<longrightarrow> (\<forall>c' es. r = Inr (c', es) \<longrightarrow> EventConnectFailed \<notin> set es)"
  have "?P vt c acts (Inr (c', es))"
  proof (rule readLoop.raw_induct [where P = ?P, OF _ ret])
    fix f and vt :: "'b block_vt" and c :: "'b connection" and acts r
    assume IH: "\<And>vt c acts r. f vt c acts = Some r \<Longrightarrow> ?P vt c acts r"
      and r: "(if \<not> hasWrite (m_bufferRecv c) then Some (Inr (c, acts))
        else case readMessage vt c of Inl e \<Rightarrow> Some (Inl e)
          | Inr (p, c') \<Rightarrow> (case p of None \<Rightarrow> Some (Inr (c', acts)) | Some m \<Rightarrow> f vt c' (acts @ [EventPostRecv m]))) = Some r"
    show "?P vt c acts r"
      using r IH by (auto split: if_splits sum.splits option.splits prod.splits)
  qed
  then show ?thesis using start by simp
qed

lemma handlers_no_failed:
  fixes c :: "'b connection"
  shows "handleReadSome dbg vt c er data = Some (Inr (c', es)) \<Longrightarrow> EventConnectFailed \<notin> set es"
    and "writeMessage dbg vt c n = Inr (c', es) \<Longrightarrow> EventConnectFailed \<notin> set es"
    and "handleWrite dbg vt c er n = Inr (c', es) \<Longrightarrow> EventConnectFailed \<notin> set es"
    and "EventConnectFailed \<notin> set (snd (handleClose c er))"
    and "EventConnectFailed \<notin> set (snd (handlAccept c))"
    and "EventConnectFailed \<notin> set (snd (run_call c k))"
proof -
  show w: "EventConnectFailed \<notin> set es" if "writeMessage dbg vt c n = Inr (c', es)" for c n c' es
    using that by (auto simp: writeMessage_def rbind_eq_Inr Let_def split: if_splits)
  show "handleReadSome dbg vt c er data = Some (Inr (c', es)) \<Longrightarrow> EventConnectFailed \<notin> set es"
    by (auto simp: handleReadSome_def onError_def conn_close_def Let_def beginRead_def rbind_eq_Inr
        split: if_splits sum.splits option.splits prod.splits dest: readLoop_no_failed)
  show "handleWrite dbg vt c er n = Inr (c', es) \<Longrightarrow> EventConnectFailed \<notin> set es"
    by (auto simp: handleWrite_def onError_def conn_close_def Let_def split: if_splits dest: w)
  show "EventConnectFailed \<notin> set (snd (handleClose c er))" by (simp add: handleClose_def conn_close_def)
  show "EventConnectFailed \<notin> set (snd (handlAccept c))" by (simp add: handlAccept_def Let_def beginRead_def)
  show "EventConnectFailed \<notin> set (snd (run_call c k))"
    by (cases k) (simp_all add: run_call_def conn_send_def conn_close_def onError_def postAccept_def conn_connect_def)
qed

text \<open>A server connects none of its connections, so none of its connects can complete.\<close>

definition no_connects :: "'b action list \<Rightarrow> bool" where
  "no_connects acts \<longleftrightarrow> (\<forall>s a. OnConn s (CallConnect a) \<notin> set acts)"

lemma beginAccept_no_connects:
  "beginAccept t pool = Inr (t', pool', acts) \<Longrightarrow> no_connects acts \<and> t_config t' = t_config t"
  by (auto simp: beginAccept_def createConnection_def nextSession_def rbind_eq_Inr no_connects_def t_config_def Let_def split: if_splits)

lemma server_start_no_connects:
  assumes "m_serviceType (t_config t) = SERVER_FLAG" and "tcp_start lo t pool = Inr (r, t', pool', acts)"
  shows "no_connects acts \<and> t_config t' = t_config t"
  using assms by (cases lo) (auto simp: tcp_start_def server_doStart_def rbind_eq_Inr no_connects_def t_config_def Let_def
      dest!: beginAccept_no_connects)

lemma server_run_no_connects:
  "m_serviceType (t_config t) = SERVER_FLAG \<Longrightarrow> run_events lo t pool evs = Inr (t', pool', acts) \<Longrightarrow> no_connects acts"
proof (induction evs arbitrary: t pool acts)
  case Nil
  then show ?case by (simp add: no_connects_def)
next
  case (Cons ev evs)
  from Cons.prems(2) obtain t1 p1 a1 a2 where e: "run_event lo t pool ev = Inr (t1, p1, a1)"
      "run_events lo t1 p1 evs = Inr (t', pool', a2)" "acts = a1 @ a2" by (auto simp: rbind_eq_Inr)
  have "no_connects a1 \<and> t_config t1 = t_config t"
  proof (cases ev)
    case EvStart
    then obtain r where "tcp_start lo t pool = Inr (r, t1, p1, a1)" using e(1) by (auto simp: run_event_def rbind_eq_Inr)
    then show ?thesis by (rule server_start_no_connects [OF Cons.prems(1)])
  qed (use e(1) in \<open>auto simp: run_event_def no_connects_def t_config_def Let_def\<close>)
  then show ?case using Cons.IH [OF _ e(2)] Cons.prems(1) e(3) by (auto simp: no_connects_def)
qed

lemma server_never_connects:
  assumes "m_serviceType (t_config t) = SERVER_FLAG"
  shows "tcp_start lo t pool = Inr (r, t', pool', acts) \<Longrightarrow> no_connects acts"
    and "tcp_stop t = Inr (r, t', acts) \<Longrightarrow> no_connects acts"
    and "acceptSocket t pool er = Inr (t', pool', acts) \<Longrightarrow> no_connects acts"
    and "tcp_poll lo t pool = Inr (t', pool', acts) \<Longrightarrow> no_connects acts"
proof -
  show "tcp_start lo t pool = Inr (r, t', pool', acts) \<Longrightarrow> no_connects acts"
    using server_start_no_connects [OF assms] by blast
  show "tcp_stop t = Inr (r, t', acts) \<Longrightarrow> no_connects acts"
    unfolding tcp_stop_server [OF assms] by (auto simp: no_connects_def split: option.splits)
  show "acceptSocket t pool er = Inr (t', pool', acts) \<Longrightarrow> no_connects acts"
    by (auto simp: acceptSocket_def rbind_eq_Inr no_connects_def split: option.splits if_splits dest!: beginAccept_no_connects)
  show "tcp_poll lo t pool = Inr (t', pool', acts) \<Longrightarrow> no_connects acts"
    unfolding tcp_poll_def using server_run_no_connects [of "t\<lparr>m_call := []\<rparr>" lo pool "m_call t" t' pool' acts] assms
    by (simp add: t_config_def)
qed

section \<open>The address of a client\<close>

text \<open>
  The constructor of \<open>TcpClient\<close> asks \<open>gethostbyname\<close>, of which the model is given the bytes of
  the first address, and prints four of them into \<open>char str[32]\<close>; a name that is not found is
  taken for an address. \<open>c_str()\<close> ends at the first zero byte.
\<close>

definition print_ip :: "bytes \<Rightarrow> string res" where
  "print_ip h =
     (if length h < 4 then Inl MemFault
      else let part = (\<lambda>k. dec_nat (of_char (h ! k)));
               str = part 0 @ ''.'' @ part 1 @ ''.'' @ part 2 @ ''.'' @ part 3 in
        if length str + 1 \<le> 32 then Inr str else Inl MemFault)"

definition client_ip :: "(string \<Rightarrow> bytes option) \<Rightarrow> string \<Rightarrow> string res" where
  "client_ip gethostbyname address =
     (let ip = takeWhile (\<lambda>c. c \<noteq> NUL) address in
      case gethostbyname ip of None \<Rightarrow> Inr ip | Some h \<Rightarrow> print_ip h)"

text \<open>The parameter \<open>resolve\<close> of \<open>tcpClient\<close>, from the two functions that are not part of the code.\<close>

definition resolve_host :: "(string \<Rightarrow> bytes option) \<Rightarrow> (string \<Rightarrow> string option) \<Rightarrow> string \<Rightarrow> string option" where
  "resolve_host gethostbyname from_string address =
     (case client_ip gethostbyname address of Inl _ \<Rightarrow> None | Inr ip \<Rightarrow> from_string ip)"

lemma byte_part: "length (dec_nat (of_char (c :: char))) \<le> 3"
proof -
  define k :: nat where "k = of_char c"
  have "k < 256" unfolding k_def by (rule nat_of_char_less_256)
  then have "k < 10 ^ 3" by simp
  from dec_nat_length [OF this] show ?thesis unfolding k_def by simp
qed

text \<open>Fifteen characters and the zero byte at most: the 32 bytes are enough.\<close>

lemma print_ip_fits:
  assumes "4 \<le> length h"
  shows "\<exists>str. print_ip h = Inr str \<and> length str \<le> 15"
  using assms byte_part [of "h ! 0"] byte_part [of "h ! 1"] byte_part [of "h ! 2"] byte_part [of "h ! 3"]
  by (simp add: print_ip_def Let_def)

lemma client_ip_ok:
  assumes "\<And>n h. gethostbyname n = Some h \<Longrightarrow> length h = 4"
  shows "\<exists>ip. client_ip gethostbyname address = Inr ip \<and> resolve_host gethostbyname from_string address = from_string ip"
proof (cases "gethostbyname (takeWhile (\<lambda>c. c \<noteq> NUL) address)")
  case (Some h)
  then obtain str where "print_ip h = Inr str" using print_ip_fits [of h] assms by auto
  then show ?thesis using Some by (simp add: resolve_host_def client_ip_def)
qed (simp add: resolve_host_def client_ip_def)

end
