(* ===== verification/Spec2Isabelle.thy ===== *)
theory Spec2Isabelle
  imports Test_Example Further_Facts Buffer_Queue Redis_Limits Teardown Send_Threads Limit_Examples
  Buffer_Types Buffer_Heap Pool_Race Poll_Threads Connection_Property
begin

text \<open>
  fannynet is a C++ library for TCP clients and servers on top of \<open>boost::asio\<close>.  A user adds
  named endpoints to a \<open>NetManager\<close>, sends messages to sessions, and calls \<open>poll\<close> to be given
  the messages that arrived and the changes of sessions.  This library of theories models its
  own code, function by function, and proves what it does from the bytes of a message at one
  end to the user's function at the other.

  \<^bold>\<open>Parts of the program and their theories.\<close>
  \<^item> \<open>Net_Prelude\<close>: machine types, faults, results, the C memory functions, \<open>MYASSERT\<close> of
    \<open>include/config.h\<close>.
  \<^item> \<open>Net_Buffer\<close>: \<open>NetBuffer\<close> of \<open>include/net_buffer.h\<close> and \<open>src/net_buffer.cpp\<close>.  The record
    \<open>net_buffer\<close> has its five fields, every member function is a definition of its name (with
    the prefix \<open>nb_\<close> where the name is taken).  \<open>Buffer_Queue\<close>: a queue of bytes as its abstract
    specification, and the refinement.  \<open>Buffer_Types\<close>: any calls of its members in any order.
    \<open>Buffer_Heap\<close>: the same members over addresses and a heap of allocated blocks, and that they
    agree with those of \<open>Net_Buffer\<close>; a pointer into a buffer is no legal argument of its own
    \<open>tailData\<close> (lemma \<open>tail_of_itself\<close>).
  \<^item> \<open>Net_Block\<close>: \<open>NetBlockBase\<close> and \<open>NetBlock\<close> (\<open>include/net_buffer.h\<close>, \<open>src/block.h\<close>, \<open>src/block.cpp\<close>),
    the default message with its header of twelve bytes; \<open>deframe\<close> is the framing of a byte
    stream it implements.
  \<^item> \<open>Redis_Text\<close>, \<open>Redis_Parser\<close>: \<open>RedisParse\<close> of \<open>include/redisparser.h\<close>, with \<open>resp_bytes\<close>, the
    protocol's replies as bytes, as its specification; \<open>Redis_Limits\<close>: where it departs from the
    protocol; \<open>Redis_Command\<close>: \<open>makeCommand\<close> of \<open>src/redisblock.cpp\<close>.
  \<^item> \<open>Redis_Block2\<close>, \<open>Redis_Block\<close>: the two message classes of \<open>src/redisblock.h\<close> and
    \<open>src/redisblock.cpp\<close>.
  \<^item> \<open>Connection\<close>: the class of \<open>src/connection.h\<close> and \<open>src/connection.cpp\<close>.  A handler returns the
    connection and its effects: callbacks, posted tasks, started socket operations.
    \<open>Connection_Send\<close> puts the sending side into a transition system \<open>conn_step\<close> with the queue
    of posted tasks, the write in flight and the bytes on the wire.  \<open>Send_Threads\<close> refines it to
    the statements of threads under \<open>m_mutex\<close>.  \<open>Connection_Recv\<close> runs a connection on a stream
    that arrives in reads of any size.  \<open>Connection_Limits\<close>: a connection whose socket is gone.
    A run of \<open>conn_step\<close> is one opening of a connection: it begins when the connection came up, and \<open>handleConnect\<close>
    and \<open>handlAccept\<close> are no steps of it; they are steps of a process (\<open>Node\<close>).
    \<open>Connection_Life\<close> adds who holds a \<open>shared_ptr\<close> to a connection and which handlers of socket
    operations are still to be called.
  \<^item> \<open>Std_Map\<close>, \<open>Io_Pool\<close>: \<open>std::map\<close> as sorted lists, and \<open>IoObjectPool\<close> of \<open>src/io_pool.h\<close>.
    \<open>Pool_Race\<close>: the statements of \<open>getIoService\<close> as steps of threads.
  \<^item> \<open>Tcp_Object\<close>: \<open>Config\<close>, \<open>NetProperty\<close>, \<open>TcpObj\<close>, \<open>TcpServer\<close> and \<open>TcpClient\<close> (\<open>include/config.h\<close>,
    \<open>include/fannynet.h\<close>, \<open>src/tcp_object.h\<close>, \<open>src/tcp_object.cpp\<close>).  \<open>Poll_Threads\<close>: the statements of \<open>push\<close> and \<open>poll\<close> under the mutex of the
    endpoint's queue.  \<open>Connection_Property\<close>: \<open>ConnectionProperty\<close> of \<open>src/net_type.h\<close>, how endpoints fill
    it, that the function a server leaves empty is never called, and a client's address.
  \<^item> \<open>Net_Service\<close>, \<open>Service_Invariant\<close>: \<open>NetService\<close> and \<open>NetManager\<close> (\<open>src/service.cpp\<close>,
    \<open>src/manager.cpp\<close>) and the transition system \<open>service_step\<close> of calls, events and accepted
    sockets in any order.
  \<^item> \<open>Message_Flow\<close>: a sending connection, a stream, a receiving connection and its endpoint
    put together.
  \<^item> \<open>Session_Ids\<close>: the ids of the connections a service makes in a run \<open>service_run\<close>, which keeps
    the actions of all calls.
  \<^item> \<open>Teardown\<close>: the thread of an \<open>IoObject\<close>, and the destructors of the pool, the service, the
    endpoints and the manager, over a store of thread objects.

  \<^item> \<open>Session_Notes\<close>: the notes a connection reports of a session (opened, a message, closed),
    and as which calls of the user's functions they end.  \<open>User_Calls\<close>: \<open>poll\<close> with functions
    that call \<open>send\<close> and \<open>kick\<close> while it runs.  \<open>Service_Notes\<close>: how every call of the manager
    moves notes from the queues of the endpoints to the user.
  \<^item> \<open>Node\<close>: a whole process, the service with all its connections, as a step relation
    \<open>node_step\<close> of calls, polls, accepted sockets and handlers in any order, and its invariant
    \<open>node_inv\<close>.  \<open>Node_Reads\<close>: the messages of a connection from the bytes it read, for every
    class.  \<open>Node_Stream\<close>: the bytes of its messages on the wires, and two processes joined by a wire.
    \<open>Accept_Once\<close>: what the log of the calls says of a session a server accepted.  \<open>Node_Example\<close>: a process with one connected client.
    \<open>Node_Limits\<close>: the end of a connection in a process, with the close that spins and what an idle connection has written;
    \<open>Limit_Examples\<close>: runs that lead there, a client that is started again, and a server that accepted.
  \<^item> \<open>Test_Program\<close>: \<open>test/test.cpp\<close>, a Redis client whose functions answer, as runs \<open>test_run\<close>
    that are runs of a process; \<open>Test_Example\<close>: a run up to its first command.
  \<^item> \<open>Further_Facts\<close>: facts about single operations, among them that \<open>remove\<close> never removes.

  \<^bold>\<open>Interfaces.\<close>  \<open>pod_type\<close> is what the template members need of a type, interpreted for
  \<open>unsigned int\<close> and for the header; \<open>block_class\<close> what the sending side of a connection needs of
  a message class, interpreted for all three; \<open>stream_class\<close>, which extends it, what the
  receiving side needs, interpreted for \<open>NetBlock\<close> and, inside \<open>decimal_cast\<close>, for both Redis
  classes; \<open>session_class\<close>, which also extends \<open>block_class\<close>, that a message keeps its session,
  interpreted for all three; \<open>std_map\<close> what the code needs of \<open>std::map\<close>; \<open>decimal_cast\<close> what it needs of
  \<open>boost::lexical_cast<int>\<close>, interpreted for a concrete function.

  \<^bold>\<open>What the lemmas show.\<close>  Each component has an invariant or an abstraction (\<open>nb_inv\<close> with
  \<open>nb_content\<close> and \<open>nb_unread\<close>; \<open>nblk_repr\<close>, \<open>rb2_repr\<close>, \<open>rb_repr\<close>; \<open>send_inv\<close>, \<open>sys_inv\<close>; \<open>recv_holds\<close>;
  \<open>pool_inv\<close>, \<open>tcp_inv\<close>, \<open>service_inv\<close>) and a lemma per operation (\<open>X_ok\<close>) that gives its result and
  its effect on them.  The properties C1 to C6 are
  about whole processes and their users, C7 to C10 about streams, C11 to C16 about the sending side
  and the end of a connection, C17 to C19 about the life of a connection and the room for its next
  read, C20 to C25 about messages and replies, C26 to C29 about buffers and messages as objects,
  C30 to C33 about what the readers refuse, C34 to C36 about endpoints and the service, C37 to
  C40 about the pool and the end of the service.  A process is joined to its connections by three
  invariants: \<open>node_inv\<close> (the notes of a connection are those the user was told and those that
  wait), \<open>node_tx\<close> (the bytes given to a connection are those of the messages the log says were
  sent) and \<open>node_rx\<close> (its messages are the frames of the bytes it read); C1 composes them.

  \<^bold>\<open>Errors.\<close>  An assertion, an exception, a null pointer or an access outside a block is a value
  of \<open>fault\<close>.  \<open>dbg\<close> says whether asserts are active.  All sizes are 64 bit words and wrap as in
  the code; lemmas that need sums not to wrap say so with \<open>PTRDIFF_MAX\<close>, the size of the largest
  object.  Bytes are laid out as on little-endian 64 bit platforms.  The loops \<open>readLoop\<close> and
  \<open>stop_loop\<close> are partial functions, and that they return is proved where it is claimed; no
  fuel is used.

  \<^bold>\<open>Parameters.\<close>  \<open>cast\<close> is \<open>boost::lexical_cast<int>\<close>; \<open>resolve\<close> the name resolution of a client,
  made by \<open>resolve_host\<close> from \<open>gethostbyname\<close> and \<open>from_string\<close>;
  \<open>listen_outcome\<close> what the acceptor's calls do; \<open>alive\<close> which connections some pointer still
  holds; \<open>run_ends\<close> when \<open>io_service::run\<close> returns; \<open>boost_split\<close> the parts \<open>boost::split\<close>
  stores; \<open>elapsed\<close> the readings of the timer and \<open>env\<close> the other threads in the loop of \<open>stop\<close>.

  \<^bold>\<open>Simplifications.\<close>  The functions run one at a time: threads interleave between calls, not
  inside them.  For the sending side of a connection (C14) and the queue of an endpoint (C34) this
  loses nothing in one opening of a connection; the map of sessions has no mutex but is used by the user's thread only;
  \<open>getIoService\<close> has no mutex and needs one (C37).  The functions
  of the user may call \<open>send\<close> and \<open>kick\<close> while \<open>poll\<close> runs them (C5), but no other call of the
  manager.  A run of a process makes fewer than \<open>2 ^ 64\<close> connections, the messages it sends have a
  buffer, and each connection reports to one endpoint, \<open>owner\<close>.  In the test program the signal
  arrives between two polls, and the timer may end the loop of \<open>stop\<close> after any round.  A connection is named by its session id, and the
  sets of connections of an endpoint are ordered by it.  Allocations up to \<open>PTRDIFF_MAX\<close> bytes
  succeed.  \<open>return nullptr\<close> for a \<open>boost::optional\<close> is \<open>boost::none\<close>.

  \<^bold>\<open>Not modelled.\<close>  The sockets, acceptors and \<open>io_service\<close> of asio, which appear as effects and
  as the events that call handlers; the line \<open>printf\<close> prints
  when a session is closed; what a thread runs between its start and its join, other than the
  tasks of connections; type aliases; of the test program what it prints outside its functions, \<open>sleep_for\<close> and the registration
  of the signals; the build files and the version header.
\<close>

section \<open>Whole processes\<close>

text \<open>
  C1: Two processes with default messages, the receiving one a release build, each in any state that calls of the manager,
  polls whose functions send and kick, accepted sockets and handlers can reach in any order.
  The wire of a connection of the first, which was accepted or opened at most once, feeds a
  connection of the second.
  If \<open>bodies\<close> are the messages the user of the first sent to that session, the user of the
  second was given the first of them, finished, in order and each once; and all of them, if
  the first process is idle on a working socket, all bytes were read and the second has polled.
\<close>

theorem two_processes:
  assumes "node_reach dA (netBlock_vt d) resA loA ownA A" and "node_reach dB (netBlock_vt False) resB loB ownB B"
    and "nd_conns A s = Some x" and "opens (notices (s_events x)) \<le> 1 \<or> OnConn s CallPostAccept \<in> set (nd_log A)"
    and "s_wire x = nd_in B r @ later"
    and "list_all2 nblk_sealed (sent_to s (nd_log A)) bodies" and "\<forall>b \<in> set bodies. 12 + length b < 2 ^ 32"
  shows "\<exists>k. list_all2 nblk_done (told (seen (netBlock_vt False) r (nd_log B))) (take k bodies) \<and>
    (\<not> s_broken x \<and> m_connect (s_conn x) \<and> s_flight x = None \<and> RunWrite 0 \<notin> set (s_queue x) \<and>
       later = [] \<and> queue_of (m_nets (nd_sv B)) (ownB r) = [] \<longrightarrow> k = length bodies)"
proof -
  have "opens (notices (s_events x)) \<le> 1" using assms(4) net_session.accepted_opens_once [OF assms(1) _ assms(3)] by blast
  from two_nodes [OF assms(1-3) this assms(5-7)] show ?thesis .
qed

theorem two_processes_witness:
  "\<exists>A x B. peer_reach False (netBlock_vt False) A \<and> nd_conns A 1 = Some x \<and>
     peer_reach False (netBlock_vt False) B \<and> s_wire x = nd_in B 1 \<and> s_wire x \<noteq> [] \<and>
     list_all2 nblk_done (told (seen (netBlock_vt False) 1 (nd_log B))) [''hello'']"
proof -
  have "unat (1 :: session_id) \<le> PTRDIFF_MAX" by (simp add: PTRDIFF_MAX_def)
  from made_message [OF this, of "''hello''" False] obtain b where b: "nblk_sealed b ''hello''" "m_session b = 1"
    by (auto simp: PTRDIFF_MAX_def)
  have len: "12 + length ''hello'' < 65535" by simp
  obtain A x where A: "peer_reach False (netBlock_vt False) A" "nd_conns A 1 = Some x" "opens (notices (s_events x)) = 1"
      "s_wire x = frame_of ''hello''" "\<not> s_broken x" "m_connect (s_conn x)" "s_flight x = None" "s_queue x = []"
      "sent_to 1 (nd_log A) = [b]"
    using peer_sends [OF b len, of False False] by blast
  obtain B where B: "peer_reach False (netBlock_vt False) B" "nd_in B 1 = frame_of ''hello''"
      "queue_of (m_nets (nd_sv B)) ''peer'' = []"
    using peer_receives [OF len, of False] by blast
  have c: "opens (notices (s_events x)) \<le> 1 \<or> OnConn 1 CallPostAccept \<in> set (nd_log A)" "s_wire x = nd_in B 1 @ []"
    "list_all2 nblk_sealed (sent_to 1 (nd_log A)) [''hello'']" "\<forall>b \<in> set [''hello'']. 12 + length b < 2 ^ 32"
    using A B b by simp_all
  obtain k where "list_all2 nblk_done (told (seen (netBlock_vt False) 1 (nd_log B))) (take k [''hello''])"
      "k = length [''hello'']"
    using two_processes [OF A(1) B(1) A(2) c] A(5-8) B(3) by auto
  moreover have "frame_of ''hello'' \<noteq> []" by (simp add: frame_of_def)
  ultimately show ?thesis using A(1,2,4) B(1,2) by (intro exI [of _ A] exI [of _ x] exI [of _ B]) simp
qed

text \<open>
  C2: In any state a process with Redis messages can reach, of either class, let the bytes a
  connection has read be the beginning of a stream of replies \<open>rs\<close>, each of one line or with one
  counted string. Then
  the user's function was called with the first of these replies, with their kind and value, in
  order and each once; with all of them, if the stream was read and the user has polled. A
  sequence of strings is not in scope, because one that is cut is not delivered (C31), only the null
  sequence is; a line has no line feed and does not end in a carriage return, an error has a text of at least three characters (C33),
  and for \<open>RedisBlock\<close> an integer must fit an \<open>int\<close> and the packed reply half of the memory. All
  that is assumed of \<open>boost::lexical_cast\<close> is that it reads decimal numerals.
\<close>

theorem replies_reach_the_user:
  assumes "decimal_cast cast" and "inp @ later = concat (map resp_bytes rs) @ part"
  shows "(node_reach dbg (redisBlock2_vt dbg cast) resolve lo owner n \<and> nd_in n s = inp \<and>
      (\<forall>r \<in> set rs. rb2_valid r) \<and> proper_part resp_bytes rb2_valid part \<longrightarrow>
      (\<exists>k. list_all2 rb2_done (told (seen (redisBlock2_vt dbg cast) s (nd_log n))) (take k rs) \<and>
        (later = [] \<and> queue_of (m_nets (nd_sv n)) (owner s) = [] \<longrightarrow> k = length rs))) \<and>
    (node_reach dbg (redisBlock_vt dbg cast) resolve lo owner m \<and> nd_in m s = inp \<and>
      (\<forall>r \<in> set rs. rb_valid cast r) \<and> proper_part resp_bytes (rb_valid cast) part \<longrightarrow>
      (\<exists>k. list_all2 (rb_done cast) (told (seen (redisBlock_vt dbg cast) s (nd_log m))) (take k rs) \<and>
        (later = [] \<and> queue_of (m_nets (nd_sv m)) (owner s) = [] \<longrightarrow> k = length rs)))"
  using decimal_cast.redis2_told [OF assms(1)] decimal_cast.redis_told [OF assms(1)] assms(2) by blast

theorem replies_reach_the_user_witness:
  "\<exists>n. peer_reach True (redisBlock2_vt True plain_cast) n \<and> nd_in n 1 = resp_bytes (Status ''OK'') \<and>
     list_all2 rb2_done (told (seen (redisBlock2_vt True plain_cast) 1 (nd_log n))) [Status ''OK'']"
proof -
  have v: "rb2_valid (Status ''OK'')" by (simp add: rb2_valid_def simple_def clean_line_def)
  have b: "resp_bytes (Status ''OK'') \<noteq> []" "length (resp_bytes (Status ''OK'')) \<le> 65535"
    by (simp_all add: resp_bytes_def REDIS_LBR_def)
  obtain n where n: "peer_reach True (redisBlock2_vt True plain_cast) n" "nd_in n 1 = resp_bytes (Status ''OK'')"
      "queue_of (m_nets (nd_sv n)) ''peer'' = []"
    using decimal_cast.peer_gets_reply [OF plain.decimal_cast_axioms v b(2), of True] by blast
  have "resp_bytes (Status ''OK'') @ [] = concat (map resp_bytes [Status ''OK'']) @ []" by simp
  note R = replies_reach_the_user [OF plain.decimal_cast_axioms this, THEN conjunct1, rule_format, of True]
  have "proper_part resp_bytes rb2_valid []" using v b(1) unfolding proper_part_def by auto
  then have "peer_reach True (redisBlock2_vt True plain_cast) n \<and> nd_in n 1 = resp_bytes (Status ''OK'') \<and>
      (\<forall>r \<in> set [Status ''OK'']. rb2_valid r) \<and> proper_part resp_bytes rb2_valid []" using n v by simp
  from R [OF this] obtain k where
    "list_all2 rb2_done (told (seen (redisBlock2_vt True plain_cast) 1 (nd_log n))) (take k [Status ''OK''])"
    "k = length [Status ''OK'']" using n(3) by auto
  then show ?thesis using n by auto
qed

text \<open>
  C3: In every reachable state of a process, for each message class and session: the notes its
  connection ever reported are those the user's functions were called for, followed by those
  that wait in the queue of the endpoint: none is lost, repeated or overtaken. A message is
  given to the user only after the note that the session opened and before the one that it
  closed, and the pool holds the session exactly while the last of these notes said open. The
  session of a connection that was accepted is opened at most once.
\<close>

theorem user_is_told_in_order:
  "(node_reach dbg (netBlock_vt d) resolve lo owner n1 \<longrightarrow> user_view (netBlock_vt d) owner n1 s) \<and>
   (node_reach dbg (redisBlock2_vt d cast) resolve lo owner n2 \<longrightarrow> user_view (redisBlock2_vt d cast) owner n2 s) \<and>
   (node_reach dbg (redisBlock_vt d cast) resolve lo owner n3 \<longrightarrow> user_view (redisBlock_vt d cast) owner n3 s)"
  by (intro conjI impI net_session.user_view_reach redis2_session.user_view_reach redis_session.user_view_reach)

theorem user_is_told_in_order_witness:
  "\<exists>n. peer_reach False (netBlock_vt False) n \<and> seen (netBlock_vt False) 1 (nd_log n) = [Opened] \<and>
     user_view (netBlock_vt False) (\<lambda>_. ''peer'') n 1"
proof -
  obtain n t and x :: "net_block conn_sys" where n: "peer_reach False (netBlock_vt False) n" "peer_ready (netBlock_vt False) n x t"
    using peer_online by blast
  show ?thesis
    using n user_is_told_in_order [THEN conjunct1, rule_format, OF n(1), of 1] by (auto simp: peer_ready_def)
qed

text \<open>
  C4: In every state a process can reach between two polls, and for each message class: \<open>send\<close> hands a message to the connection of its
  session, and returns true, exactly if the service runs, the connection still exists, and the
  last thing the user was told of the session is that it opened. Otherwise it returns false and
  does nothing. Inside the function that tells the user that a session closed this is not so: the pool still
  has the session, and a message sent to it there is taken by the connection that is down.
\<close>

theorem send_needs_an_open_session:
  "(node_reach dbg (netBlock_vt d) resolve lo owner n1 \<longrightarrow>
      service_send (netBlock_vt d) alive b1 (nd_sv n1) =
        (let ok = isRun (nd_sv n1) \<and> alive (m_session b1) \<and> up_after False (seen (netBlock_vt d) (m_session b1) (nd_log n1))
         in Inr (ok, nd_sv n1, if ok then [OnConn (m_session b1) (CallSend b1)] else []))) \<and>
   (node_reach dbg (redisBlock2_vt d cast) resolve lo owner n2 \<longrightarrow>
      service_send (redisBlock2_vt d cast) alive b2 (nd_sv n2) =
        (let ok = isRun (nd_sv n2) \<and> alive (m_session b2) \<and> up_after False (seen (redisBlock2_vt d cast) (m_session b2) (nd_log n2))
         in Inr (ok, nd_sv n2, if ok then [OnConn (m_session b2) (CallSend b2)] else []))) \<and>
   (node_reach dbg (redisBlock_vt d cast) resolve lo owner n3 \<longrightarrow>
      service_send (redisBlock_vt d cast) alive b3 (nd_sv n3) =
        (let ok = isRun (nd_sv n3) \<and> alive (m_session b3) \<and> up_after False (seen (redisBlock_vt d cast) (m_session b3) (nd_log n3))
         in Inr (ok, nd_sv n3, if ok then [OnConn (m_session b3) (CallSend b3)] else []))) \<and>
   (pool_inv pool \<and> m_session b1 \<in> pool_keys pool \<and> isRun sv \<and> alive (m_session b1) \<and>
      user (m_name (t_config t)) (EvClose (m_session b1)) = Inr [UserSend b1] \<longrightarrow>
      run_event_user lo1 (netBlock_vt d) alive user sv t pool (EvClose (m_session b1)) =
        Inr (t\<lparr>t_onlines := om_erase (m_session b1) (t_onlines t)\<rparr>, delSession (m_session b1) pool,
          [CloseFun (m_name (t_config t)) (m_session b1), OnConn (m_session b1) (CallSend b1)]))"
proof -
  have e: "vt_session (netBlock_vt d) b1 = m_session b1" "vt_session (redisBlock2_vt d cast) b2 = m_session b2"
      "vt_session (redisBlock_vt d cast) b3 = m_session b3"
    by (simp_all add: netBlock_vt_def redisBlock2_vt_def redisBlock_vt_def)
  show ?thesis
    using net_session.send_taken [of dbg d resolve lo owner n1 alive b1, unfolded e]
      redis2_session.send_taken [of dbg d cast resolve lo owner n2 alive b2, unfolded e]
      redis_session.send_taken [of dbg d cast resolve lo owner n3 alive b3, unfolded e]
      send_from_close [of pool "m_session b1" sv alive user t b1 "netBlock_vt d", OF _ _ _ _ _ e(1)] by blast
qed

theorem send_needs_an_open_session_witness:
  "\<exists>n b1 b2. peer_reach False (netBlock_vt False) n \<and> m_session b1 = 1 \<and> m_session b2 = 2 \<and>
     service_send (netBlock_vt False) (\<lambda>_. True) b1 (nd_sv n) = Inr (True, nd_sv n, [OnConn 1 (CallSend b1)]) \<and>
     service_send (netBlock_vt False) (\<lambda>_. True) b2 (nd_sv n) = Inr (False, nd_sv n, [])"
proof -
  obtain n t and x :: "net_block conn_sys" where n: "peer_reach False (netBlock_vt False) n" "peer_ready (netBlock_vt False) n x t"
    using peer_online by blast
  obtain b1 b2 where b: "netBlock False 1 0 = Inr b1" "netBlock False 2 0 = Inr b2" "m_session b1 = 1" "m_session b2 = 2"
    by (simp add: netBlock_zero netBlock_nosize_eq)
  note S = send_needs_an_open_session [THEN conjunct1, rule_format, OF n(1), where alive = "\<lambda>_. True"]
  have s1: "service_send (netBlock_vt False) (\<lambda>_. True) b1 (nd_sv n) = Inr (True, nd_sv n, [OnConn 1 (CallSend b1)])"
    using S [of b1] n(2) b(3) by (simp add: peer_ready_def)
  have "service_send (netBlock_vt False) (\<lambda>_. True) b2 (nd_sv n) = Inr (False, nd_sv n, [])"
    using S [of b2] n(2) b(4) by (simp add: peer_ready_def)
  with s1 n(1) b show ?thesis by blast
qed

text \<open>
  C5: The functions of the user may call \<open>send\<close> and \<open>kick\<close> while \<open>poll\<close> runs them. If they do not
  throw, \<open>poll\<close> ends as it does with functions that call nothing: in the same fault, or with the
  same result, the same state of service, endpoints and pool, and the same actions, to which only
  the messages and closes of these calls are added.
\<close>

theorem poll_with_calls:
  assumes "\<And>name ev. \<exists>ks. user name ev = Inr ks"
  shows "case service_poll lo sv of
      Inl e \<Rightarrow> service_poll_user lo vt alive user sv = Inl e
    | Inr (r, sv', acts) \<Rightarrow>
        \<exists>acts'. service_poll_user lo vt alive user sv = Inr (r, sv', acts') \<and>
          filter (\<lambda>a. \<not> is_call a) acts' = filter (\<lambda>a. \<not> is_call a) acts"
  using poll_user_agrees [where user = user and lo = lo and sv = sv and vt = vt and alive = alive, OF assms]
  by (cases "service_poll lo sv") (auto simp: others_def)

theorem poll_with_calls_witness:
  "\<exists>sv sv' acts. m_nets sv \<noteq> [] \<and>
     service_poll (\<lambda>_. ListenOk) (sv :: net_block net_service) = Inr (True, sv', [ConnectFun ''c'' 3]) \<and>
     service_poll_user (\<lambda>_. ListenOk) (netBlock_vt False) (\<lambda>_. True) (\<lambda>_ _. Inr [UserKick 3]) sv = Inr (True, sv', acts) \<and>
     filter (\<lambda>a. \<not> is_call a) acts = [ConnectFun ''c'' 3]"
proof -
  let ?t = "tcpObj (netProperty False (config_client ''c'' ''a'' 80 True) None)\<lparr>m_call := [EvConnect 3]\<rparr>"
  obtain pool where p: "pool_inv pool" using ioObjectPool_ok [of 3 False] by auto
  let ?sv = "\<lparr>m_ioPool = pool, m_nets = [(''c'', ?t)], sv_state = STATE_SERVICE_RUN\<rparr>"
  obtain sv' where s: "service_poll (\<lambda>_. ListenOk) ?sv = Inr (True, sv', [ConnectFun ''c'' 3])"
    by (simp add: service_poll_def tcp_poll_def run_event_def t_config_def tcpObj_def netProperty_def config_client_def)
  have "\<exists>ks. (\<lambda>_ _. Inr [UserKick 3] :: net_block user_call list res) name ev = Inr ks" for name :: string and ev :: "net_block tcp_event"
    by simp
  from poll_with_calls [where user = "\<lambda>_ _. Inr [UserKick 3]" and lo = "\<lambda>_. ListenOk" and sv = ?sv and
      vt = "netBlock_vt False" and alive = "\<lambda>_. True", OF this] s
  show ?thesis by (intro exI [of _ ?sv] exI [of _ sv']) (auto simp: is_call_def)
qed

text \<open>
  C6: The program of \<open>test.cpp\<close>, whose functions answer from inside \<open>poll\<close>, in every state it can
  reach: the next \<open>poll\<close>, of its loop or of \<open>stop\<close>, returns. The bytes its connection wrote, as
  long as it was opened once, are the beginning of one command \<open>set player 0\<close> and one command
  \<open>get player\<close> for every reply the program was given; before the signal that stops it, on a
  working idle connection, they are all of these.
\<close>

theorem test_program_answers:
  assumes "test_run dbg cast resolve lo running n"
  shows "(\<exists>sv acts. service_poll_user lo (redisBlock2_vt dbg cast) (\<lambda>_. True) (test_user dbg) (nd_sv n) =
      Inr (True, sv, acts)) \<and>
    (\<forall>x. nd_conns n 1 = Some x \<and> opens (notices (s_events x)) \<le> 1 \<longrightarrow>
      (let told_of = seen (redisBlock2_vt dbg cast) 1 (nd_log n) in
       \<exists>rest. (if opens told_of = 0 then []
          else makeCommand ''set'' [''player'', ''0''] @ concat (replicate (length (told told_of)) (makeCommand ''get'' [''player'']))) =
            s_wire x @ rest \<and>
         (running \<and> \<not> s_broken x \<and> m_connect (s_conn x) \<and> s_flight x = None \<and> RunWrite 0 \<notin> set (s_queue x) \<longrightarrow> rest = [])))"
  using test_poll_returns [OF assms] test_wire [OF assms] unfolding Let_def test_set_def test_get_def by blast

theorem test_program_answers_witness:
  "\<exists>n x sv acts. test_run True (\<lambda>_. None) peer_resolve (\<lambda>_. ListenOk) True n \<and> nd_conns n 1 = Some x \<and>
     service_poll_user (\<lambda>_. ListenOk) (redisBlock2_vt True (\<lambda>_. None)) (\<lambda>_. True) (test_user True) (nd_sv n) = Inr (True, sv, acts) \<and>
     (\<exists>rest. makeCommand ''set'' [''player'', ''0''] = s_wire x @ rest \<and> s_wire x \<noteq> [])"
proof -
  obtain n x where n: "test_run True (\<lambda>_. None) peer_resolve (\<lambda>_. ListenOk) True n" "nd_conns n 1 = Some x"
      "opens (notices (s_events x)) = 1" "seen (test_vt True (\<lambda>_. None)) 1 (nd_log n) = [Opened]" "s_wire x = test_set"
    using test_writes by blast
  from test_program_answers [OF n(1)] n(2-4) obtain sv acts rest where
    "service_poll_user (\<lambda>_. ListenOk) (redisBlock2_vt True (\<lambda>_. None)) (\<lambda>_. True) (test_user True) (nd_sv n) = Inr (True, sv, acts)"
    "makeCommand ''set'' [''player'', ''0''] = s_wire x @ rest" by (auto simp: Let_def)
  moreover have "s_wire x \<noteq> []" using n(5) test_lengths(1) by auto
  ultimately show ?thesis using n(1,2) by blast
qed

section \<open>Connections and streams\<close>

text \<open>
  C7: Take any state that a connection sending default messages can reach while it is opened once, under any
  interleaving of user calls, posted tasks, partial progress and failures of the socket, in
  which the bytes given to \<open>send\<close> are those of the messages \<open>bodies\<close>. If the bytes on its
  wire arrive at a new accepted connection of a release build in any number of reads of any size, the receiver
  posts finished messages with exactly the first of these bodies, in order, without a fault;
  and all of them, once all bytes were written and read. (A receiver with active asserts
  aborts when a read cuts a header, C30.)
\<close>

theorem messages_arrive_in_order:
  assumes "conn_reach d (netBlock_vt d) t" and "s_submitted t = net_stream bodies"
    and "unat sz \<le> PTRDIFF_MAX" and "newConnection s sz = Inr c"
    and "\<forall>b \<in> set bodies. 12 + length b < 2 ^ 32"
  shows "\<exists>net' c' es n. recvRun False (netBlock_vt False) (fst (handlAccept c)) (s_wire t) ks =
             Some (Inr (net', c', es)) \<and>
           list_all2 nblk_done (posted es) (take n bodies) \<and>
           (s_wire t = s_submitted t \<and> net' = [] \<longrightarrow> n = length bodies)"
  using assms by (rule net_sender_receiver)

theorem messages_arrive_in_order_witness:
  "\<exists>t c. conn_reach False (netBlock_vt False) t \<and> s_submitted t = net_stream [''hello''] \<and>
     newConnection 2 64 = Inr c \<and>
     (\<exists>net' c' es n. recvRun False (netBlock_vt False) (fst (handlAccept c)) (s_wire t) [3, 100] =
        Some (Inr (net', c', es)) \<and> list_all2 nblk_done (posted es) (take n [''hello'']) \<and>
        (s_wire t = s_submitted t \<and> net' = [] \<longrightarrow> n = length [''hello'']))"
proof -
  have sz: "unat (64 :: size_t) \<le> PTRDIFF_MAX" "unat (1 :: session_id) \<le> PTRDIFF_MAX" "(0 :: size_t) < 64"
    by (simp_all add: PTRDIFF_MAX_def)
  obtain b0 b where b: "nblk_sealed b ''hello''"
    using made_message [OF sz(2), of "''hello''" False] by (auto simp: PTRDIFF_MAX_def)
  obtain c :: "net_block connection" where c: "newConnection 2 64 = Inr c"
    using newConnection_ok [OF sz(1), of 2] by blast
  obtain t where t: "conn_reach False (netBlock_vt False) t" "s_submitted t = net_stream [''hello'']"
    using sent_one [OF sz(1,3) c b] by blast
  have "\<forall>b \<in> set [''hello'']. 12 + length b < 2 ^ 32" by simp
  from messages_arrive_in_order [OF t sz(1) c this, of "[3, 100]"] t c show ?thesis by blast
qed

text \<open>
  C8: Redis replies of one line or with one counted string, cut into reads at any place, are
  posted by a connection whose messages are \<open>RedisBlock2\<close> with their kind and value, in
  order, without a fault, also when the asserts are active; the rest of the stream is kept.
  Of sequences only the null one is among these replies: a sequence of strings that is cut makes
  the reader throw (C31). All that is assumed of \<open>boost::lexical_cast\<close> is that it reads decimal numerals.
\<close>

theorem redis_replies_arrive:
  assumes "decimal_cast cast" and "unat sz \<le> PTRDIFF_MAX" and "newConnection s sz = Inr c"
    and "proper_part resp_bytes rb2_valid part" and "\<forall>r \<in> set rs. rb2_valid r"
  shows "\<exists>net' c' es n. recvRun dbg (redisBlock2_vt dbg cast) (fst (handlAccept c))
             (redis_stream rs @ part) ks = Some (Inr (net', c', es)) \<and>
           list_all2 rb2_done (posted es) (take n rs) \<and> (net' = [] \<longrightarrow> n = length rs)"
  using decimal_cast.redis_stream_run [OF assms] .

theorem redis_replies_arrive_witness:
  "\<exists>c net' c' es n. newConnection 2 64 = Inr c \<and>
     recvRun True (redisBlock2_vt True plain_cast) (fst (handlAccept c))
       (redis_stream [Bulk (Some ''player''), Status ''OK'', Bulk None] @ ''$3'') [4, 9, 2, 30] =
       Some (Inr (net', c', es)) \<and>
     list_all2 rb2_done (posted es) (take n [Bulk (Some ''player''), Status ''OK'', Bulk None]) \<and>
     (net' = [] \<longrightarrow> n = length [Bulk (Some ''player''), Status ''OK'', Bulk None])"
proof -
  have sz: "unat (64 :: size_t) \<le> PTRDIFF_MAX" by (simp add: PTRDIFF_MAX_def)
  obtain c :: "redis_block2 connection" where c: "newConnection 2 64 = Inr c"
    using newConnection_ok [OF sz, of 2] by blast
  have v: "rb2_valid (Bulk (Some x))" if "length x < 100" for x
    using that by (simp add: rb2_valid_def simple_def INT_MAX_def)
  have d3: "dec_nat (Suc (Suc (Suc 0))) = ''3''" by (simp add: dec_nat.simps digit_def char_of_eq_iff)
  have part: "proper_part resp_bytes rb2_valid ''$3''"
    unfolding proper_part_def
    by (intro exI [of _ "Bulk (Some ''abc'')"] exI [of _ "REDIS_LBR @ ''abc'' @ REDIS_LBR"])
      (simp add: v resp_bytes_def d3 REDIS_LBR_def)
  have "\<forall>r \<in> set [Bulk (Some ''player''), Status ''OK'', Bulk None]. rb2_valid r"
    using v [of "''player''"] by (simp add: rb2_valid_def simple_def clean_line_def)
  from redis_replies_arrive [OF plain.decimal_cast_axioms sz c part this, of True "[4, 9, 2, 30]"] c
  show ?thesis by blast
qed

text \<open>
  C9: The same for \<open>RedisBlock\<close>, which packs each reply into a buffer of its own: for replies of one
  line or with one counted string and null sequences, cut into reads at any place, the buffer
  of a posted message holds the kind and the value of its reply, and is exactly full. Sequences
  of strings, which are not delivered when they are cut, are not in scope, and an integer must fit an \<open>int\<close>.
\<close>

theorem redis_replies_are_packed:
  assumes "decimal_cast cast" and "unat sz \<le> PTRDIFF_MAX" and "newConnection s sz = Inr c"
    and "proper_part resp_bytes (rb_valid cast) part" and "\<forall>r \<in> set rs. rb_valid cast r"
  shows "\<exists>net' c' es n. recvRun dbg (redisBlock_vt dbg cast) (fst (handlAccept c))
             (redis_stream rs @ part) ks = Some (Inr (net', c', es)) \<and>
           list_all2 (rb_done cast) (posted es) (take n rs) \<and> (net' = [] \<longrightarrow> n = length rs)"
  using decimal_cast.rb_stream_run [OF assms] .

theorem redis_replies_are_packed_witness:
  "\<exists>c net' c' es n. newConnection 2 64 = Inr c \<and>
     recvRun True (redisBlock_vt True plain_cast) (fst (handlAccept c))
       (redis_stream [Bulk (Some ''player''), Integer_reply ''12''] @ []) [4, 9, 2, 30] =
       Some (Inr (net', c', es)) \<and>
     list_all2 (rb_done plain_cast) (posted es) (take n [Bulk (Some ''player''), Integer_reply ''12'']) \<and>
     (net' = [] \<longrightarrow> n = length [Bulk (Some ''player''), Integer_reply ''12''])"
proof -
  have sz: "unat (64 :: size_t) \<le> PTRDIFF_MAX" by (simp add: PTRDIFF_MAX_def)
  obtain c :: "redis_block connection" where c: "newConnection 2 64 = Inr c"
    using newConnection_ok [OF sz, of 2] by blast
  have d6: "dec_nat (Suc (Suc (Suc (Suc (Suc (Suc 0)))))) = ''6''" by (simp add: dec_nat.simps digit_def char_of_eq_iff)
  have v: "rb_valid plain_cast (Bulk (Some ''player''))" "rb_valid plain_cast (Integer_reply ''12'')"
    by (simp_all add: rb_valid_def rb_ok_def simple_def INT_MAX_def INT_MIN_def PTRDIFF_MAX_def rb_bytes_length d6
        clean_line_def plain_cast_def digit_val_def in_int_range_def)
  have part: "proper_part resp_bytes (rb_valid plain_cast) []"
    unfolding proper_part_def
    by (intro exI [of _ "Integer_reply ''12''"] exI [of _ "resp_bytes (Integer_reply ''12'')"])
      (simp add: v resp_bytes_def)
  have "\<forall>r \<in> set [Bulk (Some ''player''), Integer_reply ''12'']. rb_valid plain_cast r" using v by simp
  from redis_replies_are_packed [OF plain.decimal_cast_axioms sz c part this, of True "[4, 9, 2, 30]"] c
  show ?thesis by blast
qed

text \<open>
  C10: A connection that receives default messages, in a release build, on any bytes at all:
  \<open>handleReadSome\<close> returns; it posts the bodies of exactly the complete frames of what was
  left from before and the new bytes, in order, keeps the rest, and starts the next read.
  Only if the stream then announces a frame shorter than a header does it end in the use of
  a null pointer. (With active asserts a rest that is shorter than a header aborts, C30.)
\<close>

theorem any_bytes_are_framed:
  assumes "recv_holds nblk_repr c s" and "m_connect c" and "length data \<le> nb_free (m_bufferRecv c)"
  shows "if malformed (snd (deframe (s @ data)))
    then handleReadSome dbg (netBlock_vt False) c False data = Some (Inl NullDeref)
    else \<exists>c' bs. handleReadSome dbg (netBlock_vt False) c False data =
        Some (Inr (c', map EventPostRecv bs @ beginRead c')) \<and>
      list_all2 nblk_done bs (fst (deframe (s @ data))) \<and>
      recv_holds nblk_repr c' (snd (deframe (s @ data))) \<and> same_send c c'"
  using handleReadSome_net [OF assms, of dbg] by (auto split: if_splits)

theorem any_bytes_are_framed_witness:
  "\<exists>c. newConnection 2 64 = Inr c \<and>
    (if malformed (snd (deframe ([] @ ''any bytes at all'')))
     then handleReadSome False (netBlock_vt False) (fst (handlAccept c)) False ''any bytes at all'' = Some (Inl NullDeref)
     else \<exists>c' bs. handleReadSome False (netBlock_vt False) (fst (handlAccept c)) False ''any bytes at all'' =
        Some (Inr (c', map EventPostRecv bs @ beginRead c')) \<and>
      list_all2 nblk_done bs (fst (deframe ([] @ ''any bytes at all''))) \<and>
      recv_holds nblk_repr c' (snd (deframe ([] @ ''any bytes at all''))) \<and> same_send (fst (handlAccept c)) c')"
proof -
  have sz: "unat (64 :: size_t) \<le> PTRDIFF_MAX" by (simp add: PTRDIFF_MAX_def)
  obtain c :: "net_block connection" where c: "newConnection 2 64 = Inr c"
    using newConnection_ok [OF sz, of 2] by blast
  note A = accepted_ready [OF sz c]
  note H = fresh_holds [OF A(2-4), of nblk_repr]
  have "length ''any bytes at all'' \<le> nb_free (m_bufferRecv (fst (handlAccept c)))" using H A(5) by simp
  from any_bytes_are_framed [OF H [THEN conjunct1] A(1) this, of False] c show ?thesis by blast
qed

text \<open>
  C11: In every reachable state of a sending connection that is opened once, for default and for Redis messages,
  the bytes on the wire are a prefix of the bytes of the messages given to \<open>send\<close>, in the
  order of the calls: none is lost, repeated, reordered or invented, whatever the
  interleaving, and also when a write fails half way.
\<close>

theorem wire_carries_what_was_sent:
  "(conn_reach dbg (netBlock_vt d) s \<longrightarrow> (\<exists>rest. s_submitted s = s_wire s @ rest)) \<and>
   (conn_reach dbg (redisBlock2_vt d cast) t \<longrightarrow> (\<exists>rest. s_submitted t = s_wire t @ rest)) \<and>
   (conn_reach dbg (redisBlock_vt d cast) u \<longrightarrow> (\<exists>rest. s_submitted u = s_wire u @ rest))"
  using net_class.wire_prefix redis2_class.wire_prefix redis_class.wire_prefix by blast

theorem wire_carries_what_was_sent_witness:
  "\<exists>t. conn_reach False (netBlock_vt False) t \<and> s_submitted t = net_stream [''hello''] \<and>
     (\<exists>rest. s_submitted t = s_wire t @ rest)"
proof -
  have sz: "unat (64 :: size_t) \<le> PTRDIFF_MAX" "unat (1 :: session_id) \<le> PTRDIFF_MAX" "(0 :: size_t) < 64"
    by (simp_all add: PTRDIFF_MAX_def)
  obtain b where b: "nblk_sealed b ''hello''"
    using made_message [OF sz(2), of "''hello''" False] by (auto simp: PTRDIFF_MAX_def)
  obtain c :: "net_block connection" where c: "newConnection 2 64 = Inr c"
    using newConnection_ok [OF sz(1), of 2] by blast
  obtain t where t: "conn_reach False (netBlock_vt False) t" "s_submitted t = net_stream [''hello'']"
    using sent_one [OF sz(1,3) c b] by blast
  show ?thesis
    using t wire_carries_what_was_sent [THEN conjunct1] by blast
qed

text \<open>
  C12: In every reachable state of a process, for each message class: a connection that was
  accepted, or opened at most once, and is up on a working socket with no write in flight and no
  task left to start one, has everything on the wire that the user sent to its session. For the
  connection of a client that was opened twice this is false: a message sent just before its
  close is still in the queue when it is up and idle again, and no task is posted to write it.
\<close>

theorem nothing_left_behind:
  "(node_reach dbg (netBlock_vt d) resolve lo owner n1 \<and> nd_conns n1 s = Some x1 \<and> at_rest x1 \<and>
      (opens (notices (s_events x1)) \<le> 1 \<or> OnConn s CallPostAccept \<in> set (nd_log n1)) \<longrightarrow>
      s_wire x1 = list_out (netBlock_vt d) (sent_to s (nd_log n1))) \<and>
   (node_reach dbg (redisBlock2_vt d cast) resolve lo owner n2 \<and> nd_conns n2 s = Some x2 \<and> at_rest x2 \<and>
      (opens (notices (s_events x2)) \<le> 1 \<or> OnConn s CallPostAccept \<in> set (nd_log n2)) \<longrightarrow>
      s_wire x2 = list_out (redisBlock2_vt d cast) (sent_to s (nd_log n2))) \<and>
   (node_reach dbg (redisBlock_vt d cast) resolve lo owner n3 \<and> nd_conns n3 s = Some x3 \<and> at_rest x3 \<and>
      (opens (notices (s_events x3)) \<le> 1 \<or> OnConn s CallPostAccept \<in> set (nd_log n3)) \<longrightarrow>
      s_wire x3 = list_out (redisBlock_vt d cast) (sent_to s (nd_log n3))) \<and>
   (sendable (netBlock_vt d) p \<and> m_session p = 1 \<longrightarrow>
      (\<exists>n x. peer_reach dbg (netBlock_vt d) n \<and> nd_conns n 1 = Some x \<and> opens (notices (s_events x)) = 2 \<and>
        at_rest x \<and> s_queue x = [] \<and> s_wire x = [] \<and> sent_to 1 (nd_log n) = [p]))"
proof -
  have "\<exists>n x. peer_reach dbg (netBlock_vt d) n \<and> nd_conns n 1 = Some x \<and> opens (notices (s_events x)) = 2 \<and>
      at_rest x \<and> s_queue x = [] \<and> s_wire x = [] \<and> sent_to 1 (nd_log n) = [p]"
    if p: "sendable (netBlock_vt d) p" "m_session p = 1"
  proof -
    have "vt_session (netBlock_vt d) p = 1" using p(2) by (simp add: netBlock_vt_def)
    then show ?thesis using peer_online [of dbg "netBlock_vt d"] net_session.forgotten [OF _ _ p(1)] by blast
  qed
  then show ?thesis
    by (intro conjI net_session.all_written redis2_session.all_written redis_session.all_written) blast
qed

theorem nothing_left_behind_witness:
  "\<exists>n x b n' x'. peer_reach False (netBlock_vt False) n \<and> nd_conns n 1 = Some x \<and> at_rest x \<and>
     sent_to 1 (nd_log n) = [b] \<and> s_wire x = list_out (netBlock_vt False) [b] \<and> s_wire x \<noteq> [] \<and>
     peer_reach False (netBlock_vt False) n' \<and> nd_conns n' 1 = Some x' \<and> at_rest x' \<and>
     sent_to 1 (nd_log n') = [b] \<and> s_wire x' \<noteq> list_out (netBlock_vt False) [b]"
proof -
  have "unat (1 :: session_id) \<le> PTRDIFF_MAX" by (simp add: PTRDIFF_MAX_def)
  from made_message [OF this, of "''hello''" False] obtain b where b: "nblk_sealed b ''hello''" "m_session b = 1"
    by (auto simp: PTRDIFF_MAX_def)
  obtain n x where n: "peer_reach False (netBlock_vt False) n" "nd_conns n 1 = Some x" "opens (notices (s_events x)) = 1"
      "s_wire x = frame_of ''hello''" "\<not> s_broken x" "m_connect (s_conn x)" "s_flight x = None" "s_queue x = []"
      "sent_to 1 (nd_log n) = [b]"
    using peer_sends [OF b, of False False] by auto
  have r: "at_rest x" "frame_of ''hello'' \<noteq> []" using n(5-8) by (simp_all add: at_rest_def frame_of_def)
  have w: "s_wire x = list_out (netBlock_vt False) [b]"
    using nothing_left_behind [THEN conjunct1, rule_format, of False False peer_resolve "\<lambda>_. ListenOk" "\<lambda>_. ''peer''" n 1 x] n(1-3,9) r(1)
    by simp
  obtain n' x' where n': "peer_reach False (netBlock_vt False) n'" "nd_conns n' 1 = Some x'" "at_rest x'"
      "s_wire x' = []" "sent_to 1 (nd_log n') = [b]"
    using nothing_left_behind [THEN conjunct2, THEN conjunct2, THEN conjunct2, rule_format, of False b False]
      sealed_sendable [OF b(1), of False] b(2) by blast
  have "s_wire x \<noteq> []" "list_out (netBlock_vt False) [b] \<noteq> s_wire x'" using w n(4) n'(4) r(2) by auto
  then show ?thesis using n(1,2,9) n'(1-3,5) r(1) w by metis
qed

text \<open>
  C13: A close without an error takes a working connection, of \<open>RedisBlock2\<close> messages and opened once, down only when everything given to
  \<open>send\<close> was written; before that it is posted again.
\<close>

theorem close_waits_for_the_data:
  assumes "conn_reach dbg (redisBlock2_vt d cast) s" and "\<not> s_broken s" and "m_connect (s_conn s)"
    and "handleClose (s_conn s) False = (c, es)"
  shows "m_connect c \<and> es = [IoPost (RunClose False)] \<or> \<not> m_connect c \<and> s_wire s = s_submitted s"
proof (cases "m_connect c")
  case True
  then show ?thesis using assms(4) by (auto simp: handleClose_def conn_close_def split: if_splits)
next
  case False
  then show ?thesis using redis2_class.close_flushes [OF assms] by blast
qed

theorem close_waits_for_the_data_witness:
  "\<exists>c c' es. newConnection 2 64 = Inr (c :: redis_block2 connection) \<and> handleClose (fst (handlAccept c)) False = (c', es) \<and>
     (m_connect c' \<and> es = [IoPost (RunClose False)] \<or>
      \<not> m_connect c' \<and> s_wire (start_sys (fst (handlAccept c))) = s_submitted (start_sys (fst (handlAccept c))))"
proof -
  have sz: "unat (64 :: size_t) \<le> PTRDIFF_MAX" "(0 :: size_t) < 64" by (simp_all add: PTRDIFF_MAX_def)
  obtain c :: "redis_block2 connection" where c: "newConnection 2 64 = Inr c"
    using newConnection_ok [OF sz(1), of 2] by blast
  have r: "conn_reach False (redisBlock2_vt False plain_cast) (start_sys (fst (handlAccept c)))"
    using accepted_fresh [OF sz c] by (rule conn_reach.Start)
  have s: "\<not> s_broken (start_sys (fst (handlAccept c)))" "m_connect (s_conn (start_sys (fst (handlAccept c))))"
    "s_conn (start_sys (fst (handlAccept c))) = fst (handlAccept c)"
    by (simp_all add: start_sys_def handlAccept_def Let_def)
  obtain c' es where h: "handleClose (fst (handlAccept c)) False = (c', es)"
    by (cases "handleClose (fst (handlAccept c)) False")
  from close_waits_for_the_data [OF r s(1,2), unfolded s(3), OF h] c h show ?thesis by blast
qed

text \<open>
  C14: Any number of threads may call \<open>send\<close> and \<open>close\<close> while the thread of the pool runs the
  handlers, and their statements may interleave as the mutex allows: at every moment the bytes
  on the wire are a prefix of those sent; at most one thread is between lock and unlock, and it
  is never blocked, but gives the mutex back with at most three steps of its own; and whenever none is
  inside a function, the state is one that the whole functions reach one after the other. (One
  opening of a connection, default messages.)
\<close>

theorem threads_act_like_whole_calls:
  assumes "thread_reach dbg (netBlock_vt d) f"
  shows "(\<exists>rest. s_submitted (th_sys f) = s_wire (th_sys f) @ rest) \<and>
    (\<forall>u v. th_user f u \<noteq> UIdle \<and> v \<noteq> u \<longrightarrow> th_user f v = UIdle \<and> \<not> io_inside (th_io f)) \<and>
    (\<forall>t. th_lock f = Some t \<longrightarrow> releases 3 dbg (netBlock_vt d) t f) \<and>
    (th_lock f = None \<and> th_io f = IIdle \<longrightarrow> conn_reach dbg (netBlock_vt d) (th_sys f))"
proof -
  note I = lock_inv_reach [OF assms]
  have "th_user f v = UIdle \<and> \<not> io_inside (th_io f)" if "th_user f u \<noteq> UIdle" "v \<noteq> u" for u v
    using lock_alone [OF I that] lock_invD(1,2) [OF I] that(1) by auto
  then show ?thesis
    using net_class.thread_wire [OF assms] net_class.holder_releases [OF assms] net_class.quiet_threads [OF assms] by blast
qed

theorem threads_act_like_whole_calls_witness:
  "\<exists>f. thread_reach False (netBlock_vt False) f \<and> th_lock f = Some (User 3) \<and> th_io f = ICloseLock \<and>
     (\<forall>g. \<not> step_of False (netBlock_vt False) Io f g) \<and> releases 3 False (netBlock_vt False) (User 3) f"
proof -
  let ?vt = "netBlock_vt False"
  have sz: "unat (64 :: size_t) \<le> PTRDIFF_MAX" "unat (1 :: session_id) \<le> PTRDIFF_MAX" "(0 :: size_t) < 64"
    by (simp_all add: PTRDIFF_MAX_def)
  obtain p where p: "sendable ?vt p"
    using made_message [OF sz(2), of "''hello''" False] sealed_sendable by (auto simp: PTRDIFF_MAX_def)
  obtain c :: "net_block connection" where c: "newConnection 2 64 = Inr c" using newConnection_ok [OF sz(1), of 2] by blast
  let ?f0 = "start_threads (fst (handlAccept c))"
  have r0: "thread_reach False ?vt ?f0" using accepted_fresh [OF sz(1,3) c] by (rule thread_reach.Start)
  let ?f1 = "?f0\<lparr>th_lock := Some (User 3), th_user := (th_user ?f0)(3 := ULocked p)\<rparr>"
  have "user_step False ?vt ?f0 ?f1" by (rule user_step.Send_lock) (simp_all add: start_threads_def p)
  then have r1: "thread_reach False ?vt ?f1" using thread_reach.Step [OF r0] by (simp add: thread_step_def)
  let ?f2 = "?f1\<lparr>th_sys := post_task (RunClose False) (th_sys ?f1)\<rparr>"
  have "user_step False ?vt ?f1 ?f2" by (rule user_step.User_close [of _ 0]) (simp add: start_threads_def)
  then have r2: "thread_reach False ?vt ?f2" using thread_reach.Step [OF r1] by (simp add: thread_step_def)
  let ?f3 = "?f2\<lparr>th_sys := (th_sys ?f2)\<lparr>s_queue := []\<rparr>, th_io := ICloseLock\<rparr>"
  have "close_step False ?vt ?f2 ?f3"
    using close_step.Task_close [of ?f2 False "[]" False ?vt] by (simp add: start_threads_def start_sys_def post_task_def)
  then have r3: "thread_reach False ?vt ?f3" using thread_reach.Step [OF r2] by (simp add: thread_step_def)
  have l: "th_lock ?f3 = Some (User 3)" "th_io ?f3 = ICloseLock" by simp_all
  from threads_act_like_whole_calls [OF r3] l(1) have "releases 3 False ?vt (User 3) ?f3" by blast
  moreover have "\<forall>g. \<not> step_of False ?vt Io ?f3 g" using waiting_blocks [OF l(2)] l(1) by auto
  ultimately show ?thesis using r3 l by blast
qed

text \<open>
  C15: In any process, of any message class that keeps the session of a message: if a connection
  went down with messages still to send, and a close without an error is posted to it, then
  whatever calls, polls, accepted sockets and handlers follow, its close stays posted, finds the
  messages, and posts itself again; for ever, if the connection was accepted, and as long as it
  is not opened once more, if it is the connection of a client.
\<close>

theorem close_spins_without_a_socket:
  assumes "session_class vt" and "node_reach dbg vt resolve lo owner n" and "nd_conns n s = Some x" and "close_spins x"
    and "(node_step dbg vt resolve lo owner)\<^sup>*\<^sup>* n n'"
  shows "\<exists>y. nd_conns n' s = Some y \<and>
    (OnConn s CallPostAccept \<in> set (nd_log n') \<or> opens (notices (s_events y)) = opens (notices (s_events x)) \<longrightarrow>
      RunClose False \<in> set (s_queue y) \<and> \<not> m_connect (s_conn y) \<and>
      handleClose (s_conn y) False = (s_conn y, [IoPost (RunClose False)]))"
proof -
  from session_class.spins_on [OF assms] obtain y where y: "nd_conns n' s = Some y"
    "OnConn s CallPostAccept \<in> set (nd_log n') \<or> opens (notices (s_events y)) = opens (notices (s_events x)) \<longrightarrow> close_spins y" by blast
  then show ?thesis using handleClose_spins [of y] by (intro exI [of _ y]) (auto simp: close_spins_def)
qed

theorem close_spins_without_a_socket_witness:
  "\<exists>n x. game_reach False (netBlock_vt False) n \<and> OnConn 1 CallPostAccept \<in> set (nd_log n) \<and> nd_conns n 1 = Some x \<and>
     (\<forall>n'. (game_step False (netBlock_vt False))\<^sup>*\<^sup>* n n' \<longrightarrow>
       (\<exists>y. nd_conns n' 1 = Some y \<and> (OnConn 1 CallPostAccept \<in> set (nd_log n') \<longrightarrow> RunClose False \<in> set (s_queue y) \<and>
         handleClose (s_conn y) False = (s_conn y, [IoPost (RunClose False)]))))"
proof -
  let ?vt = "netBlock_vt False"
  have "unat (1 :: session_id) \<le> PTRDIFF_MAX" by (simp add: PTRDIFF_MAX_def)
  from made_message [OF this, of "''hello''" False] obtain p where p: "nblk_sealed p ''hello''" "m_session p = 1"
    by (auto simp: PTRDIFF_MAX_def)
  then have p': "sendable ?vt p" "vt_session ?vt p = 1" using sealed_sendable by (auto simp: netBlock_vt_def)
  obtain n0 x0 t where n0: "game_reach False ?vt n0" "open_idle ?vt ''game'' 1 n0 x0 t" "OnConn 1 CallPostAccept \<in> set (nd_log n0)"
    using game_accepts by blast
  obtain n x where n: "game_reach False ?vt n" "nd_conns n 1 = Some x" "close_spins x"
      "nd_log n = nd_log n0 @ [OnConn 1 (CallSend p), OnConn 1 (CallClose False)]"
    using net_session.comes_to_spin [OF n0(1,2) p'] by blast
  note S = close_spins_without_a_socket [OF net_session.session_class_axioms n(1-3)]
  have "OnConn 1 CallPostAccept \<in> set (nd_log n)" using n0(3) n(4) by simp
  then show ?thesis using n(1,2) S by blast
qed

text \<open>
  C16: A client whose write failed and that connects again keeps what its buffers held.
  Connecting starts a read and nothing else; the first write, which the next \<open>send\<close> posts, gives
  the new peer the old bytes before those of the new message, also the ones of which the failed write had
  sent a part. And when one byte of a message had arrived, a whole message from the new peer is
  not delivered, but read as the continuation of the old one (default messages, release build).
\<close>

theorem reconnect_keeps_the_old_bytes:
  assumes "recv_holds nblk_repr c [x]" and "length body < 244" and "12 + length body \<le> nb_free (m_bufferRecv c)"
    and "send_inv (netBlock_vt False) c" and "conn_out (netBlock_vt False) c \<noteq> []" and "sendable (netBlock_vt False) p"
  shows "\<exists>c1 c2. handleWrite dbg (netBlock_vt False) c True k = Inr (c1, [IoPost (RunClose True)]) \<and>
    handleConnect (fst (handleClose c1 True)) False = (c2, EventConnect (c_session c) # beginRead c2) \<and>
    (\<exists>c3 c4 w rest. conn_send c2 p = (c3, [IoPost (RunWrite 0)]) \<and>
      writeMessage dbg (netBlock_vt False) c3 0 = Inr (c4, [AsyncWrite w]) \<and> w \<noteq> [] \<and>
      w @ rest = conn_out (netBlock_vt False) c @ block_out (netBlock_vt False) p) \<and>
    (\<exists>c5. handleReadSome dbg (netBlock_vt False) c2 False (frame_of body) = Some (Inr (c5, beginRead c5)) \<and>
      recv_holds nblk_repr c5 (x # frame_of body))"
proof -
  let ?c = "connected_again c"
  have h: "recv_holds nblk_repr ?c [x]" using assms(1) by (rule connected_again_holds)
  have r: "m_connect ?c" "length (frame_of body) \<le> nb_free (m_bufferRecv ?c)"
    using assms(3) by (simp_all add: frame_of_def)
  have "\<exists>c5. handleReadSome dbg (netBlock_vt False) ?c False (frame_of body) = Some (Inr (c5, beginRead c5)) \<and>
      recv_holds nblk_repr c5 (x # frame_of body)"
    using handleReadSome_net [OF h r, of dbg] misframed [OF assms(2), of x] by auto
  then show ?thesis
    using fails_and_connects(1) [of dbg "netBlock_vt False" c k] fails_and_connects(2) [of c] net_class.old_bytes_first [OF assms(4,6,5), of dbg]
    by - (rule exI [of _ "c\<lparr>m_isSend := False\<rparr>"], rule exI [of _ ?c], intro conjI, assumption+)
qed

theorem reconnect_keeps_the_old_bytes_witness:
  "\<exists>c c1 c2 c3 c4 c5 p w rest. recv_holds nblk_repr c ''x'' \<and> nblk_sealed p ''new'' \<and>
     handleWrite False (netBlock_vt False) c True 0 = Inr (c1, [IoPost (RunClose True)]) \<and>
     handleConnect (fst (handleClose c1 True)) False = (c2, EventConnect (c_session c) # beginRead c2) \<and>
     conn_send c2 p = (c3, [IoPost (RunWrite 0)]) \<and>
     writeMessage False (netBlock_vt False) c3 0 = Inr (c4, [AsyncWrite w]) \<and> w \<noteq> [] \<and>
     w @ rest = frame_of ''old'' @ frame_of ''new'' \<and>
     handleReadSome False (netBlock_vt False) c2 False (frame_of ''hello'') = Some (Inr (c5, beginRead c5)) \<and>
     recv_holds nblk_repr c5 (CHR ''x'' # frame_of ''hello'')"
proof -
  obtain c0 b where c0: "recv_holds nblk_repr c0 ''x''" "12 + length ''hello'' \<le> nb_free (m_bufferRecv c0)"
      "send_inv (netBlock_vt False) c0" "nb_unread (m_bufferSend c0) = []" "m_sendList c0 = [b]" "nblk_sealed b ''old''"
    using half_read_with_message by blast
  obtain p where p: "nblk_sealed p ''new''"
    using made_message [of 1 "''new''" False] by (auto simp: PTRDIFF_MAX_def)
  have o: "conn_out (netBlock_vt False) c0 = frame_of ''old''" using c0(4-6) by (simp add: conn_out_def sealed_out del: nb_unread_length)
  then have "conn_out (netBlock_vt False) c0 \<noteq> []" by (simp add: frame_of_def)
  from reconnect_keeps_the_old_bytes [OF c0(1) _ c0(2,3) this sealed_sendable [OF p], of False 0] show ?thesis
    using c0(1) p sealed_out [OF p, of False] unfolding o by simp metis
qed

section \<open>The life of a connection\<close>

text \<open>
  C17: In every order of posted tasks, completions and calls of the endpoint: as long as an
  operation of the socket, whose handler uses the connection, is not completed, some
  \<open>shared_ptr\<close> holds the connection until the close of its session was reported to the user,
  and for good if it is the connection of a client. After that report nothing need hold it:
  there is a run of an accepted connection that is closed and polled, and no longer exists
  when the handler of its aborted read is still to be called.
\<close>

theorem pending_operations_hold_the_connection:
  assumes "life_reach dbg vt st" and "pending st"
  shows "(held st \<or> lf_closed st \<and> t_session (lf_obj st) \<noteq> Some (c_session (lf_conn st))) \<and>
    (\<exists>st'. life_reach dbg vt (st' :: 'b life) \<and> lf_read st' \<and> \<not> held st')"
  using pending_held [OF assms] dangling_read by blast

theorem pending_operations_hold_the_connection_witness:
  "\<exists>st. life_reach False (netBlock_vt False) st \<and> lf_read st \<and> lf_closed st"
proof -
  obtain st where st: "life_reach False (netBlock_vt False) st" "lf_read st" "\<not> held st"
    using dangling_read by blast
  then have "pending st" by (simp add: pending_def)
  from pending_operations_hold_the_connection [OF st(1) this] st show ?thesis by blast
qed

text \<open>
  C18: A connection of a release build that receives default messages into a buffer of at least a header never stalls: whatever bytes arrived, when
  \<open>handleReadSome\<close> returns, less than a header is left in the receive buffer, so the read it
  starts has room, and the connection can receive again what fits.
\<close>

theorem default_reads_have_room:
  assumes "recv_holds nblk_repr c s" and "m_connect c" and "length data \<le> nb_free (m_bufferRecv c)"
    and "12 \<le> unat (maxLength (m_bufferRecv c))"
    and "handleReadSome dbg (netBlock_vt False) c False data = Some (Inr (c', es))"
  shows "\<exists>n s'. last es = AsyncReadSome n \<and> 0 < n \<and> unat n = nb_free (m_bufferRecv c') \<and>
    maxLength (m_bufferRecv c') = maxLength (m_bufferRecv c) \<and> recv_holds nblk_repr c' s' \<and> m_connect c'"
proof -
  let ?b = "m_bufferRecv c'"
  from handleReadSome_net [OF assms(1-3), of dbg] assms(5) obtain bs s' where
    es: "es = map EventPostRecv bs @ beginRead c'" and h: "recv_holds nblk_repr c' s'" and
    same: "same_send c c'" "recv_left c c'" by (auto split: if_splits)
  have b: "nb_inv ?b" "m_readPos ?b = 0" using h by (simp_all add: recv_holds_def)
  then have "unat (m_writePos ?b) < 12" "maxLength ?b = maxLength (m_bufferRecv c)"
    using same(2) by (simp_all add: recv_left_def maxLength_def)
  moreover have "unat (maxLength ?b - nb_length ?b) = nb_free ?b"
    using b(1) by (simp add: unat_minus_size nb_inv_def maxLength_def nb_length_def nb_free_def)
  moreover from calculation assms(4) have "0 < nb_free ?b" by (simp add: nb_free_def maxLength_def)
  ultimately show ?thesis
    using es h same(1) assms(2)
    by (intro exI [of _ "maxLength ?b - nb_length ?b"] exI [of _ s'])
      (simp add: beginRead_def same_send_def size_cmp)
qed

theorem default_reads_have_room_witness:
  "\<exists>c c' es n. newConnection 2 64 = Inr c \<and>
     handleReadSome False (netBlock_vt False) (fst (handlAccept c)) False (frame_of ''hello'') = Some (Inr (c', es)) \<and>
     last es = AsyncReadSome n \<and> 0 < n"
proof -
  have sz: "unat (64 :: size_t) \<le> PTRDIFF_MAX" by (simp add: PTRDIFF_MAX_def)
  obtain c :: "net_block connection" where c: "newConnection 2 64 = Inr c"
    using newConnection_ok [OF sz, of 2] by blast
  note A = accepted_ready [OF sz c]
  note H = fresh_holds [OF A(2-4), of nblk_repr]
  have room: "length (frame_of ''hello'') \<le> nb_free (m_bufferRecv (fst (handlAccept c)))"
    using H A(5) by (simp add: frame_of_def)
  have d: "deframe ([] @ frame_of ''hello'') = ([''hello''], [])"
    using deframe_frame [of "''hello''" "[]"] by (simp add: deframe_not_ready frame_ready_def)
  have "\<not> malformed (snd (deframe ([] @ frame_of ''hello'')))" unfolding d by (simp add: malformed_def)
  then obtain c' es where r: "handleReadSome False (netBlock_vt False) (fst (handlAccept c)) False (frame_of ''hello'') =
      Some (Inr (c', es))"
    using handleReadSome_net [OF H [THEN conjunct1] A(1) room, of False] by (auto split: if_splits)
  have "12 \<le> unat (maxLength (m_bufferRecv (fst (handlAccept c))))" using A(5) by (simp add: maxLength_def)
  from default_reads_have_room [OF H [THEN conjunct1] A(1) room this r] c r show ?thesis by blast
qed

text \<open>
  C19: A connection whose message is a \<open>RedisBlock2\<close> stalls on a line that is longer than the
  receive buffer: with the buffer full and no end of line in it, the next read is one of no
  bytes, and its completion changes nothing and starts the same read again.
\<close>

theorem long_redis_line_stalls:
  assumes "m_connect c" and "nb_inv (m_bufferRecv c)" and "m_readPos (m_bufferRecv c) = 0"
    and "isFull (m_bufferRecv c)" and "nb_unread (m_bufferRecv c) \<noteq> []" and "LF \<notin> set (nb_unread (m_bufferRecv c))"
    and "m_waitMessage c = Some w" and "m_state w = STATE_BODY" and "m_type (m_parse w) = no_reply"
    and "\<not> isDone (m_parse w)"
  shows "handleReadSome dbg (redisBlock2_vt dbg cast) c False [] = Some (Inr (c, [AsyncReadSome 0]))"
  using long_line_stalls [OF assms(1-9)] assms(10) by (simp add: isDone_def)

theorem long_redis_line_stalls_witness:
  "\<exists>c bf. netBuffer 4 = Inr bf \<and> nb_content (m_bufferRecv c) = ''+abc'' \<and>
     handleReadSome True (redisBlock2_vt True plain_cast) c False [] = Some (Inr (c, [AsyncReadSome 0]))"
proof -
  have sz: "unat (4 :: size_t) \<le> PTRDIFF_MAX" by (simp add: PTRDIFF_MAX_def)
  obtain bf where bf: "netBuffer 4 = Inr bf" using netBuffer_ok [OF sz] by blast
  note N = netBuffer_Inr [OF bf]
  have f: "nb_free bf = 4" unfolding nb_free_def N(5,6) by simp
  have "0 < unat (4 :: size_t)" "unat (4 :: size_t) \<le> nb_free bf" "unat (4 :: size_t) \<le> length ''+abc''"
    unfolding f by simp_all
  from nb_tail_ok [OF N(1,7) this] N obtain b' where b': "nb_inv b'" "nb_content b' = ''+abc''" "nb_unread b' = ''+abc''"
      "m_readPos b' = 0" "m_maxLen b' = 4" by fastforce
  have "unat (m_writePos b') = 4" using nb_content_length [OF b'(1)] unfolding b'(2) by simp
  then have full: "isFull b'" using b'(5) by (simp add: isFull_def size_cmp)
  obtain c0 :: "redis_block2 connection" where c0: "newConnection 1 4 = Inr c0" using newConnection_ok [OF sz] by blast
  let ?w = "\<lparr>m_data = None, m_state = STATE_BODY, m_session = 1, m_parse = new_parse\<rparr> :: redis_block2"
  let ?c = "c0\<lparr>m_connect := True, m_bufferRecv := b', m_waitMessage := Some ?w\<rparr>"
  have "handleReadSome True (redisBlock2_vt True plain_cast) ?c False [] = Some (Inr (?c, [AsyncReadSome 0]))"
    by (rule long_redis_line_stalls [where w = ?w]) (use b' full in \<open>simp_all add: new_parse_def isDone_def del: nb_unread_length\<close>)
  then show ?thesis using bf b'(2) by (intro exI [of _ ?c] exI [of _ bf]) simp
qed

section \<open>Messages and replies\<close>

text \<open>
  C20: The bytes \<open>makeCommand\<close> makes of a command and its arguments, whatever characters they
  contain and whatever follows, are read back by one call of \<open>parse\<close> as a complete
  multi-bulk reply with exactly these strings, and not a byte more is taken.
\<close>

theorem command_read_back:
  assumes cast: "decimal_cast cast" and ok: "command_ok (cmd # args)"
    and len: "length (makeCommand cmd args @ rest) \<le> PTRDIFF_MAX"
  shows "\<exists>ps. parse dbg cast new_parse (makeCommand cmd args @ rest)
             (of_nat (length (makeCommand cmd args @ rest))) 0 =
           Inr (True, ps, of_nat (length (makeCommand cmd args))) \<and>
           isDone ps \<and> m_type ps = multi_bulk_reply \<and> m_recvList ps = cmd # args"
proof -
  have at: "at_pos (makeCommand cmd args @ rest) (of_nat (length (makeCommand cmd args @ rest))) 0
      (resp_bytes (command (cmd # args)) @ rest)"
    using at_pos_start [OF len] by (simp add: makeCommand_resp)
  have "resp_type (command (cmd # args)) = multi_bulk_reply" by (simp add: command_def)
  then show ?thesis
    using decimal_cast.parse_resp [OF cast at resp_ok_command [OF _ ok], of dbg]
    by (simp add: makeCommand_resp resp_values_command isDone_def)
qed

theorem command_read_back_witness:
  "\<exists>ps. parse True plain_cast new_parse (makeCommand ''set'' [''a'', []] @ ''more'')
       (of_nat (length (makeCommand ''set'' [''a'', []] @ ''more''))) 0 =
     Inr (True, ps, of_nat (length (makeCommand ''set'' [''a'', []]))) \<and>
     isDone ps \<and> m_type ps = multi_bulk_reply \<and> m_recvList ps = [''set'', ''a'', []]"
proof (rule command_read_back [OF plain.decimal_cast_axioms])
  show "command_ok [''set'', ''a'', []]" by (simp add: command_ok_def INT_MAX_def)
  have "dec_nat n = [digit n]" if "n < 10" for n using that by (simp add: dec_nat.simps)
  then show "length (makeCommand ''set'' [''a'', []] @ ''more'') \<le> PTRDIFF_MAX"
    by (simp add: makeCommand_def REDIS_LBR_def REDIS_PREFIX_MULTI_BULK_REPLY_def
        REDIS_PREFIX_SINGLE_BULK_REPLY_def PTRDIFF_MAX_def)
qed

text \<open>
  C21: Every reply of the protocol within the reader's scope, of any of the five kinds and
  followed by anything, is delivered by one call of \<open>parse\<close>: it is done, its kind and its
  strings are those of the reply, and the read position is right behind it.
\<close>

theorem reply_read_back:
  assumes cast: "decimal_cast cast" and r: "resp_ok r" and len: "length (resp_bytes r @ rest) \<le> PTRDIFF_MAX"
  shows "\<exists>ps. parse dbg cast new_parse (resp_bytes r @ rest) (of_nat (length (resp_bytes r @ rest))) 0 =
           Inr (True, ps, of_nat (length (resp_bytes r))) \<and>
           isDone ps \<and> m_type ps = resp_type r \<and> m_recvList ps = resp_values r"
  using decimal_cast.parse_resp [OF cast at_pos_start [OF len] r, of dbg] by (simp add: isDone_def)

theorem reply_read_back_witness:
  "\<exists>ps. parse True plain_cast new_parse (resp_bytes (Status ''OK'') @ ''+'')
       (of_nat (length (resp_bytes (Status ''OK'') @ ''+''))) 0 =
     Inr (True, ps, of_nat (length (resp_bytes (Status ''OK'')))) \<and>
     isDone ps \<and> m_type ps = resp_type (Status ''OK'') \<and> m_recvList ps = resp_values (Status ''OK'')"
  by (rule reply_read_back [OF plain.decimal_cast_axioms])
    (simp_all add: clean_line_def resp_bytes_def REDIS_LBR_def PTRDIFF_MAX_def)

text \<open>
  C22: On arbitrary bytes, from an arbitrary state of the reader and with an arbitrary
  \<open>lexical_cast\<close>, a call of \<open>parse\<close> does not read outside the given bytes: it throws or asserts,
  or it ends with the read position between the old one and the size.
\<close>

theorem reader_stays_inside:
  assumes "unat sz \<le> length buf" and "unat sz \<le> PTRDIFF_MAX" and "pos \<le> sz"
  shows "parse dbg cast ps buf sz pos \<noteq> Inl MemFault \<and> parse dbg cast ps buf sz pos \<noteq> Inl NullDeref \<and>
    (\<forall>ok ps' pos'. parse dbg cast ps buf sz pos = Inr (ok, ps', pos') \<longrightarrow> pos \<le> pos' \<and> pos' \<le> sz)"
proof -
  have "in_block buf sz pos" using assms by (simp add: in_block_def)
  from parse_safe [OF this, of dbg cast ps] show ?thesis
    by (cases "parse dbg cast ps buf sz pos") (auto simp: pos_ok_def mem_fault_def)
qed

theorem reader_stays_inside_witness:
  "\<exists>buf. parse False plain_cast new_parse buf 3 1 \<noteq> Inl MemFault \<and>
    parse False plain_cast new_parse buf 3 1 \<noteq> Inl NullDeref \<and>
    (\<forall>ok ps' pos'. parse False plain_cast new_parse buf 3 1 = Inr (ok, ps', pos') \<longrightarrow> 1 \<le> pos' \<and> pos' \<le> 3)"
  by (intro exI [of _ "''*9?x''"] reader_stays_inside) (simp_all add: PTRDIFF_MAX_def)

text \<open>
  C23: A default message made by the constructor and one or more pushes, of any bytes, is, without further
  calls, ready to be sent: its buffer holds exactly a header with the right length, zero
  mask and check, and the bytes pushed in order. Without any push its header has the length zero,
  which is no frame a receiver accepts.
\<close>

theorem pushed_message_is_a_frame:
  assumes "unat s \<le> PTRDIFF_MAX" and "0 < sz" and "sz + sizeof head_pod > 0"
    and "2 * (12 + length (concat (x # xs))) \<le> PTRDIFF_MAX"
  shows "\<exists>b0 b. netBlock dbg s sz = Inr b0 \<and> push_all dbg b0 (x # xs) = Inr b \<and>
           nblk_sealed b (concat (x # xs)) \<and> m_session b = s \<and>
           (\<exists>d0. m_data b0 = Some d0 \<and> malformed (nb_content d0))"
proof -
  obtain b0 d0 where b0: "netBlock dbg s sz = Inr b0" "nblk_open b0 []" "m_session b0 = s" "m_data b0 = Some d0"
      "nb_content d0 = head_bytes zero_head"
    using netBlock_made [OF assms(2,3,1), of dbg] by blast
  have "unat (of_nat (length x) :: size_t) = length x" using assms(4) by (intro unat_of_nat_size) simp
  from netBlock_push_ok [OF b0(2) this, of dbg] assms(4) obtain b1 where
    b1: "netBlock_push dbg b0 x (of_nat (length x)) = Inr (True, b1)" "nblk_sealed b1 x" "m_session b1 = s"
    using b0(3) by auto
  from push_all_ok [OF b1(2), of xs dbg] assms(4) b1 b0(1,4,5) zero_head_malformed show ?thesis by auto
qed

theorem pushed_message_is_a_frame_witness:
  "\<exists>b0 b. netBlock True 7 100 = Inr b0 \<and> push_all True b0 [''ab'', [], ''c''] = Inr b \<and>
     nblk_sealed b (concat [''ab'', [], ''c'']) \<and> m_session b = 7 \<and>
     (\<exists>d0. m_data b0 = Some d0 \<and> malformed (nb_content d0))"
proof (rule pushed_message_is_a_frame)
  show "(100 :: size_t) + sizeof head_pod > 0" by (simp add: sizeof_def)
qed (simp_all add: PTRDIFF_MAX_def)



text \<open>
  C25: \<open>RedisBlock2::recv\<close> on arbitrary bytes, in any state of the message, does not use memory
  it must not: if it returns, the receive buffer is well formed, has its capacity, and lost
  a prefix of its unread bytes only; otherwise it threw or asserted.
\<close>

theorem redis_recv_is_safe:
  assumes "nb_inv bf"
  shows "redisBlock2_recv dbg cast b (Some bf) \<noteq> Inl MemFault \<and>
    redisBlock2_recv dbg cast b (Some bf) \<noteq> Inl NullDeref \<and>
    (\<forall>r b' buf'. redisBlock2_recv dbg cast b (Some bf) = Inr (r, b', buf') \<longrightarrow>
      (\<exists>bf' n. buf' = Some bf' \<and> nb_inv bf' \<and> m_maxLen bf' = m_maxLen bf \<and>
        nb_unread bf' = drop n (nb_unread bf)))"
  using redisBlock2_recv_safe [OF assms, of b dbg cast]
  by (cases "redisBlock2_recv dbg cast b (Some bf)") (auto simp: mem_fault_def)

theorem redis_recv_is_safe_witness:
  "\<exists>bf b. nb_unread bf = ''*3_$5'' \<and> redisBlock2 1 0 = Inr b \<and>
    redisBlock2_recv False plain_cast b (Some bf) \<noteq> Inl MemFault \<and>
    redisBlock2_recv False plain_cast b (Some bf) \<noteq> Inl NullDeref \<and>
    (\<forall>r b' buf'. redisBlock2_recv False plain_cast b (Some bf) = Inr (r, b', buf') \<longrightarrow>
      (\<exists>bf' n. buf' = Some bf' \<and> nb_inv bf' \<and> m_maxLen bf' = m_maxLen bf \<and>
        nb_unread bf' = drop n (nb_unread bf)))"
proof -
  have "2 * length ''*3_$5'' \<le> PTRDIFF_MAX" by (simp add: PTRDIFF_MAX_def)
  then obtain bf where bf: "nb_inv bf" "nb_unread bf = ''*3_$5''" using filled_buffer by blast
  obtain b where "redisBlock2 1 0 = Inr b" using redisBlock2_nodata by blast
  then show ?thesis using redis_recv_is_safe [OF bf(1), of False plain_cast b] bf(2) by blast
qed

section \<open>The buffer\<close>

text \<open>
  C26: For its users a buffer is a queue: any sequence of appending, reading and compacting
  that a queue of bytes allows runs without a fault, also with active asserts, gives the bytes
  the queue gives and leaves the bytes the queue keeps; so what was read and what is left is
  what was there and what was appended, in order.
\<close>

theorem buffer_is_a_queue:
  assumes "nb_inv b" and "\<not> m_lock b"
    and "2 * (length (nb_content b) + length (appended ops)) \<le> PTRDIFF_MAX"
    and "queue_run ops (nb_unread b) = Some (out, q)"
  shows "\<exists>b'. buf_run dbg ops b = Inr (out, b') \<and> nb_inv b' \<and> nb_unread b' = q \<and>
           out @ nb_unread b' = nb_unread b @ appended ops"
  using buf_run_ok [OF assms, of dbg] queue_run_fifo [OF assms(4)] by auto

theorem buffer_is_a_queue_witness:
  "\<exists>b b'. netBuffer 2 = Inr b \<and>
     buf_run True [Append ''abc'', Consume 2, Compact, Append ''d'', Consume 1] b = Inr (''abc'', b') \<and>
     nb_inv b' \<and> nb_unread b' = ''d'' \<and>
     ''abc'' @ nb_unread b' = nb_unread b @ appended [Append ''abc'', Consume 2, Compact, Append ''d'', Consume 1]"
proof -
  have sz: "unat (2 :: size_t) \<le> PTRDIFF_MAX" by (simp add: PTRDIFF_MAX_def)
  obtain b where b: "netBuffer 2 = Inr b" using netBuffer_ok [OF sz] by blast
  note N = netBuffer_Inr [OF b]
  have "2 * (length (nb_content b) + length (appended [Append ''abc'', Consume 2, Compact, Append ''d'', Consume 1]))
      \<le> PTRDIFF_MAX" unfolding N(2) by (simp add: PTRDIFF_MAX_def)
  moreover have "queue_run [Append ''abc'', Consume 2, Compact, Append ''d'', Consume 1] (nb_unread b) =
      Some (''abc'', ''d'')" unfolding N(3) by simp
  ultimately show ?thesis using buffer_is_a_queue [OF N(1,7), of _ "''abc''" "''d''" True] b by blast
qed

text \<open>
  C27: \<open>NetBuffer\<close> is type safe: after any calls of its members on a well formed buffer, with any
  bytes and well formed buffers as arguments, locked or not, the buffer is well formed; nothing
  faults but an assertion, in a build that has them. The calls may not add up to more than half
  of the largest object; a size that overflows does harm: it moves the write position back.
\<close>

theorem any_calls_keep_the_buffer_well_formed:
  assumes "nb_inv b" and "list_all others_ok ks"
    and "2 * (length (nb_content b) + sum_list (map growth ks)) \<le> PTRDIFF_MAX"
  shows "(case nb_calls dbg ks b of Inl e \<Rightarrow> dbg \<and> e = Assertion | Inr b' \<Rightarrow> nb_inv b') \<and>
    (nb_content b \<noteq> [] \<longrightarrow> writeData dbg b (- 1) = Inr (Some (nb_length b), b\<lparr>m_writePos := nb_length b - 1\<rparr>))"
proof -
  have "nb_fine dbg (unat (m_writePos b) + sum_list (map growth ks)) (nb_calls dbg ks b)"
    by (rule nb_calls_fine [OF assms(1,2)]) (use assms(1,3) in simp)
  moreover have "0 < unat (m_writePos b)" if "nb_content b \<noteq> []"
    using that nb_content_length [OF assms(1)] by (metis length_greater_0_conv)
  ultimately show ?thesis using writeData_wraps [OF assms(1)] by (auto simp: nb_length_def split: sum.splits)
qed

theorem any_calls_keep_the_buffer_well_formed_witness:
  "\<exists>b b'. netBuffer 4 = Inr b \<and> nb_inv b' \<and>
     nb_calls False [CallTailData ''abcdef'', CallLock, CallWriteData 100, CallReadData 2, CallHeadData ''x'', CallClear] b = Inr b'"
proof -
  let ?ks = "[CallTailData ''abcdef'', CallLock, CallWriteData 100, CallReadData 2, CallHeadData ''x'', CallClear]"
  have sz: "unat (4 :: size_t) \<le> PTRDIFF_MAX" by (simp add: PTRDIFF_MAX_def)
  obtain b where b: "netBuffer 4 = Inr b" using netBuffer_ok [OF sz] by blast
  note N = netBuffer_Inr [OF b]
  have "2 * (length (nb_content b) + sum_list (map growth ?ks)) \<le> PTRDIFF_MAX" unfolding N(2) by (simp add: PTRDIFF_MAX_def)
  from any_calls_keep_the_buffer_well_formed [OF N(1) _ this, of False] obtain b' where
    "nb_calls False ?ks b = Inr b'" "nb_inv b'" by (auto split: sum.splits)
  with b show ?thesis by blast
qed

text \<open>
  C28: Programs that make, delete, move and fill buffers, in any order and also with one buffer in
  two roles, run over addresses as they run over values: the same result, the same fault. At
  every moment each allocated block belongs to exactly one buffer: none is lost, used after its
  \<open>free\<close>, or freed twice.
\<close>

theorem blocks_have_one_owner:
  assumes "hp_run dbg cs no_heap = Some r"
  shows "case r of Inl e \<Rightarrow> nb_run dbg cs Map.empty = Some (Inl e)
    | Inr s \<Rightarrow> nb_run dbg cs Map.empty = Some (Inr (hp_views s)) \<and>
        (\<forall>a. hp_blocks s a \<noteq> None \<longleftrightarrow> (\<exists>i. owns s i a)) \<and> (\<forall>i j a. owns s i a \<and> owns s j a \<longrightarrow> i = j)"
proof -
  from hp_run_same [OF no_heap_inv(1), of dbg cs] obtain n where n: "nb_run dbg cs Map.empty = Some n" "same_cmd r n"
    unfolding assms no_heap_inv(2) by (cases "nb_run dbg cs Map.empty") auto
  then show ?thesis using hp_inv_owners by (cases n) (auto simp: same_cmd_def)
qed

theorem blocks_have_one_owner_witness:
  "\<exists>s. hp_run True [New 0 2, Tail 0 ''abc'', New 1 1, Move 1 0, Delete 0, TailBuffer 1 1] no_heap = Some (Inr s) \<and>
     nb_run True [New 0 2, Tail 0 ''abc'', New 1 1, Move 1 0, Delete 0, TailBuffer 1 1] Map.empty = Some (Inr (hp_views s)) \<and>
     (\<exists>i. owns s i 1)"
proof -
  let ?cs = "[New 0 2, Tail 0 ''abc'', New 1 1, Move 1 0, Delete 0, TailBuffer 1 1]"
  have "\<exists>s. hp_run True ?cs no_heap = Some (Inr s) \<and> hp_blocks s 1 \<noteq> None"
    by (simp add: no_heap_def cmd_legal_def hp_new_def hp_malloc0_def malloc0_def PTRDIFF_MAX_def hp_set_def
      hp_tailData_def hp_resize_def hp_obj_def Let_def hp_load_def memcpy_def hp_free_def hp_store_def hp_tail_def
      src_bytes_def hp_destroy_def hp_move_def hp_tailNetBuffer_def)
  then obtain s where s: "hp_run True ?cs no_heap = Some (Inr s)" "hp_blocks s 1 \<noteq> None" by blast
  from blocks_have_one_owner [OF s(1), unfolded sum.case] s show ?thesis by blast
qed

text \<open>
  C29: A clone, of a message of any of the three classes that has a buffer, is a message for
  the given session in the same state, whose own unlocked buffer holds the same bytes, all of
  them unread again.
\<close>

theorem clone_holds_the_same_bytes:
  assumes "m_data nb = Some d" and "m_data r2 = Some d" and "m_data rb = Some d"
    and "nb_inv d" and "2 * length (nb_content d) \<le> PTRDIFF_MAX"
  shows "\<exists>nb' r2' rb' d'. netBlock_clone dbg nb s = Inr nb' \<and> redisBlock2_clone dbg r2 s = Inr r2' \<and>
    redisBlock_clone dbg rb s = Inr rb' \<and>
    m_session nb' = s \<and> m_session r2' = s \<and> m_session rb' = s \<and>
    m_state nb' = m_state nb \<and> m_state r2' = m_state r2 \<and> m_state rb' = m_state rb \<and>
    m_head nb' = m_head nb \<and> m_parse r2' = m_parse r2 \<and> rb_type rb' = rb_type rb \<and> rb_recvList rb' = rb_recvList rb \<and>
    m_data nb' = Some d' \<and> m_data r2' = Some d' \<and> m_data rb' = Some d' \<and> nb_inv d' \<and> \<not> m_lock d' \<and>
    nb_content d' = nb_content d \<and> nb_unread d' = nb_content d"
proof -
  obtain rb0 where "redisBlock s 0 = Inr rb0" "m_session rb0 = s" using redisBlock_nodata [of s] by blast
  then show ?thesis
    using copy_buffer_ok [OF assms(4,5), of dbg] assms(1-3)
    by (auto simp: netBlock_clone_def netBlock_nosize_eq redisBlock2_clone_def redisBlock2_nodata redisBlock_clone_def)
qed

theorem clone_holds_the_same_bytes_witness:
  "\<exists>b b' d'. nblk_sealed b ''hi'' \<and> netBlock_clone True b 9 = Inr b' \<and> m_session b' = 9 \<and>
     m_data b' = Some d' \<and> nb_unread d' = frame_of ''hi''"
proof -
  have "unat (1 :: session_id) \<le> PTRDIFF_MAX" "2 * (12 + length ''hi'') \<le> PTRDIFF_MAX"
    by (simp_all add: PTRDIFF_MAX_def)
  from made_message [OF this, of True] obtain b where b: "nblk_sealed b ''hi''" by blast
  then obtain d where d: "m_data b = Some d" "nb_inv d" "nb_content d = frame_of ''hi''"
    by (auto simp: nblk_sealed_def)
  obtain r2 rb where r: "redisBlock2 1 0 = Inr r2" "redisBlock 1 0 = Inr rb"
    using redisBlock2_nodata redisBlock_nodata by blast
  have len: "2 * length (nb_content d) \<le> PTRDIFF_MAX" unfolding d(3) by (simp add: frame_of_def PTRDIFF_MAX_def)
  have "m_data (r2\<lparr>m_data := Some d\<rparr>) = Some d" "m_data (rb\<lparr>m_data := Some d\<rparr>) = Some d" by simp_all
  from clone_holds_the_same_bytes [OF d(1) this d(2) len, of True 9] b d(3) show ?thesis by metis
qed

section \<open>What the readers do not accept\<close>

text \<open>
  C30: When less than a header has arrived, or nothing, \<open>NetBlock::recv\<close> waits in a release build:
  it returns \<open>false\<close> and neither the message nor the buffer changes. With active asserts the
  same bytes abort the program.
\<close>

theorem partial_header_waits_or_aborts:
  assumes "nb_inv bf" and "m_state b = STATE_INIT" and "length (nb_unread bf) < 12"
  shows "netBlock_recv dbg b (Some bf) = (if dbg then Inl Assertion else Inr (False, b, Some bf))"
  using headp.readPod_short [OF assms(1), of dbg "m_head b"] assms(2,3)
  by (simp add: netBlock_recv_def recvHead_def del: nb_unread_length)

theorem partial_header_waits_or_aborts_witness:
  "\<exists>b bf. netBlock False 1 0 = Inr b \<and> nb_unread bf = ''abc'' \<and>
     netBlock_recv True b (Some bf) = Inl Assertion \<and> netBlock_recv False b (Some bf) = Inr (False, b, Some bf)"
proof -
  have "2 * length ''abc'' \<le> PTRDIFF_MAX" by (simp add: PTRDIFF_MAX_def)
  then obtain bf where bf: "nb_inv bf" "nb_unread bf = ''abc''" using filled_buffer by blast
  obtain b where b: "netBlock False 1 0 = Inr b" "m_state b = STATE_INIT"
    by (simp add: netBlock_zero netBlock_nosize_eq)
  have "length (nb_unread bf) < 12" unfolding bf(2) by simp
  from partial_header_waits_or_aborts [OF bf(1) b(2) this] b bf(2) show ?thesis by auto
qed

text \<open>
  C31: A sequence of strings that arrives cut inside its first string is not continued: the
  first call keeps the part \<open>q\<close> of the string, the next one takes the whole string, \<open>q\<close> and the
  rest \<open>l\<close>, for the line that announces a string and throws \<open>bad_lexical_cast\<close>. This is
  proved for a part that is not empty, a string without a line feed that does not end in a carriage return, and
  one that is no numeral behind its first character, as \<open>a5\<close> would be: that one is taken for a length.
\<close>

theorem cut_sequence_fails:
  assumes cast: "decimal_cast cast" and n: "int n \<le> INT_MAX" and m: "int (length (q @ l)) + 2 \<le> INT_MAX"
    and q: "q \<noteq> []" and cl: "clean_line (q @ l)" and bad: "cast (drop 1 (q @ l)) = None"
    and s1: "s1 = (CHR ''*'' # dec_nat n) @ REDIS_LBR @ (CHR ''$'' # dec_nat (length (q @ l))) @ REDIS_LBR @ q"
    and s2: "s2 = l @ REDIS_LBR @ rest"
    and len: "length s1 \<le> PTRDIFF_MAX" "length s2 \<le> PTRDIFF_MAX"
  shows "\<exists>ps k. parse dbg cast new_parse s1 (of_nat (length s1)) 0 = Inr (False, ps, k) \<and>
           parse dbg cast ps s2 (of_nat (length s2)) 0 = Inl BadCast"
proof -
  have lf: "LF \<notin> set l" using cl by (simp add: clean_line_def)
  note at1 = at_pos_start [OF len(1), unfolded s1] and at2 = at_pos_start [OF len(2), unfolded s2]
  obtain ps k where ps: "parse dbg cast new_parse s1 (of_nat (length s1)) 0 = Inr (False, ps, k)"
      "m_type ps = multi_bulk_reply" "\<not> m_done ps" "m_temp ps = q"
    using decimal_cast.parse_multi_cut [OF cast at1 n m q, of dbg] s1 by auto
  have "length (q @ l) + 2 \<le> PTRDIFF_MAX" using m by (simp add: INT_MAX_def PTRDIFF_MAX_def)
  from decimal_cast.parse_multi_resume [OF cast ps(2,3) at2 lf, unfolded ps(4), OF cl this _ bad, of dbg] q ps(1)
  show ?thesis unfolding s2 by blast
qed

theorem cut_sequence_fails_witness:
  "\<exists>ps k. parse True plain_cast new_parse ((CHR ''*'' # dec_nat 1) @ REDIS_LBR @
       (CHR ''$'' # dec_nat (length (''na'' @ ''me''))) @ REDIS_LBR @ ''na'')
       (of_nat (length ((CHR ''*'' # dec_nat 1) @ REDIS_LBR @
         (CHR ''$'' # dec_nat (length (''na'' @ ''me''))) @ REDIS_LBR @ ''na''))) 0 = Inr (False, ps, k) \<and>
     parse True plain_cast ps (''me'' @ REDIS_LBR @ []) (of_nat (length (''me'' @ REDIS_LBR @ []))) 0 = Inl BadCast"
proof (rule cut_sequence_fails [OF plain.decimal_cast_axioms _ _ _ _ _ refl refl])
  have "dec_nat n = [digit n]" if "n < 10" for n using that by (simp add: dec_nat.simps)
  then show "length ((CHR ''*'' # dec_nat 1) @ REDIS_LBR @
      (CHR ''$'' # dec_nat (length (''na'' @ ''me''))) @ REDIS_LBR @ ''na'') \<le> PTRDIFF_MAX"
    by (simp add: REDIS_LBR_def PTRDIFF_MAX_def)
qed (simp_all add: INT_MAX_def clean_line_def plain_cast_def digit_val_def REDIS_LBR_def PTRDIFF_MAX_def)

text \<open>
  C32: The empty sequence \<open>*0\<close> is never complete: the reader is not done after it, and any
  strings that follow, which belong to other replies, are taken for elements of it.
\<close>

theorem empty_sequence_never_ends:
  assumes cast: "decimal_cast cast" and bs: "list_all bulk_ok bs" "length bs \<le> PTRDIFF_MAX"
    and s: "s = (CHR ''*'' # dec_nat 0) @ REDIS_LBR @ concat (map bulk_bytes bs)" and len: "length s \<le> PTRDIFF_MAX"
  shows "\<exists>ps k. parse dbg cast new_parse s (of_nat (length s)) 0 = Inr (False, ps, k) \<and> \<not> isDone ps \<and>
    m_recvList ps = map bulk_value bs"
  using decimal_cast.parse_empty_sequence [OF cast at_pos_start [OF len, unfolded s] bs, of dbg] unfolding s .

theorem empty_sequence_never_ends_witness:
  "\<exists>ps k. parse True plain_cast new_parse
       ((CHR ''*'' # dec_nat 0) @ REDIS_LBR @ concat (map bulk_bytes [Some ''x'', None]))
       (of_nat (length ((CHR ''*'' # dec_nat 0) @ REDIS_LBR @ concat (map bulk_bytes [Some ''x'', None])))) 0 =
     Inr (False, ps, k) \<and> \<not> isDone ps \<and> m_recvList ps = map bulk_value [Some ''x'', None]"
proof (rule empty_sequence_never_ends [OF plain.decimal_cast_axioms _ _ refl])
  have "dec_nat n = [digit n]" if "n < 10" for n using that by (simp add: dec_nat.simps)
  then show "length ((CHR ''*'' # dec_nat 0) @ REDIS_LBR @ concat (map bulk_bytes [Some ''x'', None])) \<le> PTRDIFF_MAX"
    by (simp add: REDIS_LBR_def PTRDIFF_MAX_def bulk_bytes_def minus_one_def)
qed (simp_all add: INT_MAX_def PTRDIFF_MAX_def)

text \<open>
  C33: The reader cuts four characters off an error reply: of an error \<open>-ERR text\<close> it delivers
  the text with the blank before it, and of one with less than three characters behind the
  sign nothing, since it throws \<open>std::out_of_range\<close>.
\<close>

theorem error_reply_loses_four_characters:
  assumes cast: "decimal_cast cast" and l: "clean_line l"
    and s: "s = (CHR ''-'' # l) @ REDIS_LBR @ rest" and len: "length s \<le> PTRDIFF_MAX"
  shows "if length l < 3 then parse dbg cast new_parse s (of_nat (length s)) 0 = Inl OutOfRange
    else \<exists>ps k. parse dbg cast new_parse s (of_nat (length s)) 0 = Inr (True, ps, k) \<and>
      m_type ps = error_reply \<and> m_recvList ps = [drop 3 l]"
proof (cases "length l < 3")
  case True
  then show ?thesis
    using decimal_cast.parse_short_error [OF cast at_pos_start [OF len, unfolded s] l True, of dbg] by (simp add: s)
next
  case False
  have at: "at_pos s (of_nat (length s)) 0 (resp_bytes (Error_reply l) @ rest)"
    using at_pos_start [OF len] by (simp add: s resp_bytes_def)
  have "resp_ok (Error_reply l)" using False l by simp
  from decimal_cast.parse_resp [OF cast at this, of dbg] False show ?thesis by auto
qed

theorem error_reply_loses_four_characters_witness:
  "parse False plain_cast new_parse ((CHR ''-'' # ''no'') @ REDIS_LBR @ [])
     (of_nat (length ((CHR ''-'' # ''no'') @ REDIS_LBR @ []))) 0 = Inl OutOfRange \<and>
   (\<exists>ps k. parse False plain_cast new_parse ((CHR ''-'' # ''ERR bad'') @ REDIS_LBR @ [])
     (of_nat (length ((CHR ''-'' # ''ERR bad'') @ REDIS_LBR @ []))) 0 = Inr (True, ps, k) \<and>
     m_recvList ps = ['' bad''])"
proof -
  have c: "clean_line ''no''" "clean_line ''ERR bad''" by (simp_all add: clean_line_def)
  have l: "length ((CHR ''-'' # ''no'') @ REDIS_LBR @ []) \<le> PTRDIFF_MAX"
    "length ((CHR ''-'' # ''ERR bad'') @ REDIS_LBR @ []) \<le> PTRDIFF_MAX"
    by (simp_all add: REDIS_LBR_def PTRDIFF_MAX_def)
  have "length ''no'' < 3" "\<not> length ''ERR bad'' < 3" "drop 3 ''ERR bad'' = '' bad''" by simp_all
  then show ?thesis
    using error_reply_loses_four_characters [OF plain.decimal_cast_axioms c(1) refl l(1), of False]
      error_reply_loses_four_characters [OF plain.decimal_cast_axioms c(2) refl l(2), of False]
    by (simp only: if_True if_False) blast
qed

section \<open>Endpoints and the service\<close>



text \<open>
  C35: \<open>send\<close> to a name, in every reachable running state and for a default message with a
  buffer: every session online at the endpoint of that name is sent, exactly once, a clone
  made for it that carries the same bytes; nothing else is sent, and an unknown name or a
  service that does not run sends nothing.
\<close>

theorem broadcast_reaches_each_session_once:
  assumes "service_reach (netBlock_vt dbg) resolve lo alive owner sv"
    and "m_data msg = Some d" and "nb_inv d" and "2 * length (nb_content d) \<le> PTRDIFF_MAX"
  shows "case om_find (m_nets sv) name of
      None \<Rightarrow> service_send_name (netBlock_vt dbg) name msg sv = Inr (False, sv, [])
    | Some t \<Rightarrow>
        if isRun sv
        then distinct (onlines t) \<and>
          (\<exists>ms. service_send_name (netBlock_vt dbg) name msg sv =
              Inr (True, sv, map2 (\<lambda>s m. OnConn s (CallSend m)) (onlines t) ms) \<and>
            list_all2 (\<lambda>s m. m_session m = s \<and> block_out (netBlock_vt dbg) m = nb_content d) (onlines t) ms)
        else service_send_name (netBlock_vt dbg) name msg sv = Inr (False, sv, [])"
proof (cases "om_find (m_nets sv) name")
  case None
  then show ?thesis by (simp add: service_send_name_def)
next
  case (Some t)
  let ?P = "\<lambda>s m. m_session m = s \<and> block_out (netBlock_vt dbg) m = nb_content d"
  have "\<exists>m. vt_clone (netBlock_vt dbg) msg s = Inr m \<and> ?P s m" for s
    using netBlock_clone_ok [OF assms(2-4), of dbg s] by (auto simp: netBlock_vt_def block_out_def)
  from send_clones_ok [where P = ?P, OF this] obtain ms where
    "send_clones (netBlock_vt dbg) msg (onlines t) = Inr (map2 (\<lambda>s m. OnConn s (CallSend m)) (onlines t) ms)"
    "list_all2 ?P (onlines t) ms" by blast
  moreover have "distinct (onlines t)"
    using nets_okD [OF _ Some] service_inv_reach [OF assms(1)] om_inv_distinct [of "t_onlines t"]
    by (auto simp: service_inv_def net_ok_def tcp_inv_def onlines_def)
  ultimately show ?thesis using Some by (auto simp: service_send_name_def)
qed

theorem broadcast_reaches_each_session_once_witness:
  "\<exists>sv b m. nblk_sealed b ''hi'' \<and>
     service_send_name (netBlock_vt True) ''game'' b sv = Inr (True, sv, [OnConn 7 (CallSend m)]) \<and>
     m_session m = 7 \<and> block_out (netBlock_vt True) m = frame_of ''hi''"
proof -
  let ?p = "netProperty True (config_server ''game'' ''0.0.0.0'' 80 0 10 []) None"
  have "np_config ?p = config_server ''game'' ''0.0.0.0'' 80 0 10 []" by (simp add: netProperty_def)
  from online_example [OF this, of "netBlock_vt True" Some "\<lambda>_. ListenOk" "\<lambda>_. True"] obtain sv t where
    sv: "service_reach (netBlock_vt True) Some (\<lambda>_. ListenOk) (\<lambda>_. True) (\<lambda>_. ''game'') sv" "isRun sv"
      "om_find (m_nets sv) ''game'' = Some t" "onlines t = [7]" by blast
  have "unat (1 :: session_id) \<le> PTRDIFF_MAX" "2 * (12 + length ''hi'') \<le> PTRDIFF_MAX"
    by (simp_all add: PTRDIFF_MAX_def)
  from made_message [OF this, of True] obtain b where b: "nblk_sealed b ''hi''" by blast
  then obtain d where d: "m_data b = Some d" "nb_inv d" "nb_content d = frame_of ''hi''"
    by (auto simp: nblk_sealed_def)
  have len: "2 * length (nb_content d) \<le> PTRDIFF_MAX" unfolding d(3) by (simp add: frame_of_def PTRDIFF_MAX_def)
  from broadcast_reaches_each_session_once [OF sv(1) d(1,2) len, of "''game''"] sv(2-4) obtain ms where
    "service_send_name (netBlock_vt True) ''game'' b sv = Inr (True, sv, map2 (\<lambda>s m. OnConn s (CallSend m)) [7] ms)"
    "list_all2 (\<lambda>s m. m_session m = s \<and> block_out (netBlock_vt True) m = nb_content d) [7] ms" by auto
  moreover from this(2) obtain m where "ms = [m]" "m_session m = 7" "block_out (netBlock_vt True) m = frame_of ''hi''"
    using d(3) by (auto simp: list_all2_Cons1)
  ultimately show ?thesis using b by (intro exI [of _ sv] exI [of _ b] exI [of _ m]) simp
qed

text \<open>
  C36: \<open>setStop\<close> either uses a null pointer, exactly if some endpoint is a server that never
  began to accept, or it stops every endpoint and closes, without an error, every session
  online at any of them; the sessions stay known until their close events are polled.
\<close>

theorem set_stop_closes_every_session:
  shows "if \<exists>n t. (n, t) \<in> set (m_nets sv) \<and> m_serviceType (t_config t) = SERVER_FLAG \<and> m_current t = None
    then setStop sv = Inl NullDeref
    else \<exists>sv' acts. setStop sv = Inr (sv', acts) \<and> \<not> isRun sv' \<and> m_ioPool sv' = m_ioPool sv \<and>
      m_nets sv' = map (\<lambda>(n, t). (n, t\<lparr>m_stop := True\<rparr>)) (m_nets sv) \<and>
      (\<forall>s. (\<exists>n t. (n, t) \<in> set (m_nets sv) \<and> s \<in> set (onlines t)) \<longrightarrow> OnConn s (CallClose False) \<in> set acts)"
proof -
  have e: "(\<exists>n t. (n, t) \<in> set (m_nets sv) \<and> m_serviceType (t_config t) = SERVER_FLAG \<and> m_current t = None) \<longleftrightarrow>
      (\<exists>t \<in> snd ` set (m_nets sv). cannot_stop t)"
    by (force simp: cannot_stop_def)
  have "OnConn s (CallClose False) \<in> set (stop_acts t)" if "s \<in> set (onlines t)" for s and t :: "'a tcp_obj"
    using that by (simp add: stop_acts_def)
  then have "OnConn s (CallClose False) \<in> set (concat (map (stop_acts \<circ> snd) (m_nets sv)))"
    if "(n, t) \<in> set (m_nets sv)" "s \<in> set (onlines t)" for n t s using that by force
  then show ?thesis unfolding e by (auto simp: setStop_def Let_def each_net_stop isRun_def)
qed

theorem set_stop_closes_every_session_witness:
  "\<exists>sv t. service_reach (netBlock_vt False) Some (\<lambda>_. ListenOk) (\<lambda>_. True) (\<lambda>_. ''game'') sv \<and>
     m_nets sv = [(''game'', t)] \<and> onlines t = [7] \<and> setStop sv = Inl NullDeref"
proof -
  let ?p = "netProperty False (config_server ''game'' ''0.0.0.0'' 80 0 10 []) None"
  have c: "np_config ?p = config_server ''game'' ''0.0.0.0'' 80 0 10 []" by (simp add: netProperty_def)
  from online_example [OF this, of "netBlock_vt False" Some "\<lambda>_. ListenOk" "\<lambda>_. True"] obtain sv t where
    sv: "service_reach (netBlock_vt False) Some (\<lambda>_. ListenOk) (\<lambda>_. True) (\<lambda>_. ''game'') sv"
      "onlines t = [7]" "m_nets sv = [(''game'', t)]" "t_config t = np_config ?p" "m_current t = None" by blast
  have "m_serviceType (t_config t) = SERVER_FLAG" using sv(4) c by (simp add: config_server_def)
  then have "\<exists>n t. (n, t) \<in> set (m_nets sv) \<and> m_serviceType (t_config t) = SERVER_FLAG \<and> m_current t = None"
    using sv(3,5) by auto
  then show ?thesis using set_stop_closes_every_session [of sv] sv(1-3) by (simp only: if_True) blast
qed

section \<open>The pool\<close>

text \<open>
  C37: Calls of \<open>getIoService\<close> one after the other go round the threads of a pool in order. But it
  is called by several threads without a mutex, and two calls that overlap when one thread of
  the pool is left can index its vector behind the end: this happens to a pool of any size.
\<close>

theorem overlapping_calls_leave_the_pool:
  assumes "ioObjectPool dbg sz = Inr pool" and "0 < sz"
  shows "(\<exists>pool'. io_calls n pool = Inr (map (\<lambda>k. k mod unat sz) [0..<n], pool')) \<and>
    (\<exists>ios pool'. io_calls (unat sz - 1) pool = Inr (ios, pool') \<and>
       snd (gi_run race pool' (\<lambda>_. GiTest)) 1 = GiRet (Inl MemFault))"
proof -
  have p: "m_netIo pool = [0..<unat sz]" "m_curIndex pool = 0" using ioObjectPool_ok [OF assms(2), of dbg] assms(1) by auto
  have z: "0 < unat sz" using assms(2) by (simp add: unat_gt_0)
  then have l: "m_netIo pool \<noteq> []" "length (m_netIo pool) < 2 ^ 64" using unat_size_bound [of sz] by (simp_all add: p)
  have "map (\<lambda>k. m_netIo pool ! ((io_next pool + k) mod length (m_netIo pool))) [0..<n] = map (\<lambda>k. k mod unat sz) [0..<n]"
    using z by (simp add: p io_next_def)
  then show ?thesis using io_calls_ok [OF l, of n] pool_races [OF assms] by auto
qed

theorem overlapping_calls_leave_the_pool_witness:
  "\<exists>pool pool' ios q. ioObjectPool True 3 = Inr pool \<and> io_calls 5 pool = Inr ([0, 1, 2, 0, 1], pool') \<and>
     io_calls 2 pool = Inr (ios, q) \<and> snd (gi_run race q (\<lambda>_. GiTest)) 1 = GiRet (Inl MemFault)"
proof -
  have z: "(0 :: size_t) < 3" by simp
  then obtain pool where p: "ioObjectPool True 3 = Inr pool" using ioObjectPool_ok [of 3 True] by blast
  have u: "map (\<lambda>k. k mod unat (3 :: size_t)) [0..<5] = [0, 1, 2, 0, 1]" "unat (3 :: size_t) - 1 = 2" by (simp_all add: upt_rec)
  from overlapping_calls_leave_the_pool [OF p z, of 5] p show ?thesis unfolding u by blast
qed

text \<open>
  C38: Whatever a service is used for, the connections it makes all get different ids, none is
  the invalid one, and the id it would give out next is new; as long as fewer than \<open>2 ^ 64 - 1\<close>
  connections were made.
\<close>

theorem session_ids_are_unique:
  assumes "netService dbg n = Inr sv0" and "service_run vt resolve lo alive sv0 acts sv"
    and "length (new_ids acts) < 2 ^ 64 - 1"
  shows "distinct (new_ids acts) \<and> INVALID_SESSION_ID \<notin> set (new_ids acts) \<and>
    fst (nextSession (m_ioPool sv)) \<notin> set (new_ids acts)"
proof -
  let ?n = "Suc (length (new_ids acts))"
  have "unat (m_curSessionId (m_ioPool sv0)) + ?n < 2 ^ 64" using assms(3) by (simp add: start_id [OF assms(1)])
  from session_calls_distinct [OF this] show ?thesis unfolding run_ids [OF assms(2), symmetric] by simp
qed

theorem session_ids_are_unique_witness:
  "\<exists>sv0 acts sv. netService False 2 = Inr (sv0 :: net_block net_service) \<and> new_ids acts = [1, 2] \<and>
     service_run (netBlock_vt True) (\<lambda>_. Some ''127.0.0.1'') (\<lambda>_. ListenOk) (\<lambda>_. True) sv0 acts sv \<and>
     distinct (new_ids acts) \<and> fst (nextSession (m_ioPool sv)) \<notin> set (new_ids acts)"
proof -
  obtain sv0 :: "net_block net_service" and acts sv where r: "netService False 2 = Inr sv0" "new_ids acts = [1, 2]"
      "service_run (netBlock_vt True) (\<lambda>_. Some ''127.0.0.1'') (\<lambda>_. ListenOk) (\<lambda>_. True) sv0 acts sv"
    using two_clients by blast
  have "length (new_ids acts) < 2 ^ 64 - 1" unfolding r(2) by simp
  from session_ids_are_unique [OF r(1,3) this] r show ?thesis by blast
qed

text \<open>
  C39: \<open>stop\<close> of the service returns: whatever the other threads do and whatever the user's
  functions see, its loop of polls ends once the timer reached the limit, which is at least
  16 seconds and 20 if less was asked for; and at once if \<open>setStop\<close> was not called before.
\<close>

theorem stop_returns:
  assumes "real (if sec \<le> 15 then 20 else unat sec) \<le> elapsed k"
  shows "\<exists>r. service_stop lo elapsed env sec sv = Some r \<and>
    (sv_state sv \<noteq> STATE_SERVICE_STOP \<longrightarrow> r = Inr (False, sv, []))"
proof (cases "sv_state sv = STATE_SERVICE_STOP")
  case False
  then show ?thesis by (simp add: service_stop_def)
next
  case True
  have "unat (if sec \<le> 15 then 20 else sec) = (if sec \<le> 15 then 20 else unat sec)" by simp
  then have "real (unat (if sec \<le> 15 then 20 else sec)) \<le> elapsed (0 + k)" using assms by simp
  from stop_loop_ends [where elapsed = elapsed and k = 0 and d = k, OF this, of lo env sv "[]"] True show ?thesis by (simp add: service_stop_def)
qed

theorem stop_returns_witness:
  "\<exists>sv r. netService False 2 = Inr (sv :: net_block net_service) \<and>
     service_stop (\<lambda>_. ListenOk) (\<lambda>k. real k / 10) (\<lambda>_ sv. sv) 5 (sv\<lparr>sv_state := STATE_SERVICE_STOP\<rparr>) = Some r"
proof -
  obtain sv :: "net_block net_service" where sv: "netService False 2 = Inr sv"
    using ioObjectPool_ok [of 2 False] by (auto simp: netService_def)
  have "real (if (5 :: uint32) \<le> 15 then 20 else unat (5 :: uint32)) \<le> (\<lambda>k. real k / 10) 200" by simp
  from stop_returns [where elapsed = "\<lambda>k. real k / 10" and k = 200, OF this] sv show ?thesis by blast
qed

text \<open>
  C40: The destructor of a service that was used in any way returns, provided only that
  \<open>io_service::run\<close> returns after \<open>stop\<close>: every thread is stopped before it is joined, none is
  joined twice, and no thread, endpoint or session is left.
\<close>

theorem destructor_joins_every_thread:
  assumes "service_reach vt resolve lo alive owner sv" and "run_ends True"
  shows "\<exists>sv' h. netService_destroy run_ends sv (pool_objects (m_ioPool sv)) = Some (Inr (sv', h)) \<and>
    m_nets sv' = [] \<and> m_netIo (m_ioPool sv') = [] \<and> \<not> hasOnline (m_ioPool sv') \<and> (\<forall>i. h i = None)"
  using netService_destroy_ok [where run_ends = run_ends, OF assms(2) service_reach_ios [OF assms(1)]]
  by (simp add: pool_stop_def hasOnline_def)

theorem destructor_joins_every_thread_witness:
  "\<exists>sv sv' h. netService False 2 = Inr (sv :: net_block net_service) \<and>
     netService_destroy (\<lambda>stopped. stopped) sv (pool_objects (m_ioPool sv)) = Some (Inr (sv', h)) \<and>
     m_netIo (m_ioPool sv) = [0, 1] \<and> m_netIo (m_ioPool sv') = [] \<and> h 0 = None"
proof -
  obtain sv :: "net_block net_service" where sv: "netService False 2 = Inr sv" "m_netIo (m_ioPool sv) = [0, 1]"
    using ioObjectPool_ok [of 2 False] by (auto simp: netService_def upt_rec)
  have "service_reach netBlock_vt' (\<lambda>_. None) (\<lambda>_. ListenOk) (\<lambda>_. True) (\<lambda>_. []) sv" for netBlock_vt'
    by (rule service_reach.Start [OF sv(1)]) simp
  from destructor_joins_every_thread [where run_ends = "\<lambda>stopped. stopped", OF this TrueI] sv show ?thesis by blast
qed

end
